(* ===== verification/Prelude.thy ===== *)
theory Prelude
  imports Main "HOL-Library.Word"
begin

text \<open>
  What the component theories share: the names of the C integer types, the result type
  of code that can panic or block, byte buffers (\<open>memmove\<close> into and out of an array) and
  the little-endian view of a byte buffer as an array of \<open>uint\<close> or \<open>ushort\<close>.
  The generic facts are declared \<open>[simp]\<close> where they always simplify; the ones with side
  conditions are collected in \<open>buf_simps\<close>.
\<close>

unbundle bit_operations_syntax

named_theorems buf_simps \<open>reading a byte buffer that has been written\<close>

section \<open>Types and results\<close>

type_synonym u8 = "8 word"
type_synonym u16 = "16 word"
type_synonym u32 = "32 word"
type_synonym u64 = "64 word"

text \<open>
  The kernel's ways of not returning: \<open>panic(msg)\<close>; a sleep lock that is already held (the
  caller would sleep); a use the C standard leaves undefined.
\<close>

datatype kerr = Panic string | Blocked | Undefined string

type_synonym 'a res = "kerr + 'a"

text \<open>Sequencing: the rest of the function runs when the first part returns.\<close>

definition bindE :: "'a res \<Rightarrow> ('a \<Rightarrow> 'b res) \<Rightarrow> 'b res" where
  "bindE m f = (case m of Inl e \<Rightarrow> Inl e | Inr x \<Rightarrow> f x)"

section \<open>Byte buffers\<close>

text \<open>\<open>chunk off n xs\<close>: the \<open>n\<close> elements from index \<open>off\<close>. \<open>blit off ys xs\<close>: \<open>xs\<close> after
  \<open>memmove(xs + off, ys, length ys)\<close>.\<close>

definition chunk :: "nat \<Rightarrow> nat \<Rightarrow> 'a list \<Rightarrow> 'a list" where
  "chunk off n xs = take n (drop off xs)"

definition blit :: "nat \<Rightarrow> 'a list \<Rightarrow> 'a list \<Rightarrow> 'a list" where
  "blit off ys xs = take off xs @ ys @ drop (off + length ys) xs"

text \<open>The little-endian bytes of a \<open>ushort\<close> and of a \<open>uint\<close>, and back.\<close>

definition le16 :: "u16 \<Rightarrow> u8 list" where
  "le16 w = [ucast w, ucast (drop_bit 8 w)]"

definition of_le16 :: "u8 list \<Rightarrow> u16" where
  "of_le16 bs = ucast (bs ! 0) OR push_bit 8 (ucast (bs ! 1))"

definition le32 :: "u32 \<Rightarrow> u8 list" where
  "le32 w = [ucast w, ucast (drop_bit 8 w), ucast (drop_bit 16 w), ucast (drop_bit 24 w)]"

definition of_le32 :: "u8 list \<Rightarrow> u32" where
  "of_le32 bs = ucast (bs ! 0) OR push_bit 8 (ucast (bs ! 1))
     OR push_bit 16 (ucast (bs ! 2)) OR push_bit 24 (ucast (bs ! 3))"

text \<open>\<open>((uint*)data)[i]\<close> as a value and as the target of an assignment.\<close>

definition get32 :: "u8 list \<Rightarrow> nat \<Rightarrow> u32" where
  "get32 data i = of_le32 (chunk (4 * i) 4 data)"

definition put32 :: "u8 list \<Rightarrow> nat \<Rightarrow> u32 \<Rightarrow> u8 list" where
  "put32 data i v = blit (4 * i) (le32 v) data"

section \<open>First match in a table\<close>

text \<open>The index of the first element that satisfies \<open>P\<close>: what the kernel's scans for a free entry compute.\<close>

primrec find_idx :: "('a \<Rightarrow> bool) \<Rightarrow> 'a list \<Rightarrow> nat option" where
  "find_idx P [] = None"
| "find_idx P (x # xs) = (if P x then Some 0 else map_option Suc (find_idx P xs))"

section \<open>Facts\<close>

lemma find_idx_None: "find_idx P xs = None \<longleftrightarrow> (\<forall>x \<in> set xs. \<not> P x)"
  by (induction xs) auto

lemma find_idx_Some:
  "find_idx P xs = Some i \<longleftrightarrow> i < length xs \<and> P (xs ! i) \<and> (\<forall>j < i. \<not> P (xs ! j))"
proof (induction xs arbitrary: i)
  case Nil
  then show ?case by simp
next
  case (Cons x xs)
  then show ?case
    by (cases i) (auto simp: nth_Cons' less_Suc_eq_0_disj)
qed

lemma bindE_Inr [simp]: "bindE (Inr x) f = f x"
  by (simp add: bindE_def)

lemma bindE_Inl [simp]: "bindE (Inl e) f = Inl e"
  by (simp add: bindE_def)

lemma bindE_eq_Inr: "bindE m f = Inr y \<longleftrightarrow> (\<exists>x. m = Inr x \<and> f x = Inr y)"
  by (cases m) simp_all

lemma bindE_eq_Inl: "bindE m f = Inl e \<longleftrightarrow> m = Inl e \<or> (\<exists>x. m = Inr x \<and> f x = Inl e)"
  by (cases m) simp_all

lemma bindE_assoc: "bindE (bindE m f) g = bindE m (\<lambda>x. bindE (f x) g)"
  by (cases m) simp_all

lemma unat_u32: "unat (w :: u32) < 4294967296"
  using unsigned_less [of w, where 'a = nat] by simp

lemma add32_wraps:
  fixes a b :: u32
  shows "a + b < a \<longleftrightarrow> 2 ^ 32 \<le> unat a + unat b"
    and "unat a + unat b < 2 ^ 32 \<Longrightarrow> unat (a + b) = unat a + unat b"
proof -
  show "unat a + unat b < 2 ^ 32 \<Longrightarrow> unat (a + b) = unat a + unat b"
    by (simp add: unat_word_ariths)
  show "a + b < a \<longleftrightarrow> 2 ^ 32 \<le> unat a + unat b"
  proof (cases "unat a + unat b < 2 ^ 32")
    case False
    then have "unat (a + b) = unat a + unat b - 2 ^ 32"
      using unat_u32 [of a] unat_u32 [of b] by (simp add: unat_word_ariths mod_if)
    with False unat_u32 [of b] have "unat (a + b) < unat a" by simp
    with False show ?thesis by (simp add: word_less_nat_alt)
  qed (simp add: unat_word_ariths word_less_nat_alt)
qed

lemma length_chunk [simp]: "length (chunk off n xs) = min n (length xs - off)"
  by (simp add: chunk_def min.commute)

lemma nth_chunk [buf_simps]: "i < n \<Longrightarrow> off + i < length xs \<Longrightarrow> chunk off n xs ! i = xs ! (off + i)"
  by (simp add: chunk_def)

lemma chunk_all [simp]: "n = length xs \<Longrightarrow> chunk 0 n xs = xs"
  by (simp add: chunk_def)

lemma length_blit [buf_simps]: "off + length ys \<le> length xs \<Longrightarrow> length (blit off ys xs) = length xs"
  by (simp add: blit_def)

lemma nth_blit [buf_simps]:
  assumes "off + length ys \<le> length xs" and "i < length xs"
  shows "blit off ys xs ! i = (if off \<le> i \<and> i < off + length ys then ys ! (i - off) else xs ! i)"
  using assms by (auto simp: blit_def nth_append)

lemma chunk_blit_same [buf_simps]:
  "off \<le> length xs \<Longrightarrow> n = length ys \<Longrightarrow> chunk off n (blit off ys xs) = ys"
  by (simp add: chunk_def blit_def)

lemma chunk_blit_other [buf_simps]:
  assumes "off + length ys \<le> length xs" and "i + n \<le> off \<or> off + length ys \<le> i"
  shows "chunk i n (blit off ys xs) = chunk i n xs"
  using assms
  by (intro nth_equalityI) (auto simp: nth_blit length_blit nth_chunk)

lemma chunk_blit_within:
  assumes "off + length ys \<le> length xs" and "off \<le> i" and "i + n \<le> off + length ys"
  shows "chunk i n (blit off ys xs) = chunk (i - off) n ys"
  using assms
  by (intro nth_equalityI) (auto simp: nth_blit length_blit nth_chunk)

lemma blit_zero_all [simp]: "length ys = length xs \<Longrightarrow> blit 0 ys xs = ys"
  by (simp add: blit_def)

lemma chunk_replicate: "off + n \<le> m \<Longrightarrow> chunk off n (replicate m x) = replicate n x"
  by (simp add: chunk_def)

lemma chunk_append_left: "off + n \<le> length xs \<Longrightarrow> chunk off n (xs @ ys) = chunk off n xs"
  by (simp add: chunk_def)

lemma chunk_append_right: "length xs \<le> off \<Longrightarrow> chunk off n (xs @ ys) = chunk (off - length xs) n ys"
  by (simp add: chunk_def)

lemma chunk_chunk: "i + m \<le> n \<Longrightarrow> chunk i m (chunk off n xs) = chunk (off + i) m xs"
  by (simp add: chunk_def take_drop add.commute min_def)

lemma length_le16 [simp]: "length (le16 w) = 2"
  by (simp add: le16_def)

lemma length_le32 [simp]: "length (le32 w) = 4"
  by (simp add: le32_def)

lemma of_le16_le16 [simp]: "of_le16 (le16 w) = w"
  by (rule bit_word_eqI) (auto simp: of_le16_def le16_def bit_simps)

lemma of_le32_le32 [simp]: "of_le32 (le32 w) = w"
proof (rule bit_word_eqI)
  fix n
  assume "n < LENGTH(32)"
  then consider "n < 8" | "8 \<le> n" "n < 16" | "16 \<le> n" "n < 24" | "24 \<le> n" "n < 32"
    by fastforce
  then show "bit (of_le32 (le32 w)) n = bit w n"
    by cases (auto simp: of_le32_def le32_def bit_simps)
qed

lemma of_le32_zero: "of_le32 (replicate 4 0) = 0"
  by (simp add: of_le32_def)

lemma of_le16_zero: "of_le16 (replicate 2 0) = 0"
  by (simp add: of_le16_def)

lemma length_put32 [buf_simps]: "4 * i + 4 \<le> length data \<Longrightarrow> length (put32 data i v) = length data"
  by (simp add: put32_def length_blit)

lemma get32_put32 [buf_simps]:
  assumes "4 * i + 4 \<le> length data"
  shows "get32 (put32 data i v) j = (if i = j then v else get32 data j)"
proof (cases "i = j")
  case True
  with assms show ?thesis by (simp add: get32_def put32_def chunk_blit_same)
next
  case False
  then have "4 * j + 4 \<le> 4 * i \<or> 4 * i + 4 \<le> 4 * j" by linarith
  with assms False show ?thesis by (simp add: get32_def put32_def chunk_blit_other)
qed

lemma get32_zeros [buf_simps]: "4 * i + 4 \<le> n \<Longrightarrow> get32 (replicate n 0) i = 0"
  by (simp add: get32_def chunk_replicate of_le32_zero)

lemma chunk_concat_le32:
  "i < length ws \<Longrightarrow> chunk (4 * i) 4 (concat (map le32 ws)) = le32 (ws ! i)"
proof (induction ws arbitrary: i)
  case Nil
  then show ?case by simp
next
  case (Cons w ws)
  show ?case
  proof (cases i)
    case 0
    then show ?thesis by (simp add: chunk_append_left)
  next
    case (Suc k)
    with Cons show ?thesis by (simp add: chunk_append_right)
  qed
qed

lemma length_concat_le32 [simp]: "length (concat (map le32 ws)) = 4 * length ws"
  by (induction ws) simp_all

end
