(* ===== verification/Fs_Layout.thy ===== *)
theory Fs_Layout
  imports Prelude
begin

text \<open>
  The on-disk format of the file system (\<open>HW4/source/fs.h\<close>), the in-memory inode
  (\<open>HW4/source/file.h\<close>) and the interface of the buffer cache.

  The buffer cache and the log (\<open>bio.c\<close>, \<open>log.c\<close>) are not part of the sources: they are the
  parameter \<open>'d bio\<close> of the model, over an unspecified type \<open>'d\<close> of cache-and-log states.
  \<open>bread B d dev b\<close> is the content of the buffer that \<open>bread(dev, b)\<close> returns,
  \<open>log_write B d dev b data\<close> the state after the buffer's data has become \<open>data\<close>, been handed to
  \<open>log_write\<close> and released, and \<open>bscribble B d dev b data\<close> the state after a buffer was
  changed to \<open>data\<close> and released without \<open>log_write\<close>. The documented behaviour the file
  system relies on is the predicate \<open>bio_ok\<close>: buffers hold \<open>BSIZE\<close> bytes, a logged
  buffer is what the next \<open>bread\<close> of that block returns, and no write touches another block.
  A scribbled block reads afterwards as the changed or as the old data: the cache may or may
  not have dropped the buffer.
\<close>

section \<open>Constants and structures\<close>

abbreviation BSIZE :: nat where "BSIZE \<equiv> 1024"
abbreviation NDIRECT :: nat where "NDIRECT \<equiv> 11"
abbreviation NINDIRECT :: nat where "NINDIRECT \<equiv> 256"
abbreviation DNINDIRECT :: nat where "DNINDIRECT \<equiv> 65536"
abbreviation MAXFILE :: nat where "MAXFILE \<equiv> 65803"
abbreviation IPB :: nat where "IPB \<equiv> 16"
abbreviation BPB :: nat where "BPB \<equiv> 8192"
abbreviation DIRSIZ :: nat where "DIRSIZ \<equiv> 14"
abbreviation FSMAGIC :: u32 where "FSMAGIC \<equiv> 0x10203040"
abbreviation ROOTINO :: u32 where "ROOTINO \<equiv> 1"

record superblock =
  sb_magic :: u32
  sb_size :: u32
  sb_nblocks :: u32
  sb_ninodes :: u32
  sb_nlog :: u32
  sb_logstart :: u32
  sb_inodestart :: u32
  sb_bmapstart :: u32

record dinode =
  d_type :: u16
  d_major :: u16
  d_minor :: u16
  d_nlink :: u16
  d_size :: u32
  d_addrs :: "u32 list"

record dirent =
  de_inum :: u16
  de_name :: "u8 list"

text \<open>The in-memory inode. Its sleep lock is the pid of the process holding it, if any.\<close>

record inode =
  i_dev :: u32
  i_inum :: u32
  i_ref :: int
  i_lock :: "int option"
  i_valid :: bool
  i_type :: u16
  i_major :: u16
  i_minor :: u16
  i_nlink :: u16
  i_size :: u32
  i_addrs :: "u32 list"

definition IBLOCK :: "u32 \<Rightarrow> superblock \<Rightarrow> u32" where
  "IBLOCK i sb = i div 16 + sb_inodestart sb"

definition BBLOCK :: "u32 \<Rightarrow> superblock \<Rightarrow> u32" where
  "BBLOCK b sb = b div 8192 + sb_bmapstart sb"

text \<open>The byte layout of the structures: \<open>struct dinode\<close> is 64 bytes, \<open>struct dirent\<close> 16, and
  \<open>struct superblock\<close> eight \<open>uint\<close>s.\<close>

definition enc_dinode :: "dinode \<Rightarrow> u8 list" where
  "enc_dinode di = le16 (d_type di) @ le16 (d_major di) @ le16 (d_minor di) @ le16 (d_nlink di)
     @ le32 (d_size di) @ concat (map le32 (d_addrs di))"

definition dec_dinode :: "u8 list \<Rightarrow> dinode" where
  "dec_dinode bs = \<lparr>d_type = of_le16 (chunk 0 2 bs), d_major = of_le16 (chunk 2 2 bs),
     d_minor = of_le16 (chunk 4 2 bs), d_nlink = of_le16 (chunk 6 2 bs),
     d_size = of_le32 (chunk 8 4 bs),
     d_addrs = map (\<lambda>i. of_le32 (chunk (12 + 4 * i) 4 bs)) [0..<NDIRECT + 2]\<rparr>"

definition enc_dirent :: "dirent \<Rightarrow> u8 list" where
  "enc_dirent de = le16 (de_inum de) @ de_name de"

definition dec_dirent :: "u8 list \<Rightarrow> dirent" where
  "dec_dirent bs = \<lparr>de_inum = of_le16 (chunk 0 2 bs), de_name = chunk 2 DIRSIZ bs\<rparr>"

definition dec_superblock :: "u8 list \<Rightarrow> superblock" where
  "dec_superblock bs = \<lparr>sb_magic = get32 bs 0, sb_size = get32 bs 1, sb_nblocks = get32 bs 2,
     sb_ninodes = get32 bs 3, sb_nlog = get32 bs 4, sb_logstart = get32 bs 5,
     sb_inodestart = get32 bs 6, sb_bmapstart = get32 bs 7\<rparr>"

text \<open>\<open>((struct dinode*)data)[k]\<close> read and written.\<close>

definition get_dinode :: "u8 list \<Rightarrow> nat \<Rightarrow> dinode" where
  "get_dinode data k = dec_dinode (chunk (64 * k) 64 data)"

definition put_dinode :: "u8 list \<Rightarrow> nat \<Rightarrow> dinode \<Rightarrow> u8 list" where
  "put_dinode data k di = blit (64 * k) (enc_dinode di) data"

section \<open>The buffer cache\<close>

record 'd bio =
  bread :: "'d \<Rightarrow> u32 \<Rightarrow> u32 \<Rightarrow> u8 list"
  log_write :: "'d \<Rightarrow> u32 \<Rightarrow> u32 \<Rightarrow> u8 list \<Rightarrow> 'd"
  bscribble :: "'d \<Rightarrow> u32 \<Rightarrow> u32 \<Rightarrow> u8 list \<Rightarrow> 'd"

definition bio_ok :: "'d bio \<Rightarrow> bool" where
  "bio_ok B \<longleftrightarrow>
     (\<forall>d dev b. length (bread B d dev b) = BSIZE) \<and>
     (\<forall>d dev b x dev' b'. length x = BSIZE \<longrightarrow>
        bread B (log_write B d dev b x) dev' b' =
          (if dev' = dev \<and> b' = b then x else bread B d dev' b')) \<and>
     (\<forall>d dev b x dev' b'. (dev', b') \<noteq> (dev, b) \<longrightarrow>
        bread B (bscribble B d dev b x) dev' b' = bread B d dev' b') \<and>
     (\<forall>d dev b x. length x = BSIZE \<longrightarrow> bread B (bscribble B d dev b x) dev b \<in> {x, bread B d dev b})"

text \<open>A cache that keeps every block in a function: the instance the witnesses run on.\<close>

definition ram_bio :: "(u32 \<Rightarrow> u32 \<Rightarrow> u8 list) bio" where
  "ram_bio = \<lparr>bread = (\<lambda>d dev b. take BSIZE (d dev b @ replicate BSIZE 0)),
     log_write = (\<lambda>d dev b x. d(dev := (d dev)(b := x))),
     bscribble = (\<lambda>d dev b x. d(dev := (d dev)(b := x)))\<rparr>"

text \<open>A small disk for the witnesses: 64 blocks, 16 inodes in block 2, the map in block 3, and a
  file, inode 1, whose first block is block 4 and whose (empty) indirect block is block 5.\<close>

definition ex_sb :: superblock where
  "ex_sb = \<lparr>sb_magic = FSMAGIC, sb_size = 64, sb_nblocks = 60, sb_ninodes = 16, sb_nlog = 0,
     sb_logstart = 2, sb_inodestart = 2, sb_bmapstart = 3\<rparr>"

definition ex_disk :: "u32 \<Rightarrow> u32 \<Rightarrow> u8 list" where
  "ex_disk = (\<lambda>dev b. if b = 3 then [63] else if b = 4 then [104, 101, 108, 108, 111] else [])"

definition ex_addrs :: "u32 list" where
  "ex_addrs = [4, 0, 0, 0, 0, 0, 0, 0, 0, 0, 0, 5, 0]"

definition ex_ip :: inode where
  "ex_ip = \<lparr>i_dev = 1, i_inum = 1, i_ref = 1, i_lock = Some 7, i_valid = True, i_type = 2,
     i_major = 0, i_minor = 0, i_nlink = 1, i_size = 5, i_addrs = ex_addrs\<rparr>"

section \<open>Facts\<close>

lemma bio_okD:
  assumes "bio_ok B"
  shows length_bread: "length (bread B d dev b) = BSIZE"
    and bread_log_write: "length x = BSIZE \<Longrightarrow>
      bread B (log_write B d dev b x) dev' b' =
        (if dev' = dev \<and> b' = b then x else bread B d dev' b')"
    and bread_bscribble: "dev' \<noteq> dev \<or> b' \<noteq> b \<Longrightarrow>
      bread B (bscribble B d dev b x) dev' b' = bread B d dev' b'"
    and bread_scribbled: "length x = BSIZE \<Longrightarrow>
      bread B (bscribble B d dev b x) dev b = x \<or> bread B (bscribble B d dev b x) dev b = bread B d dev b"
  using assms unfolding bio_ok_def by blast+

lemma ram_bio_ok: "bio_ok ram_bio"
  by (auto simp: bio_ok_def ram_bio_def)

lemma length_enc_dinode: "length (d_addrs di) = 13 \<Longrightarrow> length (enc_dinode di) = 64"
  by (simp add: enc_dinode_def)

lemma length_d_addrs_dec [simp]: "length (d_addrs (dec_dinode bs)) = 13"
  by (simp add: dec_dinode_def)

lemma length_d_addrs_get [simp]: "length (d_addrs (get_dinode data k)) = 13"
  by (simp add: get_dinode_def)

lemma dec_enc_dinode_aux:
  assumes "length (d_addrs di) = 13"
  shows "dec_dinode (enc_dinode di) = di"
proof -
  have "map (\<lambda>i. of_le32 (chunk (12 + 4 * i) 4 (enc_dinode di))) [0..<13] = d_addrs di"
  proof (rule nth_equalityI)
    fix i
    assume "i < length (map (\<lambda>i. of_le32 (chunk (12 + 4 * i) 4 (enc_dinode di))) [0..<13])"
    then have i: "i < 13" by simp
    have "chunk (12 + 4 * i) 4 (enc_dinode di) = chunk (4 * i) 4 (concat (map le32 (d_addrs di)))"
      by (simp add: enc_dinode_def chunk_append_right)
    with i assms show
      "map (\<lambda>i. of_le32 (chunk (12 + 4 * i) 4 (enc_dinode di))) [0..<13] ! i = d_addrs di ! i"
      by (simp add: chunk_concat_le32 del: upt_Suc)
  qed (simp add: assms)
  then show ?thesis
    by (simp add: dec_dinode_def enc_dinode_def chunk_append_right chunk_append_left)
qed

lemma dec_enc_dirent_aux:
  "length (de_name de) = DIRSIZ \<Longrightarrow> dec_dirent (enc_dirent de) = de"
  by (simp add: dec_dirent_def enc_dirent_def chunk_append_right chunk_append_left)

lemma get_put_dinode [buf_simps]:
  assumes "length (d_addrs di) = 13" and "64 * k + 64 \<le> length data"
  shows "get_dinode (put_dinode data k di) j = (if j = k then di else get_dinode data j)"
proof (cases "j = k")
  case True
  with assms show ?thesis
    by (simp add: get_dinode_def put_dinode_def chunk_blit_same length_enc_dinode dec_enc_dinode_aux)
next
  case False
  then have "64 * j + 64 \<le> 64 * k \<or> 64 * k + 64 \<le> 64 * j" by linarith
  with assms False show ?thesis
    by (simp add: get_dinode_def put_dinode_def chunk_blit_other length_enc_dinode)
qed

lemma length_put_dinode [buf_simps]:
  "length (d_addrs di) = 13 \<Longrightarrow> 64 * k + 64 \<le> length data \<Longrightarrow>
     length (put_dinode data k di) = length data"
  by (simp add: put_dinode_def length_blit length_enc_dinode)

lemma BBLOCK_eq_iff: "BBLOCK a sb = BBLOCK b sb \<longleftrightarrow> unat a div BPB = unat b div BPB"
proof -
  have "BBLOCK a sb = BBLOCK b sb \<longleftrightarrow> a div 8192 = b div 8192"
    by (simp add: BBLOCK_def)
  then show ?thesis by (simp add: word_unat_eq_iff [of "a div 8192"] unat_div)
qed

section \<open>Properties\<close>

text \<open>Storing a \<open>struct dinode\<close> at index \<open>k\<close> of an inode block and reading index \<open>j\<close> back gives the
  stored inode for \<open>j = k\<close> and the old one otherwise: the 64-byte layout loses nothing and the
  slots of a block do not overlap.\<close>

theorem dinode_slot_roundtrip:
  assumes "length (d_addrs di) = NDIRECT + 2" and "k < IPB" and "length data = BSIZE"
  shows "get_dinode (put_dinode data k di) j = (if j = k then di else get_dinode data j) \<and>
     length (put_dinode data k di) = BSIZE"
  using assms by (simp add: get_put_dinode length_put_dinode)

theorem dinode_slot_roundtrip_witness:
  "get_dinode (put_dinode (replicate BSIZE 0) 3
     \<lparr>d_type = 2, d_major = 0, d_minor = 0, d_nlink = 1, d_size = 5, d_addrs = ex_addrs\<rparr>) 3 =
   \<lparr>d_type = 2, d_major = 0, d_minor = 0, d_nlink = 1, d_size = 5, d_addrs = ex_addrs\<rparr>"
  using dinode_slot_roundtrip [of "\<lparr>d_type = 2, d_major = 0, d_minor = 0, d_nlink = 1, d_size = 5, d_addrs = ex_addrs\<rparr>"
      3 "replicate BSIZE 0" 3]
  by (simp add: ex_addrs_def)

text \<open>The 16 bytes of a directory entry determine it: decoding what was encoded gives the
  entry back.\<close>

theorem dirent_roundtrip:
  assumes "length (de_name de) = DIRSIZ"
  shows "dec_dirent (enc_dirent de) = de \<and> length (enc_dirent de) = 16"
  using assms dec_enc_dirent_aux by (simp add: enc_dirent_def)

theorem dirent_roundtrip_witness:
  "dec_dirent (enc_dirent \<lparr>de_inum = 9, de_name = [46, 46] @ replicate 12 0\<rparr>) =
     \<lparr>de_inum = 9, de_name = [46, 46] @ replicate 12 0\<rparr>"
  using dirent_roundtrip [of "\<lparr>de_inum = 9, de_name = [46, 46] @ replicate 12 0\<rparr>"] by simp

end
