(* ===== verification/Fs_Balloc.thy ===== *)
theory Fs_Balloc
  imports Fs_Layout
begin

text \<open>
  The block layer of \<open>HW4/source/fs.c\<close>: \<open>readsb\<close>, \<open>bzero\<close>, \<open>balloc\<close>, \<open>bfree\<close>.
  The abstract view of the free map is the set \<open>used_blocks\<close> of block numbers whose bit is set.
  The locale \<open>block_allocator\<close> states what the rest of the file system relies on: allocation
  hands out a zeroed block that was not in use, freeing takes a block in use back, and
  neither changes the content of any other block outside the free map. It is interpreted on
  \<open>balloc\<close> and \<open>bfree\<close> themselves.
\<close>

section \<open>Definitions\<close>

definition readsb :: "'d bio \<Rightarrow> u32 \<Rightarrow> 'd \<Rightarrow> superblock" where
  "readsb B dev d = dec_superblock (bread B d dev 1)"

definition bzero :: "'d bio \<Rightarrow> u32 \<Rightarrow> u32 \<Rightarrow> 'd \<Rightarrow> 'd" where
  "bzero B dev bno d = log_write B d dev bno (blit 0 (replicate BSIZE 0) (bread B d dev bno))"

text \<open>\<open>data[bi/8] & (1 << (bi % 8))\<close>, and the two assignments that set and clear that bit.\<close>

definition bit_of :: "u8 list \<Rightarrow> nat \<Rightarrow> bool" where
  "bit_of data bi \<longleftrightarrow> data ! (bi div 8) AND push_bit (bi mod 8) 1 \<noteq> 0"

definition set_bit_of :: "u8 list \<Rightarrow> nat \<Rightarrow> u8 list" where
  "set_bit_of data bi = data[bi div 8 := data ! (bi div 8) OR push_bit (bi mod 8) 1]"

definition clear_bit_of :: "u8 list \<Rightarrow> nat \<Rightarrow> u8 list" where
  "clear_bit_of data bi = data[bi div 8 := data ! (bi div 8) AND NOT (push_bit (bi mod 8) 1)]"

text \<open>The inner loop of \<open>balloc\<close>: the first clear bit from \<open>bi\<close> on, in one block of the map.\<close>

function balloc_scan :: "u8 list \<Rightarrow> nat \<Rightarrow> nat \<Rightarrow> nat \<Rightarrow> nat option" where
  "balloc_scan data b sz bi =
     (if bi < BPB \<and> b + bi < sz
      then if \<not> bit_of data bi then Some bi else balloc_scan data b sz (bi + 1)
      else None)"
  by pat_completeness auto
termination
  by (relation "measure (\<lambda>(data, b, sz, bi). BPB - bi)") auto

declare balloc_scan.simps [simp del]

text \<open>The outer loop of \<open>balloc\<close>, from block \<open>b\<close> on.\<close>

function balloc_from :: "'d bio \<Rightarrow> superblock \<Rightarrow> u32 \<Rightarrow> nat \<Rightarrow> 'd \<Rightarrow> u32 \<times> 'd" where
  "balloc_from B sb dev b d =
     (if b < unat (sb_size sb)
      then let data = bread B d dev (BBLOCK (of_nat b) sb) in
        case balloc_scan data b (unat (sb_size sb)) 0 of
          Some bi \<Rightarrow>
            let d1 = log_write B d dev (BBLOCK (of_nat b) sb) (set_bit_of data bi);
                d2 = bzero B dev (of_nat (b + bi)) d1
            in (of_nat (b + bi), d2)
        | None \<Rightarrow> balloc_from B sb dev (b + BPB) d
      else (0, d))"
  by pat_completeness auto
termination
  by (relation "measure (\<lambda>(B, sb, dev, b, d). unat (sb_size sb) - b)") auto

declare balloc_from.simps [simp del]

definition balloc :: "'d bio \<Rightarrow> superblock \<Rightarrow> u32 \<Rightarrow> 'd \<Rightarrow> u32 \<times> 'd" where
  "balloc B sb dev d = balloc_from B sb dev 0 d"

definition bfree :: "'d bio \<Rightarrow> superblock \<Rightarrow> u32 \<Rightarrow> u32 \<Rightarrow> 'd \<Rightarrow> 'd res" where
  "bfree B sb dev b d =
     (let data = bread B d dev (BBLOCK b sb); bi = unat b mod BPB in
      if \<not> bit_of data bi then Inl (Panic ''freeing free block'')
      else Inr (log_write B d dev (BBLOCK b sb) (clear_bit_of data bi)))"

text \<open>The loops of \<open>itrunc\<close> free the entries of an array that are not 0.\<close>

fun free_nonzero :: "(u32 \<Rightarrow> 's \<Rightarrow> 's res) \<Rightarrow> u32 list \<Rightarrow> 's \<Rightarrow> 's res" where
  "free_nonzero free [] s = Inr s"
| "free_nonzero free (a # as) s =
     (if a \<noteq> 0 then bindE (free a s) (free_nonzero free as) else free_nonzero free as s)"

section \<open>The abstract free map and its invariant\<close>

definition block_used :: "'d bio \<Rightarrow> superblock \<Rightarrow> u32 \<Rightarrow> 'd \<Rightarrow> u32 \<Rightarrow> bool" where
  "block_used B sb dev d b \<longleftrightarrow> bit_of (bread B d dev (BBLOCK b sb)) (unat b mod BPB)"

definition used_blocks :: "'d bio \<Rightarrow> superblock \<Rightarrow> u32 \<Rightarrow> 'd \<Rightarrow> u32 set" where
  "used_blocks B sb dev d = {b. b < sb_size sb \<and> block_used B sb dev d b}"

definition bitmap_blocks :: "superblock \<Rightarrow> u32 set" where
  "bitmap_blocks sb = {BBLOCK b sb | b. b < sb_size sb}"

definition inode_blocks :: "superblock \<Rightarrow> u32 set" where
  "inode_blocks sb = {IBLOCK i sb | i. i < sb_ninodes sb}"

definition meta_blocks :: "superblock \<Rightarrow> u32 set" where
  "meta_blocks sb = insert 0 (bitmap_blocks sb \<union> inode_blocks sb)"

text \<open>The file system \<open>mkfs\<close> lays out: the boot block, the inode blocks and the blocks of the
  free map are marked in use, and the map does not overlap the inodes.\<close>

definition fs_ok :: "'d bio \<Rightarrow> superblock \<Rightarrow> u32 \<Rightarrow> 'd \<Rightarrow> bool" where
  "fs_ok B sb dev d \<longleftrightarrow> bio_ok B \<and> meta_blocks sb \<subseteq> used_blocks B sb dev d \<and>
     bitmap_blocks sb \<inter> inode_blocks sb = {}"

section \<open>Bits\<close>

lemma bit_of_iff: "bit_of data bi \<longleftrightarrow> bit (data ! (bi div 8)) (bi mod 8)"
  by (simp only: bit_of_def bit_iff_and_push_bit_not_eq_0)

lemma length_set_bit_of [simp]: "length (set_bit_of data bi) = length data"
  by (simp add: set_bit_of_def)

lemma length_clear_bit_of [simp]: "length (clear_bit_of data bi) = length data"
  by (simp add: clear_bit_of_def)

lemma div_mod_8_eq: "(i::nat) div 8 = j div 8 \<Longrightarrow> i mod 8 = j mod 8 \<Longrightarrow> i = j"
  by (metis div_mult_mod_eq)

lemma bit_of_set_bit_of:
  "bi div 8 < length data \<Longrightarrow> bit_of (set_bit_of data bi) j \<longleftrightarrow> j = bi \<or> bit_of data j"
  by (auto simp: bit_of_iff set_bit_of_def nth_list_update bit_simps dest: div_mod_8_eq)

lemma bit_of_clear_bit_of:
  "bi div 8 < length data \<Longrightarrow> bit_of (clear_bit_of data bi) j \<longleftrightarrow> j \<noteq> bi \<and> bit_of data j"
  by (auto simp: bit_of_iff clear_bit_of_def nth_list_update bit_simps dest: div_mod_8_eq)

section \<open>The scan\<close>

lemma balloc_scan_Some:
  "balloc_scan data b sz bi = Some k \<Longrightarrow>
     bi \<le> k \<and> k < BPB \<and> b + k < sz \<and> \<not> bit_of data k \<and> (\<forall>j. bi \<le> j \<longrightarrow> j < k \<longrightarrow> bit_of data j)"
proof (induction data b sz bi rule: balloc_scan.induct)
  case (1 data b sz bi)
  show ?case
  proof (cases "bi < BPB \<and> b + bi < sz \<and> bit_of data bi")
    case True
    with 1 have "bi + 1 \<le> k \<and> k < BPB \<and> b + k < sz \<and> \<not> bit_of data k \<and>
        (\<forall>j. bi + 1 \<le> j \<longrightarrow> j < k \<longrightarrow> bit_of data j)"
      by (simp add: balloc_scan.simps [of data b sz bi])
    with True show ?thesis by (metis Suc_eq_plus1 Suc_leD Suc_leI le_neq_implies_less)
  next
    case False
    with 1 show ?thesis
      by (auto simp: balloc_scan.simps [of data b sz bi] split: if_splits)
  qed
qed

lemma balloc_scan_None:
  "balloc_scan data b sz bi = None \<Longrightarrow> bi \<le> j \<Longrightarrow> j < BPB \<Longrightarrow> b + j < sz \<Longrightarrow> bit_of data j"
proof (induction data b sz bi rule: balloc_scan.induct)
  case (1 data b sz bi)
  from "1.prems" have guard: "bi < BPB \<and> b + bi < sz" by linarith
  with "1.prems" have bit: "bit_of data bi"
    and rest: "balloc_scan data b sz (bi + 1) = None"
    by (auto simp: balloc_scan.simps [of data b sz bi] split: if_splits)
  show ?case
  proof (cases "j = bi")
    case False
    with "1.prems" have "bi + 1 \<le> j" by simp
    with guard bit rest "1.prems" "1.IH" show ?thesis by blast
  qed (simp add: bit)
qed

section \<open>The effect of balloc and bfree on the map\<close>

lemma bread_bzero:
  assumes "bio_ok B"
  shows "bread B (bzero B dev r d) dev x = (if x = r then replicate BSIZE 0 else bread B d dev x)"
  using assms by (simp add: bzero_def bread_log_write length_bread)

lemma fs_ok_used: "fs_ok B sb dev d \<Longrightarrow> b < sb_size sb \<Longrightarrow> BBLOCK b sb \<in> used_blocks B sb dev d"
  by (auto simp: fs_ok_def meta_blocks_def bitmap_blocks_def)

lemma used_blocks_zero: "fs_ok B sb dev d \<Longrightarrow> 0 \<in> used_blocks B sb dev d"
  by (auto simp: fs_ok_def meta_blocks_def)

lemma same_map_bit:
  "BBLOCK x sb = BBLOCK r sb \<Longrightarrow> unat x mod BPB = unat r mod BPB \<Longrightarrow> x = r"
  by (metis BBLOCK_eq_iff div_mult_mod_eq word_unat_eq_iff)

text \<open>Writing a block outside the map does not change the map.\<close>

lemma used_blocks_cong:
  assumes "\<And>x. x \<in> bitmap_blocks sb \<Longrightarrow> bread B d' dev x = bread B d dev x"
  shows "used_blocks B sb dev d' = used_blocks B sb dev d"
proof -
  have "bread B d' dev (BBLOCK b sb) = bread B d dev (BBLOCK b sb)" if "b < sb_size sb" for b
    using that by (intro assms) (auto simp: bitmap_blocks_def)
  then show ?thesis by (auto simp: used_blocks_def block_used_def)
qed

lemma used_log_write:
  assumes "bio_ok B" and "x \<notin> bitmap_blocks sb" and "length data = BSIZE"
  shows "used_blocks B sb dev (log_write B d dev x data) = used_blocks B sb dev d"
  by (rule used_blocks_cong) (use assms in \<open>auto simp: bread_log_write\<close>)

lemma fs_ok_log_write:
  assumes "fs_ok B sb dev d" and "x \<notin> bitmap_blocks sb" and "length data = BSIZE"
  shows "fs_ok B sb dev (log_write B d dev x data)"
  using assms used_log_write unfolding fs_ok_def by metis

text \<open>What a successful \<open>balloc\<close> of block \<open>r\<close> leaves behind.\<close>

definition alloc_state :: "'d bio \<Rightarrow> superblock \<Rightarrow> u32 \<Rightarrow> u32 \<Rightarrow> 'd \<Rightarrow> 'd" where
  "alloc_state B sb dev r d = bzero B dev r (log_write B d dev (BBLOCK r sb)
     (set_bit_of (bread B d dev (BBLOCK r sb)) (unat r mod BPB)))"

lemma bread_alloc_state:
  assumes "bio_ok B"
  shows "bread B (alloc_state B sb dev r d) dev x =
     (if x = r then replicate BSIZE 0
      else if x = BBLOCK r sb then set_bit_of (bread B d dev x) (unat r mod BPB)
      else bread B d dev x)"
  using assms by (auto simp: alloc_state_def bread_bzero bread_log_write length_bread)

lemma used_alloc_state:
  assumes ok: "fs_ok B sb dev d" and fresh: "r \<notin> used_blocks B sb dev d" and r: "r < sb_size sb"
  shows "used_blocks B sb dev (alloc_state B sb dev r d) = insert r (used_blocks B sb dev d)"
proof -
  have bio: "bio_ok B" using ok by (simp add: fs_ok_def)
  have "block_used B sb dev (alloc_state B sb dev r d) x \<longleftrightarrow> x = r \<or> block_used B sb dev d x"
    if x: "x < sb_size sb" for x
  proof -
    have ne: "BBLOCK x sb \<noteq> r" using fs_ok_used [OF ok x] fresh by auto
    have len: "unat r mod BPB div 8 < length (bread B d dev y)" for y
      by (simp add: length_bread [OF bio] div_less_iff_less_mult)
    show ?thesis
      using ne by (auto simp: block_used_def bread_alloc_state [OF bio] bit_of_set_bit_of [OF len]
          dest: same_map_bit)
  qed
  with r show ?thesis by (auto simp: used_blocks_def)
qed

text \<open>The \<open>BPB\<close> blocks from an aligned \<open>b\<close> on have their bits in one block of the map, in order.\<close>

lemma map_window:
  assumes al: "b mod BPB = 0" and k: "k < BPB" "b + k < unat (sb_size sb)"
  shows unat_window: "unat (of_nat (b + k) :: u32) = b + k"
    and BBLOCK_window: "BBLOCK (of_nat (b + k)) sb = BBLOCK (of_nat b) sb"
    and mod_window: "(b + k) mod BPB = k"
    and used_window: "block_used B sb dev d (of_nat (b + k)) \<longleftrightarrow>
      bit_of (bread B d dev (BBLOCK (of_nat b) sb)) k"
proof -
  obtain q where q: "b = BPB * q" using al by (auto simp: mod_eq_0_iff_dvd dvd_def)
  have wrap: "unat (of_nat j :: u32) = j" if "j < unat (sb_size sb)" for j
    using that unat_u32 [of "sb_size sb"] by (simp add: unat_of_nat)
  show u: "unat (of_nat (b + k) :: u32) = b + k" by (rule wrap) (rule k)
  have "(b + k) div BPB = b div BPB" using k(1) by (simp add: q)
  with u wrap [of b] k show blk: "BBLOCK (of_nat (b + k)) sb = BBLOCK (of_nat b) sb"
    by (simp only: BBLOCK_eq_iff)
  show m: "(b + k) mod BPB = k" using k(1) by (simp add: q)
  show "block_used B sb dev d (of_nat (b + k)) \<longleftrightarrow> bit_of (bread B d dev (BBLOCK (of_nat b) sb)) k"
    using u blk m by (simp only: block_used_def)
qed

lemma window_cover:
  assumes al: "b mod BPB = 0" and k: "k \<le> BPB"
    and bits: "\<And>j. j < k \<Longrightarrow> b + j < unat (sb_size sb) \<Longrightarrow>
      bit_of (bread B d dev (BBLOCK (of_nat b) sb)) j"
    and below: "\<And>x. x < sb_size sb \<Longrightarrow> unat x < b \<Longrightarrow> x \<in> used_blocks B sb dev d"
    and x: "x < sb_size sb" "unat x < b + k"
  shows "x \<in> used_blocks B sb dev d"
proof (cases "unat x < b")
  case True
  with below x show ?thesis by blast
next
  case False
  define j where "j = unat x - b"
  have j: "x = of_nat (b + j)" "j < k" "b + j < unat (sb_size sb)"
    using False x by (auto simp: j_def word_less_nat_alt)
  with used_window [OF al, of j sb B dev d] bits [of j] k x(1) show ?thesis
    by (simp add: used_blocks_def)
qed

lemma balloc_from_cases:
  assumes ok: "fs_ok B sb dev d" and al: "b mod BPB = 0"
    and below: "\<And>x. x < sb_size sb \<Longrightarrow> unat x < b \<Longrightarrow> x \<in> used_blocks B sb dev d"
  shows "(balloc_from B sb dev b d = (0, d) \<and> used_blocks B sb dev d = {x. x < sb_size sb}) \<or>
    (\<exists>r. r < sb_size sb \<and> r \<notin> used_blocks B sb dev d \<and>
       (\<forall>x < r. x \<in> used_blocks B sb dev d) \<and>
       balloc_from B sb dev b d = (r, alloc_state B sb dev r d))"
  using assms
proof (induction B sb dev b d rule: balloc_from.induct)
  case (1 B sb dev b d)
  let ?sz = "unat (sb_size sb)" and ?data = "bread B d dev (BBLOCK (of_nat b) sb)"
  note unfold = balloc_from.simps [of B sb dev b d]
  note cover = window_cover [OF "1.prems"(2) _ _ "1.prems"(3)]
  consider (stop) "\<not> b < ?sz" | (hit) k where "b < ?sz" "balloc_scan ?data b ?sz 0 = Some k"
    | (miss) "b < ?sz" "balloc_scan ?data b ?sz 0 = None"
    by fastforce
  then show ?case
  proof cases
    case stop
    then show ?thesis
      using "1.prems"(3) by (auto simp: unfold used_blocks_def word_less_nat_alt)
  next
    case hit
    let ?r = "of_nat (b + k) :: u32"
    from balloc_scan_Some [OF hit(2)] have k: "k < BPB" "b + k < ?sz" "\<not> bit_of ?data k"
      and before: "\<And>j. j < k \<Longrightarrow> b + j < ?sz \<Longrightarrow> bit_of ?data j" by auto
    note win = map_window [OF "1.prems"(2) k(1,2)]
    have r: "?r < sb_size sb" using k(2) win(1) by (simp only: word_less_nat_alt)
    moreover have "?r \<notin> used_blocks B sb dev d"
      using win(4) [of B dev d] k(3) by (simp add: used_blocks_def del: of_nat_add)
    moreover have "\<forall>x < ?r. x \<in> used_blocks B sb dev d"
    proof (intro allI impI)
      fix x assume "x < ?r"
      with win(1) have x: "unat x < b + k" by (simp only: word_less_nat_alt)
      from \<open>x < ?r\<close> r have "x < sb_size sb" by (rule order.strict_trans)
      with cover [where k = k and x = x] x before k(1) show "x \<in> used_blocks B sb dev d" by simp
    qed
    moreover have "balloc_from B sb dev b d = (?r, alloc_state B sb dev ?r d)"
      using hit win by (simp add: unfold Let_def alloc_state_def del: of_nat_add)
    ultimately show ?thesis by blast
  next
    case miss
    have "x \<in> used_blocks B sb dev d" if "x < sb_size sb" "unat x < b + BPB" for x
      using cover [where k = BPB and x = x] balloc_scan_None [OF miss(2)] that by simp
    with miss "1.prems" "1.IH" [OF miss(1) refl miss(2)]
    show ?thesis by (simp add: unfold)
  qed
qed

lemma balloc_cases:
  assumes "fs_ok B sb dev d"
  obtains (full) "balloc B sb dev d = (0, d)" "used_blocks B sb dev d = {x. x < sb_size sb}"
  | (got) r where "r < sb_size sb" "r \<notin> used_blocks B sb dev d" "r \<noteq> 0"
      "\<forall>x < r. x \<in> used_blocks B sb dev d" "balloc B sb dev d = (r, alloc_state B sb dev r d)"
  using balloc_from_cases [OF assms, of 0] used_blocks_zero [OF assms] unfolding balloc_def by auto

section \<open>The allocator's contract\<close>

locale block_allocator =
  fixes alloc :: "'s \<Rightarrow> u32 \<times> 's"
    and free :: "u32 \<Rightarrow> 's \<Rightarrow> 's res"
    and content :: "'s \<Rightarrow> u32 \<Rightarrow> u8 list"
    and used :: "'s \<Rightarrow> u32 set"
    and blocks :: "u32 set"
    and fmap :: "u32 set"
    and meta :: "u32 set"
    and inv :: "'s \<Rightarrow> bool"
  assumes zero_meta: "0 \<in> meta"
    and meta_used: "inv s \<Longrightarrow> meta \<subseteq> used s"
    and used_in: "inv s \<Longrightarrow> used s \<subseteq> blocks"
    and alloc_fresh: "inv s \<Longrightarrow> alloc s = (r, s') \<Longrightarrow> r \<noteq> 0 \<Longrightarrow> r \<in> blocks - used s"
    and alloc_used: "inv s \<Longrightarrow> alloc s = (r, s') \<Longrightarrow> r \<noteq> 0 \<Longrightarrow> used s' = insert r (used s)"
    and alloc_zeroed: "inv s \<Longrightarrow> alloc s = (r, s') \<Longrightarrow> r \<noteq> 0 \<Longrightarrow> content s' r = replicate BSIZE 0"
    and alloc_frame: "inv s \<Longrightarrow> alloc s = (r, s') \<Longrightarrow> r \<noteq> 0 \<Longrightarrow> x \<noteq> r \<Longrightarrow> x \<notin> fmap \<Longrightarrow>
      content s' x = content s x"
    and alloc_inv: "inv s \<Longrightarrow> alloc s = (r, s') \<Longrightarrow> inv s'"
    and alloc_full: "inv s \<Longrightarrow> alloc s = (0, s') \<Longrightarrow> s' = s \<and> used s = blocks"
    and free_used: "inv s \<Longrightarrow> b \<in> used s \<Longrightarrow> b \<notin> meta \<Longrightarrow>
      \<exists>s'. free b s = Inr s' \<and> inv s' \<and> used s' = used s - {b} \<and>
        (\<forall>x. x \<notin> fmap \<longrightarrow> content s' x = content s x)"
    and free_free: "inv s \<Longrightarrow> b \<in> blocks - used s \<Longrightarrow> free b s = Inl (Panic ''freeing free block'')"
begin

lemma alloc_free_roundtrip:
  assumes "inv s" and "alloc s = (r, s1)" and "r \<noteq> 0"
  shows "\<exists>s2. free r s1 = Inr s2 \<and> inv s2 \<and> used s2 = used s"
proof -
  have fresh: "r \<notin> used s" and u: "used s1 = insert r (used s)" and i: "inv s1"
    using alloc_fresh alloc_used alloc_inv assms by blast+
  then have "r \<notin> meta" using meta_used [OF assms(1)] by blast
  with free_used [OF i, of r] u fresh show ?thesis by auto
qed

lemma alloc_keeps:
  assumes "inv s" and "alloc s = (r, s')" and "r \<noteq> 0" and "x \<in> used s" and "x \<notin> fmap"
  shows "content s' x = content s x"
  using alloc_fresh [OF assms(1-3)] assms(4)
  by (intro alloc_frame [OF assms(1-3) _ assms(5)]) blast

lemma alloc_full_iff:
  assumes "inv s" and "alloc s = (r, s')"
  shows "r = 0 \<longleftrightarrow> used s = blocks"
  using alloc_full [OF assms(1)] alloc_fresh [OF assms] assms(2) by blast

text \<open>Freeing an array of distinct blocks in use: no panic, and exactly those blocks become free.\<close>

lemma free_nonzero_ok:
  assumes "inv s" and "distinct (filter (\<lambda>a. a \<noteq> 0) as)" and "set as - {0} \<subseteq> used s - meta"
  shows "\<exists>s'. free_nonzero free as s = Inr s' \<and> inv s' \<and> used s' = used s - (set as - {0}) \<and>
     (\<forall>x. x \<notin> fmap \<longrightarrow> content s' x = content s x)"
  using assms
proof (induction as arbitrary: s)
  case Nil
  then show ?case by simp
next
  case (Cons a as)
  show ?case
  proof (cases "a = 0")
    case True
    with Cons.prems Cons.IH [of s] show ?thesis by auto
  next
    case False
    with Cons.prems obtain s1 where s1: "free a s = Inr s1" "inv s1" "used s1 = used s - {a}"
        "\<forall>x. x \<notin> fmap \<longrightarrow> content s1 x = content s x"
      using free_used [of s a] by auto
    from Cons.prems False s1(3) have "set as - {0} \<subseteq> used s1 - meta" by auto
    with Cons.IH [OF s1(2)] Cons.prems(2) False obtain s2 where
      "free_nonzero free as s1 = Inr s2" "inv s2" "used s2 = used s1 - (set as - {0})"
      "\<forall>x. x \<notin> fmap \<longrightarrow> content s2 x = content s1 x" by auto
    with s1 False show ?thesis by auto
  qed
qed

end

lemma balloc_gotD:
  assumes "fs_ok B sb dev d" and "balloc B sb dev d = (r, d')" and "r \<noteq> 0"
  shows "r < sb_size sb" and "r \<notin> used_blocks B sb dev d" and "d' = alloc_state B sb dev r d"
    and "\<forall>x < r. x \<in> used_blocks B sb dev d"
  using balloc_cases [OF assms(1)] assms(2,3) by (metis prod.inject)+

lemma balloc_fullD:
  assumes "fs_ok B sb dev d" and "balloc B sb dev d = (0, d')"
  shows "d' = d" and "used_blocks B sb dev d = {x. x < sb_size sb}"
  using balloc_cases [OF assms(1)] assms(2) by (metis prod.inject)+

lemma fs_ok_alloc_state:
  assumes ok: "fs_ok B sb dev d" and "r \<notin> used_blocks B sb dev d" and "r < sb_size sb"
  shows "fs_ok B sb dev (alloc_state B sb dev r d)"
  using ok used_alloc_state [OF assms] unfolding fs_ok_def by auto

lemma bfree_used:
  assumes ok: "fs_ok B sb dev d" and b: "b \<in> used_blocks B sb dev d" "b \<notin> meta_blocks sb"
  shows "\<exists>d'. bfree B sb dev b d = Inr d' \<and> fs_ok B sb dev d' \<and>
    used_blocks B sb dev d' = used_blocks B sb dev d - {b} \<and>
    (\<forall>x. x \<notin> bitmap_blocks sb \<longrightarrow> bread B d' dev x = bread B d dev x)"
proof -
  have bio: "bio_ok B" using ok by (simp add: fs_ok_def)
  let ?d' = "log_write B d dev (BBLOCK b sb)
    (clear_bit_of (bread B d dev (BBLOCK b sb)) (unat b mod BPB))"
  have free: "bfree B sb dev b d = Inr ?d'"
    using b(1) by (simp add: bfree_def used_blocks_def block_used_def Let_def)
  have rd: "bread B ?d' dev x = (if x = BBLOCK b sb
      then clear_bit_of (bread B d dev x) (unat b mod BPB) else bread B d dev x)" for x
    by (simp add: bread_log_write [OF bio] length_bread [OF bio])
  have len: "unat b mod BPB div 8 < length (bread B d dev y)" for y
    by (simp add: length_bread [OF bio] div_less_iff_less_mult)
  have used: "used_blocks B sb dev ?d' = used_blocks B sb dev d - {b}"
    by (auto simp: used_blocks_def block_used_def rd bit_of_clear_bit_of [OF len] dest: same_map_bit)
  moreover have "fs_ok B sb dev ?d'"
    using ok b(2) used unfolding fs_ok_def by auto
  moreover have "bread B ?d' dev x = bread B d dev x" if "x \<notin> bitmap_blocks sb" for x
    using that b(1) by (auto simp: rd bitmap_blocks_def used_blocks_def)
  ultimately show ?thesis using free by blast
qed

interpretation fsb: block_allocator "balloc B sb dev" "bfree B sb dev" "\<lambda>d. bread B d dev"
  "used_blocks B sb dev" "{b. b < sb_size sb}" "bitmap_blocks sb" "meta_blocks sb" "fs_ok B sb dev"
  for B :: "'d bio" and sb dev
proof
  show "0 \<in> meta_blocks sb" by (simp add: meta_blocks_def)
next
  fix d assume "fs_ok B sb dev d"
  then show "meta_blocks sb \<subseteq> used_blocks B sb dev d" by (simp add: fs_ok_def)
next
  fix d show "used_blocks B sb dev d \<subseteq> {b. b < sb_size sb}" by (auto simp: used_blocks_def)
next
  fix d r d' assume "fs_ok B sb dev d" "balloc B sb dev d = (r, d')" "r \<noteq> 0"
  then show "r \<in> {b. b < sb_size sb} - used_blocks B sb dev d" by (auto dest: balloc_gotD)
next
  fix d r d' assume ok: "fs_ok B sb dev d" and "balloc B sb dev d = (r, d')" "r \<noteq> 0"
  then show "used_blocks B sb dev d' = insert r (used_blocks B sb dev d)"
    using balloc_gotD used_alloc_state by metis
next
  fix d r d' assume ok: "fs_ok B sb dev d" and "balloc B sb dev d = (r, d')" "r \<noteq> 0"
  then show "bread B d' dev r = replicate BSIZE 0"
    using balloc_gotD(3) [of B sb dev d r d'] by (auto simp: bread_alloc_state fs_ok_def)
next
  fix d r d' x
  assume ok: "fs_ok B sb dev d" and "balloc B sb dev d = (r, d')" "r \<noteq> 0" "x \<noteq> r" "x \<notin> bitmap_blocks sb"
  then show "bread B d' dev x = bread B d dev x"
    using balloc_gotD(1,3) [of B sb dev d r d'] by (auto simp: bread_alloc_state fs_ok_def bitmap_blocks_def)
next
  fix d r d' assume ok: "fs_ok B sb dev d" and "balloc B sb dev d = (r, d')"
  then show "fs_ok B sb dev d'" 
    using balloc_gotD(1-3) [of B sb dev d r d'] balloc_fullD(1) [of B sb dev d d']
    by (cases "r = 0") (auto simp: fs_ok_alloc_state)
next
  fix d d' assume ok: "fs_ok B sb dev d" and "balloc B sb dev d = (0, d')"
  then show "d' = d \<and> used_blocks B sb dev d = {b. b < sb_size sb}" by (auto dest: balloc_fullD)
next
  fix d b assume "fs_ok B sb dev d" "b \<in> used_blocks B sb dev d" "b \<notin> meta_blocks sb"
  then show "\<exists>d'. bfree B sb dev b d = Inr d' \<and> fs_ok B sb dev d' \<and>
    used_blocks B sb dev d' = used_blocks B sb dev d - {b} \<and>
    (\<forall>x. x \<notin> bitmap_blocks sb \<longrightarrow> bread B d' dev x = bread B d dev x)" by (rule bfree_used)
next
  fix d b assume "fs_ok B sb dev d" "b \<in> {b. b < sb_size sb} - used_blocks B sb dev d"
  then show "bfree B sb dev b d = Inl (Panic ''freeing free block'')"
    by (auto simp: bfree_def used_blocks_def block_used_def)
qed

section \<open>The example disk\<close>

lemma ex_sizes [simp]: "sb_size ex_sb = 64" "sb_ninodes ex_sb = 16"
  by (simp_all add: ex_sb_def)

lemma ex_BBLOCK: "b < 64 \<Longrightarrow> BBLOCK b ex_sb = 3"
  using word_unat_eq_iff [of "b div 8192" 0] by (simp add: BBLOCK_def ex_sb_def word_less_nat_alt unat_div)

lemma ex_IBLOCK: "i < 16 \<Longrightarrow> IBLOCK i ex_sb = 2"
  using word_unat_eq_iff [of "i div 16" 0] by (simp add: IBLOCK_def ex_sb_def word_less_nat_alt unat_div)

lemma ex_bitmap_blocks: "bitmap_blocks ex_sb = {3}"
  by (auto simp: bitmap_blocks_def ex_BBLOCK intro!: exI [of _ 0])

lemma ex_inode_blocks: "inode_blocks ex_sb = {2}"
  by (auto simp: inode_blocks_def ex_IBLOCK intro!: exI [of _ 0])

lemma ex_bread: "bread ram_bio ex_disk dev b =
    (if b = 3 then 63 # replicate 1023 0 else if b = 4 then [104, 101, 108, 108, 111] @ replicate 1019 0
     else replicate 1024 0)"
  by (simp add: ram_bio_def ex_disk_def)

lemma ex_used: "used_blocks ram_bio ex_sb 1 ex_disk = {0, 1, 2, 3, 4, 5}"
proof -
  have b: "bit_of (63 # replicate 1023 0) n \<longleftrightarrow> n < 6" if "n < 64" for n
  proof (cases "n < 8")
    case True
    then have "n \<in> {0, 1, 2, 3, 4, 5, 6, 7}" by auto
    then show ?thesis by (auto simp: bit_of_iff bit_numeral_rec)
  next
    case False
    with that have "0 < n div 8" "n div 8 < 1024" by auto
    with False show ?thesis by (simp add: bit_of_iff nth_Cons')
  qed
  have "used_blocks ram_bio ex_sb 1 ex_disk = {w. unat w < 6}"
    by (auto simp: used_blocks_def block_used_def ex_BBLOCK ex_bread b word_less_nat_alt)
  also have "\<dots> = {0, 1, 2, 3, 4, 5}"
    by (auto simp: word_unat_eq_iff)
  finally show ?thesis .
qed

lemma ex_fs_ok: "fs_ok ram_bio ex_sb 1 ex_disk"
  by (simp add: fs_ok_def ram_bio_ok meta_blocks_def ex_bitmap_blocks ex_inode_blocks ex_used)

section \<open>Properties\<close>

text \<open>C3: \<open>balloc\<close> returns 0 exactly when every block of the disk is in use, and then changes
  nothing; otherwise it returns the smallest free block, marks it (and nothing else) in use, fills it with
  zeros, leaves every other block outside the free map as it was, and keeps the invariant.\<close>

theorem balloc_correct:
  assumes "fs_ok B sb dev d" and "balloc B sb dev d = (r, d')"
  shows "if used_blocks B sb dev d = {b. b < sb_size sb} then r = 0 \<and> d' = d
     else r \<noteq> 0 \<and> r < sb_size sb \<and> r \<notin> used_blocks B sb dev d \<and> (\<forall>x < r. x \<in> used_blocks B sb dev d) \<and>
       used_blocks B sb dev d' = insert r (used_blocks B sb dev d) \<and>
       bread B d' dev r = replicate BSIZE 0 \<and>
       (\<forall>x. x \<noteq> r \<longrightarrow> x \<notin> bitmap_blocks sb \<longrightarrow> bread B d' dev x = bread B d dev x) \<and>
       fs_ok B sb dev d'"
proof (cases "r = 0")
  case True
  with assms balloc_fullD [OF assms(1), of d'] show ?thesis by simp
next
  case False
  moreover have "used_blocks B sb dev d \<noteq> {b. b < sb_size sb}"
    using False fsb.alloc_full_iff [OF assms] by blast
  ultimately show ?thesis
    using balloc_gotD [OF assms False] fsb.alloc_used [OF assms False] fsb.alloc_zeroed [OF assms False]
      fsb.alloc_frame [OF assms False] fsb.alloc_inv [OF assms]
    by simp
qed

theorem balloc_correct_witness:
  "fst (balloc ram_bio ex_sb 1 ex_disk) \<noteq> 0 \<and>
   used_blocks ram_bio ex_sb 1 (snd (balloc ram_bio ex_sb 1 ex_disk)) =
     insert (fst (balloc ram_bio ex_sb 1 ex_disk)) {0, 1, 2, 3, 4, 5}"
proof -
  have "(10 :: u32) \<in> {b. b < sb_size ex_sb} - {0, 1, 2, 3, 4, 5}" by simp
  then have "used_blocks ram_bio ex_sb 1 ex_disk \<noteq> {b. b < sb_size ex_sb}" unfolding ex_used by blast
  then show ?thesis
    using balloc_correct [OF ex_fs_ok, of "fst (balloc ram_bio ex_sb 1 ex_disk)" "snd (balloc ram_bio ex_sb 1 ex_disk)"]
    by (simp add: ex_used)
qed

text \<open>\<open>bfree\<close> of a block in use (outside the boot, inode and map blocks) returns, makes exactly that
  block free and touches nothing but the map; of a free block it panics.\<close>

theorem bfree_correct:
  assumes "fs_ok B sb dev d" and "b < sb_size sb" and "b \<notin> meta_blocks sb"
  shows "if b \<in> used_blocks B sb dev d
     then \<exists>d'. bfree B sb dev b d = Inr d' \<and> fs_ok B sb dev d' \<and>
       used_blocks B sb dev d' = used_blocks B sb dev d - {b} \<and>
       (\<forall>x. x \<notin> bitmap_blocks sb \<longrightarrow> bread B d' dev x = bread B d dev x)
     else bfree B sb dev b d = Inl (Panic ''freeing free block'')"
  using bfree_used [OF assms(1) _ assms(3)] fsb.free_free [OF assms(1), of b] assms(2) by simp

theorem bfree_correct_witness:
  "\<exists>d'. bfree ram_bio ex_sb 1 4 ex_disk = Inr d' \<and> used_blocks ram_bio ex_sb 1 d' = {0, 1, 2, 3, 5}"
  using bfree_correct [OF ex_fs_ok, of 4]
  by (auto simp: ex_used meta_blocks_def ex_bitmap_blocks ex_inode_blocks)

text \<open>A block that \<open>balloc\<close> handed out can be freed, and the free map is then what it was.\<close>

theorem balloc_bfree_roundtrip:
  assumes "fs_ok B sb dev d" and "balloc B sb dev d = (r, d1)" and "r \<noteq> 0"
  shows "\<exists>d2. bfree B sb dev r d1 = Inr d2 \<and> fs_ok B sb dev d2 \<and>
     used_blocks B sb dev d2 = used_blocks B sb dev d"
  by (rule fsb.alloc_free_roundtrip [OF assms])

theorem balloc_bfree_roundtrip_witness:
  "\<exists>r d1 d2. balloc ram_bio ex_sb 1 ex_disk = (r, d1) \<and> bfree ram_bio ex_sb 1 r d1 = Inr d2 \<and>
     used_blocks ram_bio ex_sb 1 d2 = {0, 1, 2, 3, 4, 5}"
proof -
  obtain r d1 where al: "balloc ram_bio ex_sb 1 ex_disk = (r, d1)" by force
  have "(10 :: u32) \<in> {b. b < sb_size ex_sb} - {0, 1, 2, 3, 4, 5}" by simp
  then have "used_blocks ram_bio ex_sb 1 ex_disk \<noteq> {b. b < sb_size ex_sb}" unfolding ex_used by blast
  then have "r \<noteq> 0" using fsb.alloc_full_iff [OF ex_fs_ok al] by blast
  from balloc_bfree_roundtrip [OF ex_fs_ok al this] al show ?thesis by (auto simp: ex_used)
qed

end
