(* ===== verification/Fs_Bmap.thy ===== *)
theory Fs_Bmap
  imports Fs_Balloc
begin

text \<open>
  Inode content: \<open>bmap\<close> of \<open>HW4/source/fs.c\<close> with the doubly-indirect block the assignment
  adds. An inode is passed and returned by value; the callers store it back into the inode
  table.

  The blocks of a file form a tree of depth at most three. A \<open>slot\<close> is a position in it and
  \<open>slot_addr\<close> the block number stored there (0 when the position or one above it is empty).
  \<open>tree_ok\<close> is the ownership invariant: every block of the tree is in use, lies outside the
  boot, inode and map blocks, and stands in one slot only. \<open>file_block n\<close> is the content of the
  \<open>n\<close>th block of the file, zeros where no block is allocated.
\<close>

section \<open>Definitions\<close>

text \<open>The step \<open>bmap\<close> makes at each level: take the block number in \<open>ip->addrs[k]\<close>, or
  in entry \<open>j\<close> of block \<open>blk\<close>, allocating a block and recording it when it is 0.\<close>

definition get_or_alloc_addr :: "'d bio \<Rightarrow> superblock \<Rightarrow> nat \<Rightarrow> inode \<Rightarrow> 'd \<Rightarrow> u32 \<times> inode \<times> 'd" where
  "get_or_alloc_addr B sb k ip d =
     (let addr = i_addrs ip ! k in
      if addr = 0 then
        let (addr, d) = balloc B sb (i_dev ip) d in
        if addr = 0 then (0, ip, d)
        else (addr, ip\<lparr>i_addrs := (i_addrs ip)[k := addr]\<rparr>, d)
      else (addr, ip, d))"

definition get_or_alloc_entry :: "'d bio \<Rightarrow> superblock \<Rightarrow> u32 \<Rightarrow> u32 \<Rightarrow> nat \<Rightarrow> 'd \<Rightarrow> u32 \<times> 'd" where
  "get_or_alloc_entry B sb dev blk j d =
     (let a = bread B d dev blk; addr = get32 a j in
      if addr = 0 then
        let (addr, d) = balloc B sb dev d in
        if addr = 0 then (0, d) else (addr, log_write B d dev blk (put32 a j addr))
      else (addr, d))"

definition bmap :: "'d bio \<Rightarrow> superblock \<Rightarrow> inode \<Rightarrow> u32 \<Rightarrow> 'd \<Rightarrow> (u32 \<times> inode \<times> 'd) res" where
  "bmap B sb ip bn d =
     (if bn < 11 then Inr (get_or_alloc_addr B sb (unat bn) ip d)
      else let bn = bn - 11 in
      if bn < 256 then
        let (addr, ip, d) = get_or_alloc_addr B sb NDIRECT ip d in
        if addr = 0 then Inr (0, ip, d)
        else let (addr, d) = get_or_alloc_entry B sb (i_dev ip) addr (unat bn) d in
        Inr (addr, ip, d)
      else let bn = bn - 256 in
      if bn < 65536 then
        let (addr, ip, d) = get_or_alloc_addr B sb (NDIRECT + 1) ip d in
        if addr = 0 then Inr (0, ip, d)
        else let (indirect_addr, d) = get_or_alloc_entry B sb (i_dev ip) addr (unat (bn div 256)) d in
        if indirect_addr = 0 then Inr (0, ip, d)
        else let (addr, d) = get_or_alloc_entry B sb (i_dev ip) indirect_addr (unat (bn mod 256)) d in
        Inr (addr, ip, d)
      else Inl (Panic ''bmap: out of range''))"

section \<open>The block tree\<close>

datatype slot = Direct nat | Ind | IndE nat | Dbl | DblE nat | DblEE nat nat

fun vslot :: "slot \<Rightarrow> bool" where
  "vslot (Direct i) = (i < NDIRECT)"
| "vslot Ind = True"
| "vslot (IndE j) = (j < NINDIRECT)"
| "vslot Dbl = True"
| "vslot (DblE i) = (i < NINDIRECT)"
| "vslot (DblEE i j) = (i < NINDIRECT \<and> j < NINDIRECT)"

definition entry_at :: "(u32 \<Rightarrow> u8 list) \<Rightarrow> u32 \<Rightarrow> nat \<Rightarrow> u32" where
  "entry_at rd a j = (if a = 0 then 0 else get32 (rd a) j)"

fun slot_addr :: "(u32 \<Rightarrow> u8 list) \<Rightarrow> u32 list \<Rightarrow> slot \<Rightarrow> u32" where
  "slot_addr rd as (Direct i) = as ! i"
| "slot_addr rd as Ind = as ! NDIRECT"
| "slot_addr rd as (IndE j) = entry_at rd (as ! NDIRECT) j"
| "slot_addr rd as Dbl = as ! (NDIRECT + 1)"
| "slot_addr rd as (DblE i) = entry_at rd (as ! (NDIRECT + 1)) i"
| "slot_addr rd as (DblEE i j) = entry_at rd (entry_at rd (as ! (NDIRECT + 1)) i) j"

text \<open>The slot of the \<open>n\<close>th block of the file.\<close>

definition data_slot :: "nat \<Rightarrow> slot" where
  "data_slot n = (if n < NDIRECT then Direct n
     else if n < NDIRECT + NINDIRECT then IndE (n - NDIRECT)
     else DblEE ((n - (NDIRECT + NINDIRECT)) div NINDIRECT) ((n - (NDIRECT + NINDIRECT)) mod NINDIRECT))"

definition file_block :: "(u32 \<Rightarrow> u8 list) \<Rightarrow> u32 list \<Rightarrow> nat \<Rightarrow> u8 list" where
  "file_block rd as n =
     (let a = slot_addr rd as (data_slot n) in if a = 0 then replicate BSIZE 0 else rd a)"

definition tree_blocks :: "(u32 \<Rightarrow> u8 list) \<Rightarrow> u32 list \<Rightarrow> u32 set" where
  "tree_blocks rd as = {slot_addr rd as t | t. vslot t} - {0}"

definition tree_ok :: "u32 set \<Rightarrow> (u32 \<Rightarrow> u8 list) \<Rightarrow> u32 list \<Rightarrow> bool" where
  "tree_ok U rd as \<longleftrightarrow> length as = NDIRECT + 2 \<and> tree_blocks rd as \<subseteq> U \<and>
     (\<forall>s t. vslot s \<longrightarrow> vslot t \<longrightarrow> slot_addr rd as s \<noteq> 0 \<longrightarrow>
        slot_addr rd as s = slot_addr rd as t \<longrightarrow> s = t)"

text \<open>The blocks that files may own, and the invariant of one file on the disk.\<close>

definition file_area :: "'d bio \<Rightarrow> superblock \<Rightarrow> u32 \<Rightarrow> 'd \<Rightarrow> u32 set" where
  "file_area B sb dev d = used_blocks B sb dev d - meta_blocks sb"

definition file_ok :: "'d bio \<Rightarrow> superblock \<Rightarrow> u32 \<Rightarrow> u32 list \<Rightarrow> 'd \<Rightarrow> bool" where
  "file_ok B sb dev as d \<longleftrightarrow> fs_ok B sb dev d \<and>
     tree_ok (file_area B sb dev d) (bread B d dev) as"

text \<open>\<open>grows S as d as' d'\<close>: the tree has at most gained fresh blocks in the slots \<open>S\<close>; no
  block moved, the content of the file is the same, and so is every block of anything else.\<close>

definition grows :: "'d bio \<Rightarrow> superblock \<Rightarrow> u32 \<Rightarrow> slot set \<Rightarrow> u32 list \<Rightarrow> 'd \<Rightarrow> u32 list \<Rightarrow> 'd \<Rightarrow> bool" where
  "grows B sb dev S as d as' d' \<longleftrightarrow>
     file_ok B sb dev as' d' \<and> used_blocks B sb dev d \<subseteq> used_blocks B sb dev d' \<and>
     (\<forall>t. vslot t \<longrightarrow> slot_addr (bread B d' dev) as' t = slot_addr (bread B d dev) as t \<or>
        t \<in> S \<and> slot_addr (bread B d dev) as t = 0 \<and>
        slot_addr (bread B d' dev) as' t \<notin> used_blocks B sb dev d) \<and>
     (\<forall>n < MAXFILE. file_block (bread B d' dev) as' n = file_block (bread B d dev) as n) \<and>
     (\<forall>x \<in> used_blocks B sb dev d. x \<notin> bitmap_blocks sb \<longrightarrow> x \<notin> tree_blocks (bread B d dev) as \<longrightarrow>
        bread B d' dev x = bread B d dev x)"

text \<open>The slots on the way to the \<open>n\<close>th block: the ones \<open>bmap\<close> may fill.\<close>

definition slot_path :: "nat \<Rightarrow> slot set" where
  "slot_path n = insert (data_slot n) (if n < NDIRECT then {}
     else if n < NDIRECT + NINDIRECT then {Ind}
     else {Dbl, DblE ((n - (NDIRECT + NINDIRECT)) div NINDIRECT)})"

definition root_slot :: "nat \<Rightarrow> slot" where
  "root_slot k = (if k < NDIRECT then Direct k else if k = NDIRECT then Ind else Dbl)"

fun child :: "slot \<Rightarrow> nat \<Rightarrow> slot" where
  "child Ind j = IndE j"
| "child Dbl j = DblE j"
| "child (DblE i) j = DblEE i j"
| "child s j = s"

fun interior :: "slot \<Rightarrow> bool" where
  "interior Ind = True"
| "interior Dbl = True"
| "interior (DblE i) = (i < NINDIRECT)"
| "interior s = False"

section \<open>Filling one slot\<close>

lemma vslot_data_slot: "n < MAXFILE \<Longrightarrow> vslot (data_slot n)"
  by (auto simp: data_slot_def div_less_iff_less_mult)

lemma data_slot_not_interior: "\<not> interior (data_slot n)"
  by (simp add: data_slot_def)

lemma data_slot_inj: "data_slot m = data_slot n \<Longrightarrow> m = n"
  by (auto simp: data_slot_def split: if_splits) (metis div_mult_mod_eq le_add_diff_inverse not_less)

lemma interior_vslot: "interior s \<Longrightarrow> vslot s"
  by (cases s) simp_all

lemma vslot_root: "k < NDIRECT + 2 \<Longrightarrow> vslot (root_slot k)"
  by (simp add: root_slot_def)

lemma slot_addr_root: "k < NDIRECT + 2 \<Longrightarrow> slot_addr rd as (root_slot k) = as ! k"
  by (auto simp: root_slot_def intro!: arg_cong [where f = "(!) as"])

lemma slot_addr_child: "interior s \<Longrightarrow> slot_addr rd as (child s j) = entry_at rd (slot_addr rd as s) j"
  by (cases s) simp_all

lemma vslot_child: "interior s \<Longrightarrow> vslot (child s j) \<longleftrightarrow> j < NINDIRECT"
  by (cases s) simp_all

lemma tree_okD:
  assumes "tree_ok U rd as"
  shows "length as = 13"
    and "vslot t \<Longrightarrow> slot_addr rd as t \<noteq> 0 \<Longrightarrow> slot_addr rd as t \<in> U"
    and "vslot s \<Longrightarrow> vslot t \<Longrightarrow> slot_addr rd as s \<noteq> 0 \<Longrightarrow> slot_addr rd as s = slot_addr rd as t \<Longrightarrow> s = t"
  using assms unfolding tree_ok_def tree_blocks_def by auto

lemma slot_fill_root:
  assumes ok: "tree_ok U rd as" and k: "k < 13" "as ! k = 0" and r: "r \<notin> U" "r \<noteq> 0"
    and rd': "rd' r = replicate BSIZE 0" "\<And>x. x \<in> U \<Longrightarrow> rd' x = rd x" and t: "vslot t"
  shows "slot_addr rd' (as[k := r]) t = (if t = root_slot k then r else slot_addr rd as t)"
proof -
  have len: "length as = 13" using tree_okD(1) [OF ok] .
  have in_U: "\<And>s. vslot s \<Longrightarrow> slot_addr rd as s \<noteq> 0 \<Longrightarrow> rd' (slot_addr rd as s) = rd (slot_addr rd as s)"
    using tree_okD(2) [OF ok] rd'(2) by blast
  have e: "entry_at rd' (slot_addr rd as s) j = entry_at rd (slot_addr rd as s) j" if "vslot s" for s j
    using in_U [OF that] by (simp add: entry_at_def)
  have z: "j < NINDIRECT \<Longrightarrow> entry_at rd' r j = 0" for j
    by (simp add: entry_at_def rd'(1) get32_zeros)
  from k(1) consider "k < 11" | "k = 11" | "k = 12" by linarith
  then show ?thesis
    using t k(2) len r e [of Ind] e [of Dbl] e [of "DblE i" for i]
    by cases (cases t; auto simp: root_slot_def nth_list_update z entry_at_def [of _ 0])+
qed

lemma slot_fill_entry:
  assumes ok: "tree_ok U rd as" and p: "interior p" "slot_addr rd as p = pa" "pa \<noteq> 0"
    and j: "j < NINDIRECT" "get32 (rd pa) j = 0" "length (rd pa) = BSIZE" and r: "r \<notin> U" "r \<noteq> 0"
    and rd': "rd' r = replicate BSIZE 0" "rd' pa = put32 (rd pa) j r"
      "\<And>x. x \<in> U \<Longrightarrow> x \<noteq> pa \<Longrightarrow> rd' x = rd x" and t: "vslot t"
  shows "slot_addr rd' as t = (if t = child p j then r else slot_addr rd as t)"
proof -
  note in_U = tree_okD(2) [OF ok] and inj = tree_okD(3) [OF ok]
  have e: "entry_at rd' (slot_addr rd as s) i =
      (if s = p \<and> i = j then r else entry_at rd (slot_addr rd as s) i)" if "vslot s" for s i
  proof (cases "s = p")
    case True
    with p j rd'(2) show ?thesis by (simp add: entry_at_def get32_put32)
  next
    case False
    then have "slot_addr rd as s \<noteq> pa" using inj [of p s] p interior_vslot [of p] that by auto
    with False rd'(3) in_U [OF that] show ?thesis by (auto simp: entry_at_def)
  qed
  have z: "i < NINDIRECT \<Longrightarrow> entry_at rd' r i = 0" for i
    by (simp add: entry_at_def rd'(1) get32_zeros)
  have z': "entry_at rd (entry_at rd pa j) i = 0" for i
    using p j by (simp add: entry_at_def)
  show ?thesis
    using t p(1,2) e [of Ind] e [of Dbl] e [of "DblE i" for i] z z'
    by (cases t; cases p) auto
qed

section \<open>Growing a file\<close>

lemma grows_refl: "file_ok B sb dev as d \<Longrightarrow> grows B sb dev S as d as d"
  by (simp add: grows_def)

lemma grows_mono: "grows B sb dev S as d as' d' \<Longrightarrow> S \<subseteq> S' \<Longrightarrow> grows B sb dev S' as d as' d'"
  unfolding grows_def by blast

lemma grows_keeps:
  assumes "grows B sb dev S as d as' d'" and "vslot t"
  shows "slot_addr (bread B d dev) as t \<noteq> 0 \<Longrightarrow>
      slot_addr (bread B d' dev) as' t = slot_addr (bread B d dev) as t"
    and "t \<notin> S \<Longrightarrow> slot_addr (bread B d' dev) as' t = slot_addr (bread B d dev) as t"
  using assms unfolding grows_def by auto

lemma grows_tree_blocks:
  assumes "grows B sb dev S as d as' d'"
  shows "tree_blocks (bread B d' dev) as' \<inter> used_blocks B sb dev d \<subseteq> tree_blocks (bread B d dev) as"
  using assms unfolding grows_def tree_blocks_def by fastforce

lemma grows_trans:
  assumes g1: "grows B sb dev S as d as1 d1" and g2: "grows B sb dev T as1 d1 as2 d2"
  shows "grows B sb dev (S \<union> T) as d as2 d2"
  unfolding grows_def
proof (intro conjI allI impI ballI)
  show "file_ok B sb dev as2 d2" using g2 by (simp add: grows_def)
  show "used_blocks B sb dev d \<subseteq> used_blocks B sb dev d2" using g1 g2 unfolding grows_def by blast
next
  fix n :: nat assume "n < MAXFILE"
  with g1 g2 show "file_block (bread B d2 dev) as2 n = file_block (bread B d dev) as n"
    unfolding grows_def by simp
next
  fix t assume t: "vslot t"
  from g1 have sub: "used_blocks B sb dev d \<subseteq> used_blocks B sb dev d1" by (simp add: grows_def)
  from g1 t have "slot_addr (bread B d1 dev) as1 t = slot_addr (bread B d dev) as t \<or>
      t \<in> S \<and> slot_addr (bread B d dev) as t = 0 \<and>
      slot_addr (bread B d1 dev) as1 t \<notin> used_blocks B sb dev d" by (simp add: grows_def)
  moreover from g2 t have "slot_addr (bread B d2 dev) as2 t = slot_addr (bread B d1 dev) as1 t \<or>
      t \<in> T \<and> slot_addr (bread B d1 dev) as1 t = 0 \<and>
      slot_addr (bread B d2 dev) as2 t \<notin> used_blocks B sb dev d1" by (simp add: grows_def)
  ultimately show "slot_addr (bread B d2 dev) as2 t = slot_addr (bread B d dev) as t \<or>
      t \<in> S \<union> T \<and> slot_addr (bread B d dev) as t = 0 \<and>
      slot_addr (bread B d2 dev) as2 t \<notin> used_blocks B sb dev d"
    using sub by auto
next
  fix x assume x: "x \<in> used_blocks B sb dev d" "x \<notin> bitmap_blocks sb"
    "x \<notin> tree_blocks (bread B d dev) as"
  with grows_tree_blocks [OF g1] have "x \<notin> tree_blocks (bread B d1 dev) as1" by blast
  with x g1 g2 show "bread B d2 dev x = bread B d dev x" unfolding grows_def by fastforce
qed

text \<open>A fresh zeroed block \<open>r\<close> put into the empty slot \<open>s\<close>, with writes to no other block in use than
  those of interior slots, \<open>P\<close>.\<close>

lemma grows_fill:
  assumes ok: "file_ok B sb dev as d" and fs': "fs_ok B sb dev d'"
    and used': "used_blocks B sb dev d' = insert r (used_blocks B sb dev d)"
    and r: "r \<notin> used_blocks B sb dev d" "r \<noteq> 0" "bread B d' dev r = replicate BSIZE 0"
    and len: "length as' = NDIRECT + 2" and s: "vslot s" "slot_addr (bread B d dev) as s = 0"
    and addr': "\<And>t. vslot t \<Longrightarrow> slot_addr (bread B d' dev) as' t =
      (if t = s then r else slot_addr (bread B d dev) as t)"
    and P: "P \<subseteq> {slot_addr (bread B d dev) as p | p. interior p} - {0}"
    and frame: "\<And>x. x \<in> used_blocks B sb dev d \<Longrightarrow> x \<notin> bitmap_blocks sb \<Longrightarrow> x \<notin> P \<Longrightarrow>
      bread B d' dev x = bread B d dev x"
  shows "grows B sb dev {s} as d as' d'"
proof -
  have tree: "tree_ok (file_area B sb dev d) (bread B d dev) as" and fs: "fs_ok B sb dev d"
    using ok by (auto simp: file_ok_def)
  have area: "slot_addr (bread B d dev) as t \<in> file_area B sb dev d"
    if "vslot t" "slot_addr (bread B d dev) as t \<noteq> 0" for t
    using tree_okD(2) [OF tree] that .
  have r_meta: "r \<notin> meta_blocks sb" using fs r(1) by (auto simp: fs_ok_def)
  have tree': "tree_ok (file_area B sb dev d') (bread B d' dev) as'"
    unfolding tree_ok_def tree_blocks_def
  proof (intro conjI allI impI subsetI)
    fix x assume "x \<in> {slot_addr (bread B d' dev) as' t | t. vslot t} - {0}"
    with area r_meta show "x \<in> file_area B sb dev d'"
      by (auto simp: addr' file_area_def used' split: if_splits)
  next
    fix t u assume v: "vslot t" "vslot u" and "slot_addr (bread B d' dev) as' t \<noteq> 0"
      "slot_addr (bread B d' dev) as' t = slot_addr (bread B d' dev) as' u"
    then show "t = u"
      using r(1,2) area [OF v(1)] area [OF v(2)] tree_okD(3) [OF tree v]
      by (auto simp: addr' file_area_def split: if_splits)
  qed (use len in simp)
  have block: "file_block (bread B d' dev) as' n = file_block (bread B d dev) as n"
    if n: "n < MAXFILE" for n
  proof -
    let ?a = "slot_addr (bread B d dev) as (data_slot n)"
    have "bread B d' dev ?a = bread B d dev ?a" if nz: "?a \<noteq> 0"
    proof (rule frame)
      show "?a \<in> used_blocks B sb dev d" "?a \<notin> bitmap_blocks sb"
        using area [OF vslot_data_slot [OF n] nz] by (auto simp: file_area_def meta_blocks_def)
      show "?a \<notin> P"
      proof
        assume "?a \<in> P"
        from subsetD [OF P this] obtain p where p: "interior p" "?a = slot_addr (bread B d dev) as p"
          by blast
        with tree_okD(3) [OF tree, of "data_slot n" p] nz vslot_data_slot [OF n] interior_vslot
        have "data_slot n = p" by metis
        with p(1) data_slot_not_interior show False by metis
      qed
    qed
    with s vslot_data_slot [OF n] r show ?thesis by (auto simp: file_block_def Let_def addr')
  qed
  have rest: "bread B d' dev x = bread B d dev x" if "x \<in> used_blocks B sb dev d"
    "x \<notin> bitmap_blocks sb" "x \<notin> tree_blocks (bread B d dev) as" for x
  proof (rule frame [OF that(1,2)])
    show "x \<notin> P" using that(3) P interior_vslot by (fastforce simp: tree_blocks_def)
  qed
  show ?thesis
    unfolding grows_def file_ok_def using fs' tree' block rest s r addr' used' by auto
qed

lemma file_ok_bio: "file_ok B sb dev as d \<Longrightarrow> bio_ok B"
  by (simp add: file_ok_def fs_ok_def)

lemma file_ok_length: "file_ok B sb dev as d \<Longrightarrow> length as = NDIRECT + 2"
  by (simp add: file_ok_def tree_ok_def)

lemma file_areaD:
  assumes "x \<in> file_area B sb dev d"
  shows "x \<in> used_blocks B sb dev d" and "x \<notin> meta_blocks sb" and "x \<notin> bitmap_blocks sb"
  using assms by (auto simp: file_area_def meta_blocks_def)

lemma file_ok_addr:
  assumes "file_ok B sb dev as d" and "vslot t" and "slot_addr (bread B d dev) as t \<noteq> 0"
  shows "slot_addr (bread B d dev) as t \<in> used_blocks B sb dev d"
    and "slot_addr (bread B d dev) as t \<notin> meta_blocks sb"
    and "slot_addr (bread B d dev) as t \<notin> bitmap_blocks sb"
  using assms tree_okD(2) [of "file_area B sb dev d" "bread B d dev" as t]
  by (auto simp: file_ok_def dest: file_areaD)

lemma get_or_alloc_addr_grows:
  assumes ok: "file_ok B sb (i_dev ip) (i_addrs ip) d" and k: "k < NDIRECT + 2"
    and run: "get_or_alloc_addr B sb k ip d = (a, ip', d')"
  shows "grows B sb (i_dev ip) {root_slot k} (i_addrs ip) d (i_addrs ip') d'"
    and "i_addrs ip' ! k = a"
    and "ip' = ip\<lparr>i_addrs := i_addrs ip'\<rparr>"
    and "a = 0 \<Longrightarrow> d' = d \<and> used_blocks B sb (i_dev ip) d = {b. b < sb_size sb}"
proof -
  let ?dev = "i_dev ip" and ?as = "i_addrs ip"
  have fs: "fs_ok B sb ?dev d" and tree: "tree_ok (file_area B sb ?dev d) (bread B d ?dev) ?as"
    and len: "length ?as = 13" using ok file_ok_length [OF ok] by (auto simp: file_ok_def)
  obtain r d1 where al: "balloc B sb ?dev d = (r, d1)" by force
  consider (old) "?as ! k \<noteq> 0" | (full) "?as ! k = 0" "r = 0" | (new) "?as ! k = 0" "r \<noteq> 0" by blast
  then have "grows B sb ?dev {root_slot k} ?as d (i_addrs ip') d' \<and> i_addrs ip' ! k = a \<and>
    ip' = ip\<lparr>i_addrs := i_addrs ip'\<rparr> \<and>
    (a = 0 \<longrightarrow> d' = d \<and> used_blocks B sb ?dev d = {b. b < sb_size sb})"
  proof cases
    case old
    with run ok show ?thesis by (auto simp: get_or_alloc_addr_def grows_refl)
  next
    case full
    with run al ok fsb.alloc_full [OF fs, of d1] show ?thesis
      by (auto simp: get_or_alloc_addr_def grows_refl)
  next
    case new
    have eq: "a = r" "d' = d1" "ip' = ip\<lparr>i_addrs := ?as[k := r]\<rparr>"
      using run al new by (auto simp: get_or_alloc_addr_def)
    note al' = fsb.alloc_fresh [OF fs al new(2)] fsb.alloc_used [OF fs al new(2)]
      fsb.alloc_zeroed [OF fs al new(2)] fsb.alloc_keeps [OF fs al new(2)] fsb.alloc_inv [OF fs al]
    have fresh: "r \<notin> file_area B sb ?dev d" using al'(1) by (simp add: file_area_def)
    have "grows B sb ?dev {root_slot k} ?as d (?as[k := r]) d1"
    proof (rule grows_fill [where P = "{}", OF ok al'(5,2)])
      show "slot_addr (bread B d ?dev) ?as (root_slot k) = 0" using new(1) k by (simp add: slot_addr_root)
      fix t assume "vslot t"
      then show "slot_addr (bread B d1 ?dev) (?as[k := r]) t =
          (if t = root_slot k then r else slot_addr (bread B d ?dev) ?as t)"
        using k by (intro slot_fill_root [where rd' = "bread B d1 ?dev", OF tree _ new(1) fresh new(2) al'(3)] al'(4))
          (auto dest: file_areaD)
    qed (use al' new k len in \<open>auto simp: vslot_root\<close>)
    with eq len k new(2) show ?thesis by simp
  qed
  then show "grows B sb ?dev {root_slot k} ?as d (i_addrs ip') d'" "i_addrs ip' ! k = a"
    "ip' = ip\<lparr>i_addrs := i_addrs ip'\<rparr>"
    "a = 0 \<Longrightarrow> d' = d \<and> used_blocks B sb ?dev d = {b. b < sb_size sb}" by blast+
qed

lemma get_or_alloc_entry_grows:
  assumes ok: "file_ok B sb dev as d" and p: "interior p" "slot_addr (bread B d dev) as p = blk" "blk \<noteq> 0"
    and j: "j < NINDIRECT" and run: "get_or_alloc_entry B sb dev blk j d = (a, d')"
  shows "grows B sb dev {child p j} as d as d'"
    and "slot_addr (bread B d' dev) as (child p j) = a"
    and "a = 0 \<Longrightarrow> d' = d \<and> used_blocks B sb dev d = {b. b < sb_size sb}"
proof -
  have fs: "fs_ok B sb dev d" and tree: "tree_ok (file_area B sb dev d) (bread B d dev) as"
    and bio: "bio_ok B" using ok file_ok_bio [OF ok] by (auto simp: file_ok_def)
  note lenr = length_bread [OF bio]
  have blk: "blk \<in> used_blocks B sb dev d" "blk \<notin> bitmap_blocks sb"
    using file_ok_addr [OF ok interior_vslot [OF p(1)]] p(2,3) by auto
  have addr: "slot_addr (bread B d dev) as (child p j) = get32 (bread B d dev blk) j"
    using p by (simp add: slot_addr_child entry_at_def)
  obtain r d1 where al: "balloc B sb dev d = (r, d1)" by force
  consider (old) "get32 (bread B d dev blk) j \<noteq> 0" | (full) "get32 (bread B d dev blk) j = 0" "r = 0"
    | (new) "get32 (bread B d dev blk) j = 0" "r \<noteq> 0" by blast
  then have "grows B sb dev {child p j} as d as d' \<and> slot_addr (bread B d' dev) as (child p j) = a \<and>
    (a = 0 \<longrightarrow> d' = d \<and> used_blocks B sb dev d = {b. b < sb_size sb})"
  proof cases
    case old
    with run ok addr show ?thesis by (auto simp: get_or_alloc_entry_def Let_def grows_refl)
  next
    case full
    with run al ok addr fsb.alloc_full [OF fs, of d1] show ?thesis
      by (auto simp: get_or_alloc_entry_def Let_def grows_refl)
  next
    case new
    let ?a' = "put32 (bread B d dev blk) j r"
    have eq: "a = r" "d' = log_write B d1 dev blk ?a'"
      using run al new by (auto simp: get_or_alloc_entry_def Let_def)
    note al' = fsb.alloc_fresh [OF fs al new(2)] fsb.alloc_used [OF fs al new(2)]
      fsb.alloc_zeroed [OF fs al new(2)] fsb.alloc_keeps [OF fs al new(2)] fsb.alloc_inv [OF fs al]
    have la: "length ?a' = BSIZE" using j by (simp add: length_put32 lenr)
    have rd': "bread B d' dev x = (if x = blk then ?a' else bread B d1 dev x)" for x
      by (simp add: eq bread_log_write [OF bio la])
    have fs': "fs_ok B sb dev d'" and used': "used_blocks B sb dev d' = insert r (used_blocks B sb dev d)"
      using fs_ok_log_write [OF al'(5) blk(2) la] used_log_write [OF bio blk(2) la] al'(2) eq by auto
    have ne: "r \<noteq> blk" and fresh: "r \<notin> file_area B sb dev d"
      using al'(1) blk by (auto simp: file_area_def)
    have fill: "slot_addr (bread B d' dev) as t =
        (if t = child p j then r else slot_addr (bread B d dev) as t)" if "vslot t" for t
    proof (rule slot_fill_entry [OF tree p j new(1) lenr fresh new(2) _ _ _ that])
      show "bread B d' dev r = replicate BSIZE 0" "bread B d' dev blk = ?a'"
        using ne al'(3) by (simp_all add: rd')
      fix x assume "x \<in> file_area B sb dev d" "x \<noteq> blk"
      then show "bread B d' dev x = bread B d dev x"
        using al'(4) by (auto simp: rd' dest: file_areaD)
    qed
    have "grows B sb dev {child p j} as d as d'"
    proof (rule grows_fill [where P = "{blk}", OF ok fs' used'])
      fix x assume "x \<in> used_blocks B sb dev d" "x \<notin> bitmap_blocks sb" "x \<notin> {blk}"
      with al'(4) show "bread B d' dev x = bread B d dev x" by (auto simp: rd')
    qed (use al' new p j ne fill addr file_ok_length [OF ok] in \<open>auto simp: rd' vslot_child\<close>)
    with eq fill [of "child p j"] p j new(2) show ?thesis by (simp add: vslot_child)
  qed
  then show "grows B sb dev {child p j} as d as d'" "slot_addr (bread B d' dev) as (child p j) = a"
    "a = 0 \<Longrightarrow> d' = d \<and> used_blocks B sb dev d = {b. b < sb_size sb}" by blast+
qed

section \<open>bmap\<close>

text \<open>The three ranges of block numbers, as \<open>bmap\<close> computes them in 32 bits.\<close>

lemma bn_range:
  fixes bn :: u32
  shows "bn < 11 \<longleftrightarrow> unat bn < NDIRECT"
    and "\<not> bn < 11 \<Longrightarrow> unat (bn - 11) = unat bn - NDIRECT"
    and "\<not> bn < 11 \<Longrightarrow> bn - 11 < 256 \<longleftrightarrow> unat bn < NDIRECT + NINDIRECT"
    and "\<not> bn < 11 \<Longrightarrow> \<not> bn - 11 < 256 \<Longrightarrow> unat (bn - 267) = unat bn - 267"
    and "\<not> bn < 11 \<Longrightarrow> \<not> bn - 11 < 256 \<Longrightarrow> bn - 267 < 65536 \<longleftrightarrow> unat bn < MAXFILE"
proof -
  show "bn < 11 \<longleftrightarrow> unat bn < NDIRECT" by (simp add: word_less_nat_alt)
  assume a: "\<not> bn < 11"
  then show b: "unat (bn - 11) = unat bn - NDIRECT" by (simp add: unat_sub not_less)
  with a show "bn - 11 < 256 \<longleftrightarrow> unat bn < NDIRECT + NINDIRECT"
    by (auto simp: word_less_nat_alt)
  assume c: "\<not> bn - 11 < 256"
  with a b have ge: "267 \<le> unat bn" by (simp add: word_less_nat_alt)
  then show e: "unat (bn - 267) = unat bn - 267" by (simp add: unat_sub word_le_nat_alt)
  with ge show "bn - 267 < 65536 \<longleftrightarrow> unat bn < MAXFILE"
    by (auto simp: word_less_nat_alt)
qed

lemma bmap_out_of_range_aux: "MAXFILE \<le> unat bn \<Longrightarrow> bmap B sb ip bn d = Inl (Panic ''bmap: out of range'')"
  using bn_range [of bn] by (simp add: bmap_def Let_def)

lemma bmap_direct:
  assumes "unat bn < NDIRECT"
  shows "bmap B sb ip bn d = Inr (get_or_alloc_addr B sb (unat bn) ip d)"
  using assms bn_range(1) [of bn] by (simp add: bmap_def)

lemma bmap_indirect:
  assumes "NDIRECT \<le> unat bn" and "unat bn < NDIRECT + NINDIRECT"
  shows "bmap B sb ip bn d = (let (addr, ip, d) = get_or_alloc_addr B sb NDIRECT ip d in
     if addr = 0 then Inr (0, ip, d)
     else let (addr, d) = get_or_alloc_entry B sb (i_dev ip) addr (unat bn - NDIRECT) d in
     Inr (addr, ip, d))"
  using assms bn_range(1-3) [of bn] by (simp add: bmap_def split_def Let_def cong: if_cong)

lemma bmap_double:
  assumes "NDIRECT + NINDIRECT \<le> unat bn" and "unat bn < MAXFILE"
  defines "n \<equiv> unat bn - (NDIRECT + NINDIRECT)"
  shows "bmap B sb ip bn d = (let (addr, ip, d) = get_or_alloc_addr B sb (NDIRECT + 1) ip d in
     if addr = 0 then Inr (0, ip, d)
     else let (ind, d) = get_or_alloc_entry B sb (i_dev ip) addr (n div NINDIRECT) d in
     if ind = 0 then Inr (0, ip, d)
     else let (addr, d) = get_or_alloc_entry B sb (i_dev ip) ind (n mod NINDIRECT) d in
     Inr (addr, ip, d))"
  using assms(1,2) bn_range [of bn] 
  by (simp add: bmap_def unat_div unat_mod n_def split_def Let_def cong: if_cong)

text \<open>Within \<open>MAXFILE\<close>, \<open>bmap\<close> returns, and what it returns is in the slot of that block.\<close>

definition bmap_post :: "'d bio \<Rightarrow> superblock \<Rightarrow> nat \<Rightarrow> inode \<Rightarrow> 'd \<Rightarrow> u32 \<Rightarrow> inode \<Rightarrow> 'd \<Rightarrow> bool" where
  "bmap_post B sb n ip d a ip' d' \<longleftrightarrow>
     grows B sb (i_dev ip) (slot_path n) (i_addrs ip) d (i_addrs ip') d' \<and>
     slot_addr (bread B d' (i_dev ip)) (i_addrs ip') (data_slot n) = a \<and>
     ip' = ip\<lparr>i_addrs := i_addrs ip'\<rparr> \<and>
     (a = 0 \<longrightarrow> used_blocks B sb (i_dev ip) d' = {b. b < sb_size sb})"

lemma i_dev_addrs: "ip' = ip\<lparr>i_addrs := as\<rparr> \<Longrightarrow> i_dev ip' = i_dev ip"
  by simp

lemma bmap_spec_direct:
  assumes ok: "file_ok B sb (i_dev ip) (i_addrs ip) d" and n: "unat bn < NDIRECT"
  shows "\<exists>a ip' d'. bmap B sb ip bn d = Inr (a, ip', d') \<and> bmap_post B sb (unat bn) ip d a ip' d'"
proof -
  obtain a ip' d' where g: "get_or_alloc_addr B sb (unat bn) ip d = (a, ip', d')" by (metis prod_cases3)
  have k: "unat bn < NDIRECT + 2" using n by simp
  have r: "root_slot (unat bn) = data_slot (unat bn)" using n by (simp add: root_slot_def data_slot_def)
  note G = get_or_alloc_addr_grows [OF ok k g]
  have "bmap_post B sb (unat bn) ip d a ip' d'"
    using G n grows_mono [OF G(1), of "slot_path (unat bn)"]
    by (auto simp: bmap_post_def slot_path_def r data_slot_def)
  with g n show ?thesis by (auto simp: bmap_direct)
qed

lemma bmap_spec_indirect:
  assumes ok: "file_ok B sb (i_dev ip) (i_addrs ip) d"
    and n: "NDIRECT \<le> unat bn" "unat bn < NDIRECT + NINDIRECT"
  shows "\<exists>a ip' d'. bmap B sb ip bn d = Inr (a, ip', d') \<and> bmap_post B sb (unat bn) ip d a ip' d'"
proof -
  let ?j = "unat bn - NDIRECT"
  obtain a1 ip1 d1 where g1: "get_or_alloc_addr B sb NDIRECT ip d = (a1, ip1, d1)" by (metis prod_cases3)
  note G1 = get_or_alloc_addr_grows [OF ok _ g1, simplified]
  have dev: "i_dev ip1 = i_dev ip" by (rule i_dev_addrs [OF G1(3)])
  have slots: "slot_path (unat bn) = {Ind, IndE ?j}" "data_slot (unat bn) = IndE ?j" "root_slot NDIRECT = Ind"
    using n by (auto simp: slot_path_def data_slot_def root_slot_def)
  show ?thesis
  proof (cases "a1 = 0")
    case True
    with G1 grows_mono [OF G1(1), of "slot_path (unat bn)"]
    have "bmap_post B sb (unat bn) ip d 0 ip1 d1"
      by (auto simp: bmap_post_def slots entry_at_def)
    with True g1 n show ?thesis by (auto simp: bmap_indirect)
  next
    case False
    obtain a2 d2 where g2: "get_or_alloc_entry B sb (i_dev ip) a1 ?j d1 = (a2, d2)" by force
    have ok1: "file_ok B sb (i_dev ip) (i_addrs ip1) d1" using G1(1) by (simp add: grows_def)
    have j: "?j < NINDIRECT" using n by simp
    note G2 = get_or_alloc_entry_grows [OF ok1, of Ind, simplified, OF G1(2) False j g2]
    have "bmap_post B sb (unat bn) ip d a2 ip1 d2"
      using G1(3) G2 grows_mono [OF grows_trans [OF G1(1) G2(1)], of "slot_path (unat bn)"]
      by (auto simp: bmap_post_def slots)
    with False g1 g2 n dev show ?thesis by (auto simp: bmap_indirect)
  qed
qed

lemma bmap_spec_double:
  assumes ok: "file_ok B sb (i_dev ip) (i_addrs ip) d"
    and n: "NDIRECT + NINDIRECT \<le> unat bn" "unat bn < MAXFILE"
  shows "\<exists>a ip' d'. bmap B sb ip bn d = Inr (a, ip', d') \<and> bmap_post B sb (unat bn) ip d a ip' d'"
proof -
  define m where "m = unat bn - (NDIRECT + NINDIRECT)"
  let ?i = "m div NINDIRECT" and ?j = "m mod NINDIRECT" and ?dev = "i_dev ip"
  have ij: "?i < NINDIRECT" "?j < NINDIRECT" using n by (auto simp: m_def div_less_iff_less_mult)
  have slots: "slot_path (unat bn) = {Dbl, DblE ?i, DblEE ?i ?j}" "data_slot (unat bn) = DblEE ?i ?j"
    "root_slot (NDIRECT + 1) = Dbl"
    using n by (auto simp: slot_path_def data_slot_def root_slot_def m_def)
  note bm = bmap_double [OF n, folded m_def]
  obtain a1 ip1 d1 where g1: "get_or_alloc_addr B sb (NDIRECT + 1) ip d = (a1, ip1, d1)"
    by (metis prod_cases3)
  have k: "NDIRECT + 1 < NDIRECT + 2" by simp
  note G1 = get_or_alloc_addr_grows [OF ok k g1, unfolded slots]
  have dev: "i_dev ip1 = ?dev" by (rule i_dev_addrs [OF G1(3)])
  show ?thesis
  proof (cases "a1 = 0")
    case True
    with G1 grows_mono [OF G1(1), of "slot_path (unat bn)"]
    have "bmap_post B sb (unat bn) ip d 0 ip1 d1"
      by (auto simp: bmap_post_def slots entry_at_def)
    with True g1 show ?thesis by (auto simp: bm)
  next
    case nz1: False
    obtain a2 d2 where g2: "get_or_alloc_entry B sb ?dev a1 ?i d1 = (a2, d2)" by force
    have ok1: "file_ok B sb ?dev (i_addrs ip1) d1" using G1(1) by (simp add: grows_def)
    have p1: "slot_addr (bread B d1 ?dev) (i_addrs ip1) Dbl = a1" using G1(2) by simp
    note G2 = get_or_alloc_entry_grows [OF ok1 _ p1 nz1 ij(1) g2, unfolded child.simps interior.simps, OF TrueI]
    note G12 = grows_trans [OF G1(1) G2(1)]
    have ok2: "file_ok B sb ?dev (i_addrs ip1) d2" using G2(1) by (simp add: grows_def)
    show ?thesis
    proof (cases "a2 = 0")
      case True
      with G1(3) G2(2,3) grows_mono [OF G12, of "slot_path (unat bn)"]
      have "bmap_post B sb (unat bn) ip d 0 ip1 d2" by (auto simp: bmap_post_def slots entry_at_def)
      with True nz1 g1 g2 dev show ?thesis by (auto simp: bm)
    next
      case nz2: False
      obtain a3 d3 where g3: "get_or_alloc_entry B sb ?dev a2 ?j d2 = (a3, d3)" by force
      note G3 = get_or_alloc_entry_grows [OF ok2 _ G2(2) nz2 ij(2) g3, unfolded child.simps interior.simps, OF ij(1)]
      have "bmap_post B sb (unat bn) ip d a3 ip1 d3"
        using G1(3) G3(2,3) grows_mono [OF grows_trans [OF G12 G3(1)], of "slot_path (unat bn)"]
        by (auto simp: bmap_post_def slots)
      with nz1 nz2 g1 g2 g3 dev show ?thesis by (auto simp: bm)
    qed
  qed
qed

lemma bmap_spec:
  assumes "file_ok B sb (i_dev ip) (i_addrs ip) d" and "unat bn < MAXFILE"
  obtains a ip' d' where "bmap B sb ip bn d = Inr (a, ip', d')" "bmap_post B sb (unat bn) ip d a ip' d'"
proof -
  consider "unat bn < NDIRECT" | "NDIRECT \<le> unat bn" "unat bn < NDIRECT + NINDIRECT"
    | "NDIRECT + NINDIRECT \<le> unat bn" by linarith
  then have "\<exists>a ip' d'. bmap B sb ip bn d = Inr (a, ip', d') \<and> bmap_post B sb (unat bn) ip d a ip' d'"
    using assms by cases (auto intro: bmap_spec_direct bmap_spec_indirect bmap_spec_double)
  with that show thesis by blast
qed

text \<open>A block that is there is found without any change.\<close>

lemma bmap_present:
  assumes a: "slot_addr (bread B d (i_dev ip)) (i_addrs ip) (data_slot (unat bn)) = a" "a \<noteq> 0"
    and n: "unat bn < MAXFILE"
  shows "bmap B sb ip bn d = Inr (a, ip, d)"
proof -
  consider "unat bn < NDIRECT" | "NDIRECT \<le> unat bn" "unat bn < NDIRECT + NINDIRECT"
    | "NDIRECT + NINDIRECT \<le> unat bn" by linarith
  then show ?thesis
  proof cases
    case 1
    with a show ?thesis by (auto simp: bmap_direct data_slot_def get_or_alloc_addr_def)
  next
    case 2
    with a show ?thesis
      by (auto simp: bmap_indirect data_slot_def get_or_alloc_addr_def get_or_alloc_entry_def
          entry_at_def Let_def split: if_splits)
  next
    case 3
    with a n show ?thesis
      by (auto simp: bmap_double data_slot_def get_or_alloc_addr_def get_or_alloc_entry_def
          entry_at_def Let_def split: if_splits)
  qed
qed

section \<open>The example file\<close>

lemma ex_slot_addr:
  assumes "vslot t"
  shows "slot_addr (bread ram_bio ex_disk 1) ex_addrs t = (if t = Direct 0 then 4 else if t = Ind then 5 else 0)"
proof -
  have "ex_addrs ! i = (if i = 0 then 4 else 0)" if "i < 11" for i
  proof -
    from that have "i \<in> set [0..<11]" by simp
    then show ?thesis by (auto simp: ex_addrs_def upt_rec)
  qed
  moreover have "ex_addrs ! 11 = 5" "ex_addrs ! 12 = 0" by (simp_all add: ex_addrs_def)
  ultimately show ?thesis
    using assms by (cases t) (auto simp: entry_at_def ex_bread get32_zeros)
qed

lemma ex_tree_blocks: "tree_blocks (bread ram_bio ex_disk 1) ex_addrs = {4, 5}"
proof -
  let ?g = "\<lambda>t. if t = Direct 0 then 4 else if t = Ind then 5 else (0 :: u32)"
  have "tree_blocks (bread ram_bio ex_disk 1) ex_addrs =
      slot_addr (bread ram_bio ex_disk 1) ex_addrs ` {t. vslot t} - {0}"
    unfolding tree_blocks_def by blast
  also have "\<dots> = ?g ` {t. vslot t} - {0}"
    by (intro arg_cong [where f = "\<lambda>S. S - {0}"] image_cong refl) (rule ex_slot_addr, simp)
  also have "\<dots> = {4, 5}"
  proof -
    have "Direct 0 \<in> {t. vslot t}" "Ind \<in> {t. vslot t}" by simp_all
    then have "?g (Direct 0) \<in> ?g ` {t. vslot t}" "?g Ind \<in> ?g ` {t. vslot t}" by blast+
    then show ?thesis by auto
  qed
  finally show ?thesis .
qed

lemma ex_file_ok: "file_ok ram_bio ex_sb 1 ex_addrs ex_disk"
proof -
  have "length ex_addrs = NDIRECT + 2" by (simp add: ex_addrs_def)
  moreover have "{4, 5} \<subseteq> file_area ram_bio ex_sb 1 ex_disk"
    by (simp add: file_area_def ex_used meta_blocks_def ex_bitmap_blocks ex_inode_blocks)
  ultimately show ?thesis
    unfolding file_ok_def tree_ok_def ex_tree_blocks using ex_fs_ok
    by (auto simp: ex_slot_addr simp del: slot_addr.simps split: if_splits)
qed

section \<open>Properties\<close>

text \<open>C2: for every block number below \<open>MAXFILE\<close>, through all three levels of the tree, \<open>bmap\<close> on a
  well-formed file returns; the number it returns is the one recorded in the file's tree for
  that block (0 only when the disk is full); the tree has gained fresh blocks on the path to
  it and lost none; the content of the file at every block, and every block in use that belongs to
  something else, are unchanged; and only \<open>ip->addrs\<close> of the inode has changed.\<close>

theorem bmap_correct:
  assumes "file_ok B sb (i_dev ip) (i_addrs ip) d" and "unat bn < MAXFILE"
  shows "\<exists>a ip' d'. bmap B sb ip bn d = Inr (a, ip', d') \<and>
     grows B sb (i_dev ip) (slot_path (unat bn)) (i_addrs ip) d (i_addrs ip') d' \<and>
     slot_addr (bread B d' (i_dev ip)) (i_addrs ip') (data_slot (unat bn)) = a \<and>
     ip' = ip\<lparr>i_addrs := i_addrs ip'\<rparr> \<and>
     (a = 0 \<longrightarrow> used_blocks B sb (i_dev ip) d' = {b. b < sb_size sb})"
  using bmap_spec [OF assms] unfolding bmap_post_def by metis

theorem bmap_correct_witness:
  "\<exists>a ip' d'. bmap ram_bio ex_sb ex_ip 300 ex_disk = Inr (a, ip', d') \<and>
     file_ok ram_bio ex_sb 1 (i_addrs ip') d' \<and>
     slot_addr (bread ram_bio d' 1) (i_addrs ip') (DblEE 0 33) = a"
  using bmap_correct [of ram_bio ex_sb ex_ip ex_disk 300] ex_file_ok
  by (auto simp: ex_ip_def grows_def data_slot_def)

text \<open>A block number of \<open>MAXFILE\<close> or more is the panic \<open>bmap: out of range\<close>, whatever the
  state; none below it is.\<close>

theorem bmap_out_of_range:
  assumes "file_ok B sb (i_dev ip) (i_addrs ip) d"
  shows "bmap B sb ip bn d = Inl (Panic ''bmap: out of range'') \<longleftrightarrow> MAXFILE \<le> unat bn"
  using bmap_out_of_range_aux [of bn B sb ip d] bmap_spec [OF assms, of bn] by (metis Inl_Inr_False not_le)

theorem bmap_out_of_range_witness:
  "bmap ram_bio ex_sb ex_ip 65803 ex_disk = Inl (Panic ''bmap: out of range'')"
  using bmap_out_of_range [of ram_bio ex_sb ex_ip ex_disk 65803] ex_file_ok by (simp add: ex_ip_def)

text \<open>Once \<open>bmap\<close> has returned a block, asking again for the same block number returns the same
  block and allocates nothing.\<close>

theorem bmap_idempotent:
  assumes "file_ok B sb (i_dev ip) (i_addrs ip) d" and "bmap B sb ip bn d = Inr (a, ip', d')" and "a \<noteq> 0"
  shows "bmap B sb ip' bn d' = Inr (a, ip', d')"
proof -
  have n: "unat bn < MAXFILE" using bmap_out_of_range_aux [of bn B sb ip d] assms(2) by force
  obtain a2 ip2 d2 where "bmap B sb ip bn d = Inr (a2, ip2, d2)" and post: "bmap_post B sb (unat bn) ip d a2 ip2 d2"
    by (rule bmap_spec [OF assms(1) n])
  with assms(2) have post: "bmap_post B sb (unat bn) ip d a ip' d'" by simp
  then have "i_dev ip' = i_dev ip" by (auto simp: bmap_post_def intro: i_dev_addrs)
  with post show ?thesis by (intro bmap_present [OF _ assms(3) n]) (simp add: bmap_post_def)
qed

theorem bmap_idempotent_witness:
  "bmap ram_bio ex_sb ex_ip 0 ex_disk = Inr (4, ex_ip, ex_disk)"
proof -
  have run: "bmap ram_bio ex_sb ex_ip 0 ex_disk = Inr (4, ex_ip, ex_disk)"
    by (simp add: bmap_def get_or_alloc_addr_def ex_ip_def ex_addrs_def)
  show ?thesis
    by (rule bmap_idempotent [OF _ run]) (use ex_file_ok in \<open>simp_all add: ex_ip_def\<close>)
qed

end
