(* ===== verification/Fs_Itrunc.thy ===== *)
theory Fs_Itrunc
  imports Fs_Bmap
begin

text \<open>
  \<open>iupdate\<close> and \<open>itrunc\<close> of \<open>HW4/source/fs.c\<close>: writing the in-memory inode to its disk
  block, and discarding a file's content. The main fact is that \<open>itrunc\<close> on a well-formed
  file never panics and frees exactly the blocks of its tree.
\<close>

section \<open>Definitions\<close>

text \<open>What \<open>iupdate\<close> stores of an in-memory inode.\<close>

definition dinode_of :: "inode \<Rightarrow> dinode" where
  "dinode_of ip = \<lparr>d_type = i_type ip, d_major = i_major ip, d_minor = i_minor ip,
     d_nlink = i_nlink ip, d_size = i_size ip, d_addrs = i_addrs ip\<rparr>"

definition iupdate :: "'d bio \<Rightarrow> superblock \<Rightarrow> inode \<Rightarrow> 'd \<Rightarrow> 'd" where
  "iupdate B sb ip d =
     (let data = bread B d (i_dev ip) (IBLOCK (i_inum ip) sb) in
      log_write B d (i_dev ip) (IBLOCK (i_inum ip) sb)
        (put_dinode data (unat (i_inum ip) mod IPB) (dinode_of ip)))"

text \<open>The entries of an indirect block.\<close>

definition entries :: "u8 list \<Rightarrow> u32 list" where
  "entries data = map (get32 data) [0..<NINDIRECT]"

text \<open>The loop of \<open>itrunc\<close> over the doubly-indirect block: \<open>as\<close> are the entries still to do.\<close>

fun itrunc_dbl :: "'d bio \<Rightarrow> superblock \<Rightarrow> u32 \<Rightarrow> u32 list \<Rightarrow> 'd \<Rightarrow> 'd res" where
  "itrunc_dbl B sb dev [] d = Inr d"
| "itrunc_dbl B sb dev (a # as) d =
     (if a \<noteq> 0 then
        bindE (free_nonzero (bfree B sb dev) (entries (bread B d dev a)) d) (\<lambda>d.
        bindE (bfree B sb dev a d) (\<lambda>d.
        itrunc_dbl B sb dev as d))
      else itrunc_dbl B sb dev as d)"

text \<open>The three parts of \<open>itrunc\<close>. The doubly-indirect block is read once and its entries are set to
  0 in the buffer, which is released without \<open>log_write\<close>.\<close>

definition itrunc_direct :: "'d bio \<Rightarrow> superblock \<Rightarrow> inode \<Rightarrow> 'd \<Rightarrow> (inode \<times> 'd) res" where
  "itrunc_direct B sb ip d =
     bindE (free_nonzero (bfree B sb (i_dev ip)) (take NDIRECT (i_addrs ip)) d) (\<lambda>d.
     Inr (ip\<lparr>i_addrs := replicate NDIRECT 0 @ drop NDIRECT (i_addrs ip)\<rparr>, d))"

definition itrunc_indirect :: "'d bio \<Rightarrow> superblock \<Rightarrow> inode \<Rightarrow> 'd \<Rightarrow> (inode \<times> 'd) res" where
  "itrunc_indirect B sb ip d =
     (let a = i_addrs ip ! NDIRECT in
      if a \<noteq> 0 then
        bindE (free_nonzero (bfree B sb (i_dev ip)) (entries (bread B d (i_dev ip) a)) d) (\<lambda>d.
        bindE (bfree B sb (i_dev ip) a d) (\<lambda>d.
        Inr (ip\<lparr>i_addrs := (i_addrs ip)[NDIRECT := 0]\<rparr>, d)))
      else Inr (ip, d))"

definition itrunc_double :: "'d bio \<Rightarrow> superblock \<Rightarrow> inode \<Rightarrow> 'd \<Rightarrow> (inode \<times> 'd) res" where
  "itrunc_double B sb ip d =
     (let a = i_addrs ip ! (NDIRECT + 1); data = bread B d (i_dev ip) a in
      if a \<noteq> 0 then
        bindE (itrunc_dbl B sb (i_dev ip) (entries data) d) (\<lambda>d.
        let d = bscribble B d (i_dev ip) a (replicate BSIZE 0) in
        bindE (bfree B sb (i_dev ip) a d) (\<lambda>d.
        Inr (ip\<lparr>i_addrs := (i_addrs ip)[NDIRECT + 1 := 0]\<rparr>, d)))
      else Inr (ip, d))"

definition itrunc :: "'d bio \<Rightarrow> superblock \<Rightarrow> inode \<Rightarrow> 'd \<Rightarrow> (inode \<times> 'd) res" where
  "itrunc B sb ip d =
     bindE (itrunc_direct B sb ip d) (\<lambda>(ip, d).
     bindE (itrunc_indirect B sb ip d) (\<lambda>(ip, d).
     bindE (itrunc_double B sb ip d) (\<lambda>(ip, d).
     let ip = ip\<lparr>i_size := 0\<rparr> in Inr (ip, iupdate B sb ip d))))"

text \<open>The inode with number \<open>inum\<close> as it is on the disk.\<close>

definition disk_inode :: "'d bio \<Rightarrow> superblock \<Rightarrow> u32 \<Rightarrow> 'd \<Rightarrow> u32 \<Rightarrow> dinode" where
  "disk_inode B sb dev d inum = get_dinode (bread B d dev (IBLOCK inum sb)) (unat inum mod IPB)"

section \<open>iupdate\<close>

lemma IBLOCK_same:
  "IBLOCK i sb = IBLOCK j sb \<Longrightarrow> unat i mod IPB = unat j mod IPB \<Longrightarrow> i = j"
proof -
  assume "IBLOCK i sb = IBLOCK j sb" and m: "unat i mod IPB = unat j mod IPB"
  then have "unat (i div 16) = unat (j div 16)" by (simp add: IBLOCK_def)
  then have "unat i div IPB = unat j div IPB" by (simp add: unat_div)
  with m show "i = j" by (metis div_mult_mod_eq word_unat_eq_iff)
qed

lemma bread_iupdate:
  assumes "bio_ok B" and "length (i_addrs ip) = 13"
  shows "bread B (iupdate B sb ip d) dev x =
     (if dev = i_dev ip \<and> x = IBLOCK (i_inum ip) sb
      then put_dinode (bread B d dev x) (unat (i_inum ip) mod IPB) (dinode_of ip)
      else bread B d dev x)"
proof -
  have "64 * (unat (i_inum ip) mod IPB) + 64 \<le> BSIZE"
    using mod_less_divisor [of IPB "unat (i_inum ip)"] by linarith
  with assms show ?thesis
    by (simp add: iupdate_def Let_def bread_log_write length_put_dinode length_bread dinode_of_def)
qed

lemma disk_inode_iupdate:
  assumes "bio_ok B" and "length (i_addrs ip) = 13"
  shows "disk_inode B sb (i_dev ip) (iupdate B sb ip d) inum =
     (if inum = i_inum ip then dinode_of ip else disk_inode B sb (i_dev ip) d inum)"
proof -
  have "64 * (unat (i_inum ip) mod IPB) + 64 \<le> BSIZE"
    using mod_less_divisor [of IPB "unat (i_inum ip)"] by linarith
  with assms show ?thesis
    using IBLOCK_same [of inum sb "i_inum ip"]
    by (auto simp: disk_inode_def bread_iupdate get_put_dinode length_bread dinode_of_def)
qed

lemma iupdate_frame:
  assumes ok: "fs_ok B sb (i_dev ip) d" and "length (i_addrs ip) = 13" and "i_inum ip < sb_ninodes sb"
  shows "used_blocks B sb (i_dev ip) (iupdate B sb ip d) = used_blocks B sb (i_dev ip) d"
    and "fs_ok B sb (i_dev ip) (iupdate B sb ip d)"
proof -
  have bio: "bio_ok B" using ok by (simp add: fs_ok_def)
  have "IBLOCK (i_inum ip) sb \<notin> bitmap_blocks sb"
    using ok assms(3) by (auto simp: fs_ok_def inode_blocks_def)
  then show u: "used_blocks B sb (i_dev ip) (iupdate B sb ip d) = used_blocks B sb (i_dev ip) d"
    by (intro used_blocks_cong) (auto simp: bread_iupdate [OF bio assms(2)])
  with ok show "fs_ok B sb (i_dev ip) (iupdate B sb ip d)" by (simp add: fs_ok_def)
qed

section \<open>Releasing blocks\<close>

definition released :: "'d bio \<Rightarrow> superblock \<Rightarrow> u32 \<Rightarrow> u32 set \<Rightarrow> 'd \<Rightarrow> 'd \<Rightarrow> bool" where
  "released B sb dev X d d' \<longleftrightarrow> fs_ok B sb dev d' \<and>
     used_blocks B sb dev d' = used_blocks B sb dev d - X \<and>
     (\<forall>x. x \<notin> bitmap_blocks sb \<longrightarrow> bread B d' dev x = bread B d dev x)"

lemma released_trans:
  "released B sb dev X d d1 \<Longrightarrow> released B sb dev Y d1 d2 \<Longrightarrow> released B sb dev (X \<union> Y) d d2"
  unfolding released_def by auto

lemma released_read:
  "released B sb dev X d d' \<Longrightarrow> x \<notin> meta_blocks sb \<Longrightarrow> bread B d' dev x = bread B d dev x"
  by (auto simp: released_def meta_blocks_def)

lemma free_nonzero_released:
  assumes "fs_ok B sb dev d" and "distinct (filter (\<lambda>a. a \<noteq> 0) as)"
    and "set as - {0} \<subseteq> file_area B sb dev d"
  obtains d' where "free_nonzero (bfree B sb dev) as d = Inr d'" "released B sb dev (set as - {0}) d d'"
  using fsb.free_nonzero_ok [OF assms(1,2)] assms(3) that unfolding released_def file_area_def by blast

lemma bfree_released:
  assumes "fs_ok B sb dev d" and "b \<in> file_area B sb dev d"
  obtains d' where "bfree B sb dev b d = Inr d'" "released B sb dev {b} d d'"
  using bfree_used [OF assms(1)] assms(2) that unfolding released_def file_area_def by blast

lemma released_area:
  "released B sb dev X d d' \<Longrightarrow> file_area B sb dev d' = file_area B sb dev d - X"
  by (auto simp: released_def file_area_def)

text \<open>An indirect block and everything it lists.\<close>

definition subtree :: "(u32 \<Rightarrow> u8 list) \<Rightarrow> u32 \<Rightarrow> u32 set" where
  "subtree rd a = insert a (set (entries (rd a)) - {0})"

text \<open>What a subtree needs to be freed: distinct entries, none of them the block itself.\<close>

definition subtree_ok :: "(u32 \<Rightarrow> u8 list) \<Rightarrow> u32 \<Rightarrow> bool" where
  "subtree_ok rd a \<longleftrightarrow> distinct (filter (\<lambda>e. e \<noteq> 0) (entries (rd a))) \<and> a \<notin> set (entries (rd a))"

lemma free_subtree:
  assumes ok: "fs_ok B sb dev d" and a: "subtree_ok (bread B d dev) a"
    and sub: "subtree (bread B d dev) a \<subseteq> file_area B sb dev d"
  obtains d1 d2 where "free_nonzero (bfree B sb dev) (entries (bread B d dev a)) d = Inr d1"
    "bfree B sb dev a d1 = Inr d2" "released B sb dev (subtree (bread B d dev) a) d d2"
proof -
  let ?es = "entries (bread B d dev a)"
  from a sub obtain d1 where d1: "free_nonzero (bfree B sb dev) ?es d = Inr d1"
      "released B sb dev (set ?es - {0}) d d1"
    using free_nonzero_released [OF ok, of ?es] by (auto simp: subtree_ok_def subtree_def)
  from sub a have in1: "a \<in> file_area B sb dev d1"
    by (auto simp: released_area [OF d1(2)] subtree_def subtree_ok_def)
  have ok1: "fs_ok B sb dev d1" using d1(2) by (simp add: released_def)
  obtain d2 where d2: "bfree B sb dev a d1 = Inr d2" "released B sb dev {a} d1 d2"
    by (rule bfree_released [OF ok1 in1])
  with released_trans [OF d1(2) d2(2)] d1(1) that show thesis by (simp add: subtree_def)
qed

lemma itrunc_dbl_released:
  assumes "fs_ok B sb dev d" and "distinct (filter (\<lambda>a. a \<noteq> 0) as)"
    and "\<And>a. a \<in> set as - {0} \<Longrightarrow> subtree_ok rd a \<and> subtree rd a \<subseteq> file_area B sb dev d"
    and "\<And>a b. a \<in> set as - {0} \<Longrightarrow> b \<in> set as - {0} \<Longrightarrow> a \<noteq> b \<Longrightarrow> subtree rd a \<inter> subtree rd b = {}"
    and "\<And>x. x \<notin> meta_blocks sb \<Longrightarrow> bread B d dev x = rd x"
  shows "\<exists>d'. itrunc_dbl B sb dev as d = Inr d' \<and>
    released B sb dev (\<Union>a \<in> set as - {0}. subtree rd a) d d'"
  using assms
proof (induction as arbitrary: d)
  case Nil
  then show ?case by (simp add: released_def)
next
  case (Cons a as)
  show ?case
  proof (cases "a = 0")
    case True
    with Cons.IH [OF Cons.prems(1)] Cons.prems show ?thesis by simp
  next
    case False
    have "a \<in> file_area B sb dev d" using Cons.prems(3) [of a] False by (simp add: subtree_def)
    then have rda: "bread B d dev a = rd a" using Cons.prems(5) by (auto dest: file_areaD)
    then have sub: "subtree (bread B d dev) a = subtree rd a" "subtree_ok (bread B d dev) a = subtree_ok rd a"
      by (simp_all add: subtree_def subtree_ok_def)
    obtain d1 d2 where fr: "free_nonzero (bfree B sb dev) (entries (bread B d dev a)) d = Inr d1"
        "bfree B sb dev a d1 = Inr d2" and rel: "released B sb dev (subtree rd a) d d2"
      using free_subtree [OF Cons.prems(1), of a] Cons.prems(3) [of a] False sub by auto
    have "\<exists>d'. itrunc_dbl B sb dev as d2 = Inr d' \<and>
      released B sb dev (\<Union>b \<in> set as - {0}. subtree rd b) d2 d'"
    proof (rule Cons.IH)
      show "fs_ok B sb dev d2" using rel by (simp add: released_def)
      show "distinct (filter (\<lambda>a. a \<noteq> 0) as)" using Cons.prems(2) False by simp
      fix b assume b: "b \<in> set as - {0}"
      with Cons.prems(2) False have "b \<noteq> a" by auto
      with Cons.prems(3,4) [of b] b False show "subtree_ok rd b \<and> subtree rd b \<subseteq> file_area B sb dev d2"
        by (force simp: released_area [OF rel])
    qed (use Cons.prems(4,5) released_read [OF rel] in auto)
    then obtain d' where "itrunc_dbl B sb dev as d2 = Inr d'"
      and "released B sb dev (\<Union>b \<in> set as - {0}. subtree rd b) d2 d'" by blast
    moreover have "subtree rd a \<union> (\<Union>b \<in> set as - {0}. subtree rd b) =
      (\<Union>b \<in> set (a # as) - {0}. subtree rd b)" using False by auto
    ultimately show ?thesis using released_trans [OF rel] fr False by fastforce
  qed
qed

section \<open>The parts of a block tree\<close>

definition addrs_of :: "(u32 \<Rightarrow> u8 list) \<Rightarrow> u32 list \<Rightarrow> slot set \<Rightarrow> u32 set" where
  "addrs_of rd as T = slot_addr rd as ` T - {0}"

lemma tree_blocks_addrs: "tree_blocks rd as = addrs_of rd as {t. vslot t}"
  by (auto simp: tree_blocks_def addrs_of_def)

lemma addrs_of_Un: "addrs_of rd as (S \<union> T) = addrs_of rd as S \<union> addrs_of rd as T"
  by (auto simp: addrs_of_def)

lemma addrs_of_disjoint:
  assumes "tree_ok U rd as" and "S \<subseteq> {t. vslot t}" and "T \<subseteq> {t. vslot t}" and "S \<inter> T = {}"
  shows "addrs_of rd as S \<inter> addrs_of rd as T = {}"
  using tree_okD(3) [OF assms(1)] assms(2-4) unfolding addrs_of_def by fastforce

lemma addrs_of_area:
  "tree_ok U rd as \<Longrightarrow> S \<subseteq> {t. vslot t} \<Longrightarrow> addrs_of rd as S \<subseteq> U"
  using tree_okD(2) [of U rd as] by (auto simp: addrs_of_def)

lemma distinct_nonzero_map:
  assumes "\<And>i j. i < n \<Longrightarrow> j < n \<Longrightarrow> g i \<noteq> 0 \<Longrightarrow> g i = g j \<Longrightarrow> i = j"
  shows "distinct (filter (\<lambda>a. a \<noteq> (0::u32)) (map g [0..<n]))"
  using assms by (auto simp: filter_map distinct_map inj_on_def)

text \<open>The subtree of an interior slot.\<close>

definition below :: "slot \<Rightarrow> slot set" where
  "below p = insert p (child p ` {..<NINDIRECT})"

lemma below_valid: "interior p \<Longrightarrow> below p \<subseteq> {t. vslot t}"
  by (cases p) (auto simp: below_def)

lemma child_inj: "interior p \<Longrightarrow> child p i = child p j \<Longrightarrow> i = j"
  by (cases p) auto

lemma entries_slots:
  "interior p \<Longrightarrow> slot_addr rd as p \<noteq> 0 \<Longrightarrow>
     entries (rd (slot_addr rd as p)) = map (\<lambda>j. slot_addr rd as (child p j)) [0..<NINDIRECT]"
  by (simp add: entries_def slot_addr_child entry_at_def)

lemma subtree_below:
  assumes "interior p" and "slot_addr rd as p \<noteq> 0"
  shows "subtree rd (slot_addr rd as p) = addrs_of rd as (below p)"
  using assms(2) by (auto simp: subtree_def entries_slots [OF assms] addrs_of_def below_def image_image)

lemma subtree_ok_below:
  assumes ok: "tree_ok U rd as" and p: "interior p" "slot_addr rd as p \<noteq> 0"
  shows "subtree_ok rd (slot_addr rd as p)"
proof -
  note inj = tree_okD(3) [OF ok]
  have "distinct (filter (\<lambda>a. a \<noteq> 0) (map (\<lambda>j. slot_addr rd as (child p j)) [0..<NINDIRECT]))"
  proof (rule distinct_nonzero_map)
    fix i j :: nat
    assume "i < NINDIRECT" "j < NINDIRECT" "slot_addr rd as (child p i) \<noteq> 0"
      "slot_addr rd as (child p i) = slot_addr rd as (child p j)"
    then have "child p i = child p j" by (intro inj) (simp_all add: vslot_child [OF p(1)])
    then show "i = j" by (rule child_inj [OF p(1)])
  qed
  moreover have "slot_addr rd as p \<noteq> slot_addr rd as (child p j)" if "j < NINDIRECT" for j
  proof
    assume "slot_addr rd as p = slot_addr rd as (child p j)"
    then have "p = child p j"
      by (intro inj p(2)) (simp_all add: vslot_child [OF p(1)] interior_vslot [OF p(1)] that)
    with p(1) show False by (cases p) auto
  qed
  ultimately show ?thesis by (simp add: subtree_ok_def entries_slots [OF p] image_iff)
qed

lemma direct_slots:
  assumes "length as = 13"
  shows "set (take NDIRECT as) - {0} = addrs_of rd as (Direct ` {..<NDIRECT})"
    and "take NDIRECT as = map (\<lambda>i. slot_addr rd as (Direct i)) [0..<NDIRECT]"
proof -
  show m: "take NDIRECT as = map (\<lambda>i. slot_addr rd as (Direct i)) [0..<NDIRECT]"
    using assms by (intro nth_equalityI) simp_all
  show "set (take NDIRECT as) - {0} = addrs_of rd as (Direct ` {..<NDIRECT})"
    unfolding m by (auto simp: addrs_of_def image_image)
qed

lemma vslot_parts:
  "{t. vslot t} = Direct ` {..<NDIRECT} \<union> below Ind \<union> insert Dbl (\<Union>i < NINDIRECT. below (DblE i))"
proof (rule set_eqI)
  fix t
  show "t \<in> {t. vslot t} \<longleftrightarrow>
    t \<in> Direct ` {..<NDIRECT} \<union> below Ind \<union> insert Dbl (\<Union>i < NINDIRECT. below (DblE i))"
    by (cases t) (auto simp: below_def image_iff)
qed

section \<open>itrunc\<close>

lemma file_ok_meta: "file_ok B sb dev as d \<Longrightarrow> tree_blocks (bread B d dev) as \<inter> meta_blocks sb = {}"
  unfolding file_ok_def tree_ok_def by (auto dest: file_areaD)

lemma itrunc_direct_spec:
  assumes ok: "file_ok B sb (i_dev ip) (i_addrs ip) d"
  obtains d' where "itrunc_direct B sb ip d =
      Inr (ip\<lparr>i_addrs := replicate NDIRECT 0 @ drop NDIRECT (i_addrs ip)\<rparr>, d')"
    "released B sb (i_dev ip)
      (addrs_of (bread B d (i_dev ip)) (i_addrs ip) (Direct ` {..<NDIRECT})) d d'"
proof -
  let ?rd = "bread B d (i_dev ip)" and ?as = "i_addrs ip"
  have fs: "fs_ok B sb (i_dev ip) d" and tree: "tree_ok (file_area B sb (i_dev ip) d) ?rd ?as"
    using ok by (auto simp: file_ok_def)
  note dir = direct_slots [OF tree_okD(1) [OF tree], of ?rd]
  have "distinct (filter (\<lambda>a. a \<noteq> 0) (take NDIRECT ?as))"
    unfolding dir(2)
  proof (rule distinct_nonzero_map)
    fix i j :: nat
    assume "i < NDIRECT" "j < NDIRECT" "slot_addr ?rd ?as (Direct i) \<noteq> 0"
      "slot_addr ?rd ?as (Direct i) = slot_addr ?rd ?as (Direct j)"
    then have "Direct i = Direct j" by (intro tree_okD(3) [OF tree]) simp_all
    then show "i = j" by simp
  qed
  moreover have "set (take NDIRECT ?as) - {0} \<subseteq> file_area B sb (i_dev ip) d"
    unfolding dir(1) by (rule addrs_of_area [OF tree]) auto
  ultimately obtain d' where "free_nonzero (bfree B sb (i_dev ip)) (take NDIRECT ?as) d = Inr d'"
      "released B sb (i_dev ip) (set (take NDIRECT ?as) - {0}) d d'"
    by (rule free_nonzero_released [OF fs])
  with that show thesis by (simp add: itrunc_direct_def dir(1))
qed

text \<open>The state between the parts: \<open>X\<close> has been freed, the rest of the tree is still owned.\<close>

definition partly_freed :: "'d bio \<Rightarrow> superblock \<Rightarrow> u32 \<Rightarrow> u32 list \<Rightarrow> slot set \<Rightarrow> 'd \<Rightarrow> 'd \<Rightarrow> bool" where
  "partly_freed B sb dev as S d d' \<longleftrightarrow> S \<subseteq> {t. vslot t} \<and>
     released B sb dev (addrs_of (bread B d dev) as S) d d'"

lemma partly_freed_area:
  assumes ok: "file_ok B sb dev as d" and pf: "partly_freed B sb dev as S d d1"
    and T: "T \<subseteq> {t. vslot t}" "S \<inter> T = {}"
  shows "addrs_of (bread B d dev) as T \<subseteq> file_area B sb dev d1"
proof -
  have tree: "tree_ok (file_area B sb dev d) (bread B d dev) as" using ok by (simp add: file_ok_def)
  from pf have "released B sb dev (addrs_of (bread B d dev) as S) d d1" "S \<subseteq> {t. vslot t}"
    by (auto simp: partly_freed_def)
  with addrs_of_area [OF tree T(1)] addrs_of_disjoint [OF tree, of S T] T show ?thesis
    by (auto simp: released_area)
qed

lemma partly_freed_step:
  assumes "partly_freed B sb dev as S d d1" and "T \<subseteq> {t. vslot t}"
    and "released B sb dev (addrs_of (bread B d dev) as T) d1 d2"
  shows "partly_freed B sb dev as (S \<union> T) d d2"
  using assms(1,2) released_trans [OF _ assms(3)] unfolding partly_freed_def addrs_of_Un by simp

lemma itrunc_indirect_spec:
  assumes ok: "file_ok B sb (i_dev ip) as d" and pf: "partly_freed B sb (i_dev ip) as S d d1"
    and S: "S \<inter> below Ind = {}" and a: "i_addrs ip ! NDIRECT = as ! NDIRECT"
  obtains d2 where "itrunc_indirect B sb ip d1 = Inr (ip\<lparr>i_addrs := (i_addrs ip)[NDIRECT := 0]\<rparr>, d2)"
    "partly_freed B sb (i_dev ip) as (S \<union> below Ind) d d2"
proof (cases "as ! NDIRECT = 0")
  case True
  then have "addrs_of (bread B d (i_dev ip)) as (below Ind) = {}"
    by (auto simp: addrs_of_def below_def entry_at_def)
  then have "partly_freed B sb (i_dev ip) as (S \<union> below Ind) d d1"
    using pf below_valid [of Ind] by (simp add: partly_freed_def addrs_of_Un)
  moreover have "ip\<lparr>i_addrs := (i_addrs ip)[NDIRECT := 0]\<rparr> = ip"
    using True a list_update_id [of "i_addrs ip" NDIRECT] by simp
  ultimately show thesis using True a that by (simp add: itrunc_indirect_def)
next
  case False
  let ?dev = "i_dev ip" and ?rd = "bread B d (i_dev ip)" and ?a = "as ! NDIRECT"
  have tree: "tree_ok (file_area B sb ?dev d) ?rd as" using ok by (simp add: file_ok_def)
  have sub: "subtree ?rd ?a = addrs_of ?rd as (below Ind)" "subtree_ok ?rd ?a"
    using subtree_below [of Ind ?rd as] subtree_ok_below [OF tree, of Ind] False by simp_all
  have area: "addrs_of ?rd as (below Ind) \<subseteq> file_area B sb ?dev d1"
    by (rule partly_freed_area [OF ok pf below_valid S]) simp
  have rel: "released B sb ?dev (addrs_of ?rd as S) d d1" using pf by (simp add: partly_freed_def)
  then have fs1: "fs_ok B sb ?dev d1" by (simp add: released_def)
  have rd: "bread B d1 ?dev ?a = ?rd ?a"
    using file_ok_addr(2) [OF ok, of Ind] False by (intro released_read [OF rel]) simp
  then have sub1: "subtree (bread B d1 ?dev) ?a = addrs_of ?rd as (below Ind)" "subtree_ok (bread B d1 ?dev) ?a"
    using sub by (simp_all add: subtree_def subtree_ok_def)
  obtain d2 d3 where "free_nonzero (bfree B sb ?dev) (entries (bread B d1 ?dev ?a)) d1 = Inr d2"
      "bfree B sb ?dev ?a d2 = Inr d3" "released B sb ?dev (subtree (bread B d1 ?dev) ?a) d1 d3"
    by (rule free_subtree [OF fs1 sub1(2)]) (use area sub1(1) in auto)
  with False a that partly_freed_step [OF pf below_valid] sub1(1) show thesis
    by (auto simp: itrunc_indirect_def)
qed

text \<open>The doubly-indirect part. The buffer of the doubly-indirect block itself is scribbled on, so
  the content of that one block is not kept.\<close>

definition dbl_part :: "slot set" where
  "dbl_part = insert Dbl (\<Union>i < NINDIRECT. below (DblE i))"

lemma dbl_part_valid: "dbl_part \<subseteq> {t. vslot t}"
  using vslot_parts by (auto simp: dbl_part_def)

lemma dbl_subtrees:
  assumes tree: "tree_ok U rd as" and nz: "as ! (NDIRECT + 1) \<noteq> 0"
  defines "es \<equiv> entries (rd (as ! (NDIRECT + 1)))"
  shows "distinct (filter (\<lambda>a. a \<noteq> 0) es)"
    and "\<And>a. a \<in> set es - {0} \<Longrightarrow> subtree_ok rd a"
    and "\<And>a b. a \<in> set es - {0} \<Longrightarrow> b \<in> set es - {0} \<Longrightarrow> a \<noteq> b \<Longrightarrow> subtree rd a \<inter> subtree rd b = {}"
    and "(\<Union>a \<in> set es - {0}. subtree rd a) = addrs_of rd as (\<Union>i < NINDIRECT. below (DblE i))"
proof -
  have es: "es = map (\<lambda>i. slot_addr rd as (DblE i)) [0..<NINDIRECT]"
    using entries_slots [of Dbl rd as] nz by (simp add: es_def)
  have E: "\<exists>i < NINDIRECT. a = slot_addr rd as (DblE i)" if "a \<in> set es - {0}" for a
    using that by (auto simp: es)
  have sub: "subtree rd a = addrs_of rd as (below (DblE i))" if "i < NINDIRECT" "a = slot_addr rd as (DblE i)" "a \<noteq> 0" for i a
    using that subtree_below [of "DblE i" rd as] by simp
  show "distinct (filter (\<lambda>a. a \<noteq> 0) es)"
    using subtree_ok_below [OF tree, of Dbl] nz by (simp add: subtree_ok_def es_def)
  show "subtree_ok rd a" if "a \<in> set es - {0}" for a
    using E [OF that] subtree_ok_below [OF tree, of "DblE i" for i] that by auto
  show "subtree rd a \<inter> subtree rd b = {}" if ab: "a \<in> set es - {0}" "b \<in> set es - {0}" "a \<noteq> b" for a b
  proof -
    obtain i j where ij: "i < NINDIRECT" "a = slot_addr rd as (DblE i)" "j < NINDIRECT" "b = slot_addr rd as (DblE j)"
      using E ab by metis
    with ab have "i \<noteq> j" by auto
    then have "below (DblE i) \<inter> below (DblE j) = {}" by (auto simp: below_def)
    with ij ab below_valid [of "DblE i"] below_valid [of "DblE j"] show ?thesis
      using sub [OF ij(1,2)] sub [OF ij(3,4)] addrs_of_disjoint [OF tree] by simp
  qed
  have Z: "addrs_of rd as (below (DblE i)) = {}" if "slot_addr rd as (DblE i) = 0" for i
    using that by (auto simp: addrs_of_def below_def entry_at_def)
  have "(\<Union>a \<in> set es - {0}. subtree rd a) = (\<Union>i < NINDIRECT. addrs_of rd as (below (DblE i)))"
  proof (intro subset_antisym UN_least)
    fix a assume "a \<in> set es - {0}"
    with E [OF this] sub show "subtree rd a \<subseteq> (\<Union>i < NINDIRECT. addrs_of rd as (below (DblE i)))" by blast
  next
    fix i assume i: "i \<in> {..<NINDIRECT}"
    show "addrs_of rd as (below (DblE i)) \<subseteq> (\<Union>a \<in> set es - {0}. subtree rd a)"
    proof (cases "slot_addr rd as (DblE i) = 0")
      case False
      with i have "slot_addr rd as (DblE i) \<in> set es - {0}" by (simp add: es)
      with sub [OF _ refl False] i show ?thesis by blast
    qed (use Z in blast)
  qed
  also have "\<dots> = addrs_of rd as (\<Union>i < NINDIRECT. below (DblE i))"
    unfolding addrs_of_def by blast
  finally show "(\<Union>a \<in> set es - {0}. subtree rd a) = addrs_of rd as (\<Union>i < NINDIRECT. below (DblE i))" .
qed

lemma fs_ok_bscribble:
  assumes ok: "fs_ok B sb dev d" and a: "a \<notin> bitmap_blocks sb"
  shows "fs_ok B sb dev (bscribble B d dev a x)"
    and "used_blocks B sb dev (bscribble B d dev a x) = used_blocks B sb dev d"
proof -
  have bio: "bio_ok B" using ok by (simp add: fs_ok_def)
  show u: "used_blocks B sb dev (bscribble B d dev a x) = used_blocks B sb dev d"
    by (rule used_blocks_cong) (use a bread_bscribble [OF bio] in metis)
  with ok show "fs_ok B sb dev (bscribble B d dev a x)" by (simp add: fs_ok_def)
qed

lemma itrunc_double_spec:
  assumes ok: "file_ok B sb (i_dev ip) as d" and pf: "partly_freed B sb (i_dev ip) as S d d1"
    and S: "S \<inter> dbl_part = {}" and a: "i_addrs ip ! (NDIRECT + 1) = as ! (NDIRECT + 1)"
  obtains d2 where "itrunc_double B sb ip d1 = Inr (ip\<lparr>i_addrs := (i_addrs ip)[NDIRECT + 1 := 0]\<rparr>, d2)"
    "fs_ok B sb (i_dev ip) d2"
    "used_blocks B sb (i_dev ip) d2 =
      used_blocks B sb (i_dev ip) d - addrs_of (bread B d (i_dev ip)) as (S \<union> dbl_part)"
    "\<And>x. x \<notin> bitmap_blocks sb \<Longrightarrow> x \<notin> tree_blocks (bread B d (i_dev ip)) as \<Longrightarrow>
      bread B d2 (i_dev ip) x = bread B d (i_dev ip) x"
proof (cases "as ! (NDIRECT + 1) = 0")
  case True
  then have "addrs_of (bread B d (i_dev ip)) as dbl_part = {}"
    by (auto simp: addrs_of_def below_def dbl_part_def entry_at_def)
  with pf have "fs_ok B sb (i_dev ip) d1"
    "used_blocks B sb (i_dev ip) d1 =
      used_blocks B sb (i_dev ip) d - addrs_of (bread B d (i_dev ip)) as (S \<union> dbl_part)"
    "\<And>x. x \<notin> bitmap_blocks sb \<Longrightarrow> bread B d1 (i_dev ip) x = bread B d (i_dev ip) x"
    by (simp_all add: partly_freed_def released_def addrs_of_Un)
  moreover have "ip\<lparr>i_addrs := (i_addrs ip)[NDIRECT + 1 := 0]\<rparr> = ip"
    using True a list_update_id [of "i_addrs ip" "NDIRECT + 1"] by simp
  then have "itrunc_double B sb ip d1 = Inr (ip\<lparr>i_addrs := (i_addrs ip)[NDIRECT + 1 := 0]\<rparr>, d1)"
    using True a by (simp add: itrunc_double_def Let_def)
  ultimately show thesis by (rule that [rotated])
next
  case False
  let ?dev = "i_dev ip" and ?rd = "bread B d (i_dev ip)" and ?a = "as ! (NDIRECT + 1)"
  let ?T = "\<Union>i < NINDIRECT. below (DblE i)"
  have tree: "tree_ok (file_area B sb ?dev d) ?rd as" and bio: "bio_ok B"
    using ok file_ok_bio [OF ok] by (auto simp: file_ok_def)
  note D = dbl_subtrees [OF tree False]
  have rel: "released B sb ?dev (addrs_of ?rd as S) d d1" and Sv: "S \<subseteq> {t. vslot t}"
    using pf by (auto simp: partly_freed_def)
  have am: "?a \<notin> meta_blocks sb" "?a \<notin> bitmap_blocks sb" using file_ok_addr(2,3) [OF ok, of Dbl] False by simp_all
  have Tv: "?T \<subseteq> {t. vslot t}" and ST: "S \<inter> ?T = {}" and SD: "(S \<union> ?T) \<inter> {Dbl} = {}"
    using dbl_part_valid S by (auto simp: dbl_part_def below_def)
  have areaT: "addrs_of ?rd as ?T \<subseteq> file_area B sb ?dev d1"
    by (rule partly_freed_area [OF ok pf Tv ST])
  have "\<exists>d2. itrunc_dbl B sb ?dev (entries (?rd ?a)) d1 = Inr d2 \<and>
      released B sb ?dev (\<Union>a \<in> set (entries (?rd ?a)) - {0}. subtree ?rd a) d1 d2"
  proof (rule itrunc_dbl_released [OF _ D(1)])
    show "fs_ok B sb ?dev d1" using rel by (simp add: released_def)
    show "subtree_ok ?rd a \<and> subtree ?rd a \<subseteq> file_area B sb ?dev d1"
      if "a \<in> set (entries (?rd ?a)) - {0}" for a
      using D(2) [OF that] that areaT unfolding D(4) [symmetric] by blast
  qed (use D(3) released_read [OF rel] in auto)
  then obtain d2 where d2: "itrunc_dbl B sb ?dev (entries (?rd ?a)) d1 = Inr d2"
    and rel2: "released B sb ?dev (addrs_of ?rd as ?T) d1 d2" unfolding D(4) by blast
  note pf2 = partly_freed_step [OF pf Tv rel2]
  define d3 where "d3 = bscribble B d2 ?dev ?a (replicate BSIZE 0)"
  have fs2: "fs_ok B sb ?dev d2" using rel2 by (simp add: released_def)
  note d3 = fs_ok_bscribble [OF fs2 am(2), of "replicate BSIZE 0", folded d3_def]
  have "addrs_of ?rd as {Dbl} = {?a}" using False by (auto simp: addrs_of_def)
  with partly_freed_area [OF ok pf2 _ SD] d3(2) have "?a \<in> file_area B sb ?dev d3"
    by (simp add: file_area_def)
  then obtain d4 where d4: "bfree B sb ?dev ?a d3 = Inr d4" "released B sb ?dev {?a} d3 d4"
    by (rule bfree_released [OF d3(1)])
  have "bread B d1 ?dev ?a = ?rd ?a" by (rule released_read [OF rel am(1)])
  with False a d2 d4(1) have
    "itrunc_double B sb ip d1 = Inr (ip\<lparr>i_addrs := (i_addrs ip)[NDIRECT + 1 := 0]\<rparr>, d4)"
    by (simp add: itrunc_double_def Let_def d3_def)
  moreover have "fs_ok B sb ?dev d4" using d4(2) by (simp add: released_def)
  moreover have "addrs_of ?rd as (S \<union> dbl_part) = addrs_of ?rd as (S \<union> ?T) \<union> {?a}"
    using False by (auto simp: addrs_of_def dbl_part_def)
  then have "used_blocks B sb ?dev d4 = used_blocks B sb ?dev d - addrs_of ?rd as (S \<union> dbl_part)"
    using d4(2) d3(2) pf2 by (auto simp: released_def partly_freed_def)
  moreover have "bread B d4 ?dev x = ?rd x" if x: "x \<notin> bitmap_blocks sb" "x \<notin> tree_blocks ?rd as" for x
  proof -
    have "slot_addr ?rd as Dbl \<in> tree_blocks ?rd as"
      using False unfolding tree_blocks_def by (auto simp del: slot_addr.simps simp: slot_addr.simps(4) intro!: exI [of _ Dbl])
    then have "x \<noteq> ?a" using x(2) by auto
    then have "bread B d3 ?dev x = bread B d2 ?dev x" unfolding d3_def by (intro bread_bscribble [OF bio]) simp
    with x(1) d4(2) pf2 show ?thesis by (simp add: released_def partly_freed_def)
  qed
  ultimately show thesis by (rule that)
qed

text \<open>\<open>itrunc\<close> on a well-formed file returns, with an empty inode, and frees exactly the blocks of
  its tree; only the map, those blocks and the block of the inode are written.\<close>

lemma itrunc_spec:
  assumes ok: "file_ok B sb (i_dev ip) (i_addrs ip) d" and i: "i_inum ip < sb_ninodes sb"
  defines "ip' \<equiv> ip\<lparr>i_addrs := replicate 13 0, i_size := 0\<rparr>"
  obtains d' where "itrunc B sb ip d = Inr (ip', d')" "fs_ok B sb (i_dev ip) d'"
    "used_blocks B sb (i_dev ip) d' =
      used_blocks B sb (i_dev ip) d - tree_blocks (bread B d (i_dev ip)) (i_addrs ip)"
    "\<And>j. j < sb_ninodes sb \<Longrightarrow> disk_inode B sb (i_dev ip) d' j =
      (if j = i_inum ip then dinode_of ip' else disk_inode B sb (i_dev ip) d j)"
    "\<And>x. x \<notin> bitmap_blocks sb \<Longrightarrow> x \<notin> tree_blocks (bread B d (i_dev ip)) (i_addrs ip) \<Longrightarrow>
      x \<noteq> IBLOCK (i_inum ip) sb \<Longrightarrow> bread B d' (i_dev ip) x = bread B d (i_dev ip) x"
proof -
  let ?dev = "i_dev ip" and ?as = "i_addrs ip" and ?rd = "bread B d (i_dev ip)"
  have len: "length ?as = 13" and bio: "bio_ok B" using file_ok_length [OF ok] file_ok_bio [OF ok] by simp_all
  let ?D = "Direct ` {..<NDIRECT} :: slot set"
  obtain d1 where d1: "itrunc_direct B sb ip d = Inr (ip\<lparr>i_addrs := replicate NDIRECT 0 @ drop NDIRECT ?as\<rparr>, d1)"
    "released B sb ?dev (addrs_of ?rd ?as ?D) d d1" by (rule itrunc_direct_spec [OF ok])
  define ip1 where "ip1 = ip\<lparr>i_addrs := replicate NDIRECT 0 @ drop NDIRECT ?as\<rparr>"
  have pf1: "partly_freed B sb ?dev ?as ?D d d1" using d1(2) by (auto simp: partly_freed_def)
  have ip1: "i_dev ip1 = ?dev" "i_addrs ip1 ! NDIRECT = ?as ! NDIRECT"
    "i_addrs ip1 ! (NDIRECT + 1) = ?as ! (NDIRECT + 1)"
    using len by (simp_all add: ip1_def nth_append)
  obtain d2 where d2: "itrunc_indirect B sb ip1 d1 = Inr (ip1\<lparr>i_addrs := (i_addrs ip1)[NDIRECT := 0]\<rparr>, d2)"
    "partly_freed B sb ?dev ?as (?D \<union> below Ind) d d2"
    by (rule itrunc_indirect_spec [where ip = ip1, unfolded ip1(1), OF ok pf1 _ ip1(2)]) (auto simp: below_def)
  define ip2 where "ip2 = ip1\<lparr>i_addrs := (i_addrs ip1)[NDIRECT := 0]\<rparr>"
  have ip2: "i_dev ip2 = ?dev" "i_addrs ip2 ! (NDIRECT + 1) = ?as ! (NDIRECT + 1)"
    using ip1 by (simp_all add: ip2_def)
  have all: "?D \<union> below Ind \<union> dbl_part = {t. vslot t}" using vslot_parts by (simp add: dbl_part_def Un_assoc)
  have disj: "(?D \<union> below Ind) \<inter> dbl_part = {}" by (auto simp: below_def dbl_part_def)
  obtain d3 where d3: "itrunc_double B sb ip2 d2 = Inr (ip2\<lparr>i_addrs := (i_addrs ip2)[NDIRECT + 1 := 0]\<rparr>, d3)"
    "fs_ok B sb ?dev d3" "used_blocks B sb ?dev d3 = used_blocks B sb ?dev d - tree_blocks ?rd ?as"
    "\<And>x. x \<notin> bitmap_blocks sb \<Longrightarrow> x \<notin> tree_blocks ?rd ?as \<Longrightarrow> bread B d3 ?dev x = ?rd x"
    using itrunc_double_spec [where ip = ip2, unfolded ip2(1), OF ok d2(2) disj ip2(2)]
    unfolding all tree_blocks_addrs by blast
  have "i_addrs ip2 = replicate NDIRECT 0 @ [0, ?as ! 12]"
    using len by (intro nth_equalityI)
      (auto simp: ip2_def ip1_def nth_append nth_list_update nth_Cons' intro!: arg_cong [where f = "(!) (i_addrs ip)"])
  then have "ip2\<lparr>i_addrs := (i_addrs ip2)[NDIRECT + 1 := 0], i_size := 0\<rparr> = ip'"
    by (simp add: ip'_def ip2_def ip1_def numeral_eq_Suc)
  with d1 d2 d3 have run: "itrunc B sb ip d = Inr (ip', iupdate B sb ip' d3)"
    by (simp add: itrunc_def ip1_def [symmetric] ip2_def [symmetric])
  have l': "length (i_addrs ip') = 13" "i_dev ip' = ?dev" "i_inum ip' = i_inum ip" by (simp_all add: ip'_def)
  note fr = iupdate_frame [of B sb ip' d3, unfolded l', OF d3(2) refl i]
  show thesis
  proof (rule that [OF run])
    show "fs_ok B sb ?dev (iupdate B sb ip' d3)" by (rule fr(2))
    show "used_blocks B sb ?dev (iupdate B sb ip' d3) = used_blocks B sb ?dev d - tree_blocks ?rd ?as"
      using fr(1) d3(3) by simp
    show "disk_inode B sb ?dev (iupdate B sb ip' d3) j =
        (if j = i_inum ip then dinode_of ip' else disk_inode B sb ?dev d j)" if j: "j < sb_ninodes sb" for j
    proof -
      have "IBLOCK j sb \<notin> bitmap_blocks sb" "IBLOCK j sb \<notin> tree_blocks ?rd ?as"
        using file_ok_meta [OF ok] ok j by (auto simp: file_ok_def fs_ok_def inode_blocks_def meta_blocks_def)
      then have "bread B d3 ?dev (IBLOCK j sb) = ?rd (IBLOCK j sb)" by (rule d3(4))
      then show ?thesis
        using disk_inode_iupdate [OF bio l'(1), of sb d3 j] l' by (simp add: disk_inode_def)
    qed
    fix x assume "x \<notin> bitmap_blocks sb" "x \<notin> tree_blocks ?rd ?as" "x \<noteq> IBLOCK (i_inum ip) sb"
    then show "bread B (iupdate B sb ip' d3) ?dev x = ?rd x"
      using d3(4) l' by (simp add: bread_iupdate [OF bio l'(1)])
  qed
qed

section \<open>Properties\<close>

text \<open>C1: \<open>itrunc\<close> on a well-formed file never panics (no block is freed twice, at any level of the
  tree); it leaves the inode with no block and size 0, in memory and on the disk, where no other inode changes;
  it frees exactly the blocks of the file, the indirect ones included; and it writes no block but the map, the inode's
  block and blocks of the file itself.\<close>

theorem itrunc_correct:
  assumes "file_ok B sb (i_dev ip) (i_addrs ip) d" and "i_inum ip < sb_ninodes sb"
  shows "\<exists>d'. itrunc B sb ip d = Inr (ip\<lparr>i_addrs := replicate 13 0, i_size := 0\<rparr>, d') \<and>
     fs_ok B sb (i_dev ip) d' \<and>
     used_blocks B sb (i_dev ip) d' =
       used_blocks B sb (i_dev ip) d - tree_blocks (bread B d (i_dev ip)) (i_addrs ip) \<and>
     (\<forall>j < sb_ninodes sb. disk_inode B sb (i_dev ip) d' j =
        (if j = i_inum ip then dinode_of (ip\<lparr>i_addrs := replicate 13 0, i_size := 0\<rparr>)
         else disk_inode B sb (i_dev ip) d j)) \<and>
     (\<forall>x. x \<notin> bitmap_blocks sb \<longrightarrow> x \<notin> tree_blocks (bread B d (i_dev ip)) (i_addrs ip) \<longrightarrow>
        x \<noteq> IBLOCK (i_inum ip) sb \<longrightarrow> bread B d' (i_dev ip) x = bread B d (i_dev ip) x)"
  by (rule itrunc_spec [OF assms]) blast

theorem itrunc_correct_witness:
  "\<exists>d'. itrunc ram_bio ex_sb ex_ip ex_disk = Inr (ex_ip\<lparr>i_addrs := replicate 13 0, i_size := 0\<rparr>, d') \<and>
     used_blocks ram_bio ex_sb 1 d' = {0, 1, 2, 3}"
proof -
  have ip: "i_dev ex_ip = 1" "i_addrs ex_ip = ex_addrs" "i_inum ex_ip = 1" by (simp_all add: ex_ip_def)
  have "{0, 1, 2, 3, 4, 5} - {4, 5} = {0, 1, 2, 3 :: u32}" by auto
  then show ?thesis
    using itrunc_correct [of ram_bio ex_sb ex_ip ex_disk, unfolded ip ex_tree_blocks ex_used, OF ex_file_ok] by auto
qed

text \<open>After \<open>iupdate\<close>, the inode's slot on the disk holds exactly the in-memory fields and every
  other inode of the disk is unchanged, including the fifteen that share its block.\<close>

theorem iupdate_correct:
  assumes "bio_ok B" and "length (i_addrs ip) = NDIRECT + 2"
  shows "disk_inode B sb (i_dev ip) (iupdate B sb ip d) inum =
     (if inum = i_inum ip then dinode_of ip else disk_inode B sb (i_dev ip) d inum)"
  using assms by (intro disk_inode_iupdate) simp_all

theorem iupdate_correct_witness:
  "disk_inode ram_bio ex_sb 1 (iupdate ram_bio ex_sb ex_ip ex_disk) 1 = dinode_of ex_ip"
  using iupdate_correct [OF ram_bio_ok, of ex_ip ex_sb ex_disk 1] by (simp add: ex_ip_def ex_addrs_def)

end
