(* ===== verification/Kmem.thy ===== *)
theory Kmem
  imports Prelude
begin

text \<open>
  Memory as the file system sees it: \<open>either_copyout\<close> and \<open>either_copyin\<close> of
  \<open>HW3/source/proc.c\<close>, which copy to and from a user or a kernel address.

  Kernel memory is a function from addresses to bytes. User memory is behind the page table of
  the running process (\<open>copyout\<close> and \<open>copyin\<close> of \<open>vm.c\<close>, not part of the sources): the parameter
  \<open>'u uvm\<close> over an unspecified type of user memories. \<open>copyout U um dst src\<close> gives the return value
  and the new user memory; \<open>copyin U um src old\<close> gives the return value and what becomes of
  the destination, whose content was \<open>old\<close>; \<open>ubyte U um a\<close> is the byte mapped at \<open>a\<close>.
  \<open>uvm_ok\<close> is the documented behaviour: a copy returns 0 or -1, copying two adjacent
  pieces is copying the pieces one after the other, and a copy in that returns 0 has fetched the mapped bytes.
\<close>

section \<open>Definitions\<close>

record 'u uvm =
  copyout :: "'u \<Rightarrow> u64 \<Rightarrow> u8 list \<Rightarrow> int \<times> 'u"
  copyin :: "'u \<Rightarrow> u64 \<Rightarrow> u8 list \<Rightarrow> int \<times> u8 list"
  ubyte :: "'u \<Rightarrow> u64 \<Rightarrow> u8"

record 'u mem =
  kmem :: "u64 \<Rightarrow> u8"
  umem :: 'u

text \<open>\<open>memmove\<close> to and from a kernel address.\<close>

definition kstore :: "u64 \<Rightarrow> u8 list \<Rightarrow> (u64 \<Rightarrow> u8) \<Rightarrow> u64 \<Rightarrow> u8" where
  "kstore a bs m = (\<lambda>x. if unat (x - a) < length bs then bs ! unat (x - a) else m x)"

definition kload :: "(u64 \<Rightarrow> u8) \<Rightarrow> u64 \<Rightarrow> nat \<Rightarrow> u8 list" where
  "kload m a n = map (\<lambda>i. m (a + of_nat i)) [0..<n]"

definition either_copyout :: "'u uvm \<Rightarrow> bool \<Rightarrow> u64 \<Rightarrow> u8 list \<Rightarrow> 'u mem \<Rightarrow> int \<times> 'u mem" where
  "either_copyout U user_dst dst src s =
     (if user_dst then let (r, um) = copyout U (umem s) dst src in (r, s\<lparr>umem := um\<rparr>)
      else (0, s\<lparr>kmem := kstore dst src (kmem s)\<rparr>))"

text \<open>\<open>old\<close> is the content of the \<open>len\<close> bytes at the destination.\<close>

definition either_copyin :: "'u uvm \<Rightarrow> u8 list \<Rightarrow> bool \<Rightarrow> u64 \<Rightarrow> 'u mem \<Rightarrow> int \<times> u8 list" where
  "either_copyin U old user_src src s =
     (if user_src then copyin U (umem s) src old
      else (0, kload (kmem s) src (length old)))"

definition uvm_ok :: "'u uvm \<Rightarrow> bool" where
  "uvm_ok U \<longleftrightarrow>
     (\<forall>um a. copyout U um a [] = (0, um)) \<and>
     (\<forall>um a bs. fst (copyout U um a bs) \<in> {0, -1}) \<and>
     (\<forall>um a xs ys. length xs + length ys < 2 ^ 32 \<longrightarrow> copyout U um a (xs @ ys) =
        (let (r, um') = copyout U um a xs in
         if r = -1 then (-1, um') else copyout U um' (a + of_nat (length xs)) ys)) \<and>
     (\<forall>um a old. length (snd (copyin U um a old)) = length old \<and>
        fst (copyin U um a old) \<in> {0, -1}) \<and>
     (\<forall>um a old i. fst (copyin U um a old) = 0 \<longrightarrow> i < length old \<longrightarrow>
        snd (copyin U um a old) ! i = ubyte U um (a + of_nat i))"

text \<open>The byte a copy from address \<open>a\<close> finds.\<close>

definition src_byte :: "'u uvm \<Rightarrow> bool \<Rightarrow> 'u mem \<Rightarrow> u64 \<Rightarrow> u8" where
  "src_byte U user_src s a = (if user_src then ubyte U (umem s) a else kmem s a)"

text \<open>A user memory in which every address is mapped: the instance the witnesses use.\<close>

definition flat_uvm :: "(u64 \<Rightarrow> u8) uvm" where
  "flat_uvm = \<lparr>copyout = (\<lambda>um a bs. (0, kstore a bs um)),
     copyin = (\<lambda>um a old. (0, kload um a (length old))), ubyte = (\<lambda>um a. um a)\<rparr>"

section \<open>Facts\<close>

lemma length_kload [simp]: "length (kload m a n) = n"
  by (simp add: kload_def)

lemma nth_kload [simp]: "i < n \<Longrightarrow> kload m a n ! i = m (a + of_nat i)"
  by (simp add: kload_def)

lemma kload_kstore: "length bs < 2 ^ 64 \<Longrightarrow> kload (kstore a bs m) a (length bs) = bs"
  by (intro nth_equalityI) (simp_all add: kstore_def unat_of_nat)

lemma kstore_Nil [simp]: "kstore a [] m = m"
  by (simp add: kstore_def)

lemma kstore_append:
  assumes "length xs + length ys < 2 ^ 64"
  shows "kstore a (xs @ ys) m = kstore (a + of_nat (length xs)) ys (kstore a xs m)"
proof
  fix x
  define k where "k = unat (x - a)"
  have k: "k < 2 ^ 64" unfolding k_def using unsigned_less [of "x - a", where 'a = nat] by simp
  have x: "x - a = of_nat k" by (simp add: k_def)
  have e: "x - (a + of_nat (length xs)) = of_nat k - of_nat (length xs)" by (simp add: x [symmetric])
  have ge: "unat (x - (a + of_nat (length xs))) = k - length xs" if "length xs \<le> k"
  proof -
    have "x - (a + of_nat (length xs)) = of_nat (k - length xs)"
      unfolding e using that by (simp add: of_nat_diff)
    with k show ?thesis by (simp add: unat_of_nat)
  qed
  have lt: "\<not> unat (x - (a + of_nat (length xs))) < length ys" if "k < length xs"
  proof
    assume u: "unat (x - (a + of_nat (length xs))) < length ys"
    have "x - a = (x - (a + of_nat (length xs))) + of_nat (length xs)" by simp
    also have "\<dots> = of_nat (unat (x - (a + of_nat (length xs))) + length xs)" by simp
    finally have "k = unat (x - (a + of_nat (length xs))) + length xs"
      using u assms unfolding k_def by (simp only: unat_of_nat) (simp del: of_nat_add)
    with that show False by simp
  qed
  show "kstore a (xs @ ys) m x = kstore (a + of_nat (length xs)) ys (kstore a xs m) x"
  proof (cases "k < length xs")
    case True
    with lt show ?thesis by (simp add: kstore_def k_def [symmetric] nth_append)
  next
    case False
    with ge show ?thesis by (auto simp: kstore_def k_def [symmetric] nth_append)
  qed
qed

lemma either_copyout_Nil:
  "user \<longrightarrow> uvm_ok U \<Longrightarrow> either_copyout U user a [] s = (0, s)"
  by (auto simp: either_copyout_def uvm_ok_def)

lemma either_copyout_append:
  assumes "user \<longrightarrow> uvm_ok U" and len: "length xs + length ys < 2 ^ 32"
  shows "either_copyout U user a (xs @ ys) s =
    (let (r, s') = either_copyout U user a xs s in
     if r = -1 then (-1, s') else either_copyout U user (a + of_nat (length xs)) ys s')"
proof (cases user)
  case True
  with assms have "copyout U (umem s) a (xs @ ys) = (let (r, um') = copyout U (umem s) a xs in
         if r = -1 then (-1, um') else copyout U um' (a + of_nat (length xs)) ys)"
    by (simp add: uvm_ok_def)
  with True show ?thesis by (simp add: either_copyout_def split_def Let_def)
next
  case False
  with len show ?thesis by (simp add: either_copyout_def kstore_append)
qed

lemma either_copyin_ok:
  assumes "user \<longrightarrow> uvm_ok U" and "either_copyin U old user a s = (r, new)"
  shows "length new = length old" and "r = 0 \<or> r = -1" and "\<not> user \<Longrightarrow> r = 0"
    and "r \<noteq> -1 \<Longrightarrow> i < length old \<Longrightarrow> new ! i = src_byte U user s (a + of_nat i)"
proof -
  have "user \<Longrightarrow> copyin U (umem s) a old = (r, new)" "\<not> user \<Longrightarrow> r = 0 \<and> new = kload (kmem s) a (length old)"
    using assms(2) by (auto simp: either_copyin_def)
  moreover have "user \<Longrightarrow> length (snd (copyin U (umem s) a old)) = length old \<and>
      fst (copyin U (umem s) a old) \<in> {0, -1}"
    using assms(1) unfolding uvm_ok_def by blast
  moreover have "user \<Longrightarrow> fst (copyin U (umem s) a old) = 0 \<Longrightarrow> i < length old \<Longrightarrow>
      snd (copyin U (umem s) a old) ! i = ubyte U (umem s) (a + of_nat i)"
    using assms(1) unfolding uvm_ok_def by blast
  ultimately show "length new = length old" "r = 0 \<or> r = -1" "\<not> user \<Longrightarrow> r = 0"
    "r \<noteq> -1 \<Longrightarrow> i < length old \<Longrightarrow> new ! i = src_byte U user s (a + of_nat i)"
    by (cases user; auto simp: src_byte_def)+
qed

lemma flat_uvm_ok: "uvm_ok flat_uvm"
  by (auto simp: uvm_ok_def flat_uvm_def kstore_append)

end
