(* ===== verification/Fs_Rw.thy ===== *)
theory Fs_Rw
  imports Fs_Itrunc Kmem
begin

text \<open>
  \<open>stati\<close>, \<open>readi\<close> and \<open>writei\<close> of \<open>HW4/source/fs.c\<close>. Offsets and counts are 32-bit words, as in the
  code, so the guards against wrap-around are the code's own. The content of a file
  is abstracted to the list \<open>content\<close> of its \<open>ip->size\<close> bytes; \<open>readi\<close> is then one copy of a piece of
  that list, and \<open>writei\<close> an update of it.
\<close>

section \<open>Definitions\<close>

record stat =
  st_dev :: u32
  st_ino :: u32
  st_type :: u16
  st_nlink :: u16
  st_size :: u64

definition stati :: "inode \<Rightarrow> stat" where
  "stati ip = \<lparr>st_dev = i_dev ip, st_ino = i_inum ip, st_type = i_type ip, st_nlink = i_nlink ip,
     st_size = ucast (i_size ip)\<rparr>"

text \<open>\<open>min(n - tot, BSIZE - off%BSIZE)\<close>\<close>

definition rw_len :: "u32 \<Rightarrow> u32 \<Rightarrow> u32 \<Rightarrow> u32" where
  "rw_len n tot off = min (n - tot) (1024 - off mod 1024)"

lemma rw_len_bounds:
  assumes "tot < n"
  shows "unat (n - (tot + rw_len n tot off)) < unat (n - tot)"
    and "0 < unat (rw_len n tot off)" and "unat (rw_len n tot off) \<le> unat n - unat tot"
    and "unat (off mod 1024) + unat (rw_len n tot off) \<le> BSIZE"
    and "unat (rw_len n tot off) = min (unat n - unat tot) (BSIZE - unat off mod BSIZE)"
proof -
  have d: "unat (n - tot) = unat n - unat tot" using assms by (simp add: unat_sub order_less_imp_le)
  have b: "unat (1024 - off mod 1024) = BSIZE - unat off mod BSIZE"
  proof -
    have "off mod 1024 \<le> 1024" by (simp add: word_le_nat_alt unat_mod less_imp_le)
    then show ?thesis by (simp add: unat_sub unat_mod)
  qed
  show m: "unat (rw_len n tot off) = min (unat n - unat tot) (BSIZE - unat off mod BSIZE)"
    using d b by (simp add: rw_len_def min_def word_le_nat_alt)
  have t: "unat tot < unat n" using assms by (simp add: word_less_nat_alt)
  then show p: "0 < unat (rw_len n tot off)" by (simp add: m)
  show "unat (rw_len n tot off) \<le> unat n - unat tot" by (simp add: m)
  show "unat (off mod 1024) + unat (rw_len n tot off) \<le> BSIZE" by (simp add: m unat_mod)
  have "rw_len n tot off \<le> n - tot" by (simp add: rw_len_def)
  then have "unat (n - tot - rw_len n tot off) = unat (n - tot) - unat (rw_len n tot off)" by (rule unat_sub)
  with p t d show "unat (n - (tot + rw_len n tot off)) < unat (n - tot)" by (simp add: diff_diff_eq)
qed

function readi_loop :: "'d bio \<Rightarrow> superblock \<Rightarrow> 'u uvm \<Rightarrow> bool \<Rightarrow> u32 \<Rightarrow> u32 \<Rightarrow> u32 \<Rightarrow> u64 \<Rightarrow>
    inode \<Rightarrow> 'd \<Rightarrow> 'u mem \<Rightarrow> (u32 \<times> inode \<times> 'd \<times> 'u mem) res" where
  "readi_loop B sb U user_dst n tot off dst ip d s =
     (if tot < n then
        case bmap B sb ip (off div 1024) d of
          Inl e \<Rightarrow> Inl e
        | Inr (addr, ip, d) \<Rightarrow>
            if addr = 0 then Inr (tot, ip, d, s)
            else let data = bread B d (i_dev ip) addr; m = rw_len n tot off in
              case either_copyout U user_dst dst (chunk (unat (off mod 1024)) (unat m) data) s of
                (r, s) \<Rightarrow>
                  if r = -1 then Inr (-1, ip, d, s)
                  else readi_loop B sb U user_dst n (tot + m) (off + m) (dst + ucast m) ip d s
      else Inr (tot, ip, d, s))"
  by pat_completeness auto
termination
  by (relation "measure (\<lambda>(B, sb, U, user_dst, n, tot, off, dst, ip, d, s). unat (n - tot))")
    (auto simp: rw_len_bounds)

declare readi_loop.simps [simp del]

definition readi :: "'d bio \<Rightarrow> superblock \<Rightarrow> 'u uvm \<Rightarrow> inode \<Rightarrow> bool \<Rightarrow> u64 \<Rightarrow> u32 \<Rightarrow> u32 \<Rightarrow>
    'd \<Rightarrow> 'u mem \<Rightarrow> (u32 \<times> inode \<times> 'd \<times> 'u mem) res" where
  "readi B sb U ip user_dst dst off n d s =
     (if off > i_size ip \<or> off + n < off then Inr (0, ip, d, s)
      else let n = (if off + n > i_size ip then i_size ip - off else n) in
        readi_loop B sb U user_dst n 0 off dst ip d s)"

text \<open>The loop of \<open>writei\<close> gives \<open>tot\<close> and the final \<open>off\<close>. When \<open>either_copyin\<close> fails, the buffer may
  have been changed and is released without \<open>log_write\<close>.\<close>

function writei_loop :: "'d bio \<Rightarrow> superblock \<Rightarrow> 'u uvm \<Rightarrow> bool \<Rightarrow> 'u mem \<Rightarrow> u32 \<Rightarrow> u32 \<Rightarrow> u32 \<Rightarrow> u64 \<Rightarrow>
    inode \<Rightarrow> 'd \<Rightarrow> (u32 \<times> u32 \<times> inode \<times> 'd) res" where
  "writei_loop B sb U user_src s n tot off src ip d =
     (if tot < n then
        case bmap B sb ip (off div 1024) d of
          Inl e \<Rightarrow> Inl e
        | Inr (addr, ip, d) \<Rightarrow>
            if addr = 0 then Inr (tot, off, ip, d)
            else let data = bread B d (i_dev ip) addr; m = rw_len n tot off; o' = unat (off mod 1024) in
              case either_copyin U (chunk o' (unat m) data) user_src src s of
                (r, new) \<Rightarrow>
                  if r = -1 then Inr (tot, off, ip, bscribble B d (i_dev ip) addr (blit o' new data))
                  else writei_loop B sb U user_src s n (tot + m) (off + m) (src + ucast m) ip
                    (log_write B d (i_dev ip) addr (blit o' new data))
      else Inr (tot, off, ip, d))"
  by pat_completeness auto
termination
  by (relation "measure (\<lambda>(B, sb, U, user_src, s, n, tot, off, src, ip, d). unat (n - tot))")
    (auto simp: rw_len_bounds)

declare writei_loop.simps [simp del]

definition writei :: "'d bio \<Rightarrow> superblock \<Rightarrow> 'u uvm \<Rightarrow> inode \<Rightarrow> bool \<Rightarrow> u64 \<Rightarrow> u32 \<Rightarrow> u32 \<Rightarrow>
    'u mem \<Rightarrow> 'd \<Rightarrow> (u32 \<times> inode \<times> 'd) res" where
  "writei B sb U ip user_src src off n s d =
     (if off > i_size ip \<or> off + n < off then Inr (-1, ip, d)
      else if unat (off + n) > MAXFILE * BSIZE then Inr (-1, ip, d)
      else bindE (writei_loop B sb U user_src s n 0 off src ip d) (\<lambda>(tot, off, ip, d).
        let ip = (if off > i_size ip then ip\<lparr>i_size := off\<rparr> else ip) in
        Inr (tot, ip, iupdate B sb ip d)))"

section \<open>The content of a file\<close>

definition fbyte :: "(u32 \<Rightarrow> u8 list) \<Rightarrow> u32 list \<Rightarrow> nat \<Rightarrow> u8" where
  "fbyte rd as i = file_block rd as (i div BSIZE) ! (i mod BSIZE)"

definition content :: "(u32 \<Rightarrow> u8 list) \<Rightarrow> u32 list \<Rightarrow> nat \<Rightarrow> u8 list" where
  "content rd as sz = map (fbyte rd as) [0..<sz]"

text \<open>The first \<open>sz\<close> bytes have their blocks.\<close>

definition backed :: "(u32 \<Rightarrow> u8 list) \<Rightarrow> u32 list \<Rightarrow> nat \<Rightarrow> bool" where
  "backed rd as sz \<longleftrightarrow> (\<forall>n. n * BSIZE < sz \<longrightarrow> slot_addr rd as (data_slot n) \<noteq> 0)"

text \<open>The invariant of an inode with its content: a well-formed tree, a size that the tree can hold,
  and no hole below the size.\<close>

definition inode_ok :: "'d bio \<Rightarrow> superblock \<Rightarrow> inode \<Rightarrow> 'd \<Rightarrow> bool" where
  "inode_ok B sb ip d \<longleftrightarrow> file_ok B sb (i_dev ip) (i_addrs ip) d \<and>
     unat (i_size ip) \<le> MAXFILE * BSIZE \<and>
     backed (bread B d (i_dev ip)) (i_addrs ip) (unat (i_size ip))"

abbreviation icontent :: "'d bio \<Rightarrow> inode \<Rightarrow> 'd \<Rightarrow> u8 list" where
  "icontent B ip d \<equiv> content (bread B d (i_dev ip)) (i_addrs ip) (unat (i_size ip))"

lemma chunk_add: "chunk off (m + k) xs = chunk off m xs @ chunk (off + m) k xs"
  by (simp add: chunk_def take_add) (simp add: add.commute)

lemma chunk_none [simp]: "chunk off 0 xs = []"
  by (simp add: chunk_def)

lemma length_content [simp]: "length (content rd as sz) = sz"
  by (simp add: content_def)

lemma nth_content [simp]: "i < sz \<Longrightarrow> content rd as sz ! i = fbyte rd as i"
  by (simp add: content_def)

lemma length_file_block: "(\<And>a. length (rd a) = BSIZE) \<Longrightarrow> length (file_block rd as n) = BSIZE"
  by (simp add: file_block_def Let_def)

lemma same_block:
  assumes "off mod BSIZE + m \<le> BSIZE" and "i < m"
  shows "(off + i) div BSIZE = off div BSIZE" and "(off + i) mod BSIZE = off mod BSIZE + i"
proof -
  obtain q r where off: "off = q * BSIZE + r" "r < BSIZE" "off mod BSIZE = r" "off div BSIZE = q"
    using div_mult_mod_eq [of off BSIZE] by (metis mod_less_divisor zero_less_numeral)
  with assms have lt: "r + i < BSIZE" by linarith
  have "off + i = q * BSIZE + (r + i)" using off by simp
  then have "(off + i) div BSIZE = q" "(off + i) mod BSIZE = r + i"
    using lt by (metis div_mult_self3 div_less add_0_right zero_neq_numeral, metis mod_mult_self3 mod_less)
  then show "(off + i) div BSIZE = off div BSIZE" "(off + i) mod BSIZE = off mod BSIZE + i"
    by (simp_all only: off(3,4))
qed

lemma chunk_content:
  assumes "off + m \<le> sz" and "off mod BSIZE + m \<le> BSIZE" and len: "\<And>a. length (rd a) = BSIZE"
  shows "chunk off m (content rd as sz) = chunk (off mod BSIZE) m (file_block rd as (off div BSIZE))"
proof (rule nth_equalityI)
  show "length (chunk off m (content rd as sz)) = length (chunk (off mod BSIZE) m (file_block rd as (off div BSIZE)))"
    using assms by (simp add: length_file_block [OF len])
  fix i assume "i < length (chunk off m (content rd as sz))"
  then have i: "i < m" by simp
  with assms show "chunk off m (content rd as sz) ! i = chunk (off mod BSIZE) m (file_block rd as (off div BSIZE)) ! i"
    using same_block [OF assms(2) i] by (simp add: nth_chunk length_file_block [OF len] fbyte_def)
qed

section \<open>readi\<close>

lemma readi_loop_spec:
  assumes bio: "bio_ok B" and U: "user \<longrightarrow> uvm_ok U" and sz: "unat (i_size ip) \<le> MAXFILE * BSIZE"
    and bk: "backed (bread B d (i_dev ip)) (i_addrs ip) (unat (i_size ip))"
    and "tot \<le> n" and "unat off + (unat n - unat tot) \<le> unat (i_size ip)"
  shows "readi_loop B sb U user n tot off dst ip d s =
    (let (r, s') = either_copyout U user dst (chunk (unat off) (unat n - unat tot) (icontent B ip d)) s in
     Inr (if r = -1 then -1 else n, ip, d, s'))"
  using assms(5,6)
proof (induction "unat n - unat tot" arbitrary: tot off dst s rule: less_induct)
  case less
  note unfold = readi_loop.simps [of B sb U user n tot off dst ip d s]
  show ?case
  proof (cases "tot < n")
    case False
    with less.prems have "tot = n" by simp
    with unfold show ?thesis by (simp add: either_copyout_Nil [OF U])
  next
    case True
    define m where "m = rw_len n tot off"
    let ?as = "i_addrs ip" and ?rd = "bread B d (i_dev ip)" and ?c = "icontent B ip d"
    let ?a = "slot_addr ?rd ?as (data_slot (unat off div BSIZE))"
    note mb = rw_len_bounds [OF True, where off = off, folded m_def]
    have tn: "unat tot < unat n" using True by (simp add: word_less_nat_alt)
    then have osz: "unat off < unat (i_size ip)" using less.prems(2) by linarith
    have nz: "?a \<noteq> 0" using bk osz unfolding backed_def by (metis div_times_less_eq_dividend order_le_less_trans)
    have div: "unat (off div 1024) = unat off div BSIZE" by (simp add: unat_div)
    have "unat off div BSIZE < MAXFILE" using osz sz by (simp add: div_less_iff_less_mult)
    with nz have bm: "bmap B sb ip (off div 1024) d = Inr (?a, ip, d)"
      by (intro bmap_present) (simp_all add: div)
    have sum: "unat tot + unat m \<le> unat n" using mb(3) tn by linarith
    have um: "unat (tot + m) = unat tot + unat m"
      using sum unat_u32 [of n] by (intro unat_add_lem [THEN iffD1]) simp
    have uo: "unat (off + m) = unat off + unat m"
      using less.prems(2) mb(3) unat_u32 [of "i_size ip"] by (intro unat_add_lem [THEN iffD1]) simp
    have "chunk (unat off) (unat m) ?c = chunk (unat off mod BSIZE) (unat m) (file_block ?rd ?as (unat off div BSIZE))"
      using less.prems(2) mb(3,4) by (intro chunk_content length_bread [OF bio]) (simp_all add: unat_mod)
    also have "file_block ?rd ?as (unat off div BSIZE) = ?rd ?a" using nz by (simp add: file_block_def)
    finally have ch: "chunk (unat (off mod 1024)) (unat m) (?rd ?a) = chunk (unat off) (unat m) ?c" by (simp add: unat_mod)
    have split: "chunk (unat off) (unat n - unat tot) ?c =
        chunk (unat off) (unat m) ?c @ chunk (unat (off + m)) (unat n - unat (tot + m)) ?c"
    proof -
      have e: "unat n - unat tot = unat m + (unat n - unat (tot + m))" using um mb(3) by linarith
      show ?thesis by (subst e) (simp only: uo chunk_add)
    qed
    have IH: "readi_loop B sb U user n (tot + m) (off + m) (dst + ucast m) ip d s' =
      (let (r, s'') = either_copyout U user (dst + ucast m) (chunk (unat (off + m)) (unat n - unat (tot + m)) ?c) s' in
       Inr (if r = -1 then -1 else n, ip, d, s''))" for s'
    proof (rule less.hyps)
      show "unat n - unat (tot + m) < unat n - unat tot" using um mb(2) tn by linarith
      show "tot + m \<le> n" using um sum by (simp add: word_le_nat_alt)
      show "unat (off + m) + (unat n - unat (tot + m)) \<le> unat (i_size ip)" using um uo less.prems(2) sum by linarith
    qed
    have len: "length (chunk (unat off) (unat m) ?c) = unat m" using less.prems(2) mb(3) by simp
    have cast: "(of_nat (unat m) :: u64) = ucast m" by simp
    have app: "either_copyout U user dst (chunk (unat off) (unat n - unat tot) ?c) s =
      (let (r, s') = either_copyout U user dst (chunk (unat off) (unat m) ?c) s in
       if r = -1 then (-1, s')
       else either_copyout U user (dst + ucast m) (chunk (unat (off + m)) (unat n - unat (tot + m)) ?c) s')"
      unfolding split
      using either_copyout_append [OF U, of "chunk (unat off) (unat m) ?c"
          "chunk (unat (off + m)) (unat n - unat (tot + m)) ?c" dst s, unfolded len cast]
        less.prems(2) um uo mb(3) unat_u32 [of n] by simp
    show ?thesis
      using True nz by (simp add: unfold bm m_def [symmetric] ch IH app Let_def split_def)
  qed
qed

lemma readi_spec:
  assumes ok: "inode_ok B sb ip d" and U: "user \<longrightarrow> uvm_ok U"
    and off: "off \<le> i_size ip" "unat off + unat n < 2 ^ 32"
  shows "readi B sb U ip user dst off n d s =
    (let k = min (unat n) (unat (i_size ip) - unat off);
         (r, s') = either_copyout U user dst (chunk (unat off) k (icontent B ip d)) s in
     Inr (if r = -1 then -1 else of_nat k, ip, d, s'))"
proof -
  define k where "k = (if off + n > i_size ip then i_size ip - off else n)"
  have sum: "unat (off + n) = unat off + unat n"
    using off(2) by (intro unat_add_lem [THEN iffD1]) simp
  have k: "unat k = min (unat n) (unat (i_size ip) - unat off)"
    using off(1) sum by (auto simp: k_def word_less_nat_alt word_le_nat_alt unat_sub min_def)
  have "\<not> off + n < off" using sum by (simp add: word_less_nat_alt)
  then have "readi B sb U ip user dst off n d s = readi_loop B sb U user k 0 off dst ip d s"
    using off(1) by (simp add: readi_def k_def Let_def not_less [symmetric])
  also have "\<dots> = (let (r, s') = either_copyout U user dst (chunk (unat off) (unat k - unat (0::u32)) (icontent B ip d)) s in
     Inr (if r = -1 then -1 else k, ip, d, s'))"
    using ok k off(1) file_ok_bio by (intro readi_loop_spec [OF _ U]) (auto simp: inode_ok_def word_le_nat_alt)
  finally show ?thesis by (simp add: k [symmetric] Let_def split_def)
qed

section \<open>Writing a data block\<close>

text \<open>A change of one data block leaves the tree as it is and changes that block of the content only.\<close>

lemma data_write:
  assumes ok: "file_ok B sb dev as d" and bn: "bn < MAXFILE"
    and a: "slot_addr (bread B d dev) as (data_slot bn) = a" "a \<noteq> 0"
    and fs': "fs_ok B sb dev d'" "used_blocks B sb dev d' = used_blocks B sb dev d"
    and frame: "\<forall>x. x \<noteq> a \<longrightarrow> bread B d' dev x = bread B d dev x"
  shows "vslot t \<Longrightarrow> slot_addr (bread B d' dev) as t = slot_addr (bread B d dev) as t"
    and "file_ok B sb dev as d'"
    and "n < MAXFILE \<Longrightarrow> file_block (bread B d' dev) as n =
      (if n = bn then bread B d' dev a else file_block (bread B d dev) as n)"
proof -
  let ?rd = "bread B d dev" and ?rd' = "bread B d' dev"
  have tree: "tree_ok (file_area B sb dev d) ?rd as" using ok by (simp add: file_ok_def)
  have e: "entry_at ?rd' (slot_addr ?rd as p) j = entry_at ?rd (slot_addr ?rd as p) j" if p: "interior p" for p j
  proof (cases "slot_addr ?rd as p = a")
    case True
    then have "slot_addr ?rd as (data_slot bn) = slot_addr ?rd as p" using a by simp
    then have "data_slot bn = p"
      using tree_okD(3) [OF tree vslot_data_slot [OF bn] interior_vslot [OF p]] a by simp
    with p data_slot_not_interior [of bn] show ?thesis by simp
  qed (simp add: entry_at_def frame)
  have addr: "slot_addr ?rd' as t = slot_addr ?rd as t" if "vslot t" for t
    using that e [of Ind] e [of Dbl] e [of "DblE i" for i] by (cases t) auto
  then show "vslot t \<Longrightarrow> slot_addr ?rd' as t = slot_addr ?rd as t" .
  have "tree_blocks ?rd' as = tree_blocks ?rd as"
    unfolding tree_blocks_def using addr by (metis (no_types, lifting))
  moreover have "file_area B sb dev d' = file_area B sb dev d" using fs'(2) by (simp add: file_area_def)
  ultimately show "file_ok B sb dev as d'"
    using tree fs'(1) addr unfolding file_ok_def tree_ok_def by simp
  show "file_block ?rd' as n = (if n = bn then ?rd' a else file_block ?rd as n)" if n: "n < MAXFILE"
  proof (cases "n = bn")
    case True
    with a show ?thesis by (simp add: file_block_def addr vslot_data_slot bn)
  next
    case False
    then have "data_slot n \<noteq> data_slot bn" using data_slot_inj by blast
    then have "slot_addr ?rd as (data_slot n) \<noteq> a" 
      using tree_okD(3) [OF tree vslot_data_slot [OF bn] vslot_data_slot [OF n]] a by auto
    with False show ?thesis by (simp add: file_block_def addr vslot_data_slot n frame Let_def)
  qed
qed

section \<open>What a write does\<close>

text \<open>\<open>wrote X as d as' d'\<close>: from the file \<open>as\<close> on \<open>d\<close> to \<open>as'\<close> on \<open>d'\<close>, at most the bytes at positions
  \<open>X\<close> changed; the tree grew by fresh blocks only, and nothing else in use changed.\<close>

definition wrote :: "'d bio \<Rightarrow> superblock \<Rightarrow> u32 \<Rightarrow> nat set \<Rightarrow> u32 list \<Rightarrow> 'd \<Rightarrow> u32 list \<Rightarrow> 'd \<Rightarrow> bool" where
  "wrote B sb dev X as d as' d' \<longleftrightarrow>
     file_ok B sb dev as' d' \<and> used_blocks B sb dev d \<subseteq> used_blocks B sb dev d' \<and>
     (\<forall>t. vslot t \<longrightarrow> slot_addr (bread B d' dev) as' t = slot_addr (bread B d dev) as t \<or>
        slot_addr (bread B d dev) as t = 0 \<and> slot_addr (bread B d' dev) as' t \<notin> used_blocks B sb dev d) \<and>
     (\<forall>j < MAXFILE * BSIZE. j \<notin> X \<longrightarrow> fbyte (bread B d' dev) as' j = fbyte (bread B d dev) as j) \<and>
     (\<forall>x \<in> used_blocks B sb dev d. x \<notin> bitmap_blocks sb \<longrightarrow> x \<notin> tree_blocks (bread B d dev) as \<longrightarrow>
        bread B d' dev x = bread B d dev x)"

lemma wrote_refl: "file_ok B sb dev as d \<Longrightarrow> wrote B sb dev X as d as d"
  by (simp add: wrote_def)

lemma grows_wrote:
  assumes "grows B sb dev S as d as' d'"
  shows "wrote B sb dev X as d as' d'"
proof -
  have "\<forall>j < MAXFILE * BSIZE. fbyte (bread B d' dev) as' j = fbyte (bread B d dev) as j"
    using assms unfolding fbyte_def grows_def by (auto simp: div_less_iff_less_mult)
  with assms show ?thesis unfolding wrote_def grows_def by auto
qed

lemma wrote_mono: "wrote B sb dev X as d as' d' \<Longrightarrow> X \<subseteq> Y \<Longrightarrow> wrote B sb dev Y as d as' d'"
  unfolding wrote_def by blast

lemma wrote_trans:
  assumes w1: "wrote B sb dev X as d as1 d1" and w2: "wrote B sb dev Y as1 d1 as2 d2"
  shows "wrote B sb dev (X \<union> Y) as d as2 d2"
proof -
  have sub: "used_blocks B sb dev d \<subseteq> used_blocks B sb dev d1" using w1 by (simp add: wrote_def)
  have tb: "tree_blocks (bread B d1 dev) as1 \<inter> used_blocks B sb dev d \<subseteq> tree_blocks (bread B d dev) as"
    using w1 unfolding wrote_def tree_blocks_def by fastforce
  have slots: "slot_addr (bread B d2 dev) as2 t = slot_addr (bread B d dev) as t \<or>
      slot_addr (bread B d dev) as t = 0 \<and> slot_addr (bread B d2 dev) as2 t \<notin> used_blocks B sb dev d"
    if t: "vslot t" for t
  proof -
    from w1 t have "slot_addr (bread B d1 dev) as1 t = slot_addr (bread B d dev) as t \<or>
      slot_addr (bread B d dev) as t = 0 \<and> slot_addr (bread B d1 dev) as1 t \<notin> used_blocks B sb dev d"
      by (simp add: wrote_def)
    moreover from w2 t have "slot_addr (bread B d2 dev) as2 t = slot_addr (bread B d1 dev) as1 t \<or>
      slot_addr (bread B d1 dev) as1 t = 0 \<and> slot_addr (bread B d2 dev) as2 t \<notin> used_blocks B sb dev d1"
      by (simp add: wrote_def)
    ultimately show ?thesis using sub by auto
  qed
  have rest: "bread B d2 dev x = bread B d dev x"
    if x: "x \<in> used_blocks B sb dev d" "x \<notin> bitmap_blocks sb" "x \<notin> tree_blocks (bread B d dev) as" for x
  proof -
    have "x \<notin> tree_blocks (bread B d1 dev) as1" using x tb by blast
    with x sub w1 w2 show ?thesis unfolding wrote_def by fastforce
  qed
  have bytes: "fbyte (bread B d2 dev) as2 j = fbyte (bread B d dev) as j"
    if "j < MAXFILE * BSIZE" "j \<notin> X \<union> Y" for j
    using that w1 w2 unfolding wrote_def by simp
  show ?thesis
    unfolding wrote_def using w2 sub slots rest bytes unfolding wrote_def by blast
qed

lemma wrote_backed:
  assumes "wrote B sb dev X as d as' d'" and ok: "file_ok B sb dev as d"
    and "backed (bread B d dev) as sz" and "sz \<le> MAXFILE * BSIZE"
  shows "backed (bread B d' dev) as' sz"
  unfolding backed_def
proof (intro allI impI)
  fix n assume n: "n * BSIZE < sz"
  then have "n < MAXFILE" using assms(4) by linarith
  with assms(1) vslot_data_slot have "slot_addr (bread B d' dev) as' (data_slot n) = slot_addr (bread B d dev) as (data_slot n) \<or>
      slot_addr (bread B d dev) as (data_slot n) = 0" unfolding wrote_def by blast
  with assms(3) n show "slot_addr (bread B d' dev) as' (data_slot n) \<noteq> 0" unfolding backed_def by metis
qed

lemma block_write:
  assumes ok: "file_ok B sb dev as d" and off: "off < MAXFILE * BSIZE" "off mod BSIZE + length new \<le> BSIZE"
    and a: "slot_addr (bread B d dev) as (data_slot (off div BSIZE)) = a" "a \<noteq> 0"
    and fs': "fs_ok B sb dev d'" "used_blocks B sb dev d' = used_blocks B sb dev d"
    and frame: "\<forall>x. x \<noteq> a \<longrightarrow> bread B d' dev x = bread B d dev x"
    and at: "bread B d' dev a = blit (off mod BSIZE) new (bread B d dev a) \<or> bread B d' dev a = bread B d dev a"
  shows "wrote B sb dev {off..<off + length new} as d as d'"
    and "bread B d' dev a = blit (off mod BSIZE) new (bread B d dev a) \<Longrightarrow> i < length new \<Longrightarrow>
      fbyte (bread B d' dev) as (off + i) = new ! i"
proof -
  let ?rd = "bread B d dev" and ?rd' = "bread B d' dev" and ?bn = "off div BSIZE"
  have bn: "?bn < MAXFILE" using off(1) by (simp add: div_less_iff_less_mult)
  note dw = data_write [OF ok bn a fs' frame]
  have len: "length (?rd x) = BSIZE" for x using length_bread [OF file_ok_bio [OF ok]] .
  have fa: "file_block ?rd as ?bn = ?rd a" using a by (simp add: file_block_def)
  have blk: "file_block ?rd' as ?bn = ?rd' a" using dw(3) [OF bn] by simp
  show "fbyte ?rd' as (off + i) = new ! i" if w: "?rd' a = blit (off mod BSIZE) new (?rd a)" and i: "i < length new"
  proof -
    note sb = same_block [OF off(2) i]
    have "fbyte ?rd' as (off + i) = blit (off mod BSIZE) new (?rd a) ! (off mod BSIZE + i)"
      using blk w by (simp add: fbyte_def sb)
    also have "\<dots> = new ! i"
      using off(2) i by (subst nth_blit) (simp_all add: len)
    finally show ?thesis .
  qed
  have bytes: "fbyte ?rd' as j = fbyte ?rd as j" if j: "j < MAXFILE * BSIZE" "j \<notin> {off..<off + length new}" for j
  proof (cases "j div BSIZE = ?bn")
    case False
    then show ?thesis using j(1) dw(3) [of "j div BSIZE"] by (simp add: fbyte_def div_less_iff_less_mult)
  next
    case True
    have jm: "j = ?bn * BSIZE + j mod BSIZE" using div_mult_mod_eq [of j BSIZE] True by simp
    have "\<not> (off mod BSIZE \<le> j mod BSIZE \<and> j mod BSIZE < off mod BSIZE + length new)"
      using j(2) jm div_mult_mod_eq [of off BSIZE] unfolding atLeastLessThan_iff by linarith
    then have "blit (off mod BSIZE) new (?rd a) ! (j mod BSIZE) = ?rd a ! (j mod BSIZE)"
      using off(2) by (subst nth_blit) (auto simp: len)
    with at fa blk True show ?thesis by (auto simp: fbyte_def)
  qed
  show "wrote B sb dev {off..<off + length new} as d as d'"
    unfolding wrote_def
  proof (intro conjI)
    show "\<forall>x \<in> used_blocks B sb dev d. x \<notin> bitmap_blocks sb \<longrightarrow> x \<notin> tree_blocks ?rd as \<longrightarrow> ?rd' x = ?rd x"
    proof (intro ballI impI)
      fix x assume "x \<notin> tree_blocks ?rd as"
      then have "x \<noteq> a" using a vslot_data_slot [OF bn] unfolding tree_blocks_def by auto
      with frame show "?rd' x = ?rd x" by blast
    qed
  qed (use dw(1,2) bytes fs'(2) in auto)
qed

lemma block_log_write:
  assumes ok: "file_ok B sb dev as d" and off: "off < MAXFILE * BSIZE" "off mod BSIZE + length new \<le> BSIZE"
    and a: "slot_addr (bread B d dev) as (data_slot (off div BSIZE)) = a" "a \<noteq> 0"
  defines "d' \<equiv> log_write B d dev a (blit (off mod BSIZE) new (bread B d dev a))"
  shows "wrote B sb dev {off..<off + length new} as d as d'"
    and "i < length new \<Longrightarrow> fbyte (bread B d' dev) as (off + i) = new ! i"
proof -
  have bio: "bio_ok B" by (rule file_ok_bio [OF ok])
  have v: "vslot (data_slot (off div BSIZE))" using off(1) by (intro vslot_data_slot) (simp add: div_less_iff_less_mult)
  have nb: "a \<notin> bitmap_blocks sb" using file_ok_addr(3) [OF ok v] a by simp
  have len: "length (blit (off mod BSIZE) new (bread B d dev a)) = BSIZE"
    using off(2) by (simp add: length_blit length_bread [OF bio])
  have rd: "bread B d' dev x = (if x = a then blit (off mod BSIZE) new (bread B d dev a) else bread B d dev x)" for x
    unfolding d'_def by (simp add: bread_log_write [OF bio len])
  have fs: "fs_ok B sb dev d" using ok by (simp add: file_ok_def)
  note bw = block_write [OF ok off a, of d']
  show "wrote B sb dev {off..<off + length new} as d as d'"
    and "i < length new \<Longrightarrow> fbyte (bread B d' dev) as (off + i) = new ! i"
    using bw fs_ok_log_write [OF fs nb len] used_log_write [OF bio nb len] rd unfolding d'_def by simp_all
qed

lemma block_bscribble:
  assumes ok: "file_ok B sb dev as d" and off: "off < MAXFILE * BSIZE" "off mod BSIZE + length new \<le> BSIZE"
    and a: "slot_addr (bread B d dev) as (data_slot (off div BSIZE)) = a" "a \<noteq> 0"
  shows "wrote B sb dev {off..<off + length new} as d as
    (bscribble B d dev a (blit (off mod BSIZE) new (bread B d dev a)))"
proof -
  have bio: "bio_ok B" by (rule file_ok_bio [OF ok])
  have v: "vslot (data_slot (off div BSIZE))" using off(1) by (intro vslot_data_slot) (simp add: div_less_iff_less_mult)
  have nb: "a \<notin> bitmap_blocks sb" using file_ok_addr(3) [OF ok v] a by simp
  have len: "length (blit (off mod BSIZE) new (bread B d dev a)) = BSIZE"
    using off(2) by (simp add: length_blit length_bread [OF bio])
  have fs: "fs_ok B sb dev d" using ok by (simp add: file_ok_def)
  show ?thesis
    by (rule block_write(1) [OF ok off a fs_ok_bscribble [OF fs nb]])
      (use bread_scribbled [OF bio len] bread_bscribble [OF bio] in blast)+
qed

section \<open>writei\<close>

lemma backed_extend:
  assumes "backed rd as off" and "slot_addr rd as (data_slot (off div BSIZE)) \<noteq> 0" and "off mod BSIZE + m \<le> BSIZE"
  shows "backed rd as (off + m)"
  unfolding backed_def
proof (intro allI impI)
  fix n assume n: "n * BSIZE < off + m"
  show "slot_addr rd as (data_slot n) \<noteq> 0"
  proof (cases "n * BSIZE < off")
    case True
    with assms(1) show ?thesis by (simp add: backed_def)
  next
    case False
    with n assms(3) div_mult_mod_eq [of off BSIZE] have "n = off div BSIZE" by linarith
    with assms(2) show ?thesis by simp
  qed
qed

text \<open>What the loop of \<open>writei\<close> has done when it has copied \<open>k\<close> bytes of the \<open>n\<close> it was asked for.\<close>

definition wloop_post :: "'d bio \<Rightarrow> superblock \<Rightarrow> 'u uvm \<Rightarrow> bool \<Rightarrow> 'u mem \<Rightarrow> nat \<Rightarrow> nat \<Rightarrow> u64 \<Rightarrow>
    inode \<Rightarrow> 'd \<Rightarrow> nat \<Rightarrow> inode \<Rightarrow> 'd \<Rightarrow> bool" where
  "wloop_post B sb U user s n off src ip d k ip' d' \<longleftrightarrow> k \<le> n \<and> ip' = ip\<lparr>i_addrs := i_addrs ip'\<rparr> \<and>
     wrote B sb (i_dev ip) {off..<off + (if user then n else k)} (i_addrs ip) d (i_addrs ip') d' \<and>
     backed (bread B d' (i_dev ip)) (i_addrs ip') (off + k) \<and>
     (\<forall>i < k. fbyte (bread B d' (i_dev ip)) (i_addrs ip') (off + i) = src_byte U user s (src + of_nat i)) \<and>
     (k < n \<longrightarrow> \<not> user \<longrightarrow> used_blocks B sb (i_dev ip) d' = {b. b < sb_size sb})"

lemma wloop_post_step:
  assumes w1: "wrote B sb (i_dev ip) {off..<off + m} (i_addrs ip) d (i_addrs ip1) d1" and ip1: "ip1 = ip\<lparr>i_addrs := i_addrs ip1\<rparr>"
    and b1: "\<forall>i < m. fbyte (bread B d1 (i_dev ip)) (i_addrs ip1) (off + i) = src_byte U user s (src + of_nat i)"
    and post: "wloop_post B sb U user s (n - m) (off + m) (src + of_nat m) ip1 d1 k ip2 d2"
    and m: "m \<le> n" "off + n \<le> MAXFILE * BSIZE"
  shows "wloop_post B sb U user s n off src ip d (m + k) ip2 d2"
proof -
  have dev: "i_dev ip1 = i_dev ip" by (rule i_dev_addrs [OF ip1])
  let ?e = "off + (if user then n else m + k)"
  have w2: "wrote B sb (i_dev ip) {off + m..<?e} (i_addrs ip1) d1 (i_addrs ip2) d2"
    using post m(1) by (simp add: wloop_post_def dev add.assoc split: if_splits)
  have "{off..<off + m} \<union> {off + m..<?e} = {off..<?e}" using m(1) by auto
  with wrote_trans [OF w1 w2] have w: "wrote B sb (i_dev ip) {off..<?e} (i_addrs ip) d (i_addrs ip2) d2" by simp
  have "ip2 = ip1\<lparr>i_addrs := i_addrs ip2\<rparr>" using post by (simp add: wloop_post_def)
  then have ip2: "ip2 = ip\<lparr>i_addrs := i_addrs ip2\<rparr>"
    by (subst (asm) ip1) simp
  have "fbyte (bread B d2 (i_dev ip)) (i_addrs ip2) (off + i) = src_byte U user s (src + of_nat i)"
    if i: "i < m + k" for i
  proof (cases "i < m")
    case True
    have "fbyte (bread B d2 (i_dev ip)) (i_addrs ip2) (off + i) = fbyte (bread B d1 (i_dev ip)) (i_addrs ip1) (off + i)"
      using w2 True m by (simp add: wrote_def)
    with b1 True show ?thesis by simp
  next
    case False
    then obtain j where j: "i = m + j" "j < k" using i by (metis add_less_cancel_left le_Suc_ex not_less)
    with post show ?thesis by (simp add: wloop_post_def dev add.assoc)
  qed
  with post m(1) w ip2 dev show ?thesis by (auto simp: wloop_post_def add.assoc)
qed

lemma writei_loop_spec:
  assumes U: "user \<longrightarrow> uvm_ok U" and "file_ok B sb (i_dev ip) (i_addrs ip) d"
    and "backed (bread B d (i_dev ip)) (i_addrs ip) (unat off)"
    and "tot \<le> n" and "unat off + (unat n - unat tot) \<le> MAXFILE * BSIZE"
  shows "\<exists>k ip' d'. writei_loop B sb U user s n tot off src ip d =
      Inr (of_nat (unat tot + k), of_nat (unat off + k), ip', d') \<and>
      wloop_post B sb U user s (unat n - unat tot) (unat off) src ip d k ip' d'"
  using assms(2-5)
proof (induction "unat n - unat tot" arbitrary: tot off src ip d rule: less_induct)
  case less
  note unfold = writei_loop.simps [of B sb U user s n tot off src ip d]
  let ?dev = "i_dev ip"
  show ?case
  proof (cases "tot < n")
    case False
    with less.prems have "tot = n" by simp
    with unfold less.prems have "writei_loop B sb U user s n tot off src ip d = Inr (of_nat (unat tot + 0), of_nat (unat off + 0), ip, d) \<and>
      wloop_post B sb U user s (unat n - unat tot) (unat off) src ip d 0 ip d"
      by (simp add: wloop_post_def wrote_refl)
    then show ?thesis by blast
  next
    case True
    define m where "m = rw_len n tot off"
    note mb = rw_len_bounds [OF True, where off = off, folded m_def]
    have tn: "unat tot < unat n" using True by (simp add: word_less_nat_alt)
    have div: "unat (off div 1024) = unat off div BSIZE" by (simp add: unat_div)
    have om: "unat off < MAXFILE * BSIZE" using less.prems(4) tn by linarith
    then have bn: "unat (off div 1024) < MAXFILE" by (simp add: div div_less_iff_less_mult)
    obtain a ip1 d1 where bm: "bmap B sb ip (off div 1024) d = Inr (a, ip1, d1)"
      and bp: "bmap_post B sb (unat (off div 1024)) ip d a ip1 d1"
      by (rule bmap_spec [OF less.prems(1) bn])
    have ip1: "ip1 = ip\<lparr>i_addrs := i_addrs ip1\<rparr>" and dev: "i_dev ip1 = ?dev"
      using bp i_dev_addrs by (auto simp: bmap_post_def)
    have g: "wrote B sb ?dev X (i_addrs ip) d (i_addrs ip1) d1" for X
      using bp grows_wrote by (auto simp: bmap_post_def)
    have ok1: "file_ok B sb ?dev (i_addrs ip1) d1" using g by (simp add: wrote_def)
    have slot1: "slot_addr (bread B d1 ?dev) (i_addrs ip1) (data_slot (unat off div BSIZE)) = a"
      using bp by (simp add: bmap_post_def div)
    have back1: "backed (bread B d1 ?dev) (i_addrs ip1) (unat off)"
      using wrote_backed [OF g less.prems(1,2)] om by simp
    show ?thesis
    proof (cases "a = 0")
      case a0: True
      have full: "used_blocks B sb ?dev d1 = {b. b < sb_size sb}" using bp a0 by (simp add: bmap_post_def)
      have "writei_loop B sb U user s n tot off src ip d = Inr (of_nat (unat tot + 0), of_nat (unat off + 0), ip1, d1)"
        using True a0 bm by (simp add: unfold)
      moreover have "wloop_post B sb U user s (unat n - unat tot) (unat off) src ip d 0 ip1 d1"
        using ip1 g back1 full by (simp add: wloop_post_def)
      ultimately show ?thesis by blast
    next
      case nz: False
      let ?data = "bread B d1 ?dev a" and ?o = "unat (off mod 1024)"
      obtain r new where cp: "either_copyin U (chunk ?o (unat m) ?data) user src s = (r, new)" by force
      have o: "?o = unat off mod BSIZE" by (simp add: unat_mod)
      have lold: "length (chunk ?o (unat m) ?data) = unat m"
        using mb(4) by (simp add: length_bread [OF file_ok_bio [OF ok1]])
      note ci = either_copyin_ok [OF U cp, unfolded lold]
      have onew: "unat off mod BSIZE + length new \<le> BSIZE" using mb(4) ci(1) o by simp
      show ?thesis
      proof (cases "r = -1")
        case fail: True
        let ?d2 = "bscribble B d1 ?dev a (blit ?o new ?data)"
        have "wrote B sb ?dev {unat off..<unat off + length new} (i_addrs ip1) d1 (i_addrs ip1) ?d2"
          unfolding o by (rule block_bscribble [OF ok1 om onew slot1 nz])
        then have "wrote B sb ?dev {unat off..<unat off + (unat n - unat tot)} (i_addrs ip1) d1 (i_addrs ip1) ?d2"
          using mb(3) ci(1) by (elim wrote_mono) auto
        from wrote_trans [OF g [of "{}"] this]
        have w: "wrote B sb ?dev {unat off..<unat off + (unat n - unat tot)} (i_addrs ip) d (i_addrs ip1) ?d2" by simp
        have user using fail ci(3) by auto
        then have "wloop_post B sb U user s (unat n - unat tot) (unat off) src ip d 0 ip1 ?d2"
          using w ip1 wrote_backed [OF w less.prems(1,2)] om by (simp add: wloop_post_def)
        moreover have "writei_loop B sb U user s n tot off src ip d = Inr (of_nat (unat tot + 0), of_nat (unat off + 0), ip1, ?d2)"
          using True nz bm cp fail by (simp add: unfold dev m_def [symmetric] Let_def)
        ultimately show ?thesis by blast
      next
        case good: False
        let ?d2 = "log_write B d1 ?dev a (blit ?o new ?data)"
        note blw = block_log_write [OF ok1 om onew slot1 nz, folded o, unfolded ci(1)]
        have w2: "wrote B sb ?dev {unat off..<unat off + unat m} (i_addrs ip) d (i_addrs ip1) ?d2"
          using wrote_trans [OF g [of "{}"] blw(1)] by simp
        have by2: "\<forall>i < unat m. fbyte (bread B ?d2 ?dev) (i_addrs ip1) (unat off + i) = src_byte U user s (src + of_nat i)"
          using blw(2) ci(4) [OF good] by simp
        have um: "unat (tot + m) = unat tot + unat m"
          using mb(3) tn unat_u32 [of n] by (intro unat_add_lem [THEN iffD1]) simp
        have uo: "unat (off + m) = unat off + unat m"
          using less.prems(4) mb(3) by (intro unat_add_lem [THEN iffD1]) simp
        have ok2: "file_ok B sb (i_dev ip1) (i_addrs ip1) ?d2" using w2 by (simp add: wrote_def dev)
        have "slot_addr (bread B ?d2 ?dev) (i_addrs ip1) (data_slot (unat off div BSIZE)) \<noteq> 0"
        proof -
          have "vslot (data_slot (unat off div BSIZE))" using vslot_data_slot bn by (simp add: div)
          with blw(1) slot1 nz show ?thesis unfolding wrote_def by metis
        qed
        then have back2: "backed (bread B ?d2 (i_dev ip1)) (i_addrs ip1) (unat (off + m))"
          using wrote_backed [OF w2 less.prems(1,2)] om onew ci(1) by (simp add: uo dev backed_extend)
        have "\<exists>k ip' d'. writei_loop B sb U user s n (tot + m) (off + m) (src + ucast m) ip1 ?d2 =
            Inr (of_nat (unat (tot + m) + k), of_nat (unat (off + m) + k), ip', d') \<and>
            wloop_post B sb U user s (unat n - unat (tot + m)) (unat (off + m)) (src + ucast m) ip1 ?d2 k ip' d'"
        proof (rule less.hyps [OF _ ok2 back2])
          show "unat n - unat (tot + m) < unat n - unat tot" using um mb(2) tn by linarith
          show "tot + m \<le> n" using um mb(3) tn by (simp add: word_le_nat_alt)
          show "unat (off + m) + (unat n - unat (tot + m)) \<le> MAXFILE * BSIZE" using um uo less.prems(4) mb(3) tn by linarith
        qed
        then obtain k ip' d' where run: "writei_loop B sb U user s n (tot + m) (off + m) (src + ucast m) ip1 ?d2 =
            Inr (of_nat (unat (tot + m) + k), of_nat (unat (off + m) + k), ip', d')"
          and post: "wloop_post B sb U user s (unat n - unat (tot + m)) (unat (off + m)) (src + ucast m) ip1 ?d2 k ip' d'" by blast
        have cast: "(ucast m :: u64) = of_nat (unat m)" by simp
        have "wloop_post B sb U user s (unat n - unat tot) (unat off) src ip d (unat m + k) ip' d'"
          by (rule wloop_post_step [OF w2 ip1 by2 post [unfolded um uo cast diff_diff_left [symmetric]] mb(3) less.prems(4)])
        moreover have "writei_loop B sb U user s n tot off src ip d = Inr (of_nat (unat tot + (unat m + k)), of_nat (unat off + (unat m + k)), ip', d')"
        proof -
          have "writei_loop B sb U user s n tot off src ip d = writei_loop B sb U user s n (tot + m) (off + m) (src + ucast m) ip1 ?d2"
            by (subst unfold) (simp only: True nz bm cp good dev m_def [symmetric] Let_def sum.case prod.case if_True if_False simp_thms)
          with run show ?thesis by (simp only: um uo add.assoc)
        qed
        ultimately show ?thesis by blast
      qed
    qed
  qed
qed

text \<open>A file whose blocks are not written keeps its tree and its content.\<close>

lemma file_frame:
  assumes ok: "file_ok B sb dev as d" and fs': "fs_ok B sb dev d'" "used_blocks B sb dev d' = used_blocks B sb dev d"
    and frame: "\<forall>x \<in> tree_blocks (bread B d dev) as. bread B d' dev x = bread B d dev x"
  shows "vslot t \<Longrightarrow> slot_addr (bread B d' dev) as t = slot_addr (bread B d dev) as t"
    and "file_ok B sb dev as d'"
    and "n < MAXFILE \<Longrightarrow> file_block (bread B d' dev) as n = file_block (bread B d dev) as n"
proof -
  let ?rd = "bread B d dev" and ?rd' = "bread B d' dev"
  have same: "slot_addr ?rd as p \<noteq> 0 \<Longrightarrow> ?rd' (slot_addr ?rd as p) = ?rd (slot_addr ?rd as p)" if "vslot p" for p
    using frame that unfolding tree_blocks_def by blast
  have e: "entry_at ?rd' (slot_addr ?rd as p) j = entry_at ?rd (slot_addr ?rd as p) j" if "interior p" for p j
    using same [OF interior_vslot [OF that]] by (simp add: entry_at_def)
  have addr: "slot_addr ?rd' as t = slot_addr ?rd as t" if "vslot t" for t
    using that e [of Ind] e [of Dbl] e [of "DblE i" for i] by (cases t) auto
  then show "vslot t \<Longrightarrow> slot_addr ?rd' as t = slot_addr ?rd as t" .
  have "tree_blocks ?rd' as = tree_blocks ?rd as"
    unfolding tree_blocks_def using addr by (metis (no_types, lifting))
  moreover have "file_area B sb dev d' = file_area B sb dev d" using fs'(2) by (simp add: file_area_def)
  ultimately show "file_ok B sb dev as d'"
    using ok fs'(1) addr unfolding file_ok_def tree_ok_def by simp
  show "n < MAXFILE \<Longrightarrow> file_block ?rd' as n = file_block ?rd as n"
    using same addr vslot_data_slot by (simp add: file_block_def Let_def)
qed

lemma iupdate_file:
  assumes ok: "file_ok B sb (i_dev ip) as d" and ip: "length (i_addrs ip) = 13" "i_inum ip < sb_ninodes sb"
  shows "vslot t \<Longrightarrow> slot_addr (bread B (iupdate B sb ip d) (i_dev ip)) as t = slot_addr (bread B d (i_dev ip)) as t"
    and "file_ok B sb (i_dev ip) as (iupdate B sb ip d)"
    and "j < MAXFILE * BSIZE \<Longrightarrow> fbyte (bread B (iupdate B sb ip d) (i_dev ip)) as j = fbyte (bread B d (i_dev ip)) as j"
proof -
  have fs: "fs_ok B sb (i_dev ip) d" using ok by (simp add: file_ok_def)
  have bio: "bio_ok B" by (rule file_ok_bio [OF ok])
  have "tree_blocks (bread B d (i_dev ip)) as \<inter> meta_blocks sb = {}" by (rule file_ok_meta [OF ok])
  moreover have "IBLOCK (i_inum ip) sb \<in> meta_blocks sb" using ip(2) by (auto simp: meta_blocks_def inode_blocks_def)
  ultimately have "\<forall>x \<in> tree_blocks (bread B d (i_dev ip)) as. bread B (iupdate B sb ip d) (i_dev ip) x = bread B d (i_dev ip) x"
    by (auto simp: bread_iupdate [OF bio ip(1)])
  note ff = file_frame [OF ok iupdate_frame(2,1) [OF fs ip] this]
  show "vslot t \<Longrightarrow> slot_addr (bread B (iupdate B sb ip d) (i_dev ip)) as t = slot_addr (bread B d (i_dev ip)) as t"
    and "file_ok B sb (i_dev ip) as (iupdate B sb ip d)" using ff by blast+
  show "j < MAXFILE * BSIZE \<Longrightarrow> fbyte (bread B (iupdate B sb ip d) (i_dev ip)) as j = fbyte (bread B d (i_dev ip)) as j"
    using ff(3) [of "j div BSIZE"] by (simp add: fbyte_def div_less_iff_less_mult)
qed

lemma wrote_iupdate:
  assumes ok: "file_ok B sb (i_dev ip) as d" and w: "wrote B sb (i_dev ip) X as d (i_addrs ip) d1"
    and ip: "i_inum ip < sb_ninodes sb"
  defines "d2 \<equiv> iupdate B sb ip d1"
  shows "file_ok B sb (i_dev ip) (i_addrs ip) d2" and "used_blocks B sb (i_dev ip) d2 = used_blocks B sb (i_dev ip) d1"
    and "j < MAXFILE * BSIZE \<Longrightarrow> fbyte (bread B d2 (i_dev ip)) (i_addrs ip) j = fbyte (bread B d1 (i_dev ip)) (i_addrs ip) j"
    and "sz \<le> MAXFILE * BSIZE \<Longrightarrow> backed (bread B d1 (i_dev ip)) (i_addrs ip) sz \<Longrightarrow> backed (bread B d2 (i_dev ip)) (i_addrs ip) sz"
    and "ino < sb_ninodes sb \<Longrightarrow> disk_inode B sb (i_dev ip) d2 ino =
      (if ino = i_inum ip then dinode_of ip else disk_inode B sb (i_dev ip) d ino)"
    and "x \<in> used_blocks B sb (i_dev ip) d \<Longrightarrow> x \<notin> bitmap_blocks sb \<Longrightarrow> x \<notin> tree_blocks (bread B d (i_dev ip)) as \<Longrightarrow>
      x \<noteq> IBLOCK (i_inum ip) sb \<Longrightarrow> bread B d2 (i_dev ip) x = bread B d (i_dev ip) x"
proof -
  have ok1: "file_ok B sb (i_dev ip) (i_addrs ip) d1" using w by (simp add: wrote_def)
  have len: "length (i_addrs ip) = 13" using file_ok_length [OF ok1] by simp
  have bio: "bio_ok B" by (rule file_ok_bio [OF ok])
  have fs1: "fs_ok B sb (i_dev ip) d1" using ok1 by (simp add: file_ok_def)
  note iu = iupdate_file [OF ok1 len ip, folded d2_def]
  show "file_ok B sb (i_dev ip) (i_addrs ip) d2" by (rule iu(2))
  show "used_blocks B sb (i_dev ip) d2 = used_blocks B sb (i_dev ip) d1"
    unfolding d2_def by (rule iupdate_frame(1) [OF fs1 len ip])
  show "j < MAXFILE * BSIZE \<Longrightarrow> fbyte (bread B d2 (i_dev ip)) (i_addrs ip) j = fbyte (bread B d1 (i_dev ip)) (i_addrs ip) j"
    by (rule iu(3))
  show "backed (bread B d2 (i_dev ip)) (i_addrs ip) sz" if "sz \<le> MAXFILE * BSIZE" "backed (bread B d1 (i_dev ip)) (i_addrs ip) sz"
    unfolding backed_def
  proof (intro allI impI)
    fix n assume n: "n * BSIZE < sz"
    then have "vslot (data_slot n)" using that(1) by (intro vslot_data_slot) linarith
    with iu(1) that(2) n show "slot_addr (bread B d2 (i_dev ip)) (i_addrs ip) (data_slot n) \<noteq> 0" by (simp add: backed_def)
  qed
  show "disk_inode B sb (i_dev ip) d2 ino = (if ino = i_inum ip then dinode_of ip else disk_inode B sb (i_dev ip) d ino)"
    if ino: "ino < sb_ninodes sb"
  proof -
    have fs: "fs_ok B sb (i_dev ip) d" using ok by (simp add: file_ok_def)
    have "IBLOCK ino sb \<in> used_blocks B sb (i_dev ip) d" "IBLOCK ino sb \<notin> bitmap_blocks sb"
      "IBLOCK ino sb \<notin> tree_blocks (bread B d (i_dev ip)) as"
      using file_ok_meta [OF ok] fs ino by (auto simp: fs_ok_def inode_blocks_def meta_blocks_def)
    then have "bread B d1 (i_dev ip) (IBLOCK ino sb) = bread B d (i_dev ip) (IBLOCK ino sb)"
      using w by (simp add: wrote_def)
    then show ?thesis
      unfolding d2_def disk_inode_iupdate [OF bio len] by (simp add: disk_inode_def)
  qed
  show "bread B d2 (i_dev ip) x = bread B d (i_dev ip) x"
    if "x \<in> used_blocks B sb (i_dev ip) d" "x \<notin> bitmap_blocks sb" "x \<notin> tree_blocks (bread B d (i_dev ip)) as"
      "x \<noteq> IBLOCK (i_inum ip) sb"
    using that w unfolding d2_def wrote_def by (simp add: bread_iupdate [OF bio len])
qed

text \<open>The whole of \<open>writei\<close> on a request that fits.\<close>

definition written :: "'d bio \<Rightarrow> superblock \<Rightarrow> 'u uvm \<Rightarrow> bool \<Rightarrow> 'u mem \<Rightarrow> nat \<Rightarrow> nat \<Rightarrow> u64 \<Rightarrow>
    inode \<Rightarrow> 'd \<Rightarrow> nat \<Rightarrow> inode \<Rightarrow> 'd \<Rightarrow> bool" where
  "written B sb U user s n off src ip d k ip' d' \<longleftrightarrow> k \<le> n \<and>
     ip' = ip\<lparr>i_addrs := i_addrs ip', i_size := of_nat (max (unat (i_size ip)) (off + k))\<rparr> \<and> inode_ok B sb ip' d' \<and>
     used_blocks B sb (i_dev ip) d \<subseteq> used_blocks B sb (i_dev ip) d' \<and>
     (\<forall>i < k. icontent B ip' d' ! (off + i) = src_byte U user s (src + of_nat i)) \<and>
     (\<forall>j < unat (i_size ip). j < off \<or> off + (if user then n else k) \<le> j \<longrightarrow> icontent B ip' d' ! j = icontent B ip d ! j) \<and>
     (\<forall>j < sb_ninodes sb. disk_inode B sb (i_dev ip) d' j =
        (if j = i_inum ip then dinode_of ip' else disk_inode B sb (i_dev ip) d j)) \<and>
     (\<forall>x \<in> used_blocks B sb (i_dev ip) d. x \<notin> bitmap_blocks sb \<longrightarrow> x \<notin> tree_blocks (bread B d (i_dev ip)) (i_addrs ip) \<longrightarrow>
        x \<noteq> IBLOCK (i_inum ip) sb \<longrightarrow> bread B d' (i_dev ip) x = bread B d (i_dev ip) x) \<and>
     (k < n \<longrightarrow> \<not> user \<longrightarrow> used_blocks B sb (i_dev ip) d' = {b. b < sb_size sb})"

lemma writei_spec:
  assumes ok: "inode_ok B sb ip d" and ino: "i_inum ip < sb_ninodes sb" and U: "user \<longrightarrow> uvm_ok U"
    and off: "off \<le> i_size ip" "unat off + unat n \<le> MAXFILE * BSIZE"
  obtains k ip' d' where "writei B sb U ip user src off n s d = Inr (of_nat k, ip', d')"
    "written B sb U user s (unat n) (unat off) src ip d k ip' d'"
proof -
  let ?dev = "i_dev ip" and ?as = "i_addrs ip"
  have fok: "file_ok B sb ?dev ?as d" and sz: "unat (i_size ip) \<le> MAXFILE * BSIZE"
    and bk0: "backed (bread B d ?dev) ?as (unat (i_size ip))" using ok by (auto simp: inode_ok_def)
  have sum: "unat (off + n) = unat off + unat n" using off(2) by (intro unat_add_lem [THEN iffD1]) simp
  have uoff: "unat off \<le> unat (i_size ip)" using off(1) by (simp add: word_le_nat_alt)
  have bo: "backed (bread B d ?dev) ?as (unat off)" using bk0 uoff by (simp add: backed_def)
  obtain k ip1 d1 where run: "writei_loop B sb U user s n 0 off src ip d =
      Inr (of_nat k, of_nat (unat off + k), ip1, d1)"
    and post: "wloop_post B sb U user s (unat n) (unat off) src ip d k ip1 d1"
    using writei_loop_spec [OF U fok bo, of 0 n s src] off(2) by auto
  have kn: "k \<le> unat n" and ip1: "ip1 = ip\<lparr>i_addrs := i_addrs ip1\<rparr>"
    and w: "wrote B sb ?dev {unat off..<unat off + (if user then unat n else k)} ?as d (i_addrs ip1) d1"
    and bk: "backed (bread B d1 ?dev) (i_addrs ip1) (unat off + k)"
    using post by (simp_all add: wloop_post_def)
  define sz' where "sz' = max (unat (i_size ip)) (unat off + k)"
  define ip' where "ip' = ip1\<lparr>i_size := of_nat sz'\<rparr>"
  define d' where "d' = iupdate B sb ip' d1"
  have sz'_le: "sz' \<le> MAXFILE * BSIZE" using sz off(2) kn by (simp add: sz'_def)
  have uk: "unat (of_nat (unat off + k) :: u32) = unat off + k" using off(2) kn by (simp add: unat_of_nat del: of_nat_add)
  have usz: "unat (of_nat sz' :: u32) = sz'" using sz'_le by (simp add: unat_of_nat)
  have i1: "i_size ip1 = i_size ip" "i_inum ip1 = i_inum ip" "i_dev ip1 = ?dev"
    using ip1 by (metis inode.select_convs inode.surjective inode.update_convs(11))+
  have ip'': "(if of_nat (unat off + k) > i_size ip1 then ip1\<lparr>i_size := of_nat (unat off + k)\<rparr> else ip1) = ip'"
  proof (cases "unat (i_size ip) < unat off + k")
    case True
    then show ?thesis by (simp add: ip'_def sz'_def word_less_nat_alt uk i1 max_def del: of_nat_add)
  next
    case False
    then have "sz' = unat (i_size ip1)" by (simp add: sz'_def i1)
    then have "ip1\<lparr>i_size := of_nat sz'\<rparr> = ip1" by simp
    with False show ?thesis by (simp add: ip'_def word_less_nat_alt uk i1 del: of_nat_add)
  qed
  have eqs: "i_dev ip' = ?dev" "i_addrs ip' = i_addrs ip1" "i_inum ip' = i_inum ip" "i_size ip' = of_nat sz'"
    using i1 by (simp_all add: ip'_def)
  have "\<not> off + n < off" "\<not> unat (off + n) > MAXFILE * BSIZE" using sum off(2) by (simp_all add: word_less_nat_alt)
  with off(1) have wr: "writei B sb U ip user src off n s d = Inr (of_nat k, ip', d')"
    by (simp add: writei_def not_less [symmetric] Let_def d'_def run ip'' del: of_nat_add split del: if_split)
  note wi = wrote_iupdate [of B sb ip', unfolded eqs, OF fok w ino, folded d'_def]
  have back': "backed (bread B d1 ?dev) (i_addrs ip1) sz'"
    using bk wrote_backed [OF w fok bk0 sz] by (simp add: sz'_def max_def)
  have iok: "inode_ok B sb ip' d'"
    using wi(1) wi(4) [OF sz'_le back'] sz'_le by (simp add: inode_ok_def eqs usz)
  have "written B sb U user s (unat n) (unat off) src ip d k ip' d'"
    unfolding written_def eqs usz
  proof (intro conjI)
    show "ip' = ip\<lparr>i_addrs := i_addrs ip1, i_size := of_nat (max (unat (i_size ip)) (unat off + k))\<rparr>"
      unfolding ip'_def sz'_def by (subst ip1) simp
    have lt: "unat off + i < sz'" if "i < k" for i using that by (simp add: sz'_def max_def)
    show "\<forall>i < k. content (bread B d' ?dev) (i_addrs ip1) sz' ! (unat off + i) = src_byte U user s (src + of_nat i)"
      using post wi(3) off(2) kn lt by (auto simp: wloop_post_def)
    show "\<forall>j < unat (i_size ip). j < unat off \<or> unat off + (if user then unat n else k) \<le> j \<longrightarrow>
        content (bread B d' ?dev) (i_addrs ip1) sz' ! j = icontent B ip d ! j"
    proof (intro allI impI)
      fix j assume j: "j < unat (i_size ip)" "j < unat off \<or> unat off + (if user then unat n else k) \<le> j"
      then have "j < sz'" "j < MAXFILE * BSIZE" using sz by (simp_all add: sz'_def)
      moreover have "fbyte (bread B d1 ?dev) (i_addrs ip1) j = fbyte (bread B d ?dev) ?as j"
        using w j \<open>j < MAXFILE * BSIZE\<close> unfolding wrote_def by auto
      ultimately show "content (bread B d' ?dev) (i_addrs ip1) sz' ! j = icontent B ip d ! j"
        using wi(3) j(1) by simp
    qed
    show "\<forall>x \<in> used_blocks B sb ?dev d. x \<notin> bitmap_blocks sb \<longrightarrow> x \<notin> tree_blocks (bread B d ?dev) ?as \<longrightarrow>
        x \<noteq> IBLOCK (i_inum ip) sb \<longrightarrow> bread B d' ?dev x = bread B d ?dev x"
      using wi(6) by blast
    show "k < unat n \<longrightarrow> \<not> user \<longrightarrow> used_blocks B sb ?dev d' = {b. b < sb_size sb}"
      using post wi(2) by (simp add: wloop_post_def)
    show "used_blocks B sb ?dev d \<subseteq> used_blocks B sb ?dev d'" using w wi(2) by (simp add: wrote_def)
  qed (use kn iok wi(5) in auto)
  with wr that show thesis by blast
qed

section \<open>The example file\<close>

lemma ex_inode_ok: "inode_ok ram_bio ex_sb ex_ip ex_disk"
proof -
  have "slot_addr (bread ram_bio ex_disk 1) ex_addrs (data_slot n) \<noteq> 0" if "n * BSIZE < 5" for n
  proof -
    from that have "n = 0" by linarith
    then show ?thesis by (simp add: data_slot_def ex_addrs_def)
  qed
  then show ?thesis
    using ex_file_ok by (simp add: inode_ok_def backed_def ex_ip_def)
qed

lemma ex_content: "icontent ram_bio ex_ip ex_disk = [104, 101, 108, 108, 111]"
proof -
  have "fbyte (bread ram_bio ex_disk 1) ex_addrs i = [104, 101, 108, 108, 111] ! i" if "i < 5" for i
  proof -
    from that have "i \<in> set [0..<5]" by simp
    then show ?thesis by (auto simp: upt_rec fbyte_def file_block_def data_slot_def ex_addrs_def ex_bread)
  qed
  then show ?thesis by (intro nth_equalityI) (auto simp: ex_ip_def)
qed

definition ex_mem :: "(u64 \<Rightarrow> u8) mem" where
  "ex_mem = \<lparr>kmem = (\<lambda>_. 7), umem = (\<lambda>a. ucast a)\<rparr>"

section \<open>Properties\<close>

text \<open>C5: \<open>readi\<close> on a well-formed file returns 0 and copies nothing when the offset lies beyond the end of the
  file or \<open>off + n\<close> wraps around; otherwise it makes exactly one logical copy to the
  destination, of the \<open>min n (size - off)\<close> bytes of the content at \<open>off\<close>, across any number of blocks and levels of
  the tree, and returns their number, or -1 when the copy to user memory fails. It changes neither inode nor disk.\<close>

theorem readi_correct:
  assumes "inode_ok B sb ip d" and "user \<longrightarrow> uvm_ok U"
  shows "readi B sb U ip user dst off n d s =
    (if off > i_size ip \<or> 2 ^ 32 \<le> unat off + unat n then Inr (0, ip, d, s)
     else let k = min (unat n) (unat (i_size ip) - unat off);
            (r, s') = either_copyout U user dst (chunk (unat off) k (icontent B ip d)) s in
       Inr (if r = -1 then -1 else of_nat k, ip, d, s'))"
proof (cases "off > i_size ip \<or> 2 ^ 32 \<le> unat off + unat n")
  case False
  then have "off \<le> i_size ip" "unat off + unat n < 2 ^ 32" by auto
  then show ?thesis unfolding if_not_P [OF False] by (rule readi_spec [OF assms])
next
  case True
  then show ?thesis by (auto simp: readi_def add32_wraps(1))
qed

theorem readi_correct_witness:
  "readi ram_bio ex_sb flat_uvm ex_ip True 100 1 9 ex_disk ex_mem =
     Inr (4, ex_ip, ex_disk, ex_mem\<lparr>umem := kstore 100 [101, 108, 108, 111] (umem ex_mem)\<rparr>)"
  using readi_correct [OF ex_inode_ok, of True flat_uvm 100 1 9 ex_mem, unfolded ex_content] flat_uvm_ok
  by (simp add:  either_copyout_def flat_uvm_def ex_ip_def chunk_def)

text \<open>C4: \<open>writei\<close> of a request that starts inside or at the end of the file and fits below \<open>MAXFILE\<close> blocks returns the number
  \<open>k\<close> of bytes it took from the source. The file has grown to \<open>max size (off + k)\<close>, holds those bytes at
  \<open>off\<close>, and is unchanged before \<open>off\<close> and after the request; the inode on the disk is the one in
  memory; the inode is still well formed; no block in use by anything else has changed. From a kernel
  source nothing after the \<open>k\<close> bytes has changed either, and \<open>k\<close> is short only when the disk is full.\<close>

theorem writei_correct:
  assumes "inode_ok B sb ip d" and "i_inum ip < sb_ninodes sb" and "user \<longrightarrow> uvm_ok U"
    and "off \<le> i_size ip" and "unat off + unat n \<le> MAXFILE * BSIZE"
  shows "\<exists>k ip' d'. writei B sb U ip user src off n s d = Inr (of_nat k, ip', d') \<and> k \<le> unat n \<and>
     ip' = ip\<lparr>i_addrs := i_addrs ip', i_size := of_nat (max (unat (i_size ip)) (unat off + k))\<rparr> \<and>
     inode_ok B sb ip' d' \<and>
     (\<forall>i < k. icontent B ip' d' ! (unat off + i) = src_byte U user s (src + of_nat i)) \<and>
     (\<forall>j < unat (i_size ip). j < unat off \<or> unat off + (if user then unat n else k) \<le> j \<longrightarrow>
        icontent B ip' d' ! j = icontent B ip d ! j) \<and>
     (\<forall>j < sb_ninodes sb. disk_inode B sb (i_dev ip) d' j =
        (if j = i_inum ip then dinode_of ip' else disk_inode B sb (i_dev ip) d j)) \<and>
     (\<forall>x \<in> used_blocks B sb (i_dev ip) d. x \<notin> bitmap_blocks sb \<longrightarrow>
        x \<notin> tree_blocks (bread B d (i_dev ip)) (i_addrs ip) \<longrightarrow> x \<noteq> IBLOCK (i_inum ip) sb \<longrightarrow>
        bread B d' (i_dev ip) x = bread B d (i_dev ip) x) \<and>
     (k < unat n \<longrightarrow> \<not> user \<longrightarrow> used_blocks B sb (i_dev ip) d' = {b. b < sb_size sb})"
  by (rule writei_spec [OF assms]) (unfold written_def, blast)

theorem writei_correct_witness:
  "\<exists>k ip' d'. writei ram_bio ex_sb flat_uvm ex_ip False 0 5 3000 ex_mem ex_disk = Inr (of_nat k, ip', d') \<and>
     inode_ok ram_bio ex_sb ip' d' \<and> icontent ram_bio ip' d' ! 0 = 104"
proof -
  have pre: "i_inum ex_ip < sb_ninodes ex_sb" "(False \<longrightarrow> uvm_ok flat_uvm)" "5 \<le> i_size ex_ip"
    "unat (5 :: u32) + unat (3000 :: u32) \<le> MAXFILE * BSIZE"
    by (simp_all add: ex_ip_def ex_sb_def)
  from writei_correct [OF ex_inode_ok pre, of 0 ex_mem] obtain k ip' d' where
    "writei ram_bio ex_sb flat_uvm ex_ip False 0 5 3000 ex_mem ex_disk = Inr (of_nat k, ip', d')"
    "inode_ok ram_bio ex_sb ip' d'"
    and "\<forall>j < unat (i_size ex_ip). j < unat (5 :: u32) \<or> unat (5 :: u32) + (if False then unat (3000 :: u32) else k) \<le> j \<longrightarrow>
      icontent ram_bio ip' d' ! j = icontent ram_bio ex_ip ex_disk ! j" by blast
  moreover from this(3) [unfolded ex_content] have "icontent ram_bio ip' d' ! 0 = 104" by (simp add: ex_ip_def)
  ultimately show ?thesis by blast
qed

text \<open>\<open>writei\<close> refuses, with -1 and without touching anything, exactly the requests that start after the end of the
  file, wrap around, or end beyond the largest file; every other request on a well-formed file returns a count.\<close>

theorem writei_refuses:
  assumes "inode_ok B sb ip d" and "i_inum ip < sb_ninodes sb" and "user \<longrightarrow> uvm_ok U"
  shows "if off > i_size ip \<or> MAXFILE * BSIZE < unat off + unat n
     then writei B sb U ip user src off n s d = Inr (-1, ip, d)
     else \<exists>k ip' d'. k \<le> unat n \<and> writei B sb U ip user src off n s d = Inr (of_nat k, ip', d')"
proof (cases "off > i_size ip \<or> MAXFILE * BSIZE < unat off + unat n")
  case False
  then have "off \<le> i_size ip" "unat off + unat n \<le> MAXFILE * BSIZE" by auto
  then obtain k ip' d' where "writei B sb U ip user src off n s d = Inr (of_nat k, ip', d')"
    "written B sb U user s (unat n) (unat off) src ip d k ip' d'" by (rule writei_spec [OF assms])
  with False show ?thesis by (auto simp: written_def)
next
  case True
  then show ?thesis
    using add32_wraps [of off n] by (cases "off + n < off") (auto simp: writei_def)
qed

theorem writei_refuses_witness:
  "writei ram_bio ex_sb flat_uvm ex_ip False 0 6 1 ex_mem ex_disk = Inr (-1, ex_ip, ex_disk)"
  using writei_refuses [OF ex_inode_ok, of False flat_uvm 6 1 0 ex_mem] by (simp add: ex_ip_def)

text \<open>C6: what \<open>writei\<close> took completely, \<open>readi\<close> of the same range into the kernel gives back, byte for byte.\<close>

theorem writei_readi_roundtrip:
  assumes "inode_ok B sb ip d" and "i_inum ip < sb_ninodes sb" and "user \<longrightarrow> uvm_ok U"
    and "off \<le> i_size ip" and "unat off + unat n \<le> MAXFILE * BSIZE"
    and "writei B sb U ip user src off n s d = Inr (n, ip', d')"
  shows "readi B sb U ip' False dst off n d' s' =
     Inr (n, ip', d', s'\<lparr>kmem := kstore dst (map (\<lambda>i. src_byte U user s (src + of_nat i)) [0..<unat n]) (kmem s')\<rparr>)"
proof -
  obtain k ip2 d2 where "writei B sb U ip user src off n s d = Inr (of_nat k, ip2, d2)"
    and "written B sb U user s (unat n) (unat off) src ip d k ip2 d2" by (rule writei_spec [OF assms(1-5)])
  with assms(6) have w: "written B sb U user s (unat n) (unat off) src ip d k ip' d'" and n: "of_nat k = n" by auto
  then have "k \<le> unat n" by (simp add: written_def)
  then have "k < 2 ^ 32" using unat_u32 [of n] by simp
  then have "unat (of_nat k :: u32) = k" by (simp add: unat_of_nat)
  then have k: "k = unat n" using n by simp
  define sz where "sz = max (unat (i_size ip)) (unat off + k)"
  have "sz \<le> MAXFILE * BSIZE" using assms(1,5) k by (auto simp: sz_def inode_ok_def)
  then have "unat (of_nat sz :: u32) = sz" by (simp add: unat_of_nat)
  moreover have "i_size ip' = of_nat sz" using w unfolding written_def sz_def by (metis inode.select_convs(10) inode.surjective inode.update_convs(10))
  ultimately have sz: "unat (i_size ip') = sz" by simp
  have ge: "unat off + unat n \<le> sz" by (simp add: sz_def k)
  have ok': "inode_ok B sb ip' d'" using w by (simp add: written_def)
  have "chunk (unat off) (unat n) (icontent B ip' d') = map (\<lambda>i. src_byte U user s (src + of_nat i)) [0..<unat n]"
  proof (rule nth_equalityI)
    show "length (chunk (unat off) (unat n) (icontent B ip' d')) = length (map (\<lambda>i. src_byte U user s (src + of_nat i)) [0..<unat n])"
      using ge sz by simp
    fix i assume "i < length (chunk (unat off) (unat n) (icontent B ip' d'))"
    then have i: "i < unat n" by simp
    with w k have "icontent B ip' d' ! (unat off + i) = src_byte U user s (src + of_nat i)" by (simp add: written_def)
    with i ge sz show "chunk (unat off) (unat n) (icontent B ip' d') ! i = map (\<lambda>i. src_byte U user s (src + of_nat i)) [0..<unat n] ! i"
      by (simp add: nth_chunk)
  qed
  moreover have "off \<le> i_size ip'" "unat off + unat n < 2 ^ 32" "min (unat n) (unat (i_size ip') - unat off) = unat n"
    using ge sz assms(5) by (simp_all add: word_le_nat_alt)
  ultimately show ?thesis using readi_spec [OF ok', of False U off n dst s'] by (simp add: either_copyout_def)
qed

theorem writei_readi_roundtrip_witness:
  "\<exists>ip' d'. writei ram_bio ex_sb flat_uvm ex_ip True 65 3 2 ex_mem ex_disk = Inr (2, ip', d') \<and>
     readi ram_bio ex_sb flat_uvm ip' False 0 3 2 d' ex_mem =
       Inr (2, ip', d', ex_mem\<lparr>kmem := kstore 0 [65, 66] (kmem ex_mem)\<rparr>)"
proof -
  have pre: "i_inum ex_ip < sb_ninodes ex_sb" "(True \<longrightarrow> uvm_ok flat_uvm)" "3 \<le> i_size ex_ip"
    "unat (3 :: u32) + unat (2 :: u32) \<le> MAXFILE * BSIZE"
    using flat_uvm_ok by (simp_all add: ex_ip_def ex_sb_def)
  have run: "\<exists>ip' d'. writei ram_bio ex_sb flat_uvm ex_ip True 65 3 2 ex_mem ex_disk = Inr (2, ip', d')"
    by (simp add: writei_def ex_ip_def ex_addrs_def writei_loop.simps bmap_def get_or_alloc_addr_def
        rw_len_def either_copyin_def flat_uvm_def Let_def)
  then obtain ip' d' where w: "writei ram_bio ex_sb flat_uvm ex_ip True 65 3 2 ex_mem ex_disk = Inr (2, ip', d')" by blast
  have "map (\<lambda>i. src_byte flat_uvm True ex_mem (65 + of_nat i)) [0..<unat (2 :: u32)] = [65, 66]"
    by (simp add: src_byte_def flat_uvm_def ex_mem_def upt_rec)
  with writei_readi_roundtrip [OF ex_inode_ok pre w, of 0 ex_mem] w show ?thesis by auto
qed

end
