(* ===== verification/Fs_Inode.thy ===== *)
theory Fs_Inode
  imports Fs_Rw
begin

text \<open>
  The inode table of \<open>HW4/source/fs.c\<close>: \<open>fsinit\<close>, \<open>iinit\<close>, \<open>ialloc\<close>, \<open>iget\<close>, \<open>idup\<close>, \<open>ilock\<close>, \<open>iunlock\<close>, \<open>iput\<close>, \<open>iunlockput\<close>.

  The state is the disk (with its cache and log) and the table, a list of inodes; a pointer
  to an inode is its index. \<open>me\<close> is the pid of the running process, the owner of the sleep locks it
  takes; a sleep lock that is already held makes the operation \<open>Blocked\<close>. The spin lock of the
  table makes each of \<open>iget\<close>, \<open>idup\<close> and the two halves of \<open>iput\<close> atomic. Reference counts are unbounded.
\<close>

section \<open>Definitions\<close>

record 'd kst =
  disk :: 'd
  itable :: "inode list"

definition fsinit :: "'d bio \<Rightarrow> ('d \<Rightarrow> u32 \<Rightarrow> superblock \<Rightarrow> 'd) \<Rightarrow> u32 \<Rightarrow> 'd \<Rightarrow> (superblock \<times> 'd) res" where
  "fsinit B initlog dev d =
     (let sb = readsb B dev d in
      if sb_magic sb \<noteq> FSMAGIC then Inl (Panic ''invalid file system'')
      else Inr (sb, initlog d dev sb))"

definition iinit :: "'d kst \<Rightarrow> 'd kst" where
  "iinit st = st\<lparr>itable := map (\<lambda>ip. ip\<lparr>i_lock := None\<rparr>) (itable st)\<rparr>"

text \<open>The search of \<open>iget\<close> from index \<open>i\<close> on: the entry in use for the inode, or else the first free entry.\<close>

fun iget_scan :: "u32 \<Rightarrow> u32 \<Rightarrow> nat \<Rightarrow> nat option \<Rightarrow> inode list \<Rightarrow> nat + nat option" where
  "iget_scan dev inum i emp [] = Inr emp"
| "iget_scan dev inum i emp (ip # ips) =
     (if i_ref ip > 0 \<and> i_dev ip = dev \<and> i_inum ip = inum then Inl i
      else iget_scan dev inum (i + 1)
        (if emp = None \<and> i_ref ip = 0 then Some i else emp) ips)"

definition iget :: "u32 \<Rightarrow> u32 \<Rightarrow> 'd kst \<Rightarrow> (nat \<times> 'd kst) res" where
  "iget dev inum st =
     (case iget_scan dev inum 0 None (itable st) of
        Inl i \<Rightarrow> Inr (i, st\<lparr>itable := (itable st)[i := (itable st ! i)\<lparr>i_ref := i_ref (itable st ! i) + 1\<rparr>]\<rparr>)
      | Inr None \<Rightarrow> Inl (Panic ''iget: no inodes'')
      | Inr (Some i) \<Rightarrow> Inr (i, st\<lparr>itable := (itable st)[i :=
          (itable st ! i)\<lparr>i_dev := dev, i_inum := inum, i_ref := 1, i_valid := False\<rparr>]\<rparr>))"

definition idup :: "nat \<Rightarrow> 'd kst \<Rightarrow> nat \<times> 'd kst" where
  "idup i st = (i, st\<lparr>itable := (itable st)[i := (itable st ! i)\<lparr>i_ref := i_ref (itable st ! i) + 1\<rparr>]\<rparr>)"

definition fresh_dinode :: "u16 \<Rightarrow> dinode" where
  "fresh_dinode ty = \<lparr>d_type = ty, d_major = 0, d_minor = 0, d_nlink = 0, d_size = 0, d_addrs = replicate 13 0\<rparr>"

function ialloc_from :: "'d bio \<Rightarrow> superblock \<Rightarrow> u32 \<Rightarrow> u16 \<Rightarrow> nat \<Rightarrow> 'd kst \<Rightarrow> (nat option \<times> 'd kst) res" where
  "ialloc_from B sb dev ty inum st =
     (if inum < unat (sb_ninodes sb) then
        let blk = IBLOCK (of_nat inum) sb; data = bread B (disk st) dev blk in
        if d_type (get_dinode data (inum mod IPB)) = 0 then
          bindE (iget dev (of_nat inum)
            (st\<lparr>disk := log_write B (disk st) dev blk (put_dinode data (inum mod IPB) (fresh_dinode ty))\<rparr>))
            (\<lambda>(i, st). Inr (Some i, st))
        else ialloc_from B sb dev ty (inum + 1) st
      else Inr (None, st))"
  by pat_completeness auto
termination
  by (relation "measure (\<lambda>(B, sb, dev, ty, inum, st). unat (sb_ninodes sb) - inum)") auto

declare ialloc_from.simps [simp del]

definition ialloc :: "'d bio \<Rightarrow> superblock \<Rightarrow> u32 \<Rightarrow> u16 \<Rightarrow> 'd kst \<Rightarrow> (nat option \<times> 'd kst) res" where
  "ialloc B sb dev ty st = ialloc_from B sb dev ty 1 st"

text \<open>The fields \<open>ilock\<close> copies from the disk.\<close>

definition load_dinode :: "dinode \<Rightarrow> inode \<Rightarrow> inode" where
  "load_dinode dip ip = ip\<lparr>i_type := d_type dip, i_major := d_major dip, i_minor := d_minor dip,
     i_nlink := d_nlink dip, i_size := d_size dip, i_addrs := d_addrs dip\<rparr>"

definition ilock :: "'d bio \<Rightarrow> superblock \<Rightarrow> int \<Rightarrow> nat option \<Rightarrow> 'd kst \<Rightarrow> 'd kst res" where
  "ilock B sb me p st =
     (case p of None \<Rightarrow> Inl (Panic ''ilock'')
      | Some i \<Rightarrow>
        let ip = itable st ! i in
        if i_ref ip < 1 then Inl (Panic ''ilock'')
        else if i_lock ip \<noteq> None then Inl Blocked
        else let ip = ip\<lparr>i_lock := Some me\<rparr> in
          if \<not> i_valid ip then
            let dip = get_dinode (bread B (disk st) (i_dev ip) (IBLOCK (i_inum ip) sb)) (unat (i_inum ip) mod IPB);
                ip = (load_dinode dip ip)\<lparr>i_valid := True\<rparr> in
            if i_type ip = 0 then Inl (Panic ''ilock: no type'')
            else Inr (st\<lparr>itable := (itable st)[i := ip]\<rparr>)
          else Inr (st\<lparr>itable := (itable st)[i := ip]\<rparr>))"

definition iunlock :: "int \<Rightarrow> nat option \<Rightarrow> 'd kst \<Rightarrow> 'd kst res" where
  "iunlock me p st =
     (case p of None \<Rightarrow> Inl (Panic ''iunlock'')
      | Some i \<Rightarrow>
        let ip = itable st ! i in
        if i_lock ip \<noteq> Some me \<or> i_ref ip < 1 then Inl (Panic ''iunlock'')
        else Inr (st\<lparr>itable := (itable st)[i := ip\<lparr>i_lock := None\<rparr>]\<rparr>))"

definition iput :: "'d bio \<Rightarrow> superblock \<Rightarrow> int \<Rightarrow> nat \<Rightarrow> 'd kst \<Rightarrow> 'd kst res" where
  "iput B sb me i st =
     bindE
       (let ip = itable st ! i in
        if i_ref ip = 1 \<and> i_valid ip \<and> i_nlink ip = 0 then
          if i_lock ip \<noteq> None then Inl Blocked
          else let ip = ip\<lparr>i_lock := Some me\<rparr> in
            bindE (itrunc B sb ip (disk st)) (\<lambda>(ip, d).
            let ip = ip\<lparr>i_type := 0\<rparr>;
                d = iupdate B sb ip d;
                ip = ip\<lparr>i_valid := False, i_lock := None\<rparr>
            in Inr \<lparr>disk = d, itable = (itable st)[i := ip]\<rparr>)
        else Inr st)
       (\<lambda>st. Inr (st\<lparr>itable := (itable st)[i := (itable st ! i)\<lparr>i_ref := i_ref (itable st ! i) - 1\<rparr>]\<rparr>))"

definition iunlockput :: "'d bio \<Rightarrow> superblock \<Rightarrow> int \<Rightarrow> nat \<Rightarrow> 'd kst \<Rightarrow> 'd kst res" where
  "iunlockput B sb me i st = bindE (iunlock me (Some i) st) (iput B sb me i)"

section \<open>The table as a map of references\<close>

text \<open>The invariant of the table: counts are not negative, and an inode in use has one entry.\<close>

definition table_ok :: "inode list \<Rightarrow> bool" where
  "table_ok t \<longleftrightarrow> (\<forall>ip \<in> set t. 0 \<le> i_ref ip) \<and>
     (\<forall>i < length t. \<forall>j < length t. i_ref (t ! i) > 0 \<longrightarrow> i_ref (t ! j) > 0 \<longrightarrow>
        i_dev (t ! i) = i_dev (t ! j) \<longrightarrow> i_inum (t ! i) = i_inum (t ! j) \<longrightarrow> i = j)"

text \<open>The abstract view: how many references there are to each inode.\<close>

definition ikey :: "inode \<Rightarrow> u32 \<times> u32" where
  "ikey ip = (i_dev ip, i_inum ip)"

definition irefs :: "inode list \<Rightarrow> u32 \<times> u32 \<Rightarrow> int" where
  "irefs t k = (\<Sum>ip \<leftarrow> t. if ikey ip = k then i_ref ip else 0)"

lemma irefs_update:
  assumes "i < length t"
  shows "irefs (t[i := ip]) k = irefs t k - (if ikey (t ! i) = k then i_ref (t ! i) else 0) +
    (if ikey ip = k then i_ref ip else 0)"
  using assms by (induction t arbitrary: i) (auto simp: irefs_def less_Suc_eq_0_disj split: nat.splits)

lemma irefs_unique:
  assumes ok: "table_ok t" and i: "i < length t" "i_ref (t ! i) > 0"
  shows "irefs t (ikey (t ! i)) = i_ref (t ! i)"
proof -
  have "(\<Sum>j = 0..<length t. if ikey (t ! j) = ikey (t ! i) then i_ref (t ! j) else 0) =
      (\<Sum>j = 0..<length t. if j = i then i_ref (t ! i) else 0)"
  proof (rule sum.cong)
    fix j assume j: "j \<in> {0..<length t}"
    then have "0 \<le> i_ref (t ! j)" using ok by (simp add: table_ok_def)
    with j ok i show "(if ikey (t ! j) = ikey (t ! i) then i_ref (t ! j) else 0) = (if j = i then i_ref (t ! i) else 0)"
      unfolding table_ok_def ikey_def by (cases "i_ref (t ! j) = 0") fastforce+
  qed simp
  also have "\<dots> = i_ref (t ! i)" using i by simp
  finally show ?thesis by (simp add: irefs_def sum_list_sum_nth)
qed

lemma irefs_nonneg: "table_ok t \<Longrightarrow> 0 \<le> irefs t k"
  unfolding irefs_def table_ok_def by (intro sum_list_nonneg) auto

lemma irefs_absent:
  assumes "table_ok t" and "\<forall>ip \<in> set t. i_ref ip > 0 \<longrightarrow> ikey ip \<noteq> k"
  shows "irefs t k = 0"
proof -
  have "\<forall>ip \<in> set t. (if ikey ip = k then i_ref ip else 0) = 0"
    using assms unfolding table_ok_def by force
  then have "map (\<lambda>ip. if ikey ip = k then i_ref ip else 0) t = map (\<lambda>_. 0) t" by simp
  then show ?thesis by (simp only: irefs_def sum_list_0)
qed

section \<open>iget, idup and iput on the table\<close>

lemma iget_scan_found:
  "iget_scan dev inum i emp ips = Inl r \<Longrightarrow>
     i \<le> r \<and> r - i < length ips \<and> i_ref (ips ! (r - i)) > 0 \<and> ikey (ips ! (r - i)) = (dev, inum)"
proof (induction ips arbitrary: i emp)
  case Nil
  then show ?case by simp
next
  case (Cons ip ips)
  show ?case
  proof (cases "i_ref ip > 0 \<and> i_dev ip = dev \<and> i_inum ip = inum")
    case True
    with Cons.prems show ?thesis by (auto simp: ikey_def)
  next
    case False
    with Cons.prems have "iget_scan dev inum (i + 1) (if emp = None \<and> i_ref ip = 0 then Some i else emp) ips = Inl r" by auto
    from Cons.IH [OF this] have ge: "i + 1 \<le> r" and rest: "r - (i + 1) < length ips"
      "i_ref (ips ! (r - (i + 1))) > 0" "ikey (ips ! (r - (i + 1))) = (dev, inum)" by auto
    then have "(ip # ips) ! (r - i) = ips ! (r - (i + 1))" "r - i = Suc (r - (i + 1))" by (auto simp: nth_Cons')
    with ge rest show ?thesis by simp
  qed
qed

lemma iget_scan_free:
  assumes "iget_scan dev inum i emp ips = Inr e"
  shows "\<forall>ip \<in> set ips. i_ref ip > 0 \<longrightarrow> ikey ip \<noteq> (dev, inum)"
    and "e = (case emp of None \<Rightarrow> map_option ((+) i) (find_idx (\<lambda>ip. i_ref ip = 0) ips) | Some j \<Rightarrow> Some j)"
proof -
  show "\<forall>ip \<in> set ips. i_ref ip > 0 \<longrightarrow> ikey ip \<noteq> (dev, inum)"
    using assms by (induction ips arbitrary: i emp) (auto simp: ikey_def split: if_splits)
  show "e = (case emp of None \<Rightarrow> map_option ((+) i) (find_idx (\<lambda>ip. i_ref ip = 0) ips) | Some j \<Rightarrow> Some j)"
    using assms
  proof (induction ips arbitrary: i emp)
    case (Cons ip ips)
    let ?emp = "if emp = None \<and> i_ref ip = 0 then Some i else emp"
    have rec: "iget_scan dev inum (i + 1) ?emp ips = Inr e" using Cons.prems by (auto split: if_splits)
    have "(+) (Suc i) = (\<lambda>x. Suc (i + x))" by auto
    with Cons.IH [OF rec] show ?case by (cases emp) (auto simp: option.map_comp comp_def)
  qed (auto split: option.splits)
qed

text \<open>The four ways \<open>iget\<close> can go are two: a hit, or an entry taken over; or the panic.\<close>

lemma iget_cases:
  assumes ok: "table_ok (itable st)"
  obtains (hit) i where "i < length (itable st)" "i_ref (itable st ! i) > 0" "ikey (itable st ! i) = (dev, inum)"
      "iget dev inum st = Inr (i, st\<lparr>itable := (itable st)[i := (itable st ! i)\<lparr>i_ref := i_ref (itable st ! i) + 1\<rparr>]\<rparr>)"
  | (miss) i where "irefs (itable st) (dev, inum) = 0" "i < length (itable st)" "i_ref (itable st ! i) = 0"
      "\<forall>j < i. i_ref (itable st ! j) \<noteq> 0"
      "iget dev inum st = Inr (i, st\<lparr>itable := (itable st)[i :=
         (itable st ! i)\<lparr>i_dev := dev, i_inum := inum, i_ref := 1, i_valid := False\<rparr>]\<rparr>)"
  | (full) "irefs (itable st) (dev, inum) = 0" "\<forall>ip \<in> set (itable st). i_ref ip \<noteq> 0"
      "iget dev inum st = Inl (Panic ''iget: no inodes'')"
proof (cases "iget_scan dev inum 0 None (itable st)")
  case (Inl i)
  from iget_scan_found [OF this] show thesis
    by (intro hit [of i]) (auto simp: iget_def Inl)
next
  case (Inr e)
  note f = iget_scan_free [OF Inr]
  have z: "irefs (itable st) (dev, inum) = 0" by (rule irefs_absent [OF ok f(1)])
  show thesis
  proof (cases "find_idx (\<lambda>ip. i_ref ip = 0) (itable st)")
    case (Some i)
    moreover have "e = Some i" using f(2) Some by simp
    ultimately show thesis using z by (intro miss [of i]) (auto simp: find_idx_Some iget_def Inr)
  next
    case None
    then have "e = None" using f(2) by simp
    with None z show thesis by (intro full) (auto simp: find_idx_None iget_def Inr)
  qed
qed

text \<open>An update of one entry that keeps its identity, or takes a free entry for an inode not in the table.\<close>

lemma table_ok_update:
  assumes ok: "table_ok t" and i: "i < length t" and r: "0 \<le> i_ref ip"
    and same: "i_ref ip > 0 \<Longrightarrow> (ikey ip = ikey (t ! i) \<and> i_ref (t ! i) > 0) \<or> irefs t (ikey ip) = 0"
  shows "table_ok (t[i := ip])"
  unfolding table_ok_def
proof (intro conjI allI impI ballI)
  fix x assume "x \<in> set (t[i := ip])"
  then have "x = ip \<or> x \<in> set t" by (metis insert_iff set_update_subset_insert subset_iff)
  with ok r show "0 \<le> i_ref x" by (auto simp: table_ok_def)
next
  have uniq: "a = b" if "a < length t" "b < length t" "i_ref (t ! a) > 0" "i_ref (t ! b) > 0" "ikey (t ! a) = ikey (t ! b)" for a b
    using that ok unfolding table_ok_def ikey_def by blast
  have other: "b = i" if b: "b < length t" "i_ref (t ! b) > 0" "ikey (t ! b) = ikey ip" "i_ref ip > 0" for b
  proof -
    have "irefs t (ikey ip) > 0" using irefs_unique [OF ok b(1,2)] b by simp
    with same b have "ikey ip = ikey (t ! i)" "i_ref (t ! i) > 0" by auto
    with b uniq [of b i] i show ?thesis by simp
  qed
  fix a b
  assume "a < length (t[i := ip])" "b < length (t[i := ip])" "0 < i_ref (t[i := ip] ! a)" "0 < i_ref (t[i := ip] ! b)"
    "i_dev (t[i := ip] ! a) = i_dev (t[i := ip] ! b)" "i_inum (t[i := ip] ! a) = i_inum (t[i := ip] ! b)"
  then have ab: "a < length t" "b < length t" "0 < i_ref (t[i := ip] ! a)" "0 < i_ref (t[i := ip] ! b)"
    and k: "ikey (t[i := ip] ! a) = ikey (t[i := ip] ! b)" by (auto simp: ikey_def)
  have na: "t[i := ip] ! c = (if c = i then ip else t ! c)" if "c < length t" for c
    using that by (simp add: nth_list_update)
  consider "a = i" "b = i" | "a = i" "b \<noteq> i" | "a \<noteq> i" "b = i" | "a \<noteq> i" "b \<noteq> i" by auto
  then show "a = b"
  proof cases
    case 2
    have "b = i"
      by (rule other [OF ab(2)]) (use ab(3,4) k 2 na [OF ab(1)] na [OF ab(2)] in simp_all)
    with 2 show ?thesis by simp
  next
    case 3
    have "a = i"
      by (rule other [OF ab(1)]) (use ab(3,4) k 3 na [OF ab(1)] na [OF ab(2)] in simp_all)
    with 3 show ?thesis by simp
  next
    case 4
    show ?thesis
      by (rule uniq [OF ab(1,2)]) (use ab(3,4) k 4 na [OF ab(1)] na [OF ab(2)] in simp_all)
  qed simp
qed

lemma iget_returns:
  assumes "table_ok (itable st)" and "ip \<in> set (itable st)" and "i_ref ip = 0"
  shows "\<exists>i st'. iget dev inum st = Inr (i, st')"
  using assms(1) by (cases rule: iget_cases [where dev = dev and inum = inum]) (use assms(2,3) in auto)

section \<open>The contract of a table of counted references\<close>

text \<open>\<open>refs s k\<close> counts the references to the object named \<open>k\<close>; \<open>get\<close> adds one and finds the same entry
  as long as there is one, \<open>dup\<close> adds one, \<open>put\<close> takes one back.\<close>

locale reference_table =
  fixes get :: "'k \<Rightarrow> 's \<Rightarrow> (nat \<times> 's) res"
    and dup :: "nat \<Rightarrow> 's \<Rightarrow> nat \<times> 's"
    and put :: "nat \<Rightarrow> 's \<Rightarrow> 's res"
    and refs :: "'s \<Rightarrow> 'k \<Rightarrow> int"
    and key :: "'s \<Rightarrow> nat \<Rightarrow> 'k"
    and live :: "'s \<Rightarrow> nat \<Rightarrow> bool"
    and inv :: "'s \<Rightarrow> bool"
  assumes live_refs: "inv s \<Longrightarrow> live s i \<Longrightarrow> refs s (key s i) > 0"
    and get_inv: "inv s \<Longrightarrow> get k s = Inr (i, s') \<Longrightarrow> inv s' \<and> live s' i \<and> key s' i = k"
    and get_refs: "inv s \<Longrightarrow> get k s = Inr (i, s') \<Longrightarrow> refs s' = (refs s)(k := refs s k + 1)"
    and get_keeps: "inv s \<Longrightarrow> get k s = Inr (i, s') \<Longrightarrow> live s j \<Longrightarrow> live s' j \<and> key s' j = key s j"
    and get_same: "inv s \<Longrightarrow> live s j \<Longrightarrow> get (key s j) s = Inr (i, s') \<Longrightarrow> i = j"
    and dup_inv: "inv s \<Longrightarrow> live s i \<Longrightarrow> dup i s = (i', s') \<Longrightarrow>
      i' = i \<and> inv s' \<and> live s' = live s \<and> key s' = key s"
    and dup_refs: "inv s \<Longrightarrow> live s i \<Longrightarrow> dup i s = (i', s') \<Longrightarrow>
      refs s' = (refs s)(key s i := refs s (key s i) + 1)"
    and put_inv: "inv s \<Longrightarrow> live s i \<Longrightarrow> put i s = Inr s' \<Longrightarrow> inv s'"
    and put_refs: "inv s \<Longrightarrow> live s i \<Longrightarrow> put i s = Inr s' \<Longrightarrow>
      refs s' = (refs s)(key s i := refs s (key s i) - 1)"
    and put_keeps: "inv s \<Longrightarrow> live s i \<Longrightarrow> put i s = Inr s' \<Longrightarrow> live s j \<Longrightarrow>
      (j \<noteq> i \<or> refs s (key s i) > 1) \<Longrightarrow> live s' j \<and> key s' j = key s j"
begin

lemma get_put_balance:
  assumes "inv s" and "get k s = Inr (i, s1)" and "put i s1 = Inr s2"
  shows "inv s2 \<and> refs s2 = refs s"
proof -
  from get_inv [OF assms(1,2)] have g: "inv s1" "live s1 i" "key s1 i = k" by auto
  with put_inv [OF g(1,2) assms(3)] put_refs [OF g(1,2) assms(3)] get_refs [OF assms(1,2)]
  show ?thesis by (simp add: fun_upd_idem)
qed

lemma dup_put_balance:
  assumes "inv s" and "live s i" and "dup i s = (i', s1)" and "put i s1 = Inr s2"
  shows "inv s2 \<and> refs s2 = refs s"
proof -
  from dup_inv [OF assms(1-3)] assms(2) have g: "inv s1" "live s1 i" "key s1 i = key s i" by auto
  with put_inv [OF g(1,2) assms(4)] put_refs [OF g(1,2) assms(4)] dup_refs [OF assms(1-3)]
  show ?thesis by (simp add: fun_upd_idem)
qed

text \<open>Two \<open>get\<close>s of one object name one entry.\<close>

lemma get_twice:
  assumes "inv s" and "get k s = Inr (i, s1)" and "get k s1 = Inr (j, s2)"
  shows "j = i \<and> refs s2 k = refs s k + 2"
proof -
  from get_inv [OF assms(1,2)] have g: "inv s1" "live s1 i" "key s1 i = k" by auto
  with get_same [OF g(1,2)] assms(3) have "j = i" by simp
  with get_refs [OF g(1) assms(3)] get_refs [OF assms(1,2)] show ?thesis by simp
qed

end

text \<open>The change \<open>iput\<close> makes to the table: the entry keeps its identity and loses one reference.\<close>

lemma itrunc_ident:
  assumes "itrunc B sb ip d = Inr (ip', d')"
  shows "i_dev ip' = i_dev ip \<and> i_inum ip' = i_inum ip \<and> i_ref ip' = i_ref ip"
proof -
  have A: "i_dev q' = i_dev q \<and> i_inum q' = i_inum q \<and> i_ref q' = i_ref q"
    if "itrunc_direct B sb q e = Inr (q', e')" for q e q' e'
    using that by (auto simp: itrunc_direct_def bindE_eq_Inr)
  have I: "i_dev q' = i_dev q \<and> i_inum q' = i_inum q \<and> i_ref q' = i_ref q"
    if "itrunc_indirect B sb q e = Inr (q', e')" for q e q' e'
    using that by (auto simp: itrunc_indirect_def Let_def bindE_eq_Inr split: if_splits)
  have D: "i_dev q' = i_dev q \<and> i_inum q' = i_inum q \<and> i_ref q' = i_ref q"
    if "itrunc_double B sb q e = Inr (q', e')" for q e q' e'
    using that by (auto simp: itrunc_double_def Let_def bindE_eq_Inr split: if_splits)
  from assms obtain q1 e1 q2 e2 q3 e3 where "itrunc_direct B sb ip d = Inr (q1, e1)"
    "itrunc_indirect B sb q1 e1 = Inr (q2, e2)" "itrunc_double B sb q2 e2 = Inr (q3, e3)" "ip' = q3\<lparr>i_size := 0\<rparr>"
    by (auto simp: itrunc_def Let_def bindE_eq_Inr)
  with A [of ip d q1 e1] I [of q1 e1 q2 e2] D [of q2 e2 q3 e3] show ?thesis by simp
qed

lemma iput_table:
  assumes "iput B sb me i st = Inr st'" and "i < length (itable st)"
  obtains ip' where "itable st' = (itable st)[i := ip']" "ikey ip' = ikey (itable st ! i)"
    "i_ref ip' = i_ref (itable st ! i) - 1"
proof (cases "i_ref (itable st ! i) = 1 \<and> i_valid (itable st ! i) \<and> i_nlink (itable st ! i) = 0")
  case False
  with assms show thesis
    by (intro that [of "(itable st ! i)\<lparr>i_ref := i_ref (itable st ! i) - 1\<rparr>"])
      (auto simp: iput_def ikey_def Let_def)
next
  case True
  with assms obtain ip1 d1 where t: "itrunc B sb ((itable st ! i)\<lparr>i_lock := Some me\<rparr>) (disk st) = Inr (ip1, d1)"
    and e: "itable st' = (itable st)[i := ip1\<lparr>i_type := 0, i_valid := False, i_lock := None, i_ref := i_ref ip1 - 1\<rparr>]"
    by (auto simp: iput_def Let_def bindE_eq_Inr split: if_splits)
  from itrunc_ident [OF t] e show thesis
    by (intro that [OF e]) (auto simp: ikey_def)
qed

definition ilive :: "'d kst \<Rightarrow> nat \<Rightarrow> bool" where
  "ilive st i \<longleftrightarrow> i < length (itable st) \<and> i_ref (itable st ! i) > 0"

lemma iput_table_ok:
  assumes ok: "table_ok (itable st)" and l: "ilive st i" and run: "iput B sb me i st = Inr st'"
  shows "table_ok (itable st')"
    and "irefs (itable st') = (irefs (itable st))(ikey (itable st ! i) := irefs (itable st) (ikey (itable st ! i)) - 1)"
proof -
  have i: "i < length (itable st)" "i_ref (itable st ! i) > 0" using l by (auto simp: ilive_def)
  obtain ip' where ip': "itable st' = (itable st)[i := ip']" "ikey ip' = ikey (itable st ! i)"
    "i_ref ip' = i_ref (itable st ! i) - 1" by (rule iput_table [OF run i(1)])
  show "table_ok (itable st')"
    unfolding ip'(1) by (rule table_ok_update [OF ok i(1)]) (use i(2) ip' in auto)
  show "irefs (itable st') = (irefs (itable st))(ikey (itable st ! i) := irefs (itable st) (ikey (itable st ! i)) - 1)"
    unfolding ip'(1) using ip'(2,3) by (auto simp: irefs_update [OF i(1)])
qed

lemma iget_table_ok:
  assumes ok: "table_ok (itable st)" and run: "iget dev inum st = Inr (i, st')"
  shows "table_ok (itable st') \<and> ilive st' i \<and> ikey (itable st' ! i) = (dev, inum)"
    and "irefs (itable st') = (irefs (itable st))((dev, inum) := irefs (itable st) (dev, inum) + 1)"
    and "ilive st j \<Longrightarrow> ilive st' j \<and> ikey (itable st' ! j) = ikey (itable st ! j)"
    and "ilive st j \<Longrightarrow> ikey (itable st ! j) = (dev, inum) \<Longrightarrow> i = j"
    and "disk st' = disk st"
proof -
  from ok have "(table_ok (itable st') \<and> ilive st' i \<and> ikey (itable st' ! i) = (dev, inum)) \<and>
    irefs (itable st') = (irefs (itable st))((dev, inum) := irefs (itable st) (dev, inum) + 1) \<and>
    (\<forall>j. ilive st j \<longrightarrow> ilive st' j \<and> ikey (itable st' ! j) = ikey (itable st ! j)) \<and>
    (\<forall>j. ilive st j \<longrightarrow> ikey (itable st ! j) = (dev, inum) \<longrightarrow> i = j) \<and> disk st' = disk st"
  proof (cases rule: iget_cases [where dev = dev and inum = inum])
    case (hit k)
    let ?ip = "(itable st ! k)\<lparr>i_ref := i_ref (itable st ! k) + 1\<rparr>"
    from hit run have e: "i = k" "st' = st\<lparr>itable := (itable st)[k := ?ip]\<rparr>" by simp_all
    have key: "ikey ?ip = ikey (itable st ! k)" by (simp add: ikey_def)
    have ok': "table_ok ((itable st)[k := ?ip])"
      by (rule table_ok_update [OF ok hit(1)]) (use hit(2) key in auto)
    have refs: "irefs ((itable st)[k := ?ip]) = (irefs (itable st))((dev, inum) := irefs (itable st) (dev, inum) + 1)"
      using hit(3) key by (auto simp: irefs_update [OF hit(1)])
    have keys: "ikey ((itable st)[k := ?ip] ! j) = ikey (itable st ! j)" for j
      using key hit(1) by (cases "j = k") simp_all
    have lives: "i_ref ((itable st)[k := ?ip] ! j) > 0" if "i_ref (itable st ! j) > 0" for j
      using that hit(1) by (cases "j = k") simp_all
    show ?thesis
    proof (intro conjI allI impI)
      fix j assume "ilive st j" "ikey (itable st ! j) = (dev, inum)"
      then show "i = j"
        using hit(1-3) ok unfolding e table_ok_def ilive_def ikey_def by (metis prod.inject)
    qed (use hit(1-3) lives ok' refs keys key in \<open>simp_all add: e ilive_def\<close>)
  next
    case (miss k)
    let ?ip = "(itable st ! k)\<lparr>i_dev := dev, i_inum := inum, i_ref := 1, i_valid := False\<rparr>"
    from miss run have e: "i = k" "st' = st\<lparr>itable := (itable st)[k := ?ip]\<rparr>" by simp_all
    have key: "ikey ?ip = (dev, inum)" by (simp add: ikey_def)
    have "table_ok ((itable st)[k := ?ip])"
      by (rule table_ok_update [OF ok miss(2)]) (use miss(1) key in auto)
    moreover have "\<not> (ilive st j \<and> ikey (itable st ! j) = (dev, inum))" for j
      using irefs_unique [OF ok, of j] miss(1) by (auto simp: ilive_def)
    moreover have "\<not> ilive st k" using miss(3) by (simp add: ilive_def)
    moreover have "irefs ((itable st)[k := ?ip]) = (irefs (itable st))((dev, inum) := irefs (itable st) (dev, inum) + 1)"
      using miss(3) key by (auto simp: irefs_update [OF miss(2)])
    moreover have "(itable st)[k := ?ip] ! j = itable st ! j" if "ilive st j" for j
      using that miss(3) by (cases "j = k") (auto simp: ilive_def)
    ultimately show ?thesis
      using miss(2) e key by (simp add: ilive_def)
  next
    case full
    with run show ?thesis by simp
  qed
  then show "table_ok (itable st') \<and> ilive st' i \<and> ikey (itable st' ! i) = (dev, inum)"
    "irefs (itable st') = (irefs (itable st))((dev, inum) := irefs (itable st) (dev, inum) + 1)"
    "ilive st j \<Longrightarrow> ilive st' j \<and> ikey (itable st' ! j) = ikey (itable st ! j)"
    "ilive st j \<Longrightarrow> ikey (itable st ! j) = (dev, inum) \<Longrightarrow> i = j" "disk st' = disk st" by blast+
qed

lemma idup_table_ok:
  assumes ok: "table_ok (itable st)" and l: "ilive st i"
  defines "st' \<equiv> snd (idup i st)"
  shows "table_ok (itable st')" and "ilive st' j = ilive st j" and "ikey (itable st' ! j) = ikey (itable st ! j)"
    and "irefs (itable st') = (irefs (itable st))(ikey (itable st ! i) := irefs (itable st) (ikey (itable st ! i)) + 1)"
proof -
  have i: "i < length (itable st)" "i_ref (itable st ! i) > 0" using l by (auto simp: ilive_def)
  let ?ip = "(itable st ! i)\<lparr>i_ref := i_ref (itable st ! i) + 1\<rparr>"
  have st': "st' = st\<lparr>itable := (itable st)[i := ?ip]\<rparr>" by (simp add: st'_def idup_def)
  have key: "ikey ?ip = ikey (itable st ! i)" by (simp add: ikey_def)
  show "table_ok (itable st')"
    using st' table_ok_update [OF ok i(1), of ?ip] i(2) key by simp
  show "ilive st' j = ilive st j" "ikey (itable st' ! j) = ikey (itable st ! j)"
    using i key by (cases "j = i"; simp add: st' ilive_def)+
  show "irefs (itable st') = (irefs (itable st))(ikey (itable st ! i) := irefs (itable st) (ikey (itable st ! i)) + 1)"
    using key by (auto simp: st' irefs_update [OF i(1)])
qed

interpretation itab: reference_table "\<lambda>k. iget (fst k) (snd k)" idup "iput B sb me" "\<lambda>st. irefs (itable st)"
  "\<lambda>st i. ikey (itable st ! i)" ilive "\<lambda>st. table_ok (itable st)"
  for B :: "'d bio" and sb me
proof
  fix st :: "'d kst" and i
  assume "table_ok (itable st)" "ilive st i"
  then show "0 < irefs (itable st) (ikey (itable st ! i))" using irefs_unique by (auto simp: ilive_def)
next
  fix st st' :: "'d kst" and k i
  assume ok: "table_ok (itable st)" and run: "iget (fst k) (snd k) st = Inr (i, st')"
  note g = iget_table_ok [OF ok run]
  show "table_ok (itable st') \<and> ilive st' i \<and> ikey (itable st' ! i) = k" using g(1) by simp
  show "irefs (itable st') = (irefs (itable st))(k := irefs (itable st) k + 1)" using g(2) by simp
  fix j assume "ilive st j"
  then show "ilive st' j \<and> ikey (itable st' ! j) = ikey (itable st ! j)" using g(3) by simp
next
  fix st st' :: "'d kst" and i j
  assume ok: "table_ok (itable st)" and l: "ilive st j"
    and run: "iget (fst (ikey (itable st ! j))) (snd (ikey (itable st ! j))) st = Inr (i, st')"
  then show "i = j" using iget_table_ok(4) [OF ok run l] by simp
next
  fix st st' :: "'d kst" and i i'
  assume ok: "table_ok (itable st)" and l: "ilive st i" and run: "idup i st = (i', st')"
  then have i': "i' = i" and st': "st' = snd (idup i st)" by (auto simp: idup_def)
  note d = idup_table_ok [OF ok l]
  show "i' = i \<and> table_ok (itable st') \<and> ilive st' = ilive st \<and> (\<lambda>i. ikey (itable st' ! i)) = (\<lambda>i. ikey (itable st ! i))"
    using i' st' d(1-3) by auto
  show "irefs (itable st') = (irefs (itable st))(ikey (itable st ! i) := irefs (itable st) (ikey (itable st ! i)) + 1)"
    using st' d(4) by simp
next
  fix st st' :: "'d kst" and i
  assume ok: "table_ok (itable st)" and l: "ilive st i" and run: "iput B sb me i st = Inr st'"
  note p = iput_table_ok [OF ok l run]
  show "table_ok (itable st')" by (rule p(1))
  show "irefs (itable st') = (irefs (itable st))(ikey (itable st ! i) := irefs (itable st) (ikey (itable st ! i)) - 1)"
    by (rule p(2))
  fix j assume j: "ilive st j" "j \<noteq> i \<or> 1 < irefs (itable st) (ikey (itable st ! i))"
  have i: "i < length (itable st)" "i_ref (itable st ! i) > 0" using l by (auto simp: ilive_def)
  obtain ip' where ip': "itable st' = (itable st)[i := ip']" "ikey ip' = ikey (itable st ! i)"
    "i_ref ip' = i_ref (itable st ! i) - 1" by (rule iput_table [OF run i(1)])
  show "ilive st' j \<and> ikey (itable st' ! j) = ikey (itable st ! j)"
    using j ip' i irefs_unique [OF ok i] by (cases "j = i") (auto simp: ilive_def)
qed

section \<open>ilock and the disk\<close>

text \<open>The cached inodes that nobody has locked agree with the disk.\<close>

definition coherent :: "'d bio \<Rightarrow> superblock \<Rightarrow> 'd kst \<Rightarrow> bool" where
  "coherent B sb st \<longleftrightarrow> (\<forall>ip \<in> set (itable st). i_ref ip > 0 \<longrightarrow> i_valid ip \<longrightarrow> i_lock ip = None \<longrightarrow>
     dinode_of ip = disk_inode B sb (i_dev ip) (disk st) (i_inum ip))"

lemma dinode_of_load [simp]: "dinode_of (load_dinode dip ip) = dip"
  by (simp add: dinode_of_def load_dinode_def)

lemma dinode_of_simps [simp]:
  "dinode_of (ip\<lparr>i_lock := l\<rparr>) = dinode_of ip" "dinode_of (ip\<lparr>i_valid := v\<rparr>) = dinode_of ip"
  "dinode_of (ip\<lparr>i_ref := r\<rparr>) = dinode_of ip"
  by (simp_all add: dinode_of_def)

lemma load_dinode_simps [simp]:
  "i_dev (load_dinode dip ip) = i_dev ip" "i_inum (load_dinode dip ip) = i_inum ip" "i_ref (load_dinode dip ip) = i_ref ip"
  "i_lock (load_dinode dip ip) = i_lock ip" "i_type (load_dinode dip ip) = d_type dip"
  by (simp_all add: load_dinode_def)

lemma ilock_spec:
  assumes co: "coherent B sb st" and l: "ilive st i" and run: "ilock B sb me (Some i) st = Inr st'"
  obtains ip' where "st' = st\<lparr>itable := (itable st)[i := ip']\<rparr>" "i_lock (itable st ! i) = None" "i_lock ip' = Some me"
    "ikey ip' = ikey (itable st ! i)" "i_ref ip' = i_ref (itable st ! i)" "i_valid ip'"
    "dinode_of ip' = disk_inode B sb (i_dev ip') (disk st) (i_inum ip')"
proof -
  let ?ip = "itable st ! i"
  let ?dip = "disk_inode B sb (i_dev ?ip) (disk st) (i_inum ?ip)"
  have i: "i < length (itable st)" "i_ref ?ip > 0" using l by (auto simp: ilive_def)
  have free: "i_lock ?ip = None" using run i by (auto simp: ilock_def Let_def split: if_splits)
  show thesis
  proof (cases "i_valid ?ip")
    case True
    with co i free have "dinode_of ?ip = ?dip" by (auto simp: coherent_def)
    with True run i free show thesis
      by (intro that [of "?ip\<lparr>i_lock := Some me\<rparr>"]) (auto simp: ilock_def Let_def ikey_def)
  next
    case False
    with run i free show thesis
      by (intro that [of "(load_dinode ?dip (?ip\<lparr>i_lock := Some me\<rparr>))\<lparr>i_valid := True\<rparr>"])
        (auto simp: ilock_def Let_def ikey_def disk_inode_def split: if_splits)
  qed
qed

lemma set_update_cases: "x \<in> set (xs[i := y]) \<Longrightarrow> x = y \<or> x \<in> set xs"
  by (metis insert_iff set_update_subset_insert subset_iff)

lemma coherent_update:
  assumes "coherent B sb st" and "i_lock ip' = None \<Longrightarrow> i_valid ip' \<Longrightarrow> i_ref ip' > 0 \<Longrightarrow>
      dinode_of ip' = disk_inode B sb (i_dev ip') (disk st) (i_inum ip')"
  shows "coherent B sb (st\<lparr>itable := (itable st)[i := ip']\<rparr>)"
  using assms unfolding coherent_def by (auto dest!: set_update_cases)

section \<open>ialloc\<close>

lemma disk_inode_put:
  assumes bio: "bio_ok B" and "length (d_addrs di) = 13"
  shows "disk_inode B sb dev (log_write B d dev (IBLOCK i sb) (put_dinode (bread B d dev (IBLOCK i sb)) (unat i mod IPB) di)) j =
    (if j = i then di else disk_inode B sb dev d j)"
proof -
  have le: "64 * (unat i mod IPB) + 64 \<le> BSIZE" using mod_less_divisor [of IPB "unat i"] by linarith
  then have len: "length (put_dinode (bread B d dev (IBLOCK i sb)) (unat i mod IPB) di) = BSIZE"
    using assms by (simp add: length_put_dinode length_bread)
  show ?thesis
    using assms le IBLOCK_same [of j sb i]
    by (auto simp: disk_inode_def bread_log_write [OF bio len] get_put_dinode length_bread)
qed

lemma ialloc_from_cases:
  obtains (none) "\<forall>j. inum \<le> j \<longrightarrow> j < unat (sb_ninodes sb) \<longrightarrow> d_type (disk_inode B sb dev (disk st) (of_nat j)) \<noteq> 0"
      "ialloc_from B sb dev ty inum st = Inr (None, st)"
  | (some) k where "inum \<le> k" "k < unat (sb_ninodes sb)" "d_type (disk_inode B sb dev (disk st) (of_nat k)) = 0"
      "\<forall>j. inum \<le> j \<longrightarrow> j < k \<longrightarrow> d_type (disk_inode B sb dev (disk st) (of_nat j)) \<noteq> 0"
      "ialloc_from B sb dev ty inum st = bindE (iget dev (of_nat k)
         (st\<lparr>disk := log_write B (disk st) dev (IBLOCK (of_nat k) sb)
            (put_dinode (bread B (disk st) dev (IBLOCK (of_nat k) sb)) (unat (of_nat k :: u32) mod IPB) (fresh_dinode ty))\<rparr>))
         (\<lambda>(i, st). Inr (Some i, st))"
proof -
  let ?free = "\<lambda>j. d_type (disk_inode B sb dev (disk st) (of_nat j)) = 0"
  have "((\<forall>j. inum \<le> j \<longrightarrow> j < unat (sb_ninodes sb) \<longrightarrow> \<not> ?free j) \<and> ialloc_from B sb dev ty inum st = Inr (None, st)) \<or>
    (\<exists>k \<ge> inum. k < unat (sb_ninodes sb) \<and> ?free k \<and> (\<forall>j. inum \<le> j \<longrightarrow> j < k \<longrightarrow> \<not> ?free j) \<and>
      ialloc_from B sb dev ty inum st = bindE (iget dev (of_nat k)
         (st\<lparr>disk := log_write B (disk st) dev (IBLOCK (of_nat k) sb)
            (put_dinode (bread B (disk st) dev (IBLOCK (of_nat k) sb)) (unat (of_nat k :: u32) mod IPB) (fresh_dinode ty))\<rparr>))
         (\<lambda>(i, st). Inr (Some i, st)))"
  proof (induction B sb dev ty inum st rule: ialloc_from.induct)
    case (1 B sb dev ty inum st)
    note unfold = ialloc_from.simps [of B sb dev ty inum st]
    let ?fr = "\<lambda>j. d_type (disk_inode B sb dev (disk st) (of_nat j)) = 0"
    have u: "unat (of_nat inum :: u32) = inum" if "inum < unat (sb_ninodes sb)"
      using that unat_u32 [of "sb_ninodes sb"] by (simp add: unat_of_nat)
    consider "\<not> inum < unat (sb_ninodes sb)" | "inum < unat (sb_ninodes sb)" "?fr inum" | "inum < unat (sb_ninodes sb)" "\<not> ?fr inum" by blast
    then show ?case
    proof cases
      case 2
      then show ?thesis
        using u by (intro disjI2 exI [of _ inum]) (auto simp: unfold Let_def disk_inode_def)
    next
      case 3
      have eq: "ialloc_from B sb dev ty inum st = ialloc_from B sb dev ty (inum + 1) st"
        using 3 u by (simp add: unfold Let_def disk_inode_def)
      have step: "(\<forall>j. inum \<le> j \<longrightarrow> j < m \<longrightarrow> \<not> ?fr j) \<longleftrightarrow> (\<forall>j. inum + 1 \<le> j \<longrightarrow> j < m \<longrightarrow> \<not> ?fr j)" for m
        using 3(2) by (metis Suc_eq_plus1 Suc_leD Suc_leI le_neq_implies_less)
      have nf: "\<not> d_type (get_dinode (bread B (disk st) dev (IBLOCK (of_nat inum) sb)) (inum mod IPB)) = 0"
        using 3 u by (simp add: disk_inode_def)
      from "1.IH" [OF 3(1) refl refl nf] show ?thesis
        unfolding eq step using add_leD1 [of inum 1] by blast
    qed (simp add: unfold)
  qed
  then show thesis using none some by blast
qed

section \<open>iput of an unlinked inode\<close>

lemma iput_frees_aux:
  assumes i: "i < length (itable st)" and ip: "ip = itable st ! i" "i_ref ip = 1" "i_valid ip" "i_nlink ip = 0" "i_lock ip = None"
    and ok: "file_ok B sb (i_dev ip) (i_addrs ip) (disk st)" and ino: "i_inum ip < sb_ninodes sb"
  obtains st' where "iput B sb me i st = Inr st'" "fs_ok B sb (i_dev ip) (disk st')"
    "used_blocks B sb (i_dev ip) (disk st') =
      used_blocks B sb (i_dev ip) (disk st) - tree_blocks (bread B (disk st) (i_dev ip)) (i_addrs ip)"
    "\<And>j. j < sb_ninodes sb \<Longrightarrow> disk_inode B sb (i_dev ip) (disk st') j =
      (if j = i_inum ip then (fresh_dinode 0)\<lparr>d_major := i_major ip, d_minor := i_minor ip\<rparr>
       else disk_inode B sb (i_dev ip) (disk st) j)"
    "itable st' = (itable st)[i := ip\<lparr>i_ref := 0, i_valid := False, i_type := 0, i_size := 0, i_addrs := replicate 13 0\<rparr>]"
proof -
  define q where "q = ip\<lparr>i_lock := Some me\<rparr>"
  have q: "i_dev q = i_dev ip" "i_addrs q = i_addrs ip" "i_inum q = i_inum ip" by (simp_all add: q_def)
  have okq: "file_ok B sb (i_dev q) (i_addrs q) (disk st)" "i_inum q < sb_ninodes sb" using ok ino by (simp_all add: q)
  obtain d' where t: "itrunc B sb q (disk st) = Inr (q\<lparr>i_addrs := replicate 13 0, i_size := 0\<rparr>, d')"
    and fs': "fs_ok B sb (i_dev q) d'"
    and used': "used_blocks B sb (i_dev q) d' = used_blocks B sb (i_dev q) (disk st) - tree_blocks (bread B (disk st) (i_dev q)) (i_addrs q)"
    and di: "\<And>j. j < sb_ninodes sb \<Longrightarrow> disk_inode B sb (i_dev q) d' j =
      (if j = i_inum q then dinode_of (q\<lparr>i_addrs := replicate 13 0, i_size := 0\<rparr>) else disk_inode B sb (i_dev q) (disk st) j)"
    by (rule itrunc_spec [OF okq]) blast
  define q1 where "q1 = q\<lparr>i_addrs := replicate 13 0, i_size := 0, i_type := 0\<rparr>"
  have q1: "i_dev q1 = i_dev ip" "i_inum q1 = i_inum ip" "length (i_addrs q1) = 13" by (simp_all add: q1_def q)
  let ?d = "iupdate B sb q1 d'"
  have bio: "bio_ok B" by (rule file_ok_bio [OF ok])
  have fs1: "fs_ok B sb (i_dev q1) d'" using fs' by (simp add: q1 q)
  note fr = iupdate_frame [OF fs1 q1(3), unfolded q1, OF ino]
  let ?st = "\<lparr>disk = ?d, itable = (itable st)[i := ip\<lparr>i_ref := 0, i_valid := False, i_type := 0, i_size := 0, i_addrs := replicate 13 0\<rparr>]\<rparr>"
  have "iput B sb me i st = Inr (\<lparr>disk = ?d, itable = (itable st)[i := q1\<lparr>i_valid := False, i_lock := None, i_ref := i_ref ip - 1\<rparr>]\<rparr>)"
    using ip i t by (simp add: iput_def Let_def q_def [symmetric] q1_def [symmetric]) (simp add: q1_def q_def)
  moreover have "q1\<lparr>i_valid := False, i_lock := None, i_ref := i_ref ip - 1\<rparr> =
      ip\<lparr>i_ref := 0, i_valid := False, i_type := 0, i_size := 0, i_addrs := replicate 13 0\<rparr>"
    using ip by (simp add: q1_def q_def)
  ultimately have run: "iput B sb me i st = Inr ?st" by simp
  have "disk_inode B sb (i_dev ip) ?d j =
      (if j = i_inum ip then (fresh_dinode 0)\<lparr>d_major := i_major ip, d_minor := i_minor ip\<rparr>
       else disk_inode B sb (i_dev ip) (disk st) j)" if "j < sb_ninodes sb" for j
    using disk_inode_iupdate [OF bio q1(3), of sb d' j] di [OF that] ip(4)
    by (simp add: q1 q) (simp add: q1_def q_def dinode_of_def fresh_dinode_def)
  then show thesis
    using fr used' by (intro that [OF run]) (simp_all add: q)
qed

section \<open>An example table\<close>

text \<open>The example disk with its file's inode stored, and a table in which the file has one reference,
  the root inode none; and the same file unlinked.\<close>

definition ex_st :: "(u32 \<Rightarrow> u32 \<Rightarrow> u8 list) kst" where
  "ex_st = \<lparr>disk = iupdate ram_bio ex_sb ex_ip ex_disk,
     itable = [ex_ip\<lparr>i_lock := None, i_valid := False\<rparr>, ex_ip\<lparr>i_ref := 0\<rparr>]\<rparr>"

definition ex_unlinked :: "(u32 \<Rightarrow> u32 \<Rightarrow> u8 list) kst" where
  "ex_unlinked = \<lparr>disk = ex_disk, itable = [ex_ip\<lparr>i_lock := None, i_nlink := 0\<rparr>]\<rparr>"

lemma ex_table_ok: "table_ok (itable ex_st)"
  by (auto simp: table_ok_def ex_st_def ex_ip_def less_Suc_eq)

lemma ex_coherent: "coherent ram_bio ex_sb ex_st"
  by (auto simp: coherent_def ex_st_def ex_ip_def)

section \<open>Properties\<close>

text \<open>C12: \<open>iget\<close> returns an entry for the inode asked for and adds one reference to it and to no other; an inode
  that is in the table keeps its entry, so that it is never cached twice; every entry in use keeps its identity;
  the disk is not touched; and the table stays well formed.\<close>

theorem iget_correct:
  assumes "table_ok (itable st)" and "iget dev inum st = Inr (i, st')"
  shows "table_ok (itable st') \<and> ilive st' i \<and> ikey (itable st' ! i) = (dev, inum) \<and>
     irefs (itable st') = (irefs (itable st))((dev, inum) := irefs (itable st) (dev, inum) + 1) \<and>
     (\<forall>j. ilive st j \<longrightarrow> ilive st' j \<and> ikey (itable st' ! j) = ikey (itable st ! j)) \<and>
     (\<forall>j. ilive st j \<longrightarrow> ikey (itable st ! j) = (dev, inum) \<longrightarrow> i = j) \<and> disk st' = disk st"
  using iget_table_ok [OF assms] by blast

theorem iget_correct_witness:
  "\<exists>i st'. iget 1 9 ex_st = Inr (i, st') \<and> irefs (itable st') (1, 9) = 1 \<and> irefs (itable st') (1, 1) = 1"
proof -
  have run: "iget 1 9 ex_st = Inr (1, ex_st\<lparr>itable := (itable ex_st)[1 :=
      (itable ex_st ! 1)\<lparr>i_dev := 1, i_inum := 9, i_ref := 1, i_valid := False\<rparr>]\<rparr>)"
    by (simp add: iget_def ex_st_def ex_ip_def)
  have "irefs (itable ex_st) (1, 9) = 0" "irefs (itable ex_st) (1, 1) = 1"
    by (simp_all add: irefs_def ikey_def ex_st_def ex_ip_def)
  with iget_correct [OF ex_table_ok run] run show ?thesis by simp
qed

text \<open>\<open>iget\<close> panics exactly when the inode has no entry and no entry is free.\<close>

theorem iget_panics_iff:
  assumes "table_ok (itable st)"
  shows "iget dev inum st = Inl e \<longleftrightarrow> e = Panic ''iget: no inodes'' \<and> irefs (itable st) (dev, inum) = 0 \<and>
     (\<forall>ip \<in> set (itable st). i_ref ip > 0)"
  using assms
proof (cases rule: iget_cases [where dev = dev and inum = inum])
  case (hit i)
  have "irefs (itable st) (dev, inum) > 0" using irefs_unique [OF assms hit(1,2)] hit(2,3) by simp
  with hit(4) show ?thesis by auto
next
  case (miss i)
  then show ?thesis by (metis Inl_Inr_False less_irrefl nth_mem)
next
  case full
  have "\<forall>ip \<in> set (itable st). i_ref ip > 0" using full(2) assms by (auto simp: table_ok_def order_le_neq_trans)
  with full show ?thesis by auto
qed

theorem iget_panics_iff_witness:
  "iget 1 9 ex_unlinked = Inl (Panic ''iget: no inodes'')"
proof -
  have ok: "table_ok (itable ex_unlinked)" by (auto simp: table_ok_def ex_unlinked_def ex_ip_def)
  show ?thesis
    unfolding iget_panics_iff [OF ok] by (simp add: irefs_def ikey_def ex_unlinked_def ex_ip_def)
qed

text \<open>References are balanced: when the entry \<open>iget\<close> returned is given back with \<open>iput\<close>, every inode
  has as many references as before and the table is well formed.\<close>

theorem iget_iput_balance:
  assumes "table_ok (itable st)" and "iget dev inum st = Inr (i, st1)" and "iput B sb me i st1 = Inr st2"
  shows "table_ok (itable st2) \<and> irefs (itable st2) = irefs (itable st)"
  using itab.get_put_balance [where k = "(dev, inum)", OF assms(1) _ assms(3)] assms(2) by simp

theorem iget_iput_balance_witness:
  "\<exists>i st1 st2. iget 1 1 ex_st = Inr (i, st1) \<and> iput ram_bio ex_sb 7 i st1 = Inr st2 \<and>
     irefs (itable st2) = irefs (itable ex_st)"
proof -
  obtain st1 where g: "iget 1 1 ex_st = Inr (0, st1)" "itable st1 = [ex_ip\<lparr>i_lock := None, i_valid := False, i_ref := 2\<rparr>, ex_ip\<lparr>i_ref := 0\<rparr>]"
    by (simp add: iget_def ex_st_def ex_ip_def)
  obtain st2 where p: "iput ram_bio ex_sb 7 0 st1 = Inr st2" by (simp add: iput_def g(2) ex_ip_def)
  from iget_iput_balance [OF ex_table_ok g(1) p] g(1) p show ?thesis by blast
qed

text \<open>\<open>ilock\<close> of an inode in use, in a table whose unlocked valid entries agree with the disk, blocks
  exactly when the lock is held; it panics exactly when the inode has to be read and is free on the disk;
  otherwise the caller holds the lock of an inode whose fields are those on the disk, and no other entry and no reference count changes.\<close>

theorem ilock_correct:
  assumes "coherent B sb st" and "ilive st i"
  shows "case ilock B sb me (Some i) st of
     Inl e \<Rightarrow> (e = Blocked \<and> i_lock (itable st ! i) \<noteq> None) \<or>
       (e = Panic ''ilock: no type'' \<and> \<not> i_valid (itable st ! i) \<and>
        d_type (disk_inode B sb (i_dev (itable st ! i)) (disk st) (i_inum (itable st ! i))) = 0)
   | Inr st' \<Rightarrow> \<exists>ip'. st' = st\<lparr>itable := (itable st)[i := ip']\<rparr> \<and> coherent B sb st' \<and>
       i_lock (itable st ! i) = None \<and> i_lock ip' = Some me \<and> i_valid ip' \<and>
       ikey ip' = ikey (itable st ! i) \<and> i_ref ip' = i_ref (itable st ! i) \<and>
       dinode_of ip' = disk_inode B sb (i_dev ip') (disk st) (i_inum ip')"
proof (cases "ilock B sb me (Some i) st")
  case (Inl e)
  then show ?thesis
    using assms(2) by (auto simp: ilock_def ilive_def Let_def disk_inode_def split: if_splits)
next
  case (Inr st')
  obtain ip' where ip': "st' = st\<lparr>itable := (itable st)[i := ip']\<rparr>" "i_lock (itable st ! i) = None" "i_lock ip' = Some me"
    "ikey ip' = ikey (itable st ! i)" "i_ref ip' = i_ref (itable st ! i)" "i_valid ip'"
    "dinode_of ip' = disk_inode B sb (i_dev ip') (disk st) (i_inum ip')"
    by (rule ilock_spec [OF assms Inr])
  have "coherent B sb st'" unfolding ip'(1) by (rule coherent_update [OF assms(1)]) (use ip'(7) in auto)
  with ip' show ?thesis unfolding Inr sum.case by blast
qed

theorem ilock_correct_witness:
  "\<exists>st'. ilock ram_bio ex_sb 7 (Some 0) ex_st = Inr st' \<and> dinode_of (itable st' ! 0) = dinode_of ex_ip"
proof -
  have l: "ilive ex_st 0" by (simp add: ilive_def ex_st_def ex_ip_def)
  have di: "disk_inode ram_bio ex_sb 1 (disk ex_st) 1 = dinode_of ex_ip"
    using disk_inode_iupdate [OF ram_bio_ok, of ex_ip ex_sb ex_disk 1] by (simp add: ex_st_def ex_ip_def ex_addrs_def)
  have i0: "i_dev (itable ex_st ! 0) = 1" "i_inum (itable ex_st ! 0) = 1" "i_lock (itable ex_st ! 0) = None"
    "0 < length (itable ex_st)" by (simp_all add: ex_st_def ex_ip_def)
  have "d_type (dinode_of ex_ip) \<noteq> 0" by (simp add: ex_ip_def dinode_of_def)
  with ilock_correct [OF ex_coherent l, of 7] i0 di show ?thesis
    by (auto split: sum.splits simp: ikey_def l [unfolded ilive_def])
qed

text \<open>C11: when the last reference to a valid inode with no links is dropped, \<open>iput\<close> returns, frees exactly the
  file's blocks, marks its inode free on the disk (type 0) and its table entry free, and changes
  no other inode, on the disk or in the table.\<close>

theorem iput_last_reference:
  assumes "i < length (itable st)" and "ip = itable st ! i" and "i_ref ip = 1" and "i_valid ip" and "i_nlink ip = 0"
    and "i_lock ip = None" and "file_ok B sb (i_dev ip) (i_addrs ip) (disk st)" and "i_inum ip < sb_ninodes sb"
  shows "\<exists>st'. iput B sb me i st = Inr st' \<and> fs_ok B sb (i_dev ip) (disk st') \<and>
     used_blocks B sb (i_dev ip) (disk st') =
       used_blocks B sb (i_dev ip) (disk st) - tree_blocks (bread B (disk st) (i_dev ip)) (i_addrs ip) \<and>
     d_type (disk_inode B sb (i_dev ip) (disk st') (i_inum ip)) = 0 \<and>
     (\<forall>j < sb_ninodes sb. j \<noteq> i_inum ip \<longrightarrow>
        disk_inode B sb (i_dev ip) (disk st') j = disk_inode B sb (i_dev ip) (disk st) j) \<and>
     i_ref (itable st' ! i) = 0 \<and> (\<forall>j. j \<noteq> i \<longrightarrow> itable st' ! j = itable st ! j)"
proof -
  obtain st' where st': "iput B sb me i st = Inr st'" "fs_ok B sb (i_dev ip) (disk st')"
    "used_blocks B sb (i_dev ip) (disk st') =
      used_blocks B sb (i_dev ip) (disk st) - tree_blocks (bread B (disk st) (i_dev ip)) (i_addrs ip)"
    "\<And>j. j < sb_ninodes sb \<Longrightarrow> disk_inode B sb (i_dev ip) (disk st') j =
      (if j = i_inum ip then (fresh_dinode 0)\<lparr>d_major := i_major ip, d_minor := i_minor ip\<rparr>
       else disk_inode B sb (i_dev ip) (disk st) j)"
    "itable st' = (itable st)[i := ip\<lparr>i_ref := 0, i_valid := False, i_type := 0, i_size := 0, i_addrs := replicate 13 0\<rparr>]"
    by (rule iput_frees_aux [OF assms]) blast
  with assms(1,8) show ?thesis by (intro exI [of _ st']) (simp add: fresh_dinode_def)
qed

theorem iput_last_reference_witness:
  "\<exists>st'. iput ram_bio ex_sb 7 0 ex_unlinked = Inr st' \<and> i_ref (itable st' ! 0) = 0 \<and>
     used_blocks ram_bio ex_sb 1 (disk st') = {0, 1, 2, 3}"
proof -
  let ?ip = "itable ex_unlinked ! 0"
  have ip: "0 < length (itable ex_unlinked)" "i_ref ?ip = 1" "i_valid ?ip" "i_nlink ?ip = 0" "i_lock ?ip = None"
    "file_ok ram_bio ex_sb (i_dev ?ip) (i_addrs ?ip) (disk ex_unlinked)" "i_inum ?ip < sb_ninodes ex_sb"
    and dv: "i_dev ?ip = 1" "i_addrs ?ip = ex_addrs" "disk ex_unlinked = ex_disk"
    using ex_file_ok by (simp_all add: ex_unlinked_def ex_ip_def)
  have "{0, 1, 2, 3, 4, 5} - {4, 5} = {0, 1, 2, 3 :: u32}" by auto
  with iput_last_reference [OF ip(1) refl ip(2-7), of 7, unfolded dv ex_tree_blocks ex_used] show ?thesis by auto
qed

text \<open>\<open>ialloc\<close> finds the free inode with the smallest number from 1 on. It returns NULL and changes nothing when there
  is none; otherwise that inode, and no other, becomes a fresh inode of the given type on the disk, and the result is a
  referenced table entry for it.\<close>

theorem ialloc_correct:
  assumes "table_ok (itable st)" and "bio_ok B" and "ialloc B sb dev ty st = Inr (p, st')"
  shows "case p of
     None \<Rightarrow> st' = st \<and> (\<forall>j. 0 < j \<longrightarrow> j < sb_ninodes sb \<longrightarrow> d_type (disk_inode B sb dev (disk st) j) \<noteq> 0)
   | Some i \<Rightarrow> \<exists>inum. 0 < inum \<and> inum < sb_ninodes sb \<and> d_type (disk_inode B sb dev (disk st) inum) = 0 \<and>
       (\<forall>j. 0 < j \<longrightarrow> j < inum \<longrightarrow> d_type (disk_inode B sb dev (disk st) j) \<noteq> 0) \<and>
       (\<forall>j. disk_inode B sb dev (disk st') j = (if j = inum then fresh_dinode ty else disk_inode B sb dev (disk st) j)) \<and>
       table_ok (itable st') \<and> ilive st' i \<and> ikey (itable st' ! i) = (dev, inum)"
proof (cases rule: ialloc_from_cases [where inum = 1 and B = B and sb = sb and dev = dev and st = st and ty = ty])
  case none
  have "d_type (disk_inode B sb dev (disk st) j) \<noteq> 0" if "0 < j" "j < sb_ninodes sb" for j
  proof -
    have "1 \<le> unat j" "unat j < unat (sb_ninodes sb)" using that by (simp_all add: word_less_nat_alt Suc_le_eq)
    with none(1) [rule_format, of "unat j"] show ?thesis by simp
  qed
  with none(2) assms(3) show ?thesis by (simp add: ialloc_def)
next
  case (some k)
  let ?n = "of_nat k :: u32"
  have k: "unat ?n = k" using some(2) unat_u32 [of "sb_ninodes sb"] by (simp add: unat_of_nat)
  let ?st1 = "st\<lparr>disk := log_write B (disk st) dev (IBLOCK ?n sb)
     (put_dinode (bread B (disk st) dev (IBLOCK ?n sb)) (unat ?n mod IPB) (fresh_dinode ty))\<rparr>"
  from some(5) assms(3) obtain i where g: "iget dev ?n ?st1 = Inr (i, st')" and p: "p = Some i"
    by (auto simp: ialloc_def bindE_eq_Inr)
  have ok1: "table_ok (itable ?st1)" using assms(1) by simp
  note G = iget_table_ok [OF ok1 g]
  have "disk_inode B sb dev (disk st') j = (if j = ?n then fresh_dinode ty else disk_inode B sb dev (disk st) j)" for j
    using G(5) disk_inode_put [OF assms(2), of "fresh_dinode ty" sb dev "disk st" ?n j] by (simp add: fresh_dinode_def)
  moreover have "d_type (disk_inode B sb dev (disk st) j) \<noteq> 0" if "0 < j" "j < ?n" for j
  proof -
    have "1 \<le> unat j" "unat j < k" using that k by (simp_all add: word_less_nat_alt Suc_le_eq)
    with some(4) [rule_format, of "unat j"] show ?thesis by simp
  qed
  moreover have "0 < ?n" "?n < sb_ninodes sb" using some(1,2) k by (simp_all add: word_less_nat_alt)
  ultimately show ?thesis using G(1) some(3) unfolding p option.case by blast
qed

theorem ialloc_correct_witness:
  "\<exists>i st'. ialloc ram_bio ex_sb 1 2 ex_st = Inr (Some i, st') \<and> d_type (disk_inode ram_bio ex_sb 1 (disk st') 2) = 2"
proof -
  have di: "disk_inode ram_bio ex_sb 1 (disk ex_st) j = (if j = 1 then dinode_of ex_ip else disk_inode ram_bio ex_sb 1 ex_disk j)" for j
    using disk_inode_iupdate [OF ram_bio_ok, of ex_ip ex_sb ex_disk j] by (simp add: ex_st_def ex_ip_def ex_addrs_def)
  have z: "d_type (disk_inode ram_bio ex_sb 1 ex_disk j) = 0" if "j < 16" for j
    using that by (simp add: disk_inode_def ex_IBLOCK ex_bread get_dinode_def dec_dinode_def chunk_replicate chunk_chunk of_le16_zero
      del: length_chunk)
  have one: "d_type (dinode_of ex_ip) \<noteq> 0" by (simp add: dinode_of_def ex_ip_def)
  have ns: "unat (sb_ninodes ex_sb) = 16" by simp
  have run: "\<exists>i st'. ialloc ram_bio ex_sb 1 2 ex_st = Inr (Some i, st')"
  proof (cases rule: ialloc_from_cases [where inum = 1 and B = ram_bio and sb = ex_sb and dev = 1 and st = ex_st and ty = 2])
    case none
    from none(1) [rule_format, of 2] z [of 2] di [of 2] ns show ?thesis by simp
  next
    case (some k)
    have "\<exists>i st'. iget 1 (of_nat k) (ex_st\<lparr>disk := d\<rparr>) = Inr (i, st')" for d
      using ex_table_ok by (intro iget_returns [of _ "ex_ip\<lparr>i_ref := 0\<rparr>"]) (simp_all add: ex_st_def)
    moreover from some(5) obtain d where e: "ialloc_from ram_bio ex_sb 1 2 1 ex_st =
        bindE (iget 1 (of_nat k) (ex_st\<lparr>disk := d\<rparr>)) (\<lambda>(i, st). Inr (Some i, st))" by blast
    ultimately obtain i st' where "iget 1 (of_nat k) (ex_st\<lparr>disk := d\<rparr>) = Inr (i, st')" by blast
    with e show ?thesis by (simp add: ialloc_def)
  qed
  then obtain i st' where r: "ialloc ram_bio ex_sb 1 2 ex_st = Inr (Some i, st')" by blast
  from ialloc_correct [OF ex_table_ok ram_bio_ok r] obtain inum where
    n: "0 < inum" "inum < 16" "d_type (disk_inode ram_bio ex_sb 1 (disk ex_st) inum) = 0"
      "\<forall>j. 0 < j \<longrightarrow> j < inum \<longrightarrow> d_type (disk_inode ram_bio ex_sb 1 (disk ex_st) j) \<noteq> 0"
      "\<forall>j. disk_inode ram_bio ex_sb 1 (disk st') j = (if j = inum then fresh_dinode 2 else disk_inode ram_bio ex_sb 1 (disk ex_st) j)"
    by auto
  have "inum = 2"
  proof (rule ccontr)
    assume "inum \<noteq> 2"
    moreover have "inum \<noteq> 1" using n(3) di [of 1] one by auto
    ultimately have "2 < inum" using n(1) by (metis inc_le linorder_neqE one_add_one plus_1_eq_Suc word_le_less_eq word_gt_0 word_le_less_eq word_less_1)
    with n(4) have "d_type (disk_inode ram_bio ex_sb 1 (disk ex_st) 2) \<noteq> 0" by auto
    with di [of 2] z [of 2] show False by simp
  qed
  with n(5) r show ?thesis by (auto simp: fresh_dinode_def)
qed

end
