(* ===== verification/Fs_Dir.thy ===== *)
theory Fs_Dir
  imports Fs_Inode
begin

text \<open>
  Directories: \<open>namecmp\<close>, \<open>dirlookup\<close> and \<open>dirlink\<close> of \<open>HW4/source/fs.c\<close>. A name is a list of bytes;
  a read past its end sees the terminating 0. The local \<open>struct dirent de\<close> of the two functions is the
  16 bytes at address 0 of a kernel memory of their own. The directory is abstracted to the list \<open>dents\<close>
  of its entries: \<open>dirlookup\<close> is then a search in that list and \<open>dirlink\<close> an update of it.
\<close>

section \<open>Definitions\<close>

abbreviation T_DIR :: u16 where "T_DIR \<equiv> 1"
abbreviation T_FILE :: u16 where "T_FILE \<equiv> 2"
abbreviation T_DEVICE :: u16 where "T_DEVICE \<equiv> 3"

text \<open>The C library's \<open>strncmp\<close> and \<open>strncpy\<close> on such names.\<close>

definition cbyte :: "u8 list \<Rightarrow> u8" where
  "cbyte s = (case s of [] \<Rightarrow> 0 | c # _ \<Rightarrow> c)"

fun strncmp :: "u8 list \<Rightarrow> u8 list \<Rightarrow> nat \<Rightarrow> int" where
  "strncmp p q 0 = 0"
| "strncmp p q (Suc n) =
     (if cbyte p \<noteq> 0 \<and> cbyte p = cbyte q then strncmp (tl p) (tl q) n
      else uint (cbyte p) - uint (cbyte q))"

definition cstr :: "u8 list \<Rightarrow> u8 list" where
  "cstr s = takeWhile (\<lambda>c. c \<noteq> 0) s"

definition strncpy :: "u8 list \<Rightarrow> nat \<Rightarrow> u8 list" where
  "strncpy t n = (let c = take n (cstr t) in c @ replicate (n - length c) 0)"

definition namecmp :: "u8 list \<Rightarrow> u8 list \<Rightarrow> int" where
  "namecmp s t = strncmp s t DIRSIZ"

text \<open>Kernel memory for a local variable, with no user memory behind it.\<close>

definition no_uvm :: "unit uvm" where
  "no_uvm = \<lparr>copyout = (\<lambda>_ _ _. (-1, ())), copyin = (\<lambda>_ _ old. (-1, old)), ubyte = (\<lambda>_ _. 0)\<rparr>"

definition kstack :: "unit mem" where
  "kstack = \<lparr>kmem = (\<lambda>_. 0), umem = ()\<rparr>"

text \<open>\<open>readi(dp, 0, (uint64)&de, off, sizeof(de))\<close>\<close>

definition read_dirent :: "'d bio \<Rightarrow> superblock \<Rightarrow> inode \<Rightarrow> u32 \<Rightarrow> 'd \<Rightarrow> (u32 \<times> dirent \<times> inode \<times> 'd) res" where
  "read_dirent B sb dp off d =
     bindE (readi B sb no_uvm dp False 0 off 16 d kstack) (\<lambda>(r, dp, d, s).
     Inr (r, dec_dirent (kload (kmem s) 0 16), dp, d))"

lemma bindE_cong [fundef_cong]:
  "m = m' \<Longrightarrow> (\<And>x. m' = Inr x \<Longrightarrow> f x = g x) \<Longrightarrow> bindE m f = bindE m' g"
  by (cases m') simp_all

text \<open>Reading a file changes nothing of its inode but, at most, its block numbers.\<close>

definition addrs_only :: "inode \<Rightarrow> inode \<Rightarrow> bool" where
  "addrs_only ip ip' \<longleftrightarrow> ip' = ip\<lparr>i_addrs := i_addrs ip'\<rparr>"

lemma addrs_only_refl [simp]: "addrs_only ip ip"
  by (simp add: addrs_only_def)

lemma addrs_only_upd [simp]: "addrs_only ip (ip\<lparr>i_addrs := x\<rparr>)"
  by (simp add: addrs_only_def)

lemma addrs_only_trans: "addrs_only a b \<Longrightarrow> addrs_only b c \<Longrightarrow> addrs_only a c"
  unfolding addrs_only_def by (metis inode.surjective inode.update_convs(11))

lemma addrs_onlyD:
  assumes "addrs_only ip ip'"
  shows "i_size ip' = i_size ip" and "i_dev ip' = i_dev ip" and "i_inum ip' = i_inum ip"
    and "i_ref ip' = i_ref ip" and "i_lock ip' = i_lock ip" and "i_type ip' = i_type ip" and "i_valid ip' = i_valid ip"
    and "i_nlink ip' = i_nlink ip"
  by (subst assms [unfolded addrs_only_def], simp)+

lemma get_or_alloc_addr_ident: "get_or_alloc_addr B sb k ip d = (a, ip', d') \<Longrightarrow> addrs_only ip ip'"
  by (auto simp: get_or_alloc_addr_def Let_def split: if_splits prod.splits)

lemma bmap_ident:
  assumes "bmap B sb ip bn d = Inr (a, ip', d')"
  shows "addrs_only ip ip'"
  using assms by (auto simp: bmap_def Let_def split: if_splits prod.splits dest!: get_or_alloc_addr_ident)

lemma readi_loop_ident:
  "readi_loop B sb U user n tot off dst ip d s = Inr (r, ip', d', s') \<Longrightarrow> addrs_only ip ip'"
proof (induction B sb U user n tot off dst ip d s arbitrary: r ip' d' s' rule: readi_loop.induct)
  case (1 B sb U user n tot off dst ip d s)
  note unfold = readi_loop.simps [of B sb U user n tot off dst ip d s]
  show ?case
  proof (cases "tot < n")
    case False
    with "1.prems" unfold show ?thesis by simp
  next
    case True
    with "1.prems" unfold obtain a ip1 d1 where b: "bmap B sb ip (off div 1024) d = Inr (a, ip1, d1)"
      by (cases "bmap B sb ip (off div 1024) d") auto
    have s1: "addrs_only ip ip1" by (rule bmap_ident [OF b])
    obtain q s1' where c: "either_copyout U user dst (chunk (unat (off mod 1024)) (unat (rw_len n tot off)) (bread B d1 (i_dev ip1) a)) s = (q, s1')"
      by force
    show ?thesis
    proof (cases "a = 0 \<or> q = -1")
      case True
      with "1.prems" unfold b c s1 \<open>tot < n\<close> show ?thesis by (auto simp: Let_def split: if_splits)
    next
      case False
      with "1.prems" unfold b c \<open>tot < n\<close> have
        "readi_loop B sb U user n (tot + rw_len n tot off) (off + rw_len n tot off) (dst + ucast (rw_len n tot off)) ip1 d1 s1' = Inr (r, ip', d', s')"
        by (simp add: Let_def)
      from "1.IH" [OF \<open>tot < n\<close> b refl refl _ refl refl c [symmetric] _ this] False s1 show ?thesis
        by (blast intro: addrs_only_trans)
    qed
  qed
qed

lemma readi_ident:
  "readi B sb U ip user dst off n d s = Inr (r, ip', d', s') \<Longrightarrow> addrs_only ip ip'"
  by (auto simp: readi_def Let_def split: if_splits dest: readi_loop_ident)

lemma read_dirent_progress:
  assumes "read_dirent B sb dp off d = Inr (16, de, dp', d')"
  shows "i_size dp' = i_size dp" and "\<not> off + 16 < off"
  using assms readi_loop_ident [THEN addrs_onlyD(1)]
  by (auto simp: read_dirent_def bindE_eq_Inr readi_def Let_def split: if_splits)

lemma off_progress:
  fixes off sz :: u32
  assumes "\<not> off + 16 < off" and "off < sz"
  shows "unat sz - unat (off + 16) < unat sz - unat off"
  using assms add32_wraps [of off 16] by (simp add: word_less_nat_alt)

function dirlookup_from :: "'d bio \<Rightarrow> superblock \<Rightarrow> u8 list \<Rightarrow> u32 \<Rightarrow> inode \<Rightarrow> 'd \<Rightarrow>
    ((u32 \<times> u16) option \<times> inode \<times> 'd) res" where
  "dirlookup_from B sb name off dp d =
     (if off < i_size dp then
        bindE (read_dirent B sb dp off d) (\<lambda>(r, de, dp, d).
          if r \<noteq> 16 then Inl (Panic ''dirlookup read'')
          else if de_inum de = 0 then dirlookup_from B sb name (off + 16) dp d
          else if namecmp name (de_name de) = 0 then Inr (Some (off, de_inum de), dp, d)
          else dirlookup_from B sb name (off + 16) dp d)
      else Inr (None, dp, d))"
  by pat_completeness auto
termination
proof (relation "measure (\<lambda>(B, sb, name, off, dp, d). unat (i_size dp) - unat off)", goal_cases)
  case 1
  then show ?case by simp
next
  case (2 B sb name off dp d x r y de z dp' d')
  then have "read_dirent B sb dp off d = Inr (16, de, dp', d')" by simp
  from read_dirent_progress [OF this] 2(1) show ?case
    by (simp add: off_progress)
next
  case (3 B sb name off dp d x r y de z dp' d')
  then have "read_dirent B sb dp off d = Inr (16, de, dp', d')" by simp
  from read_dirent_progress [OF this] 3(1) show ?case
    by (simp add: off_progress)
qed

declare dirlookup_from.simps [simp del]

text \<open>\<open>dirlookup\<close> on the inode with index \<open>i\<close>: the entry found, as an inode pointer and the offset \<open>*poff\<close>.\<close>

definition dirlookup :: "'d bio \<Rightarrow> superblock \<Rightarrow> nat \<Rightarrow> u8 list \<Rightarrow> 'd kst \<Rightarrow> ((nat \<times> u32) option \<times> 'd kst) res" where
  "dirlookup B sb i name st =
     (if i_type (itable st ! i) \<noteq> T_DIR then Inl (Panic ''dirlookup not DIR'')
      else bindE (dirlookup_from B sb name 0 (itable st ! i) (disk st)) (\<lambda>(f, dp, d).
        let st = \<lparr>disk = d, itable = (itable st)[i := dp]\<rparr> in
        case f of None \<Rightarrow> Inr (None, st)
        | Some (off, inum) \<Rightarrow> bindE (iget (i_dev dp) (ucast inum) st) (\<lambda>(p, st). Inr (Some (p, off), st))))"

text \<open>The search of \<open>dirlink\<close> for an empty entry: the offset of it, or the end of the directory.\<close>

function dirlink_from :: "'d bio \<Rightarrow> superblock \<Rightarrow> u32 \<Rightarrow> inode \<Rightarrow> 'd \<Rightarrow> (u32 \<times> inode \<times> 'd) res" where
  "dirlink_from B sb off dp d =
     (if off < i_size dp then
        bindE (read_dirent B sb dp off d) (\<lambda>(r, de, dp, d).
          if r \<noteq> 16 then Inl (Panic ''dirlink read'')
          else if de_inum de = 0 then Inr (off, dp, d)
          else dirlink_from B sb (off + 16) dp d)
      else Inr (off, dp, d))"
  by pat_completeness auto
termination
proof (relation "measure (\<lambda>(B, sb, off, dp, d). unat (i_size dp) - unat off)", goal_cases)
  case 1
  then show ?case by simp
next
  case (2 B sb off dp d x r y de z dp' d')
  then have "read_dirent B sb dp off d = Inr (16, de, dp', d')" by simp
  from read_dirent_progress [OF this] 2(1) show ?case by (simp add: off_progress)
qed

declare dirlink_from.simps [simp del]

definition dirlink :: "'d bio \<Rightarrow> superblock \<Rightarrow> int \<Rightarrow> nat \<Rightarrow> u8 list \<Rightarrow> u32 \<Rightarrow> 'd kst \<Rightarrow> (int \<times> 'd kst) res" where
  "dirlink B sb me i name inum st =
     bindE (dirlookup B sb i name st) (\<lambda>(f, st).
     case f of Some (p, _) \<Rightarrow> bindE (iput B sb me p st) (\<lambda>st. Inr (-1, st))
     | None \<Rightarrow>
       bindE (dirlink_from B sb 0 (itable st ! i) (disk st)) (\<lambda>(off, dp, d).
       let de = \<lparr>de_inum = ucast inum, de_name = strncpy name DIRSIZ\<rparr>;
           s = kstack\<lparr>kmem := kstore 0 (enc_dirent de) (kmem kstack)\<rparr> in
       bindE (writei B sb no_uvm dp False 0 off 16 s d) (\<lambda>(r, dp, d).
       let st = \<lparr>disk = d, itable = (itable st)[i := dp]\<rparr> in
       if r \<noteq> 16 then Inr (-1, st) else Inr (0, st))))"

section \<open>Names\<close>

text \<open>The name an array of at most \<open>DIRSIZ\<close> significant bytes stands for.\<close>

definition cname :: "u8 list \<Rightarrow> u8 list" where
  "cname s = take DIRSIZ (cstr s)"

lemma strncmp_iff: "strncmp p q n = 0 \<longleftrightarrow> take n (cstr p) = take n (cstr q)"
proof (induction p q n rule: strncmp.induct)
  case (2 p q n)
  then show ?case
    by (cases p; cases q) (auto simp: cbyte_def cstr_def word_uint_eq_iff)
qed simp

lemma namecmp_iff: "namecmp s t = 0 \<longleftrightarrow> cname s = cname t"
  by (simp add: namecmp_def strncmp_iff cname_def)

lemma length_strncpy [simp]: "length (strncpy t n) = n"
  by (simp add: strncpy_def Let_def)

lemma cname_strncpy [simp]: "cname (strncpy t DIRSIZ) = cname t"
proof -
  have nz: "\<forall>c \<in> set (take DIRSIZ (cstr t)). c \<noteq> 0"
    by (auto simp: cstr_def dest!: in_set_takeD set_takeWhileD)
  define c where "c = take DIRSIZ (cstr t)"
  have "takeWhile (\<lambda>b. b \<noteq> 0) (c @ replicate (DIRSIZ - length c) 0) = c"
    using nz by (subst takeWhile_append2) (auto simp: c_def)
  then show ?thesis by (simp add: cname_def strncpy_def Let_def c_def [symmetric] cstr_def [of "c @ _"]) (simp add: c_def)
qed

section \<open>A directory as a list of entries\<close>

definition dents :: "'d bio \<Rightarrow> inode \<Rightarrow> 'd \<Rightarrow> dirent list" where
  "dents B dp d = map (\<lambda>k. dec_dirent (chunk (16 * k) 16 (icontent B dp d))) [0..<unat (i_size dp) div 16]"

text \<open>A directory: a well-formed inode whose size is a whole number of entries.\<close>

definition dir_ok :: "'d bio \<Rightarrow> superblock \<Rightarrow> inode \<Rightarrow> 'd \<Rightarrow> bool" where
  "dir_ok B sb dp d \<longleftrightarrow> inode_ok B sb dp d \<and> i_type dp = T_DIR \<and> 16 dvd unat (i_size dp)"

definition names :: "u8 list \<Rightarrow> dirent \<Rightarrow> bool" where
  "names name de \<longleftrightarrow> de_inum de \<noteq> 0 \<and> cname (de_name de) = cname name"

lemma length_dents [simp]: "length (dents B dp d) = unat (i_size dp) div 16"
  by (simp add: dents_def)

text \<open>The offset of entry \<open>k\<close>.\<close>

definition doff :: "nat \<Rightarrow> u32" where
  "doff k = of_nat (16 * k)"

lemma dent_offset:
  assumes ok: "dir_ok B sb dp d" and k: "k \<le> length (dents B dp d)"
  shows "unat (doff k) = 16 * k"
    and "doff k < i_size dp \<longleftrightarrow> k < length (dents B dp d)"
    and "doff k \<le> i_size dp"
    and "unat (i_size dp) = 16 * length (dents B dp d)"
proof -
  obtain m where m: "unat (i_size dp) = 16 * m" using ok by (auto simp: dir_ok_def dvd_def)
  have u32: "unat (i_size dp) < 2 ^ 32" using unat_u32 [of "i_size dp"] by simp
  have km: "k \<le> m" using k m by simp
  then show u: "unat (doff k) = 16 * k"
    using m u32 by (simp add: doff_def unat_of_nat del: of_nat_mult)
  show "doff k < i_size dp \<longleftrightarrow> k < length (dents B dp d)"
    unfolding word_less_nat_alt u by (simp add: m)
  show "doff k \<le> i_size dp" unfolding word_le_nat_alt u using km m by simp
  show "unat (i_size dp) = 16 * length (dents B dp d)" using m by simp
qed

lemma kload_kstore16: "length bs = 16 \<Longrightarrow> kload (kstore a bs m) a 16 = bs"
  using kload_kstore [of bs a m] by simp

lemma read_dirent_spec:
  assumes ok: "dir_ok B sb dp d" and k: "k < length (dents B dp d)"
  shows "read_dirent B sb dp (doff k) d = Inr (16, dents B dp d ! k, dp, d)"
proof -
  have iok: "inode_ok B sb dp d" using ok by (simp add: dir_ok_def)
  note off0 = dent_offset [OF ok less_imp_le [OF k]]
  have le: "16 * k + 16 \<le> unat (i_size dp)" using k unfolding off0(4) by linarith
  have lt: "16 * k + 16 < 2 ^ 32" using le iok by (simp add: inode_ok_def)
  note u = off0(1)
  have off: "doff k \<le> i_size dp" "unat (doff k) + unat (16 :: u32) < 2 ^ 32"
    using off0(3) lt unfolding u by simp_all
  have min: "min (unat (16 :: u32)) (unat (i_size dp) - 16 * k) = 16" using le by simp
  let ?bs = "chunk (16 * k) 16 (icontent B dp d)"
  have len: "length ?bs = 16" using le by simp
  have "readi B sb no_uvm dp False 0 (doff k) 16 d kstack =
      Inr (16, dp, d, kstack\<lparr>kmem := kstore 0 ?bs (kmem kstack)\<rparr>)"
    using readi_spec [OF iok _ off, of False no_uvm 0 kstack] unfolding u min by (simp add: either_copyout_def)
  with k show ?thesis
    by (simp add: read_dirent_def kload_kstore16 [OF len] dents_def)
qed

lemma dirlookup_from_spec:
  assumes ok: "dir_ok B sb dp d" and "k \<le> length (dents B dp d)"
  shows "dirlookup_from B sb name (doff k) dp d =
    Inr (map_option (\<lambda>j. (doff (k + j), de_inum (dents B dp d ! (k + j))))
      (find_idx (names name) (drop k (dents B dp d))), dp, d)"
  using assms(2)
proof (induction "length (dents B dp d) - k" arbitrary: k)
  case 0
  then have "\<not> doff k < i_size dp" using dent_offset(2) [OF ok 0(2)] by simp
  then have "dirlookup_from B sb name (doff k) dp d = Inr (None, dp, d)"
    by (subst dirlookup_from.simps) (simp only: if_False)
  moreover have "drop k (dents B dp d) = []" using 0 by simp
  ultimately show ?case by (simp only: find_idx.simps option.map)
next
  case (Suc n)
  then have k: "k < length (dents B dp d)" by simp
  have lt: "doff k < i_size dp" using k dent_offset(2) [OF ok Suc.prems] by simp
  have nxt: "doff k + 16 = doff (Suc k)" by (simp add: doff_def)
  have IH: "dirlookup_from B sb name (doff (Suc k)) dp d =
    Inr (map_option (\<lambda>j. (doff (Suc (k + j)), de_inum (dents B dp d ! Suc (k + j))))
      (find_idx (names name) (drop (Suc k) (dents B dp d))), dp, d)"
    using Suc.hyps(1) [of "Suc k"] Suc.hyps(2) Suc.prems by (simp del: length_dents)
  have dr: "drop k (dents B dp d) = dents B dp d ! k # drop (Suc k) (dents B dp d)"
    using k by (simp add: Cons_nth_drop_Suc)
  show ?case
    using lt by (simp add: dirlookup_from.simps [of B sb name "doff k"] read_dirent_spec [OF ok k] nxt IH dr
        names_def namecmp_iff option.map_comp comp_def eq_commute [of "cname name"] )
qed

lemma dirlink_from_spec:
  assumes ok: "dir_ok B sb dp d" and "k \<le> length (dents B dp d)"
  shows "dirlink_from B sb (doff k) dp d =
    Inr (doff (case find_idx (\<lambda>de. de_inum de = 0) (drop k (dents B dp d)) of
       None \<Rightarrow> length (dents B dp d) | Some j \<Rightarrow> k + j), dp, d)"
  using assms(2)
proof (induction "length (dents B dp d) - k" arbitrary: k)
  case 0
  then have "\<not> doff k < i_size dp" using dent_offset(2) [OF ok 0(2)] by simp
  then have "dirlink_from B sb (doff k) dp d = Inr (doff k, dp, d)"
    by (subst dirlink_from.simps) (simp only: if_False)
  moreover have "drop k (dents B dp d) = []" "k = length (dents B dp d)" using 0 by simp_all
  ultimately show ?case by (simp only: find_idx.simps option.case)
next
  case (Suc n)
  then have k: "k < length (dents B dp d)" by simp
  have lt: "doff k < i_size dp" using k dent_offset(2) [OF ok Suc.prems] by simp
  have nxt: "doff k + 16 = doff (Suc k)" by (simp add: doff_def)
  have IH: "dirlink_from B sb (doff (Suc k)) dp d =
    Inr (doff (case find_idx (\<lambda>de. de_inum de = 0) (drop (Suc k) (dents B dp d)) of
       None \<Rightarrow> length (dents B dp d) | Some j \<Rightarrow> Suc (k + j)), dp, d)"
    using Suc.hyps(1) [of "Suc k"] Suc.hyps(2) Suc.prems by (simp del: length_dents split: option.split)
  have dr: "drop k (dents B dp d) = dents B dp d ! k # drop (Suc k) (dents B dp d)"
    using k by (simp add: Cons_nth_drop_Suc)
  show ?case
    using lt by (simp add: dirlink_from.simps [of B sb "doff k"] read_dirent_spec [OF ok k] nxt IH dr
        del: length_dents split: option.split)
qed

section \<open>Writing an entry\<close>

lemma written_content:
  assumes w: "written B sb U user s n off src ip d k ip' d'" and nu: "\<not> user \<or> k = n"
    and off: "off \<le> unat (i_size ip)" "off + k < 2 ^ 32"
  shows "icontent B ip' d' = blit off (map (\<lambda>i. src_byte U user s (src + of_nat i)) [0..<k]) (icontent B ip d)"
    and "unat (i_size ip') = max (unat (i_size ip)) (off + k)"
proof -
  let ?sz = "max (unat (i_size ip)) (off + k)"
  let ?bs = "map (\<lambda>i. src_byte U user s (src + of_nat i)) [0..<k]"
  have "i_size ip' = of_nat ?sz" using w unfolding written_def
    by (metis inode.select_convs(10) inode.surjective inode.update_convs(10))
  moreover have "?sz < 2 ^ 32" using off(2) unat_u32 [of "i_size ip"] by simp
  ultimately show sz: "unat (i_size ip') = ?sz" by (simp add: unat_of_nat)
  show "icontent B ip' d' = blit off ?bs (icontent B ip d)"
  proof (rule nth_equalityI)
    show "length (icontent B ip' d') = length (blit off ?bs (icontent B ip d))"
      using off(1) by (simp add: sz blit_def)
    fix j assume "j < length (icontent B ip' d')"
    then have j: "j < ?sz" by (simp add: sz)
    have new: "icontent B ip' d' ! (off + i) = src_byte U user s (src + of_nat i)" if "i < k" for i
      using w that by (simp add: written_def)
    have old: "icontent B ip' d' ! j = icontent B ip d ! j" if "j < unat (i_size ip)" "j < off \<or> off + k \<le> j"
      using w that nu by (auto simp: written_def)
    consider "j < off" | "off \<le> j" "j < off + k" | "off + k \<le> j" by linarith
    then show "icontent B ip' d' ! j = blit off ?bs (icontent B ip d) ! j"
    proof cases
      case 1
      with old off(1) show ?thesis by (simp add: blit_def nth_append)
    next
      case 2
      then obtain i where i: "j = off + i" "i < k" by (metis add_less_cancel_left le_Suc_ex)
      with new [of i] off(1) show ?thesis by (simp add: blit_def nth_append)
    next
      case 3
      then have "j < unat (i_size ip)" using j by simp
      moreover have "\<not> j < off" "\<not> j - off < k" using 3 by auto
      ultimately show ?thesis using 3 old off(1) by (simp add: blit_def nth_append)
    qed
  qed
qed

text \<open>A kernel write inside one block takes everything or nothing.\<close>

lemma writei_loop_one_block:
  assumes run: "writei_loop B sb U False s n 0 off src ip d = Inr (tot, off', ip', d')"
    and fit: "unat off mod BSIZE + unat n \<le> BSIZE"
  shows "tot = 0 \<or> tot = n"
proof (cases "0 < n")
  case True
  have m: "rw_len n 0 off = n"
    using rw_len_bounds(5) [OF True, of off] fit by (simp add: word_unat_eq_iff)
  obtain a ip1 d1 where b: "bmap B sb ip (off div 1024) d = Inr (a, ip1, d1)"
    using run True by (cases "bmap B sb ip (off div 1024) d") (auto simp: writei_loop.simps [of B sb U False s n 0])
  show ?thesis
    using run True b m
    by (auto simp: writei_loop.simps [of B sb U False s n 0] writei_loop.simps [of B sb U False s n n]
        either_copyin_def Let_def split: if_splits)
qed (use run in \<open>auto simp: writei_loop.simps [of B sb U False s n 0]\<close>)

lemma writei_dirent:
  assumes ok: "dir_ok B sb dp d" and ino: "i_inum dp < sb_ninodes sb" and k: "k \<le> length (dents B dp d)"
    and room: "16 * k + 16 \<le> MAXFILE * BSIZE" and de: "length (de_name de) = DIRSIZ"
  defines "s \<equiv> kstack\<lparr>kmem := kstore 0 (enc_dirent de) (kmem kstack)\<rparr>"
  obtains (all) dp' d' where "writei B sb no_uvm dp False 0 (doff k) 16 s d = Inr (16, dp', d')"
      "written B sb no_uvm False s 16 (16 * k) 0 dp d 16 dp' d'" "dir_ok B sb dp' d'"
      "dents B dp' d' = take k (dents B dp d) @ de # drop (k + 1) (dents B dp d)"
  | (full) dp' d' where "writei B sb no_uvm dp False 0 (doff k) 16 s d = Inr (0, dp', d')"
      "written B sb no_uvm False s 16 (16 * k) 0 dp d 0 dp' d'" "dir_ok B sb dp' d'"
      "dents B dp' d' = dents B dp d" "used_blocks B sb (i_dev dp) d' = {b. b < sb_size sb}"
proof -
  have iok: "inode_ok B sb dp d" and ty: "i_type dp = T_DIR" using ok by (simp_all add: dir_ok_def)
  note off = dent_offset [OF ok k]
  let ?off = "doff k"
  have "unat ?off + unat (16 :: u32) \<le> MAXFILE * BSIZE" unfolding off(1) using room by simp
  then obtain t dp' d' where run: "writei B sb no_uvm dp False 0 ?off 16 s d = Inr (of_nat t, dp', d')"
    and w: "written B sb no_uvm False s (unat (16 :: u32)) (unat ?off) 0 dp d t dp' d'"
    using writei_spec [OF iok ino _ off(3), of False no_uvm 16 0 s] by blast
  then have w: "written B sb no_uvm False s 16 (16 * k) 0 dp d t dp' d'" unfolding off(1) by simp
  then have t16: "t \<le> 16" by (simp add: written_def)
  have len: "length (enc_dirent de) = 16" using de by (simp add: enc_dirent_def)
  have "16 * k \<le> unat (i_size dp)" "16 * k + t < 2 ^ 32" using k t16 room unfolding off(4) by simp_all
  note wc = written_content [OF w _ this, simplified]
  have ty': "i_type dp' = T_DIR" using w ty unfolding written_def
    by (metis inode.select_convs(6) inode.surjective inode.update_convs(10,11))
  have iok': "inode_ok B sb dp' d'" using w by (simp add: written_def)
  have "(16 * k) mod (16 * 64) = 16 * (k mod 64)" by (rule mult_mod_right [symmetric])
  then have "(16 * k) mod BSIZE + 16 \<le> BSIZE" by simp
  then have fit: "unat ?off mod BSIZE + unat (16 :: u32) \<le> BSIZE" unfolding off(1) by simp
  have "of_nat t \<noteq> (-1 :: u32)"
  proof
    assume "of_nat t = (-1 :: u32)"
    then have "unat (of_nat t :: u32) = unat (-1 :: u32)" by simp
    then show False using t16 by (simp add: unat_of_nat unsigned_minus_1_eq_mask mask_eq_exp_minus_1)
  qed
  with run obtain off' ip1 d1 where "writei_loop B sb no_uvm False s 16 0 ?off 0 dp d = Inr (of_nat t, off', ip1, d1)"
    by (auto simp: writei_def bindE_eq_Inr Let_def split: if_splits)
  then have "of_nat t = (0 :: u32) \<or> of_nat t = (16 :: u32)" by (rule writei_loop_one_block [OF _ fit])
  then consider "t = 0" | "t = 16"
    using t16 by (auto simp: word_unat_eq_iff unat_of_nat)
  then show thesis
  proof cases
    case 1
    have c: "icontent B dp' d' = icontent B dp d" "unat (i_size dp') = unat (i_size dp)"
      using wc 1 \<open>16 * k \<le> unat (i_size dp)\<close> by (simp_all add: blit_def)
    then have "dents B dp' d' = dents B dp d" "dir_ok B sb dp' d'"
      using iok' ty' ok by (simp_all add: dents_def dir_ok_def)
    moreover have "used_blocks B sb (i_dev dp) d' = {b. b < sb_size sb}" using w 1 by (simp add: written_def)
    ultimately show thesis using full run w 1 by simp
  next
    case 2
    have bytes: "map (\<lambda>i. src_byte no_uvm False s (of_nat i)) [0..<16] = enc_dirent de"
    proof -
      have "map (\<lambda>i. src_byte no_uvm False s (of_nat i)) [0..<16] = kload (kmem s) 0 16"
        by (simp add: kload_def src_byte_def)
      also have "\<dots> = enc_dirent de" by (simp add: s_def kload_kstore16 [OF len])
      finally show ?thesis .
    qed
    have c: "icontent B dp' d' = blit (16 * k) (enc_dirent de) (icontent B dp d)"
      and sz: "unat (i_size dp') = max (unat (i_size dp)) (16 * k + 16)"
      using wc 2 bytes by simp_all
    define n where "n = length (dents B dp d)"
    have szn: "unat (i_size dp) = 16 * n" unfolding n_def by (rule off(4))
    have kn: "k \<le> n" using k by (simp add: n_def)
    have sz': "unat (i_size dp') = 16 * max n (k + 1)" using sz szn by (simp add: max_def)
    then have dok': "dir_ok B sb dp' d'" using iok' ty' by (simp add: dir_ok_def)
    have "dents B dp' d' = take k (dents B dp d) @ de # drop (k + 1) (dents B dp d)"
    proof (rule nth_equalityI)
      show ll: "length (dents B dp' d') = length (take k (dents B dp d) @ de # drop (k + 1) (dents B dp d))"
        using kn sz' by (simp add: szn max_def)
      fix j assume "j < length (dents B dp' d')"
      then have j: "j < max n (k + 1)" using sz' by simp
      have "dents B dp' d' ! j = dec_dirent (chunk (16 * j) 16 (icontent B dp' d'))"
        using j sz' by (simp add: dents_def)
      also have "\<dots> = (take k (dents B dp d) @ de # drop (k + 1) (dents B dp d)) ! j"
      proof (cases "j = k")
        case True
        have "chunk (16 * k) 16 (icontent B dp' d') = enc_dirent de"
          unfolding c using kn szn len by (intro chunk_blit_same) simp_all
        with True kn szn de show ?thesis by (simp add: nth_append dec_enc_dirent_aux)
      next
        case False
        then have jn: "j < n" using j kn by linarith
        have "chunk (16 * j) 16 (icontent B dp' d') = chunk (16 * j) 16 (icontent B dp d)"
        proof (cases "j < k")
          case True
          then have "16 * j + 16 \<le> 16 * k" by simp
          with kn szn show ?thesis
            unfolding c blit_def by (subst chunk_append_left) (simp_all add: chunk_def min_def take_drop add.commute)
        next
          case after: False
          with False jn have "16 * k + 16 \<le> 16 * j" "16 * k + 16 \<le> unat (i_size dp)" using szn by simp_all
          then show ?thesis unfolding c using len by (intro chunk_blit_other) simp_all
        qed
        with False jn kn szn show ?thesis by (auto simp: nth_append dents_def)
      qed
      finally show "dents B dp' d' ! j = (take k (dents B dp d) @ de # drop (k + 1) (dents B dp d)) ! j" .
    qed
    with dok' w run 2 show thesis using all by simp
  qed
qed

section \<open>A directory as a map from names\<close>

text \<open>What a name stands for in a list of entries: the number in the first entry in use with that name.\<close>

definition lookup_name :: "dirent list \<Rightarrow> u8 list \<Rightarrow> u16 option" where
  "lookup_name es name = map_option de_inum (find (names name) es)"

lemma find_find_idx: "find P xs = map_option ((!) xs) (find_idx P xs)"
  by (induction xs) (auto simp: option.map_comp comp_def)

lemma find_append: "find P (xs @ ys) = (case find P xs of None \<Rightarrow> find P ys | Some x \<Rightarrow> Some x)"
  by (induction xs) auto

lemma find_none_iff: "find P xs = None \<longleftrightarrow> (\<forall>x \<in> set xs. \<not> P x)"
  by (induction xs) auto

lemma lookup_replace:
  assumes k: "k = (case find_idx (\<lambda>de. de_inum de = 0) es of None \<Rightarrow> length es | Some j \<Rightarrow> j)"
    and none: "lookup_name es name = None" and de: "names name de"
  shows "lookup_name (take k es @ de # drop (k + 1) es) nm =
    (if cname nm = cname name then Some (de_inum de) else lookup_name es nm)"
proof -
  have absent: "\<forall>e \<in> set es. \<not> names name e" using none by (simp add: lookup_name_def find_none_iff)
  have k': "k = length es \<or> k < length es \<and> de_inum (es ! k) = 0"
    using k by (auto simp: find_idx_Some split: option.splits)
  show ?thesis
  proof (cases "cname nm = cname name")
    case True
    then have same: "names nm = names name" by (simp add: names_def fun_eq_iff)
    have "find (names name) (take k es) = None" using absent by (auto simp: find_none_iff dest: in_set_takeD)
    with True same de show ?thesis by (simp add: lookup_name_def find_append)
  next
    case False
    then have nd: "\<not> names nm de" using de by (auto simp: names_def)
    have "find (names nm) es = find (names nm) (take k es @ drop (k + 1) es)"
    proof (cases "k < length es")
      case True
      then have "\<not> names nm (es ! k)" using k' by (auto simp: names_def)
      with True show ?thesis by (subst id_take_nth_drop [OF True]) (simp add: find_append split: option.split)
    qed (use k' in simp)
    with False nd show ?thesis by (simp add: lookup_name_def find_append split: option.split)
  qed
qed

lemma kst_eta [simp]: "\<lparr>disk = disk st, itable = itable st\<rparr> = (st :: 'd kst)"
  by simp

lemma dirlookup_spec:
  assumes ok: "dir_ok B sb (itable st ! i) (disk st)"
  shows "dirlookup B sb i name st =
    (case find_idx (names name) (dents B (itable st ! i) (disk st)) of
       None \<Rightarrow> Inr (None, st)
     | Some k \<Rightarrow> bindE (iget (i_dev (itable st ! i)) (ucast (de_inum (dents B (itable st ! i) (disk st) ! k))) st)
         (\<lambda>(p, st). Inr (Some (p, doff k), st)))"
proof -
  have "dirlookup_from B sb name 0 (itable st ! i) (disk st) =
    Inr (map_option (\<lambda>j. (doff j, de_inum (dents B (itable st ! i) (disk st) ! j)))
      (find_idx (names name) (dents B (itable st ! i) (disk st))), itable st ! i, disk st)"
    using dirlookup_from_spec [OF ok, of 0 name] by (simp add: doff_def [of 0])
  moreover have "i_type (itable st ! i) = T_DIR" using ok by (simp add: dir_ok_def)
  ultimately show ?thesis by (simp add: dirlookup_def Let_def split: option.split)
qed

lemma dirlink_absent:
  assumes ok: "dir_ok B sb (itable st ! i) (disk st)" and ino: "i_inum (itable st ! i) < sb_ninodes sb"
    and absent: "lookup_name (dents B (itable st ! i) (disk st)) name = None"
    and room: "16 * length (dents B (itable st ! i) (disk st)) + 16 \<le> MAXFILE * BSIZE"
    and inum: "ucast inum \<noteq> (0 :: u16)"
  obtains (linked) dp' d' where "dirlink B sb me i name inum st = Inr (0, \<lparr>disk = d', itable = (itable st)[i := dp']\<rparr>)"
      "dir_ok B sb dp' d'" "\<And>nm. lookup_name (dents B dp' d') nm =
        (if cname nm = cname name then Some (ucast inum) else lookup_name (dents B (itable st ! i) (disk st)) nm)"
  | (full) dp' d' where "dirlink B sb me i name inum st = Inr (-1, \<lparr>disk = d', itable = (itable st)[i := dp']\<rparr>)"
      "dir_ok B sb dp' d'" "dents B dp' d' = dents B (itable st ! i) (disk st)"
      "used_blocks B sb (i_dev (itable st ! i)) d' = {b. b < sb_size sb}"
proof -
  let ?dp = "itable st ! i" and ?d = "disk st"
  let ?es = "dents B ?dp ?d"
  define k where "k = (case find_idx (\<lambda>de. de_inum de = 0) ?es of None \<Rightarrow> length ?es | Some j \<Rightarrow> j)"
  define de where "de = \<lparr>de_inum = ucast inum, de_name = strncpy name DIRSIZ\<rparr>"
  have nde: "names name de" "length (de_name de) = DIRSIZ" "de_inum de = ucast inum"
    using inum by (simp_all add: de_def names_def)
  have k: "k \<le> length ?es" by (auto simp: k_def find_idx_Some simp del: length_dents split: option.split)
  have kr: "16 * k + 16 \<le> MAXFILE * BSIZE" using k room by linarith
  have look: "dirlookup B sb i name st = Inr (None, st)"
    using absent dirlookup_spec [OF ok, of name] by (auto simp: lookup_name_def find_find_idx split: option.splits)
  have scan: "dirlink_from B sb 0 ?dp ?d = Inr (doff k, ?dp, ?d)"
    using dirlink_from_spec [OF ok, of 0] by (simp add: doff_def [of 0] k_def split: option.splits)
  show thesis
  proof (rule writei_dirent [OF ok ino k kr nde(2)])
    fix dp' d'
    assume w: "writei B sb no_uvm ?dp False 0 (doff k) 16 (kstack\<lparr>kmem := kstore 0 (enc_dirent de) (kmem kstack)\<rparr>) ?d = Inr (16, dp', d')"
      and ok': "dir_ok B sb dp' d'" and es': "dents B dp' d' = take k ?es @ de # drop (k + 1) ?es"
    have "dirlink B sb me i name inum st = Inr (0, \<lparr>disk = d', itable = (itable st)[i := dp']\<rparr>)"
      using look scan w by (simp add: dirlink_def Let_def de_def)
    moreover have "lookup_name (dents B dp' d') nm =
        (if cname nm = cname name then Some (ucast inum) else lookup_name ?es nm)" for nm
      unfolding es' lookup_replace [OF k_def absent nde(1)] nde(3) ..
    ultimately show thesis using linked ok' by blast
  next
    fix dp' d'
    assume w: "writei B sb no_uvm ?dp False 0 (doff k) 16 (kstack\<lparr>kmem := kstore 0 (enc_dirent de) (kmem kstack)\<rparr>) ?d = Inr (0, dp', d')"
      and r: "dir_ok B sb dp' d'" "dents B dp' d' = ?es" "used_blocks B sb (i_dev ?dp) d' = {b. b < sb_size sb}"
    have "dirlink B sb me i name inum st = Inr (-1, \<lparr>disk = d', itable = (itable st)[i := dp']\<rparr>)"
      using look scan w by (simp add: dirlink_def Let_def de_def)
    with r show thesis using full by blast
  qed
qed

text \<open>Giving back an entry that was just obtained never frees anything.\<close>

lemma iget_iput:
  assumes ok: "table_ok (itable st)" and g: "iget dev inum st = Inr (p, st1)"
  obtains st2 where "iput B sb me p st1 = Inr st2" "disk st2 = disk st" "table_ok (itable st2)"
    "irefs (itable st2) = irefs (itable st)"
proof -
  have d1: "disk st1 = disk st" using iget_table_ok(5) [OF ok g] .
  have "\<not> (i_ref (itable st1 ! p) = 1 \<and> i_valid (itable st1 ! p) \<and> i_nlink (itable st1 ! p) = 0)"
    using ok by (cases rule: iget_cases [where dev = dev and inum = inum]) (use g in auto)
  then obtain st2 where p: "iput B sb me p st1 = Inr st2" "disk st2 = disk st1"
    by (auto simp: iput_def Let_def)
  have "table_ok (itable st2) \<and> irefs (itable st2) = irefs (itable st)"
    using itab.get_put_balance [where k = "(dev, inum)", OF ok _ p(1)] g by simp
  with that p d1 show thesis by simp
qed

section \<open>An example directory\<close>

text \<open>A directory with the entry \<open>a\<close> for inode 5 and an empty entry.\<close>

definition ex_dp :: inode where
  "ex_dp = ex_ip\<lparr>i_type := T_DIR, i_size := 32\<rparr>"

definition ex_ddisk :: "u32 \<Rightarrow> u32 \<Rightarrow> u8 list" where
  "ex_ddisk = (\<lambda>dev b. if b = 4 then [5, 0, 97] @ replicate 29 0 else ex_disk dev b)"

definition ex_dst :: "(u32 \<Rightarrow> u32 \<Rightarrow> u8 list) kst" where
  "ex_dst = \<lparr>disk = ex_ddisk, itable = [ex_dp, ex_ip\<lparr>i_ref := 0\<rparr>]\<rparr>"

lemma ex_dst_free: "ex_ip\<lparr>i_ref := 0\<rparr> \<in> set (itable ex_dst)"
  by (simp add: ex_dst_def)

lemma ex_dbread: "bread ram_bio ex_ddisk dev b =
    (if b = 4 then [5, 0, 97] @ replicate 1021 0 else bread ram_bio ex_disk dev b)"
  by (simp add: ram_bio_def ex_ddisk_def replicate_add [symmetric])

lemma ex_dir_ok: "dir_ok ram_bio ex_sb ex_dp ex_ddisk"
proof -
  have used: "used_blocks ram_bio ex_sb 1 ex_ddisk = used_blocks ram_bio ex_sb 1 ex_disk"
    by (rule used_blocks_cong) (simp add: ex_bitmap_blocks ex_dbread)
  have fs: "fs_ok ram_bio ex_sb 1 ex_ddisk" using ex_fs_ok by (simp add: fs_ok_def used)
  have s0: "slot_addr (bread ram_bio ex_disk 1) ex_addrs (data_slot 0) = 4" by (simp add: data_slot_def ex_addrs_def)
  note dw = data_write [OF ex_file_ok _ s0 _ fs used]
  have "file_ok ram_bio ex_sb 1 ex_addrs ex_ddisk" by (rule dw(2)) (simp_all add: ex_dbread)
  moreover have "slot_addr (bread ram_bio ex_ddisk 1) ex_addrs (data_slot n) \<noteq> 0" if "n * BSIZE < 32" for n
  proof -
    from that have "n = 0" by linarith
    then show ?thesis by (simp add: data_slot_def ex_addrs_def)
  qed
  ultimately show ?thesis
    by (simp add: dir_ok_def inode_ok_def backed_def ex_dp_def ex_ip_def)
qed

lemma ex_dents: "dents ram_bio ex_dp ex_ddisk =
    [\<lparr>de_inum = 5, de_name = 97 # replicate 13 0\<rparr>, \<lparr>de_inum = 0, de_name = replicate 14 0\<rparr>]"
proof -
  have "icontent ram_bio ex_dp ex_ddisk = [5, 0, 97] @ replicate 29 0"
  proof (rule nth_equalityI)
    fix i assume "i < length (icontent ram_bio ex_dp ex_ddisk)"
    then have i: "i < 32" by (simp add: ex_dp_def)
    then have "icontent ram_bio ex_dp ex_ddisk ! i = ([5, 0, 97] @ replicate 1021 0) ! i"
      by (simp add: fbyte_def file_block_def data_slot_def ex_addrs_def ex_dbread ex_dp_def ex_ip_def)
    also have "\<dots> = ([5, 0, 97] @ replicate 29 0) ! i" using i by (simp only: nth_append) (simp add: nth_append)
    finally show "icontent ram_bio ex_dp ex_ddisk ! i = ([5, 0, 97] @ replicate 29 0) ! i" .
  qed (simp add: ex_dp_def)
  then have "dents ram_bio ex_dp ex_ddisk = map (\<lambda>k. dec_dirent (chunk (16 * k) 16 ([5, 0, 97] @ replicate 29 0))) [0, 1]"
    by (simp add: dents_def ex_dp_def upt_rec)
  then show ?thesis
    by (simp add: dec_dirent_def chunk_def of_le16_def take_Cons' drop_Cons')
qed

section \<open>Properties\<close>

text \<open>C10: \<open>dirlookup\<close> in a well-formed directory neither panics nor changes anything of its own: it returns NULL when no
  entry in use has the name, and otherwise obtains the inode numbered in the first such entry, together
  with that entry's offset. Names are compared up to \<open>DIRSIZ\<close> bytes or a terminating 0.\<close>

theorem dirlookup_correct:
  assumes "dir_ok B sb (itable st ! i) (disk st)"
  shows "dirlookup B sb i name st =
    (case find_idx (names name) (dents B (itable st ! i) (disk st)) of
       None \<Rightarrow> Inr (None, st)
     | Some k \<Rightarrow> bindE (iget (i_dev (itable st ! i)) (ucast (de_inum (dents B (itable st ! i) (disk st) ! k))) st)
         (\<lambda>(p, st). Inr (Some (p, of_nat (16 * k)), st)))"
  unfolding doff_def [symmetric] by (rule dirlookup_spec [OF assms])

theorem dirlookup_correct_witness:
  "dirlookup ram_bio ex_sb 0 [98] ex_dst = Inr (None, ex_dst) \<and>
   (\<exists>p st'. dirlookup ram_bio ex_sb 0 [97] ex_dst = Inr (Some (p, 0), st') \<and> ikey (itable st' ! p) = (1, 5))"
proof -
  have st: "itable ex_dst ! 0 = ex_dp" "disk ex_dst = ex_ddisk" by (simp_all add: ex_dst_def)
  have ok: "dir_ok ram_bio ex_sb (itable ex_dst ! 0) (disk ex_dst)" using ex_dir_ok by (simp add: st)
  have n: "names [97] \<lparr>de_inum = 5, de_name = 97 # replicate 13 0\<rparr>"
    "\<not> names [98] \<lparr>de_inum = 5, de_name = 97 # replicate 13 0\<rparr>" "\<not> names x \<lparr>de_inum = 0, de_name = y\<rparr>" for x y
    by (simp_all add: names_def cname_def cstr_def)
  have tok: "table_ok (itable ex_dst)" by (auto simp: table_ok_def ex_dst_def ex_dp_def ex_ip_def less_Suc_eq)
  obtain p st' where g: "iget 1 5 ex_dst = Inr (p, st')"
    using iget_returns [OF tok ex_dst_free, of 1 5] by auto
  have "i_dev ex_dp = 1" by (simp add: ex_dp_def ex_ip_def)
  with dirlookup_correct [OF ok] g iget_table_ok(1) [OF tok g] show ?thesis
    by (simp add: st ex_dents n)
qed

text \<open>C9: linking a name that is not in a directory (which has room below the largest file size) either succeeds with 0, and the
  directory then maps that name to the inode number and every other name to what it was before; or returns -1
  because the disk is full, with the entries unchanged. The directory stays well formed, and no other table entry changes.\<close>

theorem dirlink_correct:
  assumes "dir_ok B sb (itable st ! i) (disk st)" and "i_inum (itable st ! i) < sb_ninodes sb"
    and "lookup_name (dents B (itable st ! i) (disk st)) name = None"
    and "16 * length (dents B (itable st ! i) (disk st)) + 16 \<le> MAXFILE * BSIZE"
    and "ucast inum \<noteq> (0 :: u16)"
  shows "\<exists>r dp' d'. dirlink B sb me i name inum st = Inr (r, \<lparr>disk = d', itable = (itable st)[i := dp']\<rparr>) \<and>
     dir_ok B sb dp' d' \<and>
     (if r = 0 then \<forall>nm. lookup_name (dents B dp' d') nm =
        (if cname nm = cname name then Some (ucast inum) else lookup_name (dents B (itable st ! i) (disk st)) nm)
      else r = -1 \<and> dents B dp' d' = dents B (itable st ! i) (disk st) \<and>
        used_blocks B sb (i_dev (itable st ! i)) d' = {b. b < sb_size sb})"
proof (cases rule: dirlink_absent [OF assms, of me, case_names linked full])
  case (linked dp' d')
  then show ?thesis by (intro exI [of _ 0] exI [of _ dp'] exI [of _ d']) simp
next
  case (full dp' d')
  then show ?thesis by (intro exI [of _ "-1"] exI [of _ dp'] exI [of _ d']) simp
qed

theorem dirlink_correct_witness:
  "\<exists>r st'. dirlink ram_bio ex_sb 7 0 [98] 9 ex_dst = Inr (r, st') \<and>
     (r = 0 \<longrightarrow> lookup_name (dents ram_bio (itable st' ! 0) (disk st')) [98] = Some 9 \<and>
        lookup_name (dents ram_bio (itable st' ! 0) (disk st')) [97] = Some 5)"
proof -
  have st: "itable ex_dst ! 0 = ex_dp" "disk ex_dst = ex_ddisk" "length (itable ex_dst) = 2" by (simp_all add: ex_dst_def)
  have l: "lookup_name (dents ram_bio ex_dp ex_ddisk) [98] = None" "lookup_name (dents ram_bio ex_dp ex_ddisk) [97] = Some 5"
    by (simp_all add: lookup_name_def ex_dents names_def cname_def cstr_def)
  have pre: "i_inum ex_dp < sb_ninodes ex_sb" "16 * length (dents ram_bio ex_dp ex_ddisk) + 16 \<le> MAXFILE * BSIZE"
    "ucast (9 :: u32) \<noteq> (0 :: u16)" by (simp_all add: ex_dp_def ex_ip_def)
  from dirlink_correct [where st = ex_dst and i = 0, unfolded st, OF ex_dir_ok pre(1) l(1) pre(2,3), of 7] obtain r dp' d'
    where "dirlink ram_bio ex_sb 7 0 [98] 9 ex_dst = Inr (r, \<lparr>disk = d', itable = (itable ex_dst)[0 := dp']\<rparr>)"
      and "r = 0 \<Longrightarrow> \<forall>nm. lookup_name (dents ram_bio dp' d') nm =
        (if cname nm = cname [98] then Some (ucast (9 :: u32)) else lookup_name (dents ram_bio ex_dp ex_ddisk) nm)" by metis
  with l(2) st(3) show ?thesis by (auto simp: cname_def cstr_def)
qed

text \<open>Linking a name the directory already has returns -1 and leaves the disk and every reference count as they
  were (or runs into the full inode table).\<close>

theorem dirlink_duplicate:
  assumes "table_ok (itable st)" and "dir_ok B sb (itable st ! i) (disk st)"
    and "lookup_name (dents B (itable st ! i) (disk st)) name \<noteq> None"
  shows "(\<exists>st'. dirlink B sb me i name inum st = Inr (-1, st') \<and> disk st' = disk st \<and> table_ok (itable st') \<and>
      irefs (itable st') = irefs (itable st)) \<or>
    dirlink B sb me i name inum st = Inl (Panic ''iget: no inodes'')"
proof -
  obtain k where k: "find_idx (names name) (dents B (itable st ! i) (disk st)) = Some k"
    using assms(3) by (auto simp: lookup_name_def find_find_idx)
  let ?n = "ucast (de_inum (dents B (itable st ! i) (disk st) ! k)) :: u32"
  show ?thesis
  proof (cases "iget (i_dev (itable st ! i)) ?n st")
    case (Inl e)
    then have "e = Panic ''iget: no inodes''"
      by (auto simp: iget_def split: sum.splits option.splits)
    with Inl dirlookup_spec [OF assms(2), of name] k show ?thesis by (simp add: dirlink_def)
  next
    case (Inr r)
    obtain p st1 where r: "r = (p, st1)" by force
    obtain st2 where "iput B sb me p st1 = Inr st2" "disk st2 = disk st" "table_ok (itable st2)"
      "irefs (itable st2) = irefs (itable st)"
      by (rule iget_iput [OF assms(1) Inr [unfolded r]])
    with Inr r dirlookup_spec [OF assms(2), of name] k show ?thesis by (auto simp: dirlink_def)
  qed
qed

theorem dirlink_duplicate_witness:
  "\<exists>st'. dirlink ram_bio ex_sb 7 0 [97] 9 ex_dst = Inr (-1, st') \<and> disk st' = ex_ddisk"
proof -
  have st: "itable ex_dst ! 0 = ex_dp" "disk ex_dst = ex_ddisk" by (simp_all add: ex_dst_def)
  have tok: "table_ok (itable ex_dst)" by (auto simp: table_ok_def ex_dst_def ex_dp_def ex_ip_def less_Suc_eq)
  have l: "lookup_name (dents ram_bio ex_dp ex_ddisk) [97] \<noteq> None"
    by (simp add: lookup_name_def ex_dents names_def cname_def cstr_def)
  have "dirlink ram_bio ex_sb 7 0 [97] 9 ex_dst \<noteq> Inl e" for e
  proof -
    obtain p st' where g: "iget 1 5 ex_dst = Inr (p, st')"
      using iget_returns [OF tok ex_dst_free, of 1 5] by auto
    obtain st2 where "iput ram_bio ex_sb 7 p st' = Inr st2" by (rule iget_iput [OF tok g])
    moreover have "i_dev ex_dp = 1" by (simp add: ex_dp_def ex_ip_def)
    moreover have "names [97] \<lparr>de_inum = 5, de_name = 97 # replicate 13 0\<rparr>" by (simp add: names_def cname_def cstr_def)
    ultimately show ?thesis
      using g dirlookup_spec [where st = ex_dst and i = 0, unfolded st, OF ex_dir_ok, of "[97]"]
      by (simp add: dirlink_def ex_dents)
  qed
  with dirlink_duplicate [OF tok, where i = 0, unfolded st, OF ex_dir_ok l, of 7 9] show ?thesis by blast
qed

end
