(* ===== verification/Fs_Path.thy ===== *)
theory Fs_Path
  imports Fs_Dir
begin

text \<open>
  Path names: \<open>skipelem\<close>, \<open>namex\<close>, \<open>namei\<close> and \<open>nameiparent\<close> of \<open>HW4/source/fs.c\<close>. A path is a list of bytes that ends at
  its first 0 or at its end. \<open>skipelem\<close> is compared with the reference splitting \<open>elements\<close> of a
  path at its slashes. For \<open>namex\<close> the resources are accounted for: every lock it takes is released and
  every reference it takes is given back, except the one to the inode it returns.
\<close>

section \<open>Definitions\<close>

abbreviation SLASH :: u8 where "SLASH \<equiv> 47"
abbreviation ROOTDEV :: u32 where "ROOTDEV \<equiv> 1"

definition skipelem :: "u8 list \<Rightarrow> u8 list \<Rightarrow> (u8 list \<times> u8 list) option" where
  "skipelem path name =
     (let path = dropWhile (\<lambda>c. c = SLASH) path in
      if cbyte path = 0 then None
      else let s = takeWhile (\<lambda>c. c \<noteq> SLASH \<and> c \<noteq> 0) path;
               path = drop (length s) path;
               name = (if length s \<ge> DIRSIZ then blit 0 (take DIRSIZ s) name else blit 0 (s @ [0]) name);
               path = dropWhile (\<lambda>c. c = SLASH) path
      in Some (path, name))"

lemma length_dropWhile: "length (dropWhile P xs) \<le> length xs"
  by (induction xs) auto

lemma dropWhile_hd: "dropWhile P xs = c # cs \<Longrightarrow> \<not> P c"
  by (induction xs) (auto split: if_splits)

lemma skipelem_shrinks: "skipelem path name = Some (rest, name') \<Longrightarrow> length rest < length path"
proof -
  assume a: "skipelem path name = Some (rest, name')"
  define p where "p = dropWhile (\<lambda>c. c = SLASH) path"
  define s where "s = takeWhile (\<lambda>c. c \<noteq> SLASH \<and> c \<noteq> 0) p"
  from a have nz: "cbyte p \<noteq> 0" and rest: "rest = dropWhile (\<lambda>c. c = SLASH) (drop (length s) p)"
    by (auto simp: skipelem_def Let_def p_def s_def split: if_splits)
  then obtain c cs where p: "p = c # cs" "c \<noteq> 0" by (cases p) (auto simp: cbyte_def)
  then have "c \<noteq> SLASH" using dropWhile_hd [of "\<lambda>c. c = SLASH" path c cs] by (simp add: p_def)
  with p have "0 < length s" by (simp add: s_def)
  moreover have "length rest \<le> length p - length s" unfolding rest using length_dropWhile by (metis length_drop)
  moreover have "length p \<le> length path" unfolding p_def by (rule length_dropWhile)
  moreover have "0 < length p" using p by simp
  ultimately show ?thesis by linarith
qed

text \<open>The loop of \<open>namex\<close>; \<open>ip\<close> is the index of the current inode.\<close>

function namex_loop :: "'d bio \<Rightarrow> superblock \<Rightarrow> int \<Rightarrow> bool \<Rightarrow> nat \<Rightarrow> u8 list \<Rightarrow> u8 list \<Rightarrow> 'd kst \<Rightarrow>
    (nat option \<times> u8 list \<times> 'd kst) res" where
  "namex_loop B sb me nameiparent ip path name st =
     (case skipelem path name of
        None \<Rightarrow>
          if nameiparent then bindE (iput B sb me ip st) (\<lambda>st. Inr (None, name, st))
          else Inr (Some ip, name, st)
      | Some (path, name) \<Rightarrow>
          bindE (ilock B sb me (Some ip) st) (\<lambda>st.
          if i_type (itable st ! ip) \<noteq> T_DIR then
            bindE (iunlockput B sb me ip st) (\<lambda>st. Inr (None, name, st))
          else if nameiparent \<and> cbyte path = 0 then
            bindE (iunlock me (Some ip) st) (\<lambda>st. Inr (Some ip, name, st))
          else bindE (dirlookup B sb ip name st) (\<lambda>(f, st).
            case f of
              None \<Rightarrow> bindE (iunlockput B sb me ip st) (\<lambda>st. Inr (None, name, st))
            | Some (nxt, _) \<Rightarrow> bindE (iunlockput B sb me ip st) (\<lambda>st.
                namex_loop B sb me nameiparent nxt path name st))))"
  by pat_completeness auto
termination
  by (relation "measure (\<lambda>(B, sb, me, np, ip, path, name, st). length path)") (auto simp: skipelem_shrinks)

declare namex_loop.simps [simp del]

definition namex :: "'d bio \<Rightarrow> superblock \<Rightarrow> int \<Rightarrow> nat \<Rightarrow> u8 list \<Rightarrow> bool \<Rightarrow> u8 list \<Rightarrow> 'd kst \<Rightarrow>
    (nat option \<times> u8 list \<times> 'd kst) res" where
  "namex B sb me cwd path nameiparent name st =
     bindE (if cbyte path = SLASH then iget ROOTDEV ROOTINO st else Inr (idup cwd st)) (\<lambda>(ip, st).
     namex_loop B sb me nameiparent ip path name st)"

text \<open>\<open>namei\<close> has a local array \<open>name\<close>, whose initial content is the argument \<open>junk\<close>.\<close>

definition namei :: "'d bio \<Rightarrow> superblock \<Rightarrow> int \<Rightarrow> nat \<Rightarrow> u8 list \<Rightarrow> u8 list \<Rightarrow> 'd kst \<Rightarrow> (nat option \<times> 'd kst) res" where
  "namei B sb me cwd junk path st =
     bindE (namex B sb me cwd path False junk st) (\<lambda>(p, name, st). Inr (p, st))"

definition nameiparent :: "'d bio \<Rightarrow> superblock \<Rightarrow> int \<Rightarrow> nat \<Rightarrow> u8 list \<Rightarrow> u8 list \<Rightarrow> 'd kst \<Rightarrow>
    (nat option \<times> u8 list \<times> 'd kst) res" where
  "nameiparent B sb me cwd path name st = namex B sb me cwd path True name st"

section \<open>The elements of a path\<close>

text \<open>The reference: the non-empty parts between slashes, up to the end of the string.\<close>

definition flush :: "u8 list \<Rightarrow> u8 list list" where
  "flush acc = (if acc = [] then [] else [acc])"

fun split_at :: "u8 list \<Rightarrow> u8 list \<Rightarrow> u8 list list" where
  "split_at [] acc = flush acc"
| "split_at (c # cs) acc =
     (if c = 0 then flush acc else if c = SLASH then flush acc @ split_at cs [] else split_at cs (acc @ [c]))"

definition elements :: "u8 list \<Rightarrow> u8 list list" where
  "elements path = split_at path []"

lemma elements_slashes: "elements (dropWhile (\<lambda>c. c = SLASH) path) = elements path"
  by (induction path) (auto simp: elements_def flush_def)

lemma split_at_span:
  "split_at path acc = flush (acc @ takeWhile (\<lambda>c. c \<noteq> SLASH \<and> c \<noteq> 0) path) @
     elements (dropWhile (\<lambda>c. c \<noteq> SLASH \<and> c \<noteq> 0) path)"
  by (induction path arbitrary: acc) (auto simp: elements_def flush_def)

lemma skipelem_elements:
  assumes "length name = DIRSIZ"
  shows "case skipelem path name of
     None \<Rightarrow> elements path = []
   | Some (rest, name') \<Rightarrow> length name' = DIRSIZ \<and> (\<exists>e. elements path = e # elements rest \<and> cname name' = take DIRSIZ e) \<and>
       (rest = [] \<or> hd rest \<noteq> SLASH)"
proof -
  define p where "p = dropWhile (\<lambda>c. c = SLASH) path"
  define s where "s = takeWhile (\<lambda>c. c \<noteq> SLASH \<and> c \<noteq> 0) p"
  have el: "elements path = flush s @ elements (drop (length s) p)"
  proof -
    have "drop (length s) p = dropWhile (\<lambda>c. c \<noteq> SLASH \<and> c \<noteq> 0) p" by (simp add: s_def dropWhile_eq_drop)
    then show ?thesis
      using split_at_span [of p "[]"] elements_slashes [of path] by (simp add: p_def [symmetric] s_def [symmetric] elements_def)
  qed
  have nz: "\<forall>c \<in> set s. c \<noteq> 0" unfolding s_def by (auto dest: set_takeWhileD)
  show ?thesis
  proof (cases "cbyte p = 0")
    case True
    then have "p = [] \<or> hd p = 0" by (cases p) (auto simp: cbyte_def)
    then have "elements p = []" by (cases p) (auto simp: elements_def flush_def)
    with True elements_slashes [of path] show ?thesis by (simp add: skipelem_def Let_def p_def)
  next
    case False
    then obtain c cs where p: "p = c # cs" "c \<noteq> 0" by (cases p) (auto simp: cbyte_def)
    then have "c \<noteq> SLASH" using dropWhile_hd [of "\<lambda>c. c = SLASH" path c cs] by (simp add: p_def)
    with p have sne: "s \<noteq> []" by (simp add: s_def)
    let ?rest = "dropWhile (\<lambda>c. c = SLASH) (drop (length s) p)"
    let ?name = "if length s \<ge> DIRSIZ then blit 0 (take DIRSIZ s) name else blit 0 (s @ [0]) name"
    have sk: "skipelem path name = Some (?rest, ?name)"
      using False by (simp add: skipelem_def Let_def p_def s_def)
    have "cname ?name = take DIRSIZ s \<and> length ?name = DIRSIZ"
    proof (cases "length s \<ge> DIRSIZ")
      case True
      have "takeWhile (\<lambda>c. c \<noteq> 0) (take DIRSIZ s) = take DIRSIZ s"
        using nz by (auto intro: takeWhile_eq_all_conv [THEN iffD2] dest: in_set_takeD)
      with True assms show ?thesis by (simp add: blit_def cname_def cstr_def del: takeWhile_eq_all_conv)
    next
      case short: False
      have "takeWhile (\<lambda>c. c \<noteq> 0) (s @ 0 # drop (Suc (length s)) name) = s"
        using nz by (subst takeWhile_append2) auto
      with short assms show ?thesis by (simp add: blit_def cname_def cstr_def)
    qed
    moreover have "?rest = [] \<or> hd ?rest \<noteq> SLASH" by (cases ?rest) (auto dest: dropWhile_hd)
    moreover have "elements path = s # elements ?rest" using el sne elements_slashes by (simp add: flush_def)
    ultimately show ?thesis unfolding sk by auto
  qed
qed

lemma elements_empty_iff: "path = [] \<or> hd path \<noteq> SLASH \<Longrightarrow> cbyte path = 0 \<longleftrightarrow> elements path = []"
proof (cases path)
  case (Cons c cs)
  assume "path = [] \<or> hd path \<noteq> SLASH"
  moreover have "split_at xs (c # acc) \<noteq> []" for xs acc
    by (induction xs arbitrary: acc) (auto simp: flush_def)
  ultimately show ?thesis using Cons by (auto simp: cbyte_def elements_def flush_def)
qed (simp add: cbyte_def elements_def flush_def)

lemma namex_loop_parent_name:
  assumes "namex_loop B sb me True ip path name st = Inr (Some j, name', st')" and "length name = DIRSIZ"
  shows "elements path \<noteq> [] \<and> cname name' = take DIRSIZ (last (elements path))"
  using assms
proof (induction "length path" arbitrary: ip path name st rule: less_induct)
  case less
  note unfold = less.prems(1) [unfolded namex_loop.simps [of B sb me True ip path name st]]
  from unfold obtain path1 name1 where sk: "skipelem path name = Some (path1, name1)"
    by (cases "skipelem path name") (auto simp: bindE_eq_Inr)
  from skipelem_elements [OF less.prems(2), of path] sk obtain e where
    len1: "length name1 = DIRSIZ" and el: "elements path = e # elements path1" "cname name1 = take DIRSIZ e"
    and hd: "path1 = [] \<or> hd path1 \<noteq> SLASH" by auto
  from unfold sk obtain st1 where lk: "ilock B sb me (Some ip) st = Inr st1" by (auto simp: bindE_eq_Inr)
  have dir: "i_type (itable st1 ! ip) = T_DIR" using unfold sk lk by (auto simp: bindE_eq_Inr split: if_splits)
  show ?case
  proof (cases "cbyte path1 = 0")
    case True
    with unfold sk lk dir have "name' = name1" by (auto simp: bindE_eq_Inr)
    with True el elements_empty_iff [OF hd] show ?thesis by simp
  next
    case False
    with unfold sk lk dir obtain nxt st3 where rec: "namex_loop B sb me True nxt path1 name1 st3 = Inr (Some j, name', st')"
      by (auto simp: bindE_eq_Inr split: option.splits)
    from less.hyps [OF skipelem_shrinks [OF sk] rec len1] el show ?thesis by simp
  qed
qed

section \<open>An example\<close>

definition ex_cwd :: "(u32 \<Rightarrow> u32 \<Rightarrow> u8 list) kst" where
  "ex_cwd = \<lparr>disk = ex_ddisk, itable = [ex_dp\<lparr>i_lock := None\<rparr>, ex_ip\<lparr>i_ref := 0\<rparr>]\<rparr>"

lemma replicate_13: "0 # replicate 12 0 = replicate 13 (0 :: u8)"
  by (simp add: numeral_eq_Suc)

lemma ex_cwd_ok: "table_ok (itable ex_cwd)" "ilive ex_cwd 0"
  by (auto simp: table_ok_def ilive_def ex_cwd_def ex_dp_def ex_ip_def less_Suc_eq)

lemma ex_parent: "\<exists>st'. nameiparent ram_bio ex_sb 7 0 [98, 47] (replicate 14 0) ex_cwd =
    Inr (Some 0, 98 # replicate 13 0, st')"
proof -
  have sk: "skipelem [98, 47] (replicate 14 0) = Some ([], 98 # replicate 13 0)"
    by (simp add: skipelem_def cbyte_def blit_def Let_def replicate_13)
  show ?thesis
    by (simp add: nameiparent_def namex_def cbyte_def idup_def ex_cwd_def namex_loop.simps [of _ _ _ _ _ "[98, 47]"] sk
        ilock_def iunlock_def ex_dp_def ex_ip_def Let_def)
qed

section \<open>Properties\<close>

text \<open>C8: \<open>skipelem\<close> agrees with splitting the path at its slashes: it returns NULL exactly when the path has no
  element left; otherwise \<open>name\<close> becomes the first element cut to \<open>DIRSIZ\<close> bytes and the returned path
  has exactly the remaining elements and no leading slash. (The examples of its comment are instances.)\<close>

theorem skipelem_correct:
  assumes "length name = DIRSIZ"
  shows "(skipelem path name = None \<longleftrightarrow> elements path = []) \<and>
     (\<forall>rest name'. skipelem path name = Some (rest, name') \<longrightarrow> length name' = DIRSIZ \<and>
        elements path = hd (elements path) # elements rest \<and> cname name' = take DIRSIZ (hd (elements path)) \<and>
        (rest = [] \<or> hd rest \<noteq> SLASH))"
  using skipelem_elements [OF assms, of path] by (auto split: option.splits)

theorem skipelem_correct_witness:
  "skipelem [47, 47, 47, 97, 47, 47, 98, 98] (replicate 14 0) = Some ([98, 98], 97 # replicate 13 0) \<and>
   elements [47, 47, 47, 97, 47, 47, 98, 98] = [97] # elements [98, 98]"
proof -
  have "skipelem [47, 47, 47, 97, 47, 47, 98, 98] (replicate 14 0) = Some ([98, 98], 97 # replicate 13 0)"
    by (simp add: skipelem_def cbyte_def blit_def Let_def replicate_13)
  moreover have "hd (elements [47, 47, 47, 97, 47, 47, 98, 98]) = [97]" by (simp add: elements_def flush_def)
  ultimately show ?thesis using skipelem_correct [of "replicate 14 0" "[47, 47, 47, 97, 47, 47, 98, 98]"] by force
qed

text \<open>\<open>nameiparent\<close> hands out a directory only for a path that has an element, and \<open>name\<close> is then
  the last element of the path, cut to \<open>DIRSIZ\<close> bytes.\<close>

theorem nameiparent_last:
  assumes "nameiparent B sb me cwd path name st = Inr (Some j, name', st')" and "length name = DIRSIZ"
  shows "elements path \<noteq> [] \<and> cname name' = take DIRSIZ (last (elements path))"
proof -
  from assms(1) obtain ip st1 where "namex_loop B sb me True ip path name st1 = Inr (Some j, name', st')"
    by (auto simp: nameiparent_def namex_def bindE_eq_Inr)
  then show ?thesis by (rule namex_loop_parent_name [OF _ assms(2)])
qed

theorem nameiparent_last_witness:
  "\<exists>st'. nameiparent ram_bio ex_sb 7 0 [98, 47] (replicate 14 0) ex_cwd = Inr (Some 0, 98 # replicate 13 0, st') \<and>
     last (elements [98, 47]) = [98] \<and> cname (98 # replicate 13 0) = [98]"
proof -
  obtain st' where run: "nameiparent ram_bio ex_sb 7 0 [98, 47] (replicate 14 0) ex_cwd = Inr (Some 0, 98 # replicate 13 0, st')"
    using ex_parent by blast
  have "elements [98, 47] = [[98]]" by (simp add: elements_def flush_def)
  with nameiparent_last [OF run] run show ?thesis by auto
qed

end
