(* ===== verification/Fs_Own.thy ===== *)
theory Fs_Own
  imports Fs_Path "HOL-Library.Multiset"
begin

text \<open>
  Accounting for the inode references and inode locks an operation takes and gives back: how each operation
  of the file system changes the reference counts and the locks, put together in the assertion \<open>owns\<close>,
  which every operation transforms by a rule. The rules give the balance of \<open>namex\<close>
  and, in the theory of the system calls, of the calls.
\<close>

section \<open>Accounting for references and locks\<close>

text \<open>One reference to the inode \<open>k\<close>, and none to any other.\<close>

definition ref1 :: "u32 \<times> u32 \<Rightarrow> u32 \<times> u32 \<Rightarrow> int" where
  "ref1 k = (\<lambda>x. if x = k then 1 else 0)"

definition ilocks :: "'d kst \<Rightarrow> int option list" where
  "ilocks st = map i_lock (itable st)"

text \<open>\<open>keeps st st'\<close>: the table is still well formed and every entry in use is still the same inode's, except
  possibly the one that was given up.\<close>

definition keeps :: "'d kst \<Rightarrow> 'd kst \<Rightarrow> bool" where
  "keeps st st' \<longleftrightarrow> table_ok (itable st') \<and> length (itable st') = length (itable st) \<and>
     (\<forall>j. ilive st j \<longrightarrow> ilive st' j \<and> ikey (itable st' ! j) = ikey (itable st ! j))"

lemma keepsD:
  assumes "keeps st st'"
  shows "table_ok (itable st')" and "ilive st j \<Longrightarrow> ilive st' j" and "ilive st j \<Longrightarrow> ikey (itable st' ! j) = ikey (itable st ! j)"
  using assms by (auto simp: keeps_def)

lemma keeps_trans: "keeps st st1 \<Longrightarrow> keeps st1 st2 \<Longrightarrow> keeps st st2"
  by (auto simp: keeps_def)

lemma same_entry:
  assumes ok: "table_ok (itable st)" and l: "ilive st i" and x: "ikey x = ikey (itable st ! i)" "i_ref x = i_ref (itable st ! i)"
    and st': "st' = \<lparr>disk = d, itable = (itable st)[i := x]\<rparr>"
  shows "keeps st st'" and "irefs (itable st') = irefs (itable st)" and "ilocks st' = (ilocks st)[i := i_lock x]"
proof -
  have i: "i < length (itable st)" "i_ref (itable st ! i) > 0" using l by (auto simp: ilive_def)
  have "table_ok ((itable st)[i := x])" by (rule table_ok_update [OF ok i(1)]) (use i(2) x in auto)
  moreover have "ilive st' j \<and> ikey (itable st' ! j) = ikey (itable st ! j)" if "ilive st j" for j
    using that i x by (cases "j = i") (auto simp: st' ilive_def)
  ultimately show "keeps st st'" by (simp add: keeps_def st')
  show "irefs (itable st') = irefs (itable st)" using x by (auto simp: st' irefs_update [OF i(1)])
  show "ilocks st' = (ilocks st)[i := i_lock x]" by (simp add: st' ilocks_def map_update)
qed

lemma ilocks_nth: "ilive st i \<Longrightarrow> ilocks st ! i = i_lock (itable st ! i)"
  by (simp add: ilocks_def ilive_def)

lemma ilock_acct:
  assumes ok: "table_ok (itable st)" and l: "ilive st i" and run: "ilock B sb me (Some i) st = Inr st'"
  shows "keeps st st'" and "irefs (itable st') = irefs (itable st)" and "ilocks st' = (ilocks st)[i := Some me]"
    and "ilocks st ! i = None"
proof -
  let ?ip = "itable st ! i"
  obtain x where x: "st' = \<lparr>disk = disk st, itable = (itable st)[i := x]\<rparr>" "ikey x = ikey ?ip"
    "i_ref x = i_ref ?ip" "i_lock x = Some me" "i_lock ?ip = None"
  proof (cases "i_valid ?ip")
    case True
    with run show thesis
      by (intro that [of "?ip\<lparr>i_lock := Some me\<rparr>"]) (auto simp: ilock_def Let_def ikey_def split: if_splits)
  next
    case False
    let ?dip = "get_dinode (bread B (disk st) (i_dev ?ip) (IBLOCK (i_inum ?ip) sb)) (unat (i_inum ?ip) mod IPB)"
    from False run show thesis
      by (intro that [of "(load_dinode ?dip (?ip\<lparr>i_lock := Some me\<rparr>))\<lparr>i_valid := True\<rparr>"])
        (auto simp: ilock_def Let_def ikey_def split: if_splits)
  qed
  note s = same_entry [OF ok l x(2,3,1)]
  show "keeps st st'" "irefs (itable st') = irefs (itable st)" "ilocks st' = (ilocks st)[i := Some me]" using s x(4) by simp_all
  show "ilocks st ! i = None" using l x(5) by (simp add: ilocks_nth)
qed

lemma iunlock_acct:
  assumes ok: "table_ok (itable st)" and l: "ilive st i" and run: "iunlock me (Some i) st = Inr st'"
  shows "keeps st st'" and "irefs (itable st') = irefs (itable st)" and "ilocks st' = (ilocks st)[i := None]"
proof -
  let ?x = "(itable st ! i)\<lparr>i_lock := None\<rparr>"
  have e: "st' = \<lparr>disk = disk st, itable = (itable st)[i := ?x]\<rparr>"
    using run by (auto simp: iunlock_def Let_def split: if_splits)
  have k: "ikey ?x = ikey (itable st ! i)" "i_ref ?x = i_ref (itable st ! i)" by (simp_all add: ikey_def)
  show "keeps st st'" "irefs (itable st') = irefs (itable st)" "ilocks st' = (ilocks st)[i := None]"
    using same_entry [OF ok l k e] by simp_all
qed

lemma iget_acct:
  assumes ok: "table_ok (itable st)" and run: "iget dev inum st = Inr (i, st')"
  shows "keeps st st'" and "irefs (itable st') k = irefs (itable st) k + ref1 (dev, inum) k" and "ilocks st' = ilocks st"
    and "ilive st' i" and "ikey (itable st' ! i) = (dev, inum)"
proof -
  note g = iget_table_ok [OF ok run]
  from ok have "length (itable st') = length (itable st) \<and> ilocks st' = ilocks st"
    by (cases rule: iget_cases [where dev = dev and inum = inum])
      (use run in \<open>auto simp: ilocks_def map_update list_update_same_conv\<close>)
  then show "keeps st st'" "ilocks st' = ilocks st" using g(1,3) by (simp_all add: keeps_def)
  show "irefs (itable st') k = irefs (itable st) k + ref1 (dev, inum) k" using g(2) by (simp add: ref1_def)
  show "ilive st' i" "ikey (itable st' ! i) = (dev, inum)" using g(1) by simp_all
qed

lemma idup_acct:
  assumes ok: "table_ok (itable st)" and l: "ilive st i"
  defines "st' \<equiv> snd (idup i st)"
  shows "keeps st st'" and "irefs (itable st') k = irefs (itable st) k + ref1 (ikey (itable st ! i)) k" and "ilocks st' = ilocks st"
proof -
  note d = idup_table_ok [OF ok l, folded st'_def]
  show "keeps st st'" using d(1-3) by (simp add: keeps_def) (simp add: st'_def idup_def)
  show "irefs (itable st') k = irefs (itable st) k + ref1 (ikey (itable st ! i)) k" using d(4) by (simp add: ref1_def)
  show "ilocks st' = ilocks st"
    using l by (simp add: st'_def idup_def ilocks_def map_update list_update_same_conv ilive_def)
qed

lemma itrunc_lock:
  assumes "itrunc B sb ip d = Inr (ip', d')"
  shows "i_lock ip' = i_lock ip"
proof -
  from assms obtain q1 e1 q2 e2 q3 e3 where "itrunc_direct B sb ip d = Inr (q1, e1)"
    "itrunc_indirect B sb q1 e1 = Inr (q2, e2)" "itrunc_double B sb q2 e2 = Inr (q3, e3)" "ip' = q3\<lparr>i_size := 0\<rparr>"
    by (auto simp: itrunc_def Let_def bindE_eq_Inr)
  then show ?thesis
    by (auto simp: itrunc_direct_def itrunc_indirect_def itrunc_double_def Let_def bindE_eq_Inr split: if_splits)
qed

lemma iput_acct:
  assumes ok: "table_ok (itable st)" and l: "ilive st i" and run: "iput B sb me i st = Inr st'"
  shows "table_ok (itable st')" and "irefs (itable st') k = irefs (itable st) k - ref1 (ikey (itable st ! i)) k"
    and "ilocks st' = ilocks st"
    and "ilive st j \<Longrightarrow> j \<noteq> i \<or> irefs (itable st) (ikey (itable st ! i)) > 1 \<Longrightarrow>
      ilive st' j \<and> ikey (itable st' ! j) = ikey (itable st ! j)"
proof -
  note p = iput_table_ok [OF ok l run]
  show "table_ok (itable st')" by (rule p(1))
  show "irefs (itable st') k = irefs (itable st) k - ref1 (ikey (itable st ! i)) k" using p(2) by (simp add: ref1_def)
  show "ilive st j \<Longrightarrow> j \<noteq> i \<or> irefs (itable st) (ikey (itable st ! i)) > 1 \<Longrightarrow>
      ilive st' j \<and> ikey (itable st' ! j) = ikey (itable st ! j)"
    by (rule itab.put_keeps [OF ok l run])
  show "ilocks st' = ilocks st"
  proof (cases "i_ref (itable st ! i) = 1 \<and> i_valid (itable st ! i) \<and> i_nlink (itable st ! i) = 0")
    case False
    with run show ?thesis using l
      by (auto simp: iput_def Let_def ilocks_def map_update list_update_same_conv ilive_def)
  next
    case True
    with run have free: "i_lock (itable st ! i) = None" by (auto simp: iput_def Let_def split: if_splits)
    from True run free obtain ip' where e: "itable st' = (itable st)[i := ip']" "i_lock ip' = None"
      using l by (auto simp: iput_def Let_def bindE_eq_Inr ilive_def)
    with free l show ?thesis by (simp add: ilocks_def map_update list_update_same_conv ilive_def)
  qed
qed

lemma iunlockput_acct:
  assumes ok: "table_ok (itable st)" and l: "ilive st i" and run: "iunlockput B sb me i st = Inr st'"
  shows "table_ok (itable st')" and "irefs (itable st') k = irefs (itable st) k - ref1 (ikey (itable st ! i)) k"
    and "ilocks st' = (ilocks st)[i := None]"
    and "ilive st j \<Longrightarrow> j \<noteq> i \<or> irefs (itable st) (ikey (itable st ! i)) > 1 \<Longrightarrow>
      ilive st' j \<and> ikey (itable st' ! j) = ikey (itable st ! j)"
proof -
  from run obtain st1 where u: "iunlock me (Some i) st = Inr st1" and p: "iput B sb me i st1 = Inr st'"
    by (auto simp: iunlockput_def bindE_eq_Inr)
  note ua = iunlock_acct [OF ok l u]
  have l1: "ilive st1 i" and k1: "ikey (itable st1 ! i) = ikey (itable st ! i)"
    using keepsD(2,3) [OF ua(1)] l by auto
  note pa = iput_acct [OF keepsD(1) [OF ua(1)] l1 p]
  show "table_ok (itable st')" by (rule pa(1))
  show "irefs (itable st') k = irefs (itable st) k - ref1 (ikey (itable st ! i)) k" using pa(2) ua(2) k1 by simp
  show "ilocks st' = (ilocks st)[i := None]" using pa(3) ua(3) by simp
  assume "ilive st j" "j \<noteq> i \<or> irefs (itable st) (ikey (itable st ! i)) > 1"
  with pa(4) [of j] keepsD(2,3) [OF ua(1)] ua(2) k1
  show "ilive st' j \<and> ikey (itable st' ! j) = ikey (itable st ! j)" by simp
qed

lemma dirlookup_from_ident:
  "dirlookup_from B sb name off dp d = Inr (f, dp', d') \<Longrightarrow> addrs_only dp dp'"
proof (induction "unat (i_size dp) - unat off" arbitrary: off dp d rule: less_induct)
  case less
  show ?case
  proof (cases "off < i_size dp")
    case False
    with less.prems show ?thesis by (simp add: dirlookup_from.simps [of B sb name off])
  next
    case True
    with less.prems obtain de dp1 d1 where rd: "read_dirent B sb dp off d = Inr (16, de, dp1, d1)"
      by (auto simp: dirlookup_from.simps [of B sb name off] bindE_eq_Inr split: if_splits)
    then have a: "addrs_only dp dp1" by (auto simp: read_dirent_def bindE_eq_Inr dest: readi_ident)
    have m: "unat (i_size dp1) - unat (off + 16) < unat (i_size dp) - unat off"
      using read_dirent_progress [OF rd] True by (simp add: off_progress)
    from less.prems True rd have
      "dirlookup_from B sb name (off + 16) dp1 d1 = Inr (f, dp', d') \<or> dp' = dp1"
      by (auto simp: dirlookup_from.simps [of B sb name off] split: if_splits)
    with less.hyps [OF m] a show ?thesis by (blast intro: addrs_only_trans)
  qed
qed

lemma dirlookup_acct:
  assumes ok: "table_ok (itable st)" and l: "ilive st i" and run: "dirlookup B sb i name st = Inr (f, st')"
  shows "keeps st st'" and "ilocks st' = ilocks st"
    and "irefs (itable st') k = irefs (itable st) k +
      (case f of None \<Rightarrow> 0 | Some (p, off) \<Rightarrow> ref1 (ikey (itable st' ! p)) k)"
    and "case f of None \<Rightarrow> True | Some (p, off) \<Rightarrow> ilive st' p"
proof -
  from run obtain g dp' d' where r: "dirlookup_from B sb name 0 (itable st ! i) (disk st) = Inr (g, dp', d')"
    by (auto simp: dirlookup_def bindE_eq_Inr split: if_splits)
  define st1 where "st1 = \<lparr>disk = d', itable = (itable st)[i := dp']\<rparr>"
  note ao = addrs_onlyD [OF dirlookup_from_ident [OF r]]
  have k: "ikey dp' = ikey (itable st ! i)" "i_ref dp' = i_ref (itable st ! i)" using ao by (simp_all add: ikey_def)
  note s = same_entry [OF ok l k st1_def]
  have lk: "ilocks st1 = ilocks st"
    using s(3) ao(5) l by (simp add: ilocks_def list_update_same_conv ilive_def)
  have "keeps st st' \<and> ilocks st' = ilocks st \<and> irefs (itable st') k = irefs (itable st) k +
      (case f of None \<Rightarrow> 0 | Some (p, off) \<Rightarrow> ref1 (ikey (itable st' ! p)) k) \<and>
      (case f of None \<Rightarrow> True | Some (p, off) \<Rightarrow> ilive st' p)"
  proof (cases g)
    case None
    with run r have "st' = st1" "f = None" by (auto simp: dirlookup_def st1_def split: if_splits)
    with s lk show ?thesis by simp
  next
    case (Some q)
    with run r obtain off inum p where f: "f = Some (p, off)"
      and ig: "iget (i_dev dp') (ucast (inum :: u16)) st1 = Inr (p, st')"
      by (auto simp: dirlookup_def st1_def bindE_eq_Inr split: if_splits prod.splits)
    note ga = iget_acct [OF keepsD(1) [OF s(1)] ig]
    show ?thesis using f ga s(2) lk keeps_trans [OF s(1) ga(1)] by simp
  qed
  then show "keeps st st'" "ilocks st' = ilocks st" "irefs (itable st') k = irefs (itable st) k +
      (case f of None \<Rightarrow> 0 | Some (p, off) \<Rightarrow> ref1 (ikey (itable st' ! p)) k)"
      "case f of None \<Rightarrow> True | Some (p, off) \<Rightarrow> ilive st' p" by blast+
qed

lemma live_positive: "table_ok (itable st) \<Longrightarrow> ilive st i \<Longrightarrow> 0 < irefs (itable st) (ikey (itable st ! i))"
  by (rule itab.live_refs)

lemma lock_unlock: "xs ! i = None \<Longrightarrow> (xs[i := y])[i := None] = xs"
  by (metis list_update_id list_update_overwrite)

lemma list_update_None [simp]: "xs ! i = None \<Longrightarrow> xs[i := None] = xs"
  by (metis list_update_id)

section \<open>What a process owns\<close>

text \<open>The references of everybody else: how many there are to each inode, and where the inode is in the table.\<close>

record others =
  o_refs :: "u32 \<times> u32 \<Rightarrow> int"
  o_at :: "u32 \<times> u32 \<Rightarrow> nat"

definition others_in :: "others \<Rightarrow> 'd kst \<Rightarrow> bool" where
  "others_in base st \<longleftrightarrow> (\<forall>k. 0 \<le> o_refs base k) \<and> (\<forall>k. 0 < o_refs base k \<longrightarrow> ilive st (o_at base k) \<and> ikey (itable st ! o_at base k) = k)"

lemma others_keeps: "others_in base st \<Longrightarrow> keeps st st' \<Longrightarrow> others_in base st'"
  using keepsD(2,3) unfolding others_in_def by metis

text \<open>\<open>owns base M L st\<close>: the table is well formed, \<open>M\<close> is the multiset of references at hand, each an index with
  the inode it stands for, \<open>base\<close> says what everybody else has, and \<open>L\<close> lists the locks.\<close>

definition owns :: "others \<Rightarrow> (nat \<times> u32 \<times> u32) multiset \<Rightarrow> int option list \<Rightarrow> 'd kst \<Rightarrow> bool" where
  "owns base M L st \<longleftrightarrow> table_ok (itable st) \<and> others_in base st \<and>
     (\<forall>p \<in># M. ilive st (fst p) \<and> ikey (itable st ! fst p) = snd p) \<and>
     (\<forall>k. irefs (itable st) k = o_refs base k + int (count (image_mset snd M) k)) \<and> ilocks st = L"

lemma ownsD:
  assumes "owns base M L st"
  shows "table_ok (itable st)" and "(i, k) \<in># M \<Longrightarrow> ilive st i" and "(i, k) \<in># M \<Longrightarrow> ikey (itable st ! i) = k"
    and "ilocks st = L"
  using assms by (auto simp: owns_def)

text \<open>The entry of an inode that is in use.\<close>

definition entry_of :: "'d kst \<Rightarrow> u32 \<times> u32 \<Rightarrow> nat" where
  "entry_of st k = (case find_idx (\<lambda>ip. i_ref ip > 0 \<and> ikey ip = k) (itable st) of None \<Rightarrow> 0 | Some i \<Rightarrow> i)"

lemma live_unique:
  assumes "table_ok (itable st)" "ilive st i" "ilive st j" "ikey (itable st ! i) = ikey (itable st ! j)"
  shows "i = j"
proof -
  have "i < length (itable st)" "j < length (itable st)" "i_ref (itable st ! i) > 0" "i_ref (itable st ! j) > 0"
    "i_dev (itable st ! i) = i_dev (itable st ! j)" "i_inum (itable st ! i) = i_inum (itable st ! j)"
    using assms(2-4) by (simp_all add: ilive_def ikey_def)
  with assms(1) show ?thesis unfolding table_ok_def by blast
qed

lemma entry_of_refs:
  assumes "table_ok (itable st)" "0 < irefs (itable st) k"
  shows "ilive st (entry_of st k) \<and> ikey (itable st ! entry_of st k) = k"
proof (cases "find_idx (\<lambda>ip. i_ref ip > 0 \<and> ikey ip = k) (itable st)")
  case None
  then have "irefs (itable st) k = 0" using irefs_absent [OF assms(1)] by (auto simp: find_idx_None)
  with assms(2) show ?thesis by simp
next
  case (Some i)
  then have "entry_of st k = i" by (simp add: entry_of_def)
  with Some show ?thesis by (simp add: find_idx_Some ilive_def)
qed

text \<open>A reference somebody else holds can be borrowed.\<close>

definition all_but :: "nat \<Rightarrow> 'd kst \<Rightarrow> others" where
  "all_but i st = \<lparr>o_refs = (\<lambda>k. irefs (itable st) k - ref1 (ikey (itable st ! i)) k), o_at = entry_of st\<rparr>"

lemma all_but_refs [simp]: "o_refs (all_but i st) k = irefs (itable st) k - ref1 (ikey (itable st ! i)) k"
  by (simp add: all_but_def)

lemma owns_borrow:
  assumes "table_ok (itable st)" and "ilive st i"
  shows "owns (all_but i st) {#(i, ikey (itable st ! i))#} (ilocks st) st"
proof -
  have "0 < irefs (itable st) (ikey (itable st ! i))" by (rule live_positive [OF assms])
  then have "0 \<le> o_refs (all_but i st) k" for k using irefs_nonneg [OF assms(1), of k] by (simp add: ref1_def)
  moreover have "0 < irefs (itable st) k" if "0 < o_refs (all_but i st) k" for k using that by (simp add: ref1_def split: if_splits)
  then have "0 < o_refs (all_but i st) k \<Longrightarrow> ilive st (o_at (all_but i st) k) \<and> ikey (itable st ! o_at (all_but i st) k) = k" for k
    using entry_of_refs [OF assms(1)] by (simp add: all_but_def)
  ultimately have "others_in (all_but i st) st" by (simp add: others_in_def)
  then show ?thesis using assms by (simp add: owns_def ref1_def)
qed

text \<open>What was in use and did not rest on the borrowed reference alone is where it was.\<close>

lemma owns_stable:
  assumes ok: "table_ok (itable st)" "ilive st i" and own: "owns (all_but i st) M L st'"
    and j: "ilive st j" "j \<noteq> i \<or> 1 < irefs (itable st) (ikey (itable st ! i))"
  shows "ilive st' j \<and> ikey (itable st' ! j) = ikey (itable st ! j)"
proof -
  let ?k = "ikey (itable st ! j)"
  have pos: "0 < irefs (itable st) ?k" by (rule live_positive [OF ok(1) j(1)])
  have "i = j" if "?k = ikey (itable st ! i)" using live_unique [OF ok(1,2) j(1)] that by simp
  with j(2) pos have "0 < o_refs (all_but i st) ?k" by (auto simp: ref1_def)
  moreover have "entry_of st ?k = j" using entry_of_refs [OF ok(1) pos] live_unique [OF ok(1) _ j(1)] by blast
  ultimately show ?thesis using own unfolding owns_def others_in_def by (metis all_but_def others.select_convs(2))
qed

lemma owns_end:
  assumes "owns (all_but i st) {#(i, ikey (itable st ! i))#} L st'"
  shows "irefs (itable st') = irefs (itable st)" and "ikey (itable st' ! i) = ikey (itable st ! i)" and "ilive st' i"
  using assms by (auto simp: owns_def ref1_def fun_eq_iff)

lemma owns_end_stable:
  assumes "table_ok (itable st)" "ilive st i" "owns (all_but i st) (add_mset (i, ikey (itable st ! i)) M) L st'" "ilive st j"
  shows "ilive st' j \<and> ikey (itable st' ! j) = ikey (itable st ! j)"
proof (cases "j = i")
  case True
  then show ?thesis using ownsD(2,3) [OF assms(3), of i "ikey (itable st ! i)"] by simp
qed (use owns_stable [OF assms(1-4)] in simp)

lemma owns_disk: "owns base M L \<lparr>disk = d, itable = itable st\<rparr> \<longleftrightarrow> owns base M L st"
  "owns base M L (st\<lparr>disk := d\<rparr>) \<longleftrightarrow> owns base M L st"
  by (simp_all add: owns_def others_in_def ilive_def ilocks_def)

lemma owns_keeps:
  assumes "owns base M L st" and "keeps st st'" and "irefs (itable st') = irefs (itable st)" and "ilocks st' = L'"
  shows "owns base M L' st'"
  using assms keepsD [OF assms(2)] others_keeps [OF _ assms(2)] by (auto simp: owns_def)

text \<open>Changing fields of an inode other than its identity, count and lock.\<close>

lemma owns_update:
  fixes st st' :: "'d kst"
  assumes "owns base M L st" and "(i, k) \<in># M" and "itable st' = (itable st)[i := x]"
    and "ikey x = ikey (itable st ! i)" "i_ref x = i_ref (itable st ! i)" "i_lock x = i_lock (itable st ! i)"
  shows "owns base M L st'"
proof -
  note o = ownsD [OF assms(1)]
  have l: "ilive st i" using o(2) assms(2) by blast
  have "st' = \<lparr>disk = disk st', itable = (itable st)[i := x]\<rparr>" using assms(3) kst_eta [of st'] by metis
  note s = same_entry [OF o(1) l assms(4,5) this]
  have "ilocks st' = L" using s(3) assms(6) o(4) ilocks_nth [OF l] by (metis list_update_id)
  with owns_keeps [OF assms(1) s(1,2)] show ?thesis by blast
qed

lemma owns_ilock:
  assumes "owns base M L st" and "(i, k) \<in># M" and "ilock B sb me (Some i) st = Inr st'"
  shows "owns base M (L[i := Some me]) st'" and "L ! i = None" and "i < length L"
proof -
  note o = ownsD [OF assms(1)]
  have l: "ilive st i" using o(2) assms(2) by blast
  note a = ilock_acct [OF o(1) l assms(3)]
  show "owns base M (L[i := Some me]) st'" using owns_keeps [OF assms(1) a(1,2)] a(3) o(4) by blast
  show "L ! i = None" using a(4) o(4) by simp
  show "i < length L" using l o(4) by (auto simp: ilive_def ilocks_def)
qed

lemma owns_iunlock:
  assumes "owns base M L st" and "(i, k) \<in># M" and "iunlock me (Some i) st = Inr st'"
  shows "owns base M (L[i := None]) st'"
proof -
  note o = ownsD [OF assms(1)]
  have l: "ilive st i" using o(2) assms(2) by blast
  note a = iunlock_acct [OF o(1) l assms(3)]
  show ?thesis using owns_keeps [OF assms(1) a(1,2)] a(3) o(4) by blast
qed

lemma owns_iget:
  assumes "owns base M L st" and "iget dev inum st = Inr (i, st')"
  shows "owns base (add_mset (i, (dev, inum)) M) L st'" and "ikey (itable st' ! i) = (dev, inum)"
proof -
  note o = ownsD [OF assms(1)]
  note a = iget_acct [OF o(1) assms(2)]
  show "ikey (itable st' ! i) = (dev, inum)" by (rule a(5))
  show "owns base (add_mset (i, (dev, inum)) M) L st'"
    using assms(1) a keepsD [OF a(1)] others_keeps [OF _ a(1)] by (auto simp: owns_def ref1_def)
qed

lemma owns_idup:
  assumes "owns base M L st" and "(i, k) \<in># M"
  shows "owns base (add_mset (i, k) M) L (snd (idup i st))"
proof -
  note o = ownsD [OF assms(1)]
  have l: "ilive st i" "ikey (itable st ! i) = k" using o(2,3) assms(2) by blast+
  note a = idup_acct [OF o(1) l(1)]
  show ?thesis using assms(1) a keepsD [OF a(1)] others_keeps [OF _ a(1)] l by (auto simp: owns_def ref1_def)
qed

lemma owns_iput:
  assumes "owns base (add_mset (i, k) M) L st" and "iput B sb me i st = Inr st'"
  shows "owns base M L st'"
proof -
  note o = ownsD [OF assms(1)]
  have l: "ilive st i" and k: "ikey (itable st ! i) = k" using o(2,3) [of i k] by simp_all
  note a = iput_acct [OF o(1) l assms(2)]
  have refs: "irefs (itable st) x = o_refs base x + int (count (image_mset snd (add_mset (i, k) M)) x)" "0 \<le> o_refs base x" for x
    using assms(1) unfolding owns_def others_in_def by blast+
  have "ilive st' j \<and> ikey (itable st' ! j) = q" if m: "(j, q) \<in># M" for j q
  proof -
    have lj: "ilive st j" and kj: "ikey (itable st ! j) = q" using o(2,3) [of j q] m by simp_all
    have "j \<noteq> i \<or> irefs (itable st) (ikey (itable st ! i)) > 1"
    proof (cases "j = i")
      case True
      with kj k have "q = k" by simp
      with m have "0 < int (count (image_mset snd M) k)" by (metis count_greater_zero_iff imageI of_nat_0_less_iff set_image_mset snd_conv)
      moreover have "irefs (itable st) k = o_refs base k + (1 + int (count (image_mset snd M) k))" using refs(1) [of k] by simp
      ultimately have "1 < irefs (itable st) k" using refs(2) [of k] by linarith
      with k show ?thesis by simp
    qed simp
    with a(4) [OF lj] kj show ?thesis by simp
  qed
  moreover have "ilive st' (o_at base q) \<and> ikey (itable st' ! o_at base q) = q" if b: "0 < o_refs base q" for q
  proof -
    have lq: "ilive st (o_at base q)" and kq: "ikey (itable st ! o_at base q) = q"
      using assms(1) b unfolding owns_def others_in_def by blast+
    have "o_at base q \<noteq> i \<or> irefs (itable st) (ikey (itable st ! i)) > 1" using refs(1) [of k] kq k b by auto
    with a(4) [OF lq] kq show ?thesis by simp
  qed
  then have "others_in base st'" using refs(2) by (simp add: others_in_def)
  ultimately show ?thesis using a refs o(4) k by (auto simp: owns_def ref1_def)
qed

lemma owns_iunlockput:
  assumes "owns base (add_mset (i, k) M) L st" and "iunlockput B sb me i st = Inr st'"
  shows "owns base M (L[i := None]) st'"
proof -
  from assms(2) obtain st1 where "iunlock me (Some i) st = Inr st1" and "iput B sb me i st1 = Inr st'"
    by (auto simp: iunlockput_def bindE_eq_Inr)
  then show ?thesis using owns_iput owns_iunlock [OF assms(1), of i k] by (metis union_single_eq_member)
qed

text \<open>An operation that hands out a reference or \<open>None\<close>.\<close>

definition got :: "'d kst \<Rightarrow> nat option \<Rightarrow> (nat \<times> u32 \<times> u32) multiset \<Rightarrow> (nat \<times> u32 \<times> u32) multiset" where
  "got st r M = (case r of None \<Rightarrow> M | Some j \<Rightarrow> add_mset (j, ikey (itable st ! j)) M)"

lemma got_simps [simp]:
  "got st None M = M"
  "got st (Some j) M = add_mset (j, ikey (itable st ! j)) M"
  by (simp_all add: got_def)

lemma owns_ikey: "owns base (add_mset (i, k) M) L st \<Longrightarrow> ikey (itable st ! i) = k"
  using ownsD(3) [of base "add_mset (i, k) M" L st i k] by simp

lemma owns_dirlookup:
  assumes own: "owns base M L st" and m: "(i, k) \<in># M" and run: "dirlookup B sb i name st = Inr (f, st')"
  shows "owns base (got st' (map_option fst f) M) L st'"
proof -
  note o = ownsD [OF own]
  have l: "ilive st i" using o(2) m by blast
  note a = dirlookup_acct [OF o(1) l run]
  show ?thesis
    using own a keepsD [OF a(1)] others_keeps [OF _ a(1)] by (auto simp: owns_def ref1_def got_def split: option.splits)
qed

lemma owns_namex_loop:
  assumes "namex_loop B sb me np ip path name st = Inr (r, name', st')"
    and "owns base (add_mset (ip, k) M) L st"
  shows "owns base (got st' r M) L st'"
  using assms
proof (induction "length path" arbitrary: ip k path name st rule: less_induct)
  case less
  note unfold = less.prems(1) [unfolded namex_loop.simps [of B sb me np ip path name st]] and own = less.prems(2)
  show ?case
  proof (cases "skipelem path name")
    case None
    show ?thesis
    proof (cases np)
      case True
      with unfold None have "iput B sb me ip st = Inr st'" "r = None" by (auto simp: bindE_eq_Inr)
      with owns_iput [OF own] show ?thesis by simp
    next
      case False
      with unfold None have "r = Some ip" "st' = st" by auto
      with own owns_ikey [OF own] show ?thesis by simp
    qed
  next
    case (Some q)
    obtain path1 name1 where q: "q = (path1, name1)" by force
    from unfold Some q obtain st1 where lk: "ilock B sb me (Some ip) st = Inr st1" by (auto simp: bindE_eq_Inr)
    note own1 = owns_ilock [OF own _ lk, of k, simplified]
    have finish: "owns base M L st2" if "owns base (add_mset (ip, k) M) (L[ip := Some me]) st3"
      and "iunlockput B sb me ip st3 = Inr st2" for st2 st3
      using owns_iunlockput [OF that] own1(2) by simp
    consider "i_type (itable st1 ! ip) \<noteq> T_DIR" | "i_type (itable st1 ! ip) = T_DIR" "np \<and> cbyte path1 = 0"
      | "i_type (itable st1 ! ip) = T_DIR" "\<not> (np \<and> cbyte path1 = 0)" by blast
    then show ?thesis
    proof cases
      case 1
      with unfold Some q lk have "iunlockput B sb me ip st1 = Inr st'" "r = None" by (auto simp: bindE_eq_Inr)
      with finish [OF own1(1)] show ?thesis by simp
    next
      case 2
      with unfold Some q lk have u: "iunlock me (Some ip) st1 = Inr st'" and r: "r = Some ip" by (auto simp: bindE_eq_Inr)
      have "owns base (add_mset (ip, k) M) L st'" using owns_iunlock [OF own1(1) _ u, of k] own1(2) by simp
      with r owns_ikey [OF this] show ?thesis by simp
    next
      case 3
      with unfold Some q lk obtain f st2 where dl: "dirlookup B sb ip name1 st1 = Inr (f, st2)" by (auto simp: bindE_eq_Inr)
      note own2 = owns_dirlookup [OF own1(1) _ dl, of k, simplified]
      show ?thesis
      proof (cases f)
        case None
        with unfold Some q lk 3 dl have "iunlockput B sb me ip st2 = Inr st'" "r = None" by (auto simp: bindE_eq_Inr)
        with finish [of st2 st'] own2 None show ?thesis by simp
      next
        case f: (Some pq)
        obtain nxt off where pq: "pq = (nxt, off)" by force
        from unfold Some q lk 3 dl f pq obtain st3 where up: "iunlockput B sb me ip st2 = Inr st3"
          and rec: "namex_loop B sb me np nxt path1 name1 st3 = Inr (r, name', st')"
          by (auto simp: bindE_eq_Inr)
        define kn where "kn = ikey (itable st2 ! nxt)"
        have "owns base (add_mset (ip, k) (add_mset (nxt, kn) M)) (L[ip := Some me]) st2"
          using own2 f pq by (simp add: kn_def add_mset_commute)
        from owns_iunlockput [OF this up] own1(2) have own3: "owns base (add_mset (nxt, kn) M) L st3" by simp
        have "length path1 < length path" using skipelem_shrinks Some q by blast
        from less.hyps [OF this rec own3] show ?thesis .
      qed
    qed
  qed
qed

lemma owns_namex:
  assumes own: "owns base M L st" and m: "(cwd, k) \<in># M" and run: "namex B sb me cwd path np name st = Inr (r, name', st')"
  shows "owns base (got st' r M) L st'"
proof -
  from run obtain ip st1 where start: "(if cbyte path = SLASH then iget ROOTDEV ROOTINO st else Inr (idup cwd st)) = Inr (ip, st1)"
    and loop: "namex_loop B sb me np ip path name st1 = Inr (r, name', st')"
    by (auto simp: namex_def bindE_eq_Inr)
  have "\<exists>k. owns base (add_mset (ip, k) M) L st1"
  proof (cases "cbyte path = SLASH")
    case True
    with start have "iget ROOTDEV ROOTINO st = Inr (ip, st1)" by simp
    from owns_iget(1) [OF own this] show ?thesis by blast
  next
    case False
    with start have "ip = cwd" "st1 = snd (idup cwd st)" by (auto simp: idup_def)
    with owns_idup [OF own m] show ?thesis by blast
  qed
  with owns_namex_loop [OF loop] show ?thesis by blast
qed

lemma owns_namei:
  assumes "owns base M L st" and "(cwd, k) \<in># M" and "namei B sb me cwd junk path st = Inr (r, st')"
  shows "owns base (got st' r M) L st'"
  using assms(3) owns_namex [OF assms(1,2)] by (auto simp: namei_def bindE_eq_Inr)

lemma owns_nameiparent:
  assumes "owns base M L st" and "(cwd, k) \<in># M" and "nameiparent B sb me cwd path name st = Inr (r, name', st')"
  shows "owns base (got st' r M) L st'"
  using assms(3) owns_namex [OF assms(1,2)] by (auto simp: nameiparent_def)

section \<open>Path resolution leaks nothing\<close>

text \<open>C7: path resolution leaks nothing: whenever \<open>namex\<close> returns, on success and on every failure path, all inode locks
  are as they were, the table is well formed, and the reference counts are those of before, plus one
  reference to the inode it returns when it returns one.\<close>

theorem namex_balanced:
  assumes "table_ok (itable st)" and "ilive st cwd"
    and "namex B sb me cwd path parent name st = Inr (r, name', st')"
  shows "table_ok (itable st') \<and> ilocks st' = ilocks st \<and>
     (case r of None \<Rightarrow> irefs (itable st') = irefs (itable st)
      | Some j \<Rightarrow> ilive st' j \<and> irefs (itable st') =
          (irefs (itable st))(ikey (itable st' ! j) := irefs (itable st) (ikey (itable st' ! j)) + 1))"
proof -
  note own = owns_namex [OF owns_borrow [OF assms(1,2)] union_single_eq_member assms(3)]
  show ?thesis
  proof (cases r)
    case None
    with own have o: "owns (all_but cwd st) {#(cwd, ikey (itable st ! cwd))#} (ilocks st) st'" by simp
    show ?thesis using None ownsD(1,4) [OF o] owns_end(1) [OF o] by simp
  next
    case (Some j)
    with own have o: "owns (all_but cwd st) {#(j, ikey (itable st' ! j)), (cwd, ikey (itable st ! cwd))#} (ilocks st) st'" by simp
    have "irefs (itable st') x = irefs (itable st) x + ref1 (ikey (itable st' ! j)) x" for x
    proof -
      have "irefs (itable st') x = irefs (itable st) x - ref1 (ikey (itable st ! cwd)) x +
        int (count (image_mset snd {#(j, ikey (itable st' ! j)), (cwd, ikey (itable st ! cwd))#}) x)"
        using o unfolding owns_def all_but_refs by blast
      then show ?thesis by (simp add: ref1_def)
    qed
    then have "irefs (itable st') = (irefs (itable st))(ikey (itable st' ! j) := irefs (itable st) (ikey (itable st' ! j)) + 1)"
      by (simp add: fun_eq_iff ref1_def)
    moreover have "ilive st' j" using ownsD(2) [OF o, of j "ikey (itable st' ! j)"] by simp
    ultimately show ?thesis using Some ownsD(1,4) [OF o] by simp
  qed
qed

theorem namex_balanced_witness:
  "\<exists>st'. namex ram_bio ex_sb 7 0 [98, 47] True (replicate 14 0) ex_cwd = Inr (Some 0, 98 # replicate 13 0, st') \<and>
     ilocks st' = [None, Some 7] \<and> irefs (itable st') (ikey (itable st' ! 0)) = irefs (itable ex_cwd) (ikey (itable st' ! 0)) + 1"
proof -
  obtain st' where run: "namex ram_bio ex_sb 7 0 [98, 47] True (replicate 14 0) ex_cwd = Inr (Some 0, 98 # replicate 13 0, st')"
    using ex_parent by (auto simp: nameiparent_def)
  have "ilocks ex_cwd = [None, Some 7]" by (simp add: ilocks_def ex_cwd_def ex_ip_def)
  with namex_balanced [OF ex_cwd_ok run] run show ?thesis by auto
qed

section \<open>Rules for the remaining operations\<close>

text \<open>What every operation on a file keeps of its inode: identity, reference count and lock.\<close>

definition same_ident :: "inode \<Rightarrow> inode \<Rightarrow> bool" where
  "same_ident a b \<longleftrightarrow> ikey b = ikey a \<and> i_ref b = i_ref a \<and> i_lock b = i_lock a"

lemma same_ident_refl [simp]: "same_ident a a"
  by (simp add: same_ident_def)

lemma same_ident_trans: "same_ident a b \<Longrightarrow> same_ident b c \<Longrightarrow> same_ident a c"
  by (simp add: same_ident_def)

lemma addrs_only_same: "addrs_only a b \<Longrightarrow> same_ident a b"
  by (simp add: same_ident_def ikey_def addrs_onlyD)

lemma owns_in_place:
  fixes st st' :: "'d kst"
  assumes "owns base M L st" and "(i, k) \<in># M" and "itable st' = (itable st)[i := x]" and "same_ident (itable st ! i) x"
  shows "owns base M L st'"
  using owns_update [OF assms(1-3)] assms(4) by (simp add: same_ident_def)

lemma writei_loop_ident:
  "writei_loop B sb U user s n tot off src ip d = Inr (r, off', ip', d') \<Longrightarrow> addrs_only ip ip'"
proof (induction "unat (n - tot)" arbitrary: tot off src ip d rule: less_induct)
  case less
  note unfold = writei_loop.simps [of B sb U user s n tot off src ip d]
  show ?case
  proof (cases "tot < n")
    case False
    with less.prems unfold show ?thesis by simp
  next
    case True
    with less.prems unfold obtain a ip1 d1 where b: "bmap B sb ip (off div 1024) d = Inr (a, ip1, d1)"
      by (cases "bmap B sb ip (off div 1024) d") auto
    have s1: "addrs_only ip ip1" by (rule bmap_ident [OF b])
    have m: "unat (n - (tot + rw_len n tot off)) < unat (n - tot)" using True by (simp add: rw_len_bounds)
    from less.prems unfold b True have "addrs_only ip ip' \<or> (\<exists>src' d''. writei_loop B sb U user s n (tot + rw_len n tot off)
        (off + rw_len n tot off) src' ip1 d'' = Inr (r, off', ip', d'))"
      using s1 by (auto simp: Let_def split: if_splits prod.splits)
    with less.hyps [OF m] s1 show ?thesis by (blast intro: addrs_only_trans)
  qed
qed

lemma writei_ident:
  assumes "writei B sb U ip user src off n s d = Inr (r, ip', d')"
  shows "same_ident ip ip'"
proof (cases "off > i_size ip \<or> off + n < off \<or> unat (off + n) > MAXFILE * BSIZE")
  case True
  with assms show ?thesis by (auto simp: writei_def split: if_splits)
next
  case False
  with assms obtain off' ip1 d1 where w: "writei_loop B sb U user s n 0 off src ip d = Inr (r, off', ip1, d1)"
    and ip': "ip' = (if off' > i_size ip1 then ip1\<lparr>i_size := off'\<rparr> else ip1)"
    by (auto simp: writei_def Let_def bindE_eq_Inr)
  have "same_ident ip1 ip'" by (simp add: ip' same_ident_def ikey_def)
  with addrs_only_same [OF writei_loop_ident [OF w]] show ?thesis by (rule same_ident_trans)
qed

lemma dirlink_from_ident:
  "dirlink_from B sb off dp d = Inr (off', dp', d') \<Longrightarrow> addrs_only dp dp'"
proof (induction "unat (i_size dp) - unat off" arbitrary: off dp d rule: less_induct)
  case less
  show ?case
  proof (cases "off < i_size dp")
    case False
    with less.prems show ?thesis by (simp add: dirlink_from.simps [of B sb off])
  next
    case True
    with less.prems obtain de dp1 d1 where rd: "read_dirent B sb dp off d = Inr (16, de, dp1, d1)"
      by (auto simp: dirlink_from.simps [of B sb off] bindE_eq_Inr split: if_splits)
    then have a: "addrs_only dp dp1" by (auto simp: read_dirent_def bindE_eq_Inr dest: readi_ident)
    have m: "unat (i_size dp1) - unat (off + 16) < unat (i_size dp) - unat off"
      using read_dirent_progress [OF rd] True by (simp add: off_progress)
    from less.prems True rd have
      "dirlink_from B sb (off + 16) dp1 d1 = Inr (off', dp', d') \<or> dp' = dp1"
      by (auto simp: dirlink_from.simps [of B sb off] split: if_splits)
    with less.hyps [OF m] a show ?thesis by (blast intro: addrs_only_trans)
  qed
qed

lemma owns_dirlink:
  assumes own: "owns base M L st" and m: "(i, k) \<in># M" and run: "dirlink B sb me i name inum st = Inr (r, st')"
  shows "owns base M L st'"
proof -
  from run obtain f st1 where dl: "dirlookup B sb i name st = Inr (f, st1)" by (auto simp: dirlink_def bindE_eq_Inr)
  note own1 = owns_dirlookup [OF own m dl]
  show ?thesis
  proof (cases f)
    case (Some p)
    with run dl have "iput B sb me (fst p) st1 = Inr st'"
      by (auto simp: dirlink_def bindE_eq_Inr split: prod.splits)
    with owns_iput [OF own1 [unfolded Some option.map got_simps]] show ?thesis by simp
  next
    case None
    with run dl obtain off dp d s r' dp' d' where lf: "dirlink_from B sb 0 (itable st1 ! i) (disk st1) = Inr (off, dp, d)"
      and w: "writei B sb no_uvm dp False 0 off 16 s d = Inr (r', dp', d')"
      and st': "st' = \<lparr>disk = d', itable = (itable st1)[i := dp']\<rparr>"
      by (auto simp: dirlink_def bindE_eq_Inr Let_def split: if_splits)
    have "same_ident (itable st1 ! i) dp'"
      using addrs_only_same [OF dirlink_from_ident [OF lf]] writei_ident [OF w] by (rule same_ident_trans)
    with owns_in_place [OF _ m, of base L st1 st' dp'] own1 None st' show ?thesis by simp
  qed
qed

lemma owns_ialloc_from:
  "ialloc_from B sb dev ty n st = Inr (r, st') \<Longrightarrow> owns base M L st \<Longrightarrow> owns base (got st' r M) L st'"
proof (induction B sb dev ty n st rule: ialloc_from.induct)
  case (1 B sb dev ty inum st)
  note unfold = "1.prems"(1) [unfolded ialloc_from.simps [of B sb dev ty inum]]
  let ?blk = "IBLOCK (of_nat inum) sb" let ?data = "bread B (disk st) dev ?blk"
  show ?case
  proof (cases "inum < unat (sb_ninodes sb) \<and> d_type (get_dinode ?data (inum mod IPB)) = 0")
    case True
    define st0 where "st0 = st\<lparr>disk := log_write B (disk st) dev ?blk (put_dinode ?data (inum mod IPB) (fresh_dinode ty))\<rparr>"
    from unfold True obtain i where g: "iget dev (of_nat inum) st0 = Inr (i, st')" and r: "r = Some i"
      by (auto simp: Let_def bindE_eq_Inr st0_def)
    have "owns base M L st0" using "1.prems"(2) by (simp add: st0_def owns_disk)
    from owns_iget [OF this g] r show ?thesis by simp
  next
    case False
    with unfold "1.IH" [OF _ refl refl] "1.prems"(2) show ?thesis by (auto simp: Let_def split: if_splits)
  qed
qed

lemma owns_ialloc: "owns base M L st \<Longrightarrow> ialloc B sb dev ty st = Inr (r, st') \<Longrightarrow> owns base (got st' r M) L st'"
  using owns_ialloc_from by (auto simp: ialloc_def)

lemma itrunc_same: "itrunc B sb ip d = Inr (ip', d') \<Longrightarrow> same_ident ip ip'"
  by (simp add: same_ident_def ikey_def itrunc_ident itrunc_lock)

end
