(* ===== verification/Sysfile.thy ===== *)
theory Sysfile
  imports Fs_Own
begin

text \<open>
  The file-system calls of \<open>HW4/source/sysfile.c\<close>. A call runs for one process: its descriptor table
  \<open>ofile\<close> and working directory \<open>cwd\<close>, the table of open files, and the file system \<open>kfs\<close>. Arguments have been
  fetched from user space by \<open>argint\<close>, \<open>argaddr\<close> and \<open>argstr\<close>; a string that could not be
  fetched is \<open>None\<close>.

  \<open>begin_op\<close> and \<open>end_op\<close> (\<open>log.c\<close>, not part of the sources) bracket a transaction; they have no
  effect on what \<open>bread\<close> returns, and the state counts the open transactions in \<open>ops\<close>, so that a path that
  forgets one is seen. The operations on open files (\<open>file.c\<close>, \<open>pipe.c\<close>) and \<open>exec\<close> are the parameter \<open>fileops\<close>.
  Local arrays are not initialised; what they hold is an argument named \<open>junk\<close>.
\<close>

section \<open>State\<close>

datatype ftype = FD_NONE | FD_PIPE | FD_INODE | FD_DEVICE

record ofile_t =
  f_type :: ftype
  f_ref :: int
  f_readable :: bool
  f_writable :: bool
  f_pipe :: "nat option"
  f_ip :: nat
  f_off :: u32
  f_major :: u16

record 'd sys =
  kfs :: "'d kst"
  ftable :: "ofile_t list"
  ofile :: "nat option list"
  cwd :: nat
  ops :: nat

text \<open>The operations of \<open>file.c\<close> and \<open>pipe.c\<close> the calls use, where a file is its index in \<open>ftable\<close>, and the two
  constants the assignment added to \<open>stat.h\<close> and \<open>fcntl.h\<close>, which are not part of the sources.\<close>

record 'd fileops =
  filealloc :: "'d sys \<Rightarrow> nat option \<times> 'd sys"
  filedup :: "nat \<Rightarrow> 'd sys \<Rightarrow> 'd sys res"
  fileclose :: "nat \<Rightarrow> 'd sys \<Rightarrow> 'd sys res"
  fileread :: "nat \<Rightarrow> u64 \<Rightarrow> int \<Rightarrow> 'd sys \<Rightarrow> (int \<times> 'd sys) res"
  filewrite :: "nat \<Rightarrow> u64 \<Rightarrow> int \<Rightarrow> 'd sys \<Rightarrow> (int \<times> 'd sys) res"
  filestat :: "nat \<Rightarrow> u64 \<Rightarrow> 'd sys \<Rightarrow> (int \<times> 'd sys) res"
  pipealloc :: "'d sys \<Rightarrow> (nat \<times> nat) option \<times> 'd sys"
  copyout_int :: "u64 \<Rightarrow> int \<Rightarrow> 'd sys \<Rightarrow> int \<times> 'd sys"
  t_symlink :: u16
  o_nofollow :: u32

definition begin_op :: "'d sys \<Rightarrow> 'd sys" where
  "begin_op s = s\<lparr>ops := ops s + 1\<rparr>"

definition end_op :: "'d sys \<Rightarrow> 'd sys" where
  "end_op s = s\<lparr>ops := ops s - 1\<rparr>"

text \<open>Running an operation of the file system inside a system call.\<close>

definition in_fs :: "('d kst \<Rightarrow> ('a \<times> 'd kst) res) \<Rightarrow> 'd sys \<Rightarrow> ('a \<times> 'd sys) res" where
  "in_fs f s = bindE (f (kfs s)) (\<lambda>(x, k). Inr (x, s\<lparr>kfs := k\<rparr>))"

definition in_fs0 :: "('d kst \<Rightarrow> 'd kst res) \<Rightarrow> 'd sys \<Rightarrow> 'd sys res" where
  "in_fs0 f s = bindE (f (kfs s)) (\<lambda>k. Inr (s\<lparr>kfs := k\<rparr>))"

abbreviation the_inode :: "'d sys \<Rightarrow> nat \<Rightarrow> inode" where
  "the_inode s i \<equiv> itable (kfs s) ! i"

text \<open>An assignment to fields of \<open>*ip\<close>, and \<open>iupdate(ip)\<close>.\<close>

definition set_inode :: "nat \<Rightarrow> (inode \<Rightarrow> inode) \<Rightarrow> 'd kst \<Rightarrow> 'd kst" where
  "set_inode i f k = k\<lparr>itable := (itable k)[i := f (itable k ! i)]\<rparr>"

definition iupdate_at :: "'d bio \<Rightarrow> superblock \<Rightarrow> nat \<Rightarrow> 'd kst \<Rightarrow> 'd kst" where
  "iupdate_at B sb i k = k\<lparr>disk := iupdate B sb (itable k ! i) (disk k)\<rparr>"

definition itrunc_at :: "'d bio \<Rightarrow> superblock \<Rightarrow> nat \<Rightarrow> 'd kst \<Rightarrow> 'd kst res" where
  "itrunc_at B sb i k = bindE (itrunc B sb (itable k ! i) (disk k)) (\<lambda>(ip, d). Inr \<lparr>disk = d, itable = (itable k)[i := ip]\<rparr>)"

abbreviation NOFILE :: int where "NOFILE \<equiv> 16"
abbreviation NDEV :: int where "NDEV \<equiv> 10"
abbreviation MAXPATH :: nat where "MAXPATH \<equiv> 128"
abbreviation O_RDONLY :: u32 where "O_RDONLY \<equiv> 0"
abbreviation O_WRONLY :: u32 where "O_WRONLY \<equiv> 1"
abbreviation O_RDWR :: u32 where "O_RDWR \<equiv> 2"
abbreviation O_CREATE :: u32 where "O_CREATE \<equiv> 0x200"
abbreviation O_TRUNC :: u32 where "O_TRUNC \<equiv> 0x400"

section \<open>Descriptors\<close>

definition argfd :: "int \<Rightarrow> 'd sys \<Rightarrow> nat option" where
  "argfd fd s = (if fd < 0 \<or> fd \<ge> NOFILE then None else ofile s ! nat fd)"

fun fdalloc_from :: "nat \<Rightarrow> nat \<Rightarrow> nat option list \<Rightarrow> nat option" where
  "fdalloc_from 0 fd t = None"
| "fdalloc_from (Suc n) fd t = (if t ! fd = None then Some fd else fdalloc_from n (fd + 1) t)"

definition fdalloc :: "nat \<Rightarrow> 'd sys \<Rightarrow> int \<times> 'd sys" where
  "fdalloc f s = (case fdalloc_from (nat NOFILE) 0 (ofile s) of
     None \<Rightarrow> (-1, s)
   | Some fd \<Rightarrow> (int fd, s\<lparr>ofile := (ofile s)[fd := Some f]\<rparr>))"

definition sys_dup :: "'d fileops \<Rightarrow> int \<Rightarrow> 'd sys \<Rightarrow> (int \<times> 'd sys) res" where
  "sys_dup F n s =
     (case argfd n s of None \<Rightarrow> Inr (-1, s)
      | Some f \<Rightarrow> (case fdalloc f s of (fd, s) \<Rightarrow>
          if fd < 0 then Inr (-1, s)
          else bindE (filedup F f s) (\<lambda>s. Inr (fd, s))))"

definition sys_read :: "'d fileops \<Rightarrow> int \<Rightarrow> u64 \<Rightarrow> int \<Rightarrow> 'd sys \<Rightarrow> (int \<times> 'd sys) res" where
  "sys_read F fd p n s = (case argfd fd s of None \<Rightarrow> Inr (-1, s) | Some f \<Rightarrow> fileread F f p n s)"

definition sys_write :: "'d fileops \<Rightarrow> int \<Rightarrow> u64 \<Rightarrow> int \<Rightarrow> 'd sys \<Rightarrow> (int \<times> 'd sys) res" where
  "sys_write F fd p n s = (case argfd fd s of None \<Rightarrow> Inr (-1, s) | Some f \<Rightarrow> filewrite F f p n s)"

definition sys_close :: "'d fileops \<Rightarrow> int \<Rightarrow> 'd sys \<Rightarrow> (int \<times> 'd sys) res" where
  "sys_close F fd s =
     (case argfd fd s of None \<Rightarrow> Inr (-1, s)
      | Some f \<Rightarrow> bindE (fileclose F f (s\<lparr>ofile := (ofile s)[nat fd := None]\<rparr>)) (\<lambda>s. Inr (0, s)))"

definition sys_fstat :: "'d fileops \<Rightarrow> int \<Rightarrow> u64 \<Rightarrow> 'd sys \<Rightarrow> (int \<times> 'd sys) res" where
  "sys_fstat F fd st s = (case argfd fd s of None \<Rightarrow> Inr (-1, s) | Some f \<Rightarrow> filestat F f st s)"

section \<open>link and unlink\<close>

definition sys_link :: "'d bio \<Rightarrow> superblock \<Rightarrow> int \<Rightarrow> u8 list \<Rightarrow> u8 list \<Rightarrow> u8 list option \<Rightarrow> u8 list option \<Rightarrow>
    'd sys \<Rightarrow> (int \<times> 'd sys) res" where
  "sys_link B sb me junk name old new s =
     (case (old, new) of (Some old, Some new) \<Rightarrow>
        let s = begin_op s in
        bindE (in_fs (namei B sb me (cwd s) junk old) s) (\<lambda>(p, s).
        case p of None \<Rightarrow> Inr (-1, end_op s)
        | Some ip \<Rightarrow>
        bindE (in_fs0 (ilock B sb me (Some ip)) s) (\<lambda>s.
        if i_type (the_inode s ip) = T_DIR then
          bindE (in_fs0 (iunlockput B sb me ip) s) (\<lambda>s. Inr (-1, end_op s))
        else
        let s = s\<lparr>kfs := iupdate_at B sb ip (set_inode ip (\<lambda>x. x\<lparr>i_nlink := i_nlink x + 1\<rparr>) (kfs s))\<rparr> in
        bindE (in_fs0 (iunlock me (Some ip)) s) (\<lambda>s.
        let bad = (\<lambda>s.
          bindE (in_fs0 (ilock B sb me (Some ip)) s) (\<lambda>s.
          let s = s\<lparr>kfs := iupdate_at B sb ip (set_inode ip (\<lambda>x. x\<lparr>i_nlink := i_nlink x - 1\<rparr>) (kfs s))\<rparr> in
          bindE (in_fs0 (iunlockput B sb me ip) s) (\<lambda>s. Inr (-1, end_op s)))) in
        bindE (in_fs (\<lambda>k. bindE (nameiparent B sb me (cwd s) new name k) (\<lambda>(dp, name, k). Inr ((dp, name), k))) s)
          (\<lambda>((dp, name), s).
        case dp of None \<Rightarrow> bad s
        | Some dp \<Rightarrow>
        bindE (in_fs0 (ilock B sb me (Some dp)) s) (\<lambda>s.
        bindE (if i_dev (the_inode s dp) \<noteq> i_dev (the_inode s ip) then Inr (-1, s)
               else in_fs (dirlink B sb me dp name (i_inum (the_inode s ip))) s) (\<lambda>(r, s).
        if r < 0 then bindE (in_fs0 (iunlockput B sb me dp) s) bad
        else
        bindE (in_fs0 (iunlockput B sb me dp) s) (\<lambda>s.
        bindE (in_fs0 (iput B sb me ip) s) (\<lambda>s. Inr (0, end_op s)))))))))
      | _ \<Rightarrow> Inr (-1, s))"

text \<open>The loop of \<open>isdirempty\<close>; \<open>ip\<close> is passed by value and returned.\<close>

function isdirempty_from :: "'d bio \<Rightarrow> superblock \<Rightarrow> u32 \<Rightarrow> inode \<Rightarrow> 'd \<Rightarrow> (bool \<times> inode \<times> 'd) res" where
  "isdirempty_from B sb off dp d =
     (if off < i_size dp then
        bindE (read_dirent B sb dp off d) (\<lambda>(r, de, dp, d).
          if r \<noteq> 16 then Inl (Panic ''isdirempty: readi'')
          else if de_inum de \<noteq> 0 then Inr (False, dp, d)
          else isdirempty_from B sb (off + 16) dp d)
      else Inr (True, dp, d))"
  by pat_completeness auto
termination
proof (relation "measure (\<lambda>(B, sb, off, dp, d). unat (i_size dp) - unat off)", goal_cases)
  case 1
  then show ?case by simp
next
  case (2 B sb off dp d x r y de z dp' d')
  then have "read_dirent B sb dp off d = Inr (16, de, dp', d')" by simp
  from read_dirent_progress [OF this] 2(1) show ?case by (simp add: off_progress)
qed

declare isdirempty_from.simps [simp del]

definition isdirempty :: "'d bio \<Rightarrow> superblock \<Rightarrow> nat \<Rightarrow> 'd kst \<Rightarrow> (bool \<times> 'd kst) res" where
  "isdirempty B sb i k =
     bindE (isdirempty_from B sb 32 (itable k ! i) (disk k)) (\<lambda>(r, dp, d).
     Inr (r, \<lparr>disk = d, itable = (itable k)[i := dp]\<rparr>))"

text \<open>\<open>writei\<close> of a structure in kernel memory, here a cleared directory entry, into the inode with index \<open>i\<close>.\<close>

definition write_kernel :: "'d bio \<Rightarrow> superblock \<Rightarrow> nat \<Rightarrow> u8 list \<Rightarrow> u32 \<Rightarrow> u32 \<Rightarrow> 'd kst \<Rightarrow> (u32 \<times> 'd kst) res" where
  "write_kernel B sb i bytes off n k =
     bindE (writei B sb no_uvm (itable k ! i) False 0 off n (kstack\<lparr>kmem := kstore 0 bytes (kmem kstack)\<rparr>) (disk k))
       (\<lambda>(r, ip, d). Inr (r, \<lparr>disk = d, itable = (itable k)[i := ip]\<rparr>))"

text \<open>The end of \<open>sys_unlink\<close>: the entry at \<open>off\<close> is cleared and both inodes are updated and released.\<close>

definition unlink_entry :: "'d bio \<Rightarrow> superblock \<Rightarrow> int \<Rightarrow> nat \<Rightarrow> nat \<Rightarrow> u32 \<Rightarrow> 'd sys \<Rightarrow> (int \<times> 'd sys) res" where
  "unlink_entry B sb me dp ip off s =
     bindE (in_fs (write_kernel B sb dp (replicate 16 0) off 16) s) (\<lambda>(r, s).
     if r \<noteq> 16 then Inl (Panic ''unlink: writei'')
     else
     let s = (if i_type (the_inode s ip) = T_DIR
              then s\<lparr>kfs := iupdate_at B sb dp (set_inode dp (\<lambda>x. x\<lparr>i_nlink := i_nlink x - 1\<rparr>) (kfs s))\<rparr> else s) in
     bindE (in_fs0 (iunlockput B sb me dp) s) (\<lambda>s.
     let s = s\<lparr>kfs := iupdate_at B sb ip (set_inode ip (\<lambda>x. x\<lparr>i_nlink := i_nlink x - 1\<rparr>) (kfs s))\<rparr> in
     bindE (in_fs0 (iunlockput B sb me ip) s) (\<lambda>s. Inr (0, end_op s))))"

definition sys_unlink :: "'d bio \<Rightarrow> superblock \<Rightarrow> int \<Rightarrow> u8 list \<Rightarrow> u8 list option \<Rightarrow> 'd sys \<Rightarrow> (int \<times> 'd sys) res" where
  "sys_unlink B sb me name path s =
     (case path of None \<Rightarrow> Inr (-1, s)
      | Some path \<Rightarrow>
        let s = begin_op s in
        bindE (in_fs (\<lambda>k. bindE (nameiparent B sb me (cwd s) path name k) (\<lambda>(dp, name, k). Inr ((dp, name), k))) s)
          (\<lambda>((dp, name), s).
        case dp of None \<Rightarrow> Inr (-1, end_op s)
        | Some dp \<Rightarrow>
        bindE (in_fs0 (ilock B sb me (Some dp)) s) (\<lambda>s.
        let bad = (\<lambda>s. bindE (in_fs0 (iunlockput B sb me dp) s) (\<lambda>s. Inr (-1, end_op s))) in
        if namecmp name [46] = 0 \<or> namecmp name [46, 46] = 0 then bad s
        else
        bindE (in_fs (dirlookup B sb dp name) s) (\<lambda>(f, s).
        case f of None \<Rightarrow> bad s
        | Some (ip, off) \<Rightarrow>
        bindE (in_fs0 (ilock B sb me (Some ip)) s) (\<lambda>s.
        if sint (i_nlink (the_inode s ip)) < 1 then Inl (Panic ''unlink: nlink < 1'')
        else
        bindE (if i_type (the_inode s ip) = T_DIR then in_fs (isdirempty B sb ip) s else Inr (True, s)) (\<lambda>(e, s).
        if \<not> e then bindE (in_fs0 (iunlockput B sb me ip) s) bad
        else
        unlink_entry B sb me dp ip off s))))))"

section \<open>create, open and the calls that make inodes\<close>

text \<open>The entries \<open>.\<close> and \<open>..\<close> of a new directory (whether making them failed), and the label \<open>fail\<close> of \<open>create\<close>.\<close>

definition create_dots :: "'d bio \<Rightarrow> superblock \<Rightarrow> int \<Rightarrow> u16 \<Rightarrow> nat \<Rightarrow> nat \<Rightarrow> 'd kst \<Rightarrow> (bool \<times> 'd kst) res" where
  "create_dots B sb me ty ip dp k =
     (if ty = T_DIR then
        bindE (dirlink B sb me ip [46] (i_inum (itable k ! ip)) k) (\<lambda>(r, k).
        if r < 0 then Inr (True, k)
        else bindE (dirlink B sb me ip [46, 46] (i_inum (itable k ! dp)) k) (\<lambda>(r, k). Inr (r < 0, k)))
      else Inr (False, k))"

definition create_fail :: "'d bio \<Rightarrow> superblock \<Rightarrow> int \<Rightarrow> nat \<Rightarrow> nat \<Rightarrow> 'd kst \<Rightarrow> (nat option \<times> 'd kst) res" where
  "create_fail B sb me ip dp k =
     (let k = iupdate_at B sb ip (set_inode ip (\<lambda>x. x\<lparr>i_nlink := 0\<rparr>) k) in
      bindE (iunlockput B sb me ip k) (\<lambda>k.
      bindE (iunlockput B sb me dp k) (\<lambda>k. Inr (None, k))))"

definition create :: "'d bio \<Rightarrow> superblock \<Rightarrow> int \<Rightarrow> nat \<Rightarrow> u8 list \<Rightarrow> u8 list \<Rightarrow> u16 \<Rightarrow> u16 \<Rightarrow> u16 \<Rightarrow>
    'd kst \<Rightarrow> (nat option \<times> 'd kst) res" where
  "create B sb me wd name path ty major minor k =
     bindE (nameiparent B sb me wd path name k) (\<lambda>(p, name, k).
     case p of None \<Rightarrow> Inr (None, k)
     | Some dp \<Rightarrow>
     bindE (ilock B sb me (Some dp) k) (\<lambda>k.
     bindE (dirlookup B sb dp name k) (\<lambda>(f, k).
     case f of Some (ip, off) \<Rightarrow>
       bindE (iunlockput B sb me dp k) (\<lambda>k.
       bindE (ilock B sb me (Some ip) k) (\<lambda>k.
       if ty = T_FILE \<and> (i_type (itable k ! ip) = T_FILE \<or> i_type (itable k ! ip) = T_DEVICE) then Inr (Some ip, k)
       else bindE (iunlockput B sb me ip k) (\<lambda>k. Inr (None, k))))
     | None \<Rightarrow>
     bindE (ialloc B sb (i_dev (itable k ! dp)) ty k) (\<lambda>(p, k).
     case p of None \<Rightarrow> bindE (iunlockput B sb me dp k) (\<lambda>k. Inr (None, k))
     | Some ip \<Rightarrow>
     bindE (ilock B sb me (Some ip) k) (\<lambda>k.
     let k = iupdate_at B sb ip (set_inode ip (\<lambda>x. x\<lparr>i_major := major, i_minor := minor, i_nlink := 1\<rparr>) k) in
     bindE (create_dots B sb me ty ip dp k) (\<lambda>(bad, k).
     if bad then create_fail B sb me ip dp k
     else
     bindE (dirlink B sb me dp name (i_inum (itable k ! ip)) k) (\<lambda>(r, k).
     if r < 0 then create_fail B sb me ip dp k
     else
     let k = (if ty = T_DIR then iupdate_at B sb dp (set_inode dp (\<lambda>x. x\<lparr>i_nlink := i_nlink x + 1\<rparr>) k) else k) in
     bindE (iunlockput B sb me dp k) (\<lambda>k. Inr (Some ip, k)))))))))"

text \<open>\<open>readi\<close> of the first \<open>n\<close> bytes into a local array: the count and the bytes.\<close>

definition read_kernel :: "'d bio \<Rightarrow> superblock \<Rightarrow> nat \<Rightarrow> u32 \<Rightarrow> 'd kst \<Rightarrow> ((u32 \<times> u8 list) \<times> 'd kst) res" where
  "read_kernel B sb i n k =
     bindE (readi B sb no_uvm (itable k ! i) False 0 0 n (disk k) kstack) (\<lambda>(r, ip, d, s).
     Inr ((r, kload (kmem s) 0 (unat r)), \<lparr>disk = d, itable = (itable k)[i := ip]\<rparr>))"

text \<open>The path in \<open>char target[MAXPATH]\<close> after \<open>n\<close> bytes were read into it over the old content \<open>junk\<close>; a
  content without a terminator is undefined.\<close>

definition target_path :: "u8 list \<Rightarrow> u8 list \<Rightarrow> u8 list res" where
  "target_path bytes junk =
     (let buf = bytes @ drop (length bytes) (take MAXPATH junk) in
      if 0 \<notin> set buf then Inl (Undefined ''target'') else Inr (cstr buf))"

text \<open>Following one link, the body of the loop of \<open>sys_open\<close>: \<open>None\<close> where the call has failed, otherwise the inode that the link
  leads to, locked.\<close>

definition follow_link :: "'d bio \<Rightarrow> superblock \<Rightarrow> int \<Rightarrow> nat \<Rightarrow> u8 list \<Rightarrow> u8 list \<Rightarrow> nat \<Rightarrow> 'd kst \<Rightarrow> (nat option \<times> 'd kst) res" where
  "follow_link B sb me wd name junk ip k =
     bindE (read_kernel B sb ip (i_size (itable k ! ip)) k) (\<lambda>((r, bytes), k).
     if unat r > MAXPATH then Inl (Undefined ''target'')
     else if r \<noteq> i_size (itable k ! ip) then bindE (iunlockput B sb me ip k) (\<lambda>k. Inr (None, k))
     else
     bindE (iunlockput B sb me ip k) (\<lambda>k.
     bindE (target_path bytes junk) (\<lambda>target.
     bindE (namei B sb me wd name target k) (\<lambda>(p, k).
     case p of None \<Rightarrow> Inr (None, k)
     | Some ip \<Rightarrow> bindE (ilock B sb me (Some ip) k) (\<lambda>k. Inr (Some ip, k))))))"

text \<open>The loop: the locked inode at its end and the number of links that led to a link.\<close>

function follow :: "'d bio \<Rightarrow> superblock \<Rightarrow> int \<Rightarrow> nat \<Rightarrow> (nat \<Rightarrow> u8 list) \<Rightarrow> (nat \<Rightarrow> u8 list) \<Rightarrow> u16 \<Rightarrow> bool \<Rightarrow>
    nat \<Rightarrow> nat \<Rightarrow> 'd kst \<Rightarrow> ((nat \<times> nat) option \<times> 'd kst) res" where
  "follow B sb me wd locals junk symlink nofollow retry ip k =
     (if i_type (itable k ! ip) = symlink \<and> \<not> nofollow \<and> retry < 10 then
        bindE (follow_link B sb me wd (locals retry) (junk retry) ip k) (\<lambda>(p, k).
        case p of None \<Rightarrow> Inr (None, k)
        | Some ip \<Rightarrow>
          if i_type (itable k ! ip) = symlink then follow B sb me wd locals junk symlink nofollow (retry + 1) ip k
          else Inr (Some (ip, retry), k))
      else Inr (Some (ip, retry), k))"
  by pat_completeness auto
termination
  by (relation "measure (\<lambda>(B, sb, me, wd, locals, junk, symlink, nofollow, retry, ip, k). 10 - retry)") auto

declare follow.simps [simp del]

text \<open>The three parts of \<open>sys_open\<close>: finding or making the inode, following links (above), and the open file.\<close>

definition open_inode :: "'d bio \<Rightarrow> superblock \<Rightarrow> int \<Rightarrow> u8 list \<Rightarrow> u8 list \<Rightarrow> u32 \<Rightarrow> 'd sys \<Rightarrow> (nat option \<times> 'd sys) res" where
  "open_inode B sb me name path omode s =
     (if omode AND O_CREATE \<noteq> 0 then in_fs (create B sb me (cwd s) name path T_FILE 0 0) s
      else
        bindE (in_fs (namei B sb me (cwd s) name path) s) (\<lambda>(p, s).
        case p of None \<Rightarrow> Inr (None, s)
        | Some ip \<Rightarrow>
        bindE (in_fs0 (ilock B sb me (Some ip)) s) (\<lambda>s.
        if i_type (the_inode s ip) = T_DIR \<and> omode \<noteq> O_RDONLY then
          bindE (in_fs0 (iunlockput B sb me ip) s) (\<lambda>s. Inr (None, s))
        else Inr (Some ip, s))))"

definition init_file :: "nat \<Rightarrow> inode \<Rightarrow> u32 \<Rightarrow> ofile_t \<Rightarrow> ofile_t" where
  "init_file i ip omode x =
     (let x = (if i_type ip = T_DEVICE then x\<lparr>f_type := FD_DEVICE, f_major := i_major ip\<rparr>
               else x\<lparr>f_type := FD_INODE, f_off := 0\<rparr>) in
      x\<lparr>f_ip := i, f_readable := (omode AND O_WRONLY = 0),
        f_writable := (omode AND O_WRONLY \<noteq> 0 \<or> omode AND O_RDWR \<noteq> 0)\<rparr>)"

definition open_file :: "'d fileops \<Rightarrow> 'd bio \<Rightarrow> superblock \<Rightarrow> int \<Rightarrow> nat \<Rightarrow> u32 \<Rightarrow> 'd sys \<Rightarrow> (int \<times> 'd sys) res" where
  "open_file F B sb me ip omode s =
     (let bad = (\<lambda>s. bindE (in_fs0 (iunlockput B sb me ip) s) (\<lambda>s. Inr (-1, end_op s))) in
      if i_type (the_inode s ip) = T_DEVICE \<and>
          (sint (i_major (the_inode s ip)) < 0 \<or> sint (i_major (the_inode s ip)) \<ge> NDEV) then bad s
      else
      case filealloc F s of
        (None, s) \<Rightarrow> bad s
      | (Some f, s) \<Rightarrow>
      case fdalloc f s of (fd, s) \<Rightarrow>
      if fd < 0 then bindE (fileclose F f s) bad
      else
      let s = s\<lparr>ftable := (ftable s)[f := init_file ip (the_inode s ip) omode (ftable s ! f)]\<rparr> in
      bindE (if omode AND O_TRUNC \<noteq> 0 \<and> i_type (the_inode s ip) = T_FILE then in_fs0 (itrunc_at B sb ip) s
             else Inr s) (\<lambda>s.
      bindE (in_fs0 (iunlock me (Some ip)) s) (\<lambda>s. Inr (fd, end_op s))))"

definition sys_open :: "'d fileops \<Rightarrow> 'd bio \<Rightarrow> superblock \<Rightarrow> int \<Rightarrow> (nat \<Rightarrow> u8 list) \<Rightarrow> (nat \<Rightarrow> u8 list) \<Rightarrow>
    u8 list option \<Rightarrow> u32 \<Rightarrow> 'd sys \<Rightarrow> (int \<times> 'd sys) res" where
  "sys_open F B sb me locals junk path omode s =
     (case path of None \<Rightarrow> Inr (-1, s)
      | Some path \<Rightarrow>
        bindE (open_inode B sb me (locals 10) path omode (begin_op s)) (\<lambda>(p, s).
        case p of None \<Rightarrow> Inr (-1, end_op s)
        | Some ip \<Rightarrow>
        bindE (in_fs (follow B sb me (cwd s) locals junk (t_symlink F) (omode AND o_nofollow F \<noteq> 0) 0 ip) s) (\<lambda>(p, s).
        case p of None \<Rightarrow> Inr (-1, end_op s)
        | Some (ip, retry) \<Rightarrow>
        if retry \<ge> 10 then bindE (in_fs0 (iunlockput B sb me ip) s) (\<lambda>s. Inr (-1, end_op s))
        else open_file F B sb me ip omode s)))"

definition sys_mkdir :: "'d bio \<Rightarrow> superblock \<Rightarrow> int \<Rightarrow> u8 list \<Rightarrow> u8 list option \<Rightarrow> 'd sys \<Rightarrow> (int \<times> 'd sys) res" where
  "sys_mkdir B sb me name path s =
     (let s = begin_op s in
      case path of None \<Rightarrow> Inr (-1, end_op s)
      | Some path \<Rightarrow>
        bindE (in_fs (create B sb me (cwd s) name path T_DIR 0 0) s) (\<lambda>(p, s).
        case p of None \<Rightarrow> Inr (-1, end_op s)
        | Some ip \<Rightarrow> bindE (in_fs0 (iunlockput B sb me ip) s) (\<lambda>s. Inr (0, end_op s))))"

text \<open>The device numbers are \<open>int\<close>s, passed on as \<open>short\<close>s.\<close>

definition sys_mknod :: "'d bio \<Rightarrow> superblock \<Rightarrow> int \<Rightarrow> u8 list \<Rightarrow> u8 list option \<Rightarrow> u32 \<Rightarrow> u32 \<Rightarrow> 'd sys \<Rightarrow>
    (int \<times> 'd sys) res" where
  "sys_mknod B sb me name path major minor s =
     (let s = begin_op s in
      case path of None \<Rightarrow> Inr (-1, end_op s)
      | Some path \<Rightarrow>
        bindE (in_fs (create B sb me (cwd s) name path T_DEVICE (ucast major) (ucast minor)) s) (\<lambda>(p, s).
        case p of None \<Rightarrow> Inr (-1, end_op s)
        | Some ip \<Rightarrow> bindE (in_fs0 (iunlockput B sb me ip) s) (\<lambda>s. Inr (0, end_op s))))"

definition sys_chdir :: "'d bio \<Rightarrow> superblock \<Rightarrow> int \<Rightarrow> u8 list \<Rightarrow> u8 list option \<Rightarrow> 'd sys \<Rightarrow> (int \<times> 'd sys) res" where
  "sys_chdir B sb me name path s =
     (let s = begin_op s in
      case path of None \<Rightarrow> Inr (-1, end_op s)
      | Some path \<Rightarrow>
        bindE (in_fs (namei B sb me (cwd s) name path) s) (\<lambda>(p, s).
        case p of None \<Rightarrow> Inr (-1, end_op s)
        | Some ip \<Rightarrow>
        bindE (in_fs0 (ilock B sb me (Some ip)) s) (\<lambda>s.
        if i_type (the_inode s ip) \<noteq> T_DIR then
          bindE (in_fs0 (iunlockput B sb me ip) s) (\<lambda>s. Inr (-1, end_op s))
        else
        bindE (in_fs0 (iunlock me (Some ip)) s) (\<lambda>s.
        bindE (in_fs0 (iput B sb me (cwd s)) s) (\<lambda>s. Inr (0, (end_op s)\<lparr>cwd := ip\<rparr>))))))"

definition sys_symlink :: "'d fileops \<Rightarrow> 'd bio \<Rightarrow> superblock \<Rightarrow> int \<Rightarrow> u8 list \<Rightarrow> u8 list option \<Rightarrow> u8 list option \<Rightarrow>
    'd sys \<Rightarrow> (int \<times> 'd sys) res" where
  "sys_symlink F B sb me name target path s =
     (let s = begin_op s in
      case (target, path) of (Some target, Some path) \<Rightarrow>
        bindE (in_fs (create B sb me (cwd s) name path (t_symlink F) 0 0) s) (\<lambda>(p, s).
        case p of None \<Rightarrow> Inr (-1, end_op s)
        | Some ip \<Rightarrow>
        let len = of_nat (length (cstr target)) + 1 in
        bindE (in_fs (write_kernel B sb ip (cstr target @ [0]) 0 len) s) (\<lambda>(r, s).
        if r \<noteq> len then bindE (in_fs0 (iunlockput B sb me ip) s) (\<lambda>s. Inr (-1, end_op s))
        else
        let s = s\<lparr>kfs := iupdate_at B sb ip (set_inode ip (\<lambda>x. x\<lparr>i_size := of_nat (length (cstr target))\<rparr>) (kfs s))\<rparr> in
        bindE (in_fs0 (iunlockput B sb me ip) s) (\<lambda>s. Inr (0, end_op s))))
      | _ \<Rightarrow> Inr (-1, end_op s))"

section \<open>exec and pipe\<close>

text \<open>What \<open>sys_exec\<close> uses of the rest of the kernel: \<open>fetchaddr\<close> and \<open>fetchstr\<close> (\<open>syscall.c\<close>), the page allocator
  (\<open>kalloc.c\<close>, where 0 means that no page is free) and \<open>exec\<close> itself.\<close>

record 'x execops =
  fetchaddr :: "u64 \<Rightarrow> 'x \<Rightarrow> u64 option"
  fetchstr :: "u64 \<Rightarrow> u64 \<Rightarrow> nat \<Rightarrow> 'x \<Rightarrow> int \<times> 'x"
  kalloc :: "'x \<Rightarrow> u64 \<times> 'x"
  kfree :: "u64 \<Rightarrow> 'x \<Rightarrow> 'x"
  do_exec :: "u8 list \<Rightarrow> u64 list \<Rightarrow> 'x \<Rightarrow> int \<times> 'x"

abbreviation MAXARG :: nat where "MAXARG \<equiv> 32"

text \<open>The argument loop from index \<open>i\<close>: whether it ended at a null pointer, and \<open>argv\<close>.\<close>

function exec_args :: "'x execops \<Rightarrow> u64 \<Rightarrow> nat \<Rightarrow> u64 list \<Rightarrow> 'x \<Rightarrow> bool \<times> u64 list \<times> 'x" where
  "exec_args X uargv i argv x =
     (if i \<ge> MAXARG then (False, argv, x)
      else case fetchaddr X (uargv + 8 * of_nat i) x of
        None \<Rightarrow> (False, argv, x)
      | Some uarg \<Rightarrow>
          if uarg = 0 then (True, argv[i := 0], x)
          else case kalloc X x of (page, x) \<Rightarrow>
            let argv = argv[i := page] in
            if page = 0 then (False, argv, x)
            else case fetchstr X uarg page 4096 x of (r, x) \<Rightarrow>
              if r < 0 then (False, argv, x) else exec_args X uargv (i + 1) argv x)"
  by pat_completeness auto
termination
  by (relation "measure (\<lambda>(X, uargv, i, argv, x). MAXARG - i)") auto

declare exec_args.simps [simp del]

fun free_args :: "'x execops \<Rightarrow> u64 list \<Rightarrow> 'x \<Rightarrow> 'x" where
  "free_args X [] x = x"
| "free_args X (a # as) x = (if a \<noteq> 0 then free_args X as (kfree X a x) else x)"

definition sys_exec :: "'x execops \<Rightarrow> u8 list option \<Rightarrow> u64 \<Rightarrow> 'x \<Rightarrow> int \<times> 'x" where
  "sys_exec X path uargv x =
     (case path of None \<Rightarrow> (-1, x)
      | Some path \<Rightarrow>
        (case exec_args X uargv 0 (replicate MAXARG 0) x of (ok, argv, x) \<Rightarrow>
           if ok then case do_exec X path argv x of (ret, x) \<Rightarrow> (ret, free_args X argv x)
           else (-1, free_args X argv x)))"

definition sys_pipe :: "'d fileops \<Rightarrow> u64 \<Rightarrow> 'd sys \<Rightarrow> (int \<times> 'd sys) res" where
  "sys_pipe F fdarray s =
     (case pipealloc F s of
        (None, s) \<Rightarrow> Inr (-1, s)
      | (Some (rfile, wfile), s) \<Rightarrow>
        let close2 = (\<lambda>s. bindE (fileclose F rfile s) (\<lambda>s. bindE (fileclose F wfile s) (\<lambda>s. Inr (-1, s)))) in
        case fdalloc rfile s of (fd0, s) \<Rightarrow>
        if fd0 < 0 then close2 s
        else case fdalloc wfile s of (fd1, s) \<Rightarrow>
        if fd1 < 0 then close2 (s\<lparr>ofile := (ofile s)[nat fd0 := None]\<rparr>)
        else
        let undo = (\<lambda>s. close2 (s\<lparr>ofile := ((ofile s)[nat fd0 := None])[nat fd1 := None]\<rparr>)) in
        case copyout_int F fdarray fd0 s of (r, s) \<Rightarrow>
        if r < 0 then undo s
        else case copyout_int F (fdarray + 4) fd1 s of (r, s) \<Rightarrow>
        if r < 0 then undo s else Inr (0, s))"

section \<open>References and locks in a call\<close>

lemma in_fs_eq: "in_fs f s = Inr (x, s') \<longleftrightarrow> (\<exists>k. f (kfs s) = Inr (x, k) \<and> s' = s\<lparr>kfs := k\<rparr>)"
  by (auto simp: in_fs_def bindE_eq_Inr)

lemma in_fs0_eq: "in_fs0 f s = Inr s' \<longleftrightarrow> (\<exists>k. f (kfs s) = Inr k \<and> s' = s\<lparr>kfs := k\<rparr>)"
  by (auto simp: in_fs0_def bindE_eq_Inr)

lemmas call_simps = bindE_eq_Inr in_fs_eq in_fs0_eq Let_def

lemma in_op_simps [simp]:
  "kfs (begin_op s) = kfs s" "kfs (end_op s) = kfs s" "ops (begin_op s) = ops s + 1" "ops (end_op s) = ops s - 1"
  "cwd (begin_op s) = cwd s" "cwd (end_op s) = cwd s" "ofile (begin_op s) = ofile s" "ofile (end_op s) = ofile s"
  "ftable (begin_op s) = ftable s" "ftable (end_op s) = ftable s"
  by (simp_all add: begin_op_def end_op_def)

lemma owns_fields:
  fixes f :: "inode \<Rightarrow> inode"
  assumes "owns base M L k" and "(i, q) \<in># M" and "\<And>x. same_ident x (f x)"
  shows "owns base M L (iupdate_at B sb i (set_inode i f k))"
proof -
  have "owns base M L (set_inode i f k)"
    by (rule owns_in_place [OF assms(1,2), of _ "f (itable k ! i)"]) (simp_all add: set_inode_def assms(3))
  then show ?thesis by (simp add: iupdate_at_def owns_disk)
qed

lemma same_fields [simp]:
  "same_ident x (x\<lparr>i_nlink := a\<rparr>)" "same_ident x (x\<lparr>i_size := z\<rparr>)"
  "same_ident x (x\<lparr>i_major := b, i_minor := c, i_nlink := a\<rparr>)"
  by (simp_all add: same_ident_def ikey_def)

lemma isdirempty_from_ident:
  "isdirempty_from B sb off dp d = Inr (r, dp', d') \<Longrightarrow> addrs_only dp dp'"
proof (induction "unat (i_size dp) - unat off" arbitrary: off dp d rule: less_induct)
  case less
  show ?case
  proof (cases "off < i_size dp")
    case False
    with less.prems show ?thesis by (simp add: isdirempty_from.simps [of B sb off])
  next
    case True
    with less.prems obtain de dp1 d1 where rd: "read_dirent B sb dp off d = Inr (16, de, dp1, d1)"
      by (auto simp: isdirempty_from.simps [of B sb off] bindE_eq_Inr split: if_splits)
    then have a: "addrs_only dp dp1" by (auto simp: read_dirent_def bindE_eq_Inr dest: readi_ident)
    have m: "unat (i_size dp1) - unat (off + 16) < unat (i_size dp) - unat off"
      using read_dirent_progress [OF rd] True by (simp add: off_progress)
    from less.prems True rd have
      "isdirempty_from B sb (off + 16) dp1 d1 = Inr (r, dp', d') \<or> dp' = dp1"
      by (auto simp: isdirempty_from.simps [of B sb off] split: if_splits)
    with less.hyps [OF m] a show ?thesis by (blast intro: addrs_only_trans)
  qed
qed

lemma owns_isdirempty:
  assumes "owns base M L k" and "(i, q) \<in># M" and "isdirempty B sb i k = Inr (r, k')"
  shows "owns base M L k'"
proof -
  from assms(3) obtain dp d where "isdirempty_from B sb 32 (itable k ! i) (disk k) = Inr (r, dp, d)"
    and "k' = \<lparr>disk = d, itable = (itable k)[i := dp]\<rparr>" by (auto simp: isdirempty_def bindE_eq_Inr)
  with owns_in_place [OF assms(1,2), of k' dp] show ?thesis by (auto dest!: isdirempty_from_ident addrs_only_same)
qed

lemma owns_write_kernel:
  assumes "owns base M L k" and "(i, q) \<in># M" and "write_kernel B sb i bytes off n k = Inr (r, k')"
  shows "owns base M L k'"
  using assms(3) owns_in_place [OF assms(1,2)] by (auto simp: write_kernel_def bindE_eq_Inr dest!: writei_ident)

lemma owns_read_kernel:
  assumes "owns base M L k" and "(i, q) \<in># M" and "read_kernel B sb i n k = Inr (r, k')"
  shows "owns base M L k'"
  using assms(3) owns_in_place [OF assms(1,2)]
  by (auto simp: read_kernel_def bindE_eq_Inr dest!: readi_ident addrs_only_same)

lemma owns_itrunc_at:
  assumes "owns base M L k" and "(i, q) \<in># M" and "itrunc_at B sb i k = Inr k'"
  shows "owns base M L k'"
  using assms(3) owns_in_place [OF assms(1,2)] by (auto simp: itrunc_at_def bindE_eq_Inr dest!: itrunc_same)

text \<open>Two inodes locked one after the other and released in either order.\<close>

lemma locks_back:
  assumes "L ! i = None" and "L[i := Some me] ! j = None" and "i < length L" "j < length L"
  shows "L[i := Some me, j := Some me, i := None, j := None] = L"
    and "L[i := Some me, j := Some me, j := None, i := None] = L"
    and "L[i := Some me, j := Some me, i := None] = L[j := Some me]" and "L ! j = None"
proof -
  have "i \<noteq> j" using assms by auto
  with assms show "L[i := Some me, j := Some me, i := None, j := None] = L"
    "L[i := Some me, j := Some me, j := None, i := None] = L"
    "L[i := Some me, j := Some me, i := None] = L[j := Some me]" "L ! j = None"
    by (auto simp: list_update_swap)
qed

lemma owns_create_dots:
  assumes "owns base M L k" and "(ip, ki) \<in># M" and "create_dots B sb me ty ip dp k = Inr (r, k')"
  shows "owns base M L k'"
proof -
  note dl = owns_dirlink [OF _ assms(2)]
  from assms(3) consider "k' = k" | a k1 where "dirlink B sb me ip [46] (i_inum (itable k ! ip)) k = Inr (a, k1)"
      "k' = k1 \<or> (\<exists>a'. dirlink B sb me ip [46, 46] (i_inum (itable k1 ! dp)) k1 = Inr (a', k'))"
    by (auto simp: create_dots_def bindE_eq_Inr split: if_splits)
  then show ?thesis
  proof cases
    case 2
    from dl [OF assms(1) 2(1)] have "owns base M L k1" .
    with 2(2) dl show ?thesis by blast
  qed (use assms(1) in simp)
qed

lemma owns_create_fail:
  assumes "owns base (add_mset (ip, ki) (add_mset (dp, kd) M)) L k" and "create_fail B sb me ip dp k = Inr (r, k')"
  shows "r = None" and "owns base M (L[ip := None, dp := None]) k'"
proof -
  let ?k = "iupdate_at B sb ip (set_inode ip (\<lambda>x. x\<lparr>i_nlink := 0\<rparr>) k)"
  from assms(2) obtain k1 where r: "r = None" and up: "iunlockput B sb me ip ?k = Inr k1" "iunlockput B sb me dp k1 = Inr k'"
    by (auto simp: create_fail_def call_simps)
  have "owns base (add_mset (ip, ki) (add_mset (dp, kd) M)) L ?k" by (rule owns_fields [OF assms(1), of ip ki]) simp_all
  from owns_iunlockput [OF owns_iunlockput [OF this up(1)] up(2)] show "owns base M (L[ip := None, dp := None]) k'" .
  show "r = None" by (rule r)
qed

text \<open>The second half of \<open>create\<close>: the inode \<open>ip\<close> has just been allocated and both inodes are locked.\<close>

lemma owns_create_new:
  assumes own: "owns base (add_mset (ip, ki) (add_mset (dp, kd) M)) (L[dp := Some me, ip := Some me]) k"
    and free: "L ! dp = None" "L[dp := Some me] ! ip = None" "dp < length L" "ip < length L"
    and dots: "create_dots B sb me ty ip dp k = Inr (bad, k1)"
    and rest: "(if bad then create_fail B sb me ip dp k1 else
      bindE (dirlink B sb me dp name (i_inum (itable k1 ! ip)) k1) (\<lambda>(r, k).
      if r < 0 then create_fail B sb me ip dp k
      else
      bindE (iunlockput B sb me dp (if ty = T_DIR then iupdate_at B sb dp (set_inode dp (\<lambda>x. x\<lparr>i_nlink := i_nlink x + 1\<rparr>) k) else k))
        (\<lambda>k. Inr (Some ip, k)))) = Inr (r, k')"
  shows "owns base (got k' r M) (case r of None \<Rightarrow> L | Some ip \<Rightarrow> L[ip := Some me]) k' \<and>
    (case r of None \<Rightarrow> True | Some ip \<Rightarrow> L ! ip = None \<and> ip < length L)"
proof -
  note unlk = locks_back [OF free]
  let ?M = "add_mset (ip, ki) (add_mset (dp, kd) M)" and ?L = "L[dp := Some me, ip := Some me]"
  have mi: "(ip, ki) \<in># ?M" and md: "(dp, kd) \<in># ?M" by simp_all
  note own1 = owns_create_dots [OF own mi dots]
  from rest consider (fail) k2 where "owns base ?M ?L k2" "create_fail B sb me ip dp k2 = Inr (r, k')"
    | (ok) r2 k2 where "dirlink B sb me dp name (i_inum (itable k1 ! ip)) k1 = Inr (r2, k2)" "r = Some ip"
      "iunlockput B sb me dp (if ty = T_DIR then iupdate_at B sb dp (set_inode dp (\<lambda>x. x\<lparr>i_nlink := i_nlink x + 1\<rparr>) k2) else k2) = Inr k'"
  proof (cases bad)
    case True
    with rest fail own1 show thesis by simp
  next
    case False
    with rest obtain r2 k2 where d: "dirlink B sb me dp name (i_inum (itable k1 ! ip)) k1 = Inr (r2, k2)"
      by (auto simp: bindE_eq_Inr)
    show thesis
    proof (cases "r2 < 0")
      case True
      with rest False d fail owns_dirlink [OF own1 md d] show thesis by simp
    next
      case rok: False
      with rest False d ok [OF d] show thesis by (auto simp: bindE_eq_Inr)
    qed
  qed
  then show ?thesis
  proof cases
    case fail
    from owns_create_fail [OF fail] unlk(2) show ?thesis by simp
  next
    case ok
    note own2 = owns_dirlink [OF own1 md ok(1)]
    have "owns base (add_mset (dp, kd) (add_mset (ip, ki) M)) ?L
      (if ty = T_DIR then iupdate_at B sb dp (set_inode dp (\<lambda>x. x\<lparr>i_nlink := i_nlink x + 1\<rparr>) k2) else k2)"
      using own2 owns_fields [OF own2 md, of "\<lambda>x. x\<lparr>i_nlink := i_nlink x + 1\<rparr>" B sb] by (simp add: add_mset_commute)
    from owns_iunlockput [OF this ok(3)] unlk(3) have "owns base (add_mset (ip, ki) M) (L[ip := Some me]) k'" by simp
    with ok(2) owns_ikey [OF this] unlk(4) free(4) show ?thesis by simp
  qed
qed

lemma owns_create:
  assumes own: "owns base M L k" and m: "(wd, kw) \<in># M" and run: "create B sb me wd name path ty major minor k = Inr (r, k')"
  shows "owns base (got k' r M) (case r of None \<Rightarrow> L | Some ip \<Rightarrow> L[ip := Some me]) k' \<and>
    (case r of None \<Rightarrow> True | Some ip \<Rightarrow> L ! ip = None \<and> ip < length L)"
proof -
  note run = run [unfolded create_def]
  from run obtain p nm k1 where np: "nameiparent B sb me wd path name k = Inr (p, nm, k1)" by (auto simp: call_simps)
  note own1 = owns_nameiparent [OF own m np]
  show ?thesis
  proof (cases p)
    case None
    with run np own1 show ?thesis by (auto simp: call_simps)
  next
    case (Some dp)
    define kd where "kd = ikey (itable k1 ! dp)"
    from run np Some obtain k2 where lk: "ilock B sb me (Some dp) k1 = Inr k2" by (auto simp: call_simps)
    from own1 Some have "owns base (add_mset (dp, kd) M) L k1" by (simp add: kd_def)
    note own2 = owns_ilock [OF this union_single_eq_member lk]
    from run np Some lk obtain f k3 where dl: "dirlookup B sb dp nm k2 = Inr (f, k3)" by (auto simp: call_simps)
    note own3 = owns_dirlookup [OF own2(1) union_single_eq_member dl]
    show ?thesis
    proof (cases f)
      case f: (Some q)
      obtain ip off where q: "q = (ip, off)" by force
      define ki where "ki = ikey (itable k3 ! ip)"
      from run np Some lk dl f q obtain k4 where up: "iunlockput B sb me dp k3 = Inr k4" by (auto simp: call_simps)
      from own3 f q have "owns base (add_mset (dp, kd) (add_mset (ip, ki) M)) (L[dp := Some me]) k3"
        by (simp add: ki_def add_mset_commute)
      from owns_iunlockput [OF this up] own2(2) have own4: "owns base (add_mset (ip, ki) M) L k4" by simp
      from run np Some lk dl f q up obtain k5 where li: "ilock B sb me (Some ip) k4 = Inr k5" by (auto simp: call_simps)
      note own5 = owns_ilock [OF own4 union_single_eq_member li]
      from run np Some lk dl f q up li have "r = Some ip \<and> k' = k5 \<or> r = None \<and> iunlockput B sb me ip k5 = Inr k'"
        by (auto simp: call_simps split: if_splits)
      then show ?thesis
      proof
        assume "r = Some ip \<and> k' = k5"
        then show ?thesis using own5 owns_ikey [OF own5(1)] by simp
      next
        assume a: "r = None \<and> iunlockput B sb me ip k5 = Inr k'"
        from owns_iunlockput [OF own5(1) conjunct2 [OF a]] own5(2) a show ?thesis by simp
      qed
    next
      case None
      from run np Some lk dl None obtain p2 k4 where al: "ialloc B sb (i_dev (itable k3 ! dp)) ty k3 = Inr (p2, k4)"
        by (auto simp: call_simps)
      have "owns base (add_mset (dp, kd) M) (L[dp := Some me]) k3" using own3 None by simp
      note own4 = owns_ialloc [OF this al]
      show ?thesis
      proof (cases p2)
        case none: None
        with run np Some lk dl None al have r: "r = None" and up: "iunlockput B sb me dp k4 = Inr k'" by (auto simp: call_simps)
        from own4 none have "owns base (add_mset (dp, kd) M) (L[dp := Some me]) k4" by simp
        from owns_iunlockput [OF this up] own2(2) r show ?thesis by simp
      next
        case ip: (Some ip)
        define ki where "ki = ikey (itable k4 ! ip)"
        let ?M = "add_mset (ip, ki) (add_mset (dp, kd) M)" and ?L = "L[dp := Some me, ip := Some me]"
        have mi: "(ip, ki) \<in># ?M" and md: "(dp, kd) \<in># ?M" by simp_all
        from run np Some lk dl None al ip obtain k5 where li: "ilock B sb me (Some ip) k4 = Inr k5" by (auto simp: call_simps)
        have "owns base ?M (L[dp := Some me]) k4" using own4 ip by (simp add: ki_def)
        note own5 = owns_ilock [OF this mi li]
        have free: "L ! dp = None" "L[dp := Some me] ! ip = None" "dp < length L" "ip < length L"
          using own2(2,3) own5(2,3) by simp_all
        define k6 where "k6 = iupdate_at B sb ip (set_inode ip (\<lambda>x. x\<lparr>i_major := major, i_minor := minor, i_nlink := 1\<rparr>) k5)"
        have own6: "owns base ?M ?L k6" unfolding k6_def by (rule owns_fields [OF own5(1) mi]) simp
        from run np Some lk dl None al ip li obtain bad k7 where dots: "create_dots B sb me ty ip dp k6 = Inr (bad, k7)"
          by (auto simp: call_simps k6_def)
        show ?thesis
          by (rule owns_create_new [OF own6 free dots, where name = nm])
            (use run np Some lk dl None al ip li dots in \<open>simp add: Let_def k6_def cong: if_cong split del: if_split\<close>)
      qed
    qed
  qed
qed

text \<open>A call that ends with as many references, locks and open transactions as it began with, and the same
  descriptors and working directory.\<close>

definition stays :: "'d sys \<Rightarrow> 'd sys \<Rightarrow> nat \<Rightarrow> bool" where
  "stays s s' i \<longleftrightarrow> ilive (kfs s') i \<and> ikey (the_inode s' i) = ikey (the_inode s i)"

text \<open>The files that are open.\<close>

definition in_use :: "'d sys \<Rightarrow> ofile_t option list" where
  "in_use s = map (\<lambda>x. if f_ref x > 0 then Some x else None) (ftable s)"

definition balanced :: "'d sys \<Rightarrow> 'd sys \<Rightarrow> bool" where
  "balanced s s' \<longleftrightarrow> table_ok (itable (kfs s')) \<and> ilocks (kfs s') = ilocks (kfs s) \<and>
     irefs (itable (kfs s')) = irefs (itable (kfs s)) \<and> (\<forall>i. ilive (kfs s) i \<longrightarrow> stays s s' i) \<and> ops s' = ops s \<and> cwd s' = cwd s \<and>
     ofile s' = ofile s \<and> in_use s' = in_use s"

text \<open>\<open>owns_call s M L k\<close>: the same for a file system \<open>k\<close> reached from the state \<open>s\<close>, whose own reference is the working directory.\<close>

abbreviation owns_call :: "'d sys \<Rightarrow> (nat \<times> u32 \<times> u32) multiset \<Rightarrow> int option list \<Rightarrow> 'd kst \<Rightarrow> bool" where
  "owns_call s M L k \<equiv> owns (all_but (cwd s) (kfs s)) M L k"

abbreviation own_cwd :: "'d sys \<Rightarrow> nat \<times> u32 \<times> u32" where
  "own_cwd s \<equiv> (cwd s, ikey (the_inode s (cwd s)))"

lemma owns_call_start: "table_ok (itable (kfs s)) \<Longrightarrow> ilive (kfs s) (cwd s) \<Longrightarrow> owns_call s {#own_cwd s#} (ilocks (kfs s)) (kfs s)"
  using owns_borrow [of "kfs s" "cwd s"] by simp

lemma balancedI:
  assumes ok: "table_ok (itable (kfs s))" "ilive (kfs s) (cwd s)" and own: "owns_call s {#own_cwd s#} (ilocks (kfs s)) k"
  shows "balanced s (end_op ((begin_op s)\<lparr>kfs := k\<rparr>))"
  using ownsD(1,4) [OF own] owns_end(1) [OF own] owns_end_stable [OF ok own] by (simp add: balanced_def stays_def in_use_def)

lemma kfs_kfs [simp]: "(s\<lparr>kfs := a, kfs := b\<rparr>) = s\<lparr>kfs := b\<rparr>"
  by simp

lemma sys_link_balanced:
  assumes ok: "table_ok (itable (kfs s))" "ilive (kfs s) (cwd s)"
    and run: "sys_link B sb me junk name old new s = Inr (r, s')" and str: "old = Some p1" "new = Some p2"
  shows "balanced s s'"
proof -
  let ?L = "ilocks (kfs s)" let ?kw = "ikey (the_inode s (cwd s))"
  note run = run [unfolded sys_link_def str option.case prod.case]
  from run obtain p k1 where ni: "namei B sb me (cwd s) junk p1 (kfs s) = Inr (p, k1)" by (auto simp: call_simps)
  note own1 = owns_namei [OF owns_call_start [OF ok] _ ni, of ?kw, simplified]
  show ?thesis
  proof (cases p)
    case None
    with run ni own1 balancedI [OF ok, of k1] show ?thesis by (auto simp: call_simps)
  next
    case (Some ip)
    define ki where "ki = ikey (itable k1 ! ip)"
    have own1': "owns_call s {#(ip, ki), own_cwd s#} ?L k1" using own1 Some by (simp add: ki_def)
    from run ni Some obtain k2 where li: "ilock B sb me (Some ip) k1 = Inr k2" by (auto simp: call_simps)
    note own2 = owns_ilock [OF own1' _ li, of ki, simplified]
    show ?thesis
    proof (cases "i_type (itable k2 ! ip) = T_DIR")
      case True
      with run ni Some li obtain k3 where up: "iunlockput B sb me ip k2 = Inr k3" and s': "s' = end_op ((begin_op s)\<lparr>kfs := k3\<rparr>)"
        by (auto simp: call_simps)
      from owns_iunlockput [OF own2(1) up] own2(2) show ?thesis unfolding s' by (intro balancedI [OF ok]) simp
    next
      case nodir: False
      define k3 where "k3 = iupdate_at B sb ip (set_inode ip (\<lambda>x. x\<lparr>i_nlink := i_nlink x + 1\<rparr>) k2)"
      have own3: "owns_call s {#(ip, ki), own_cwd s#} (?L[ip := Some me]) k3"
        unfolding k3_def by (rule owns_fields [OF own2(1), of ip ki]) simp_all
      from run ni Some li nodir obtain k4 where ul: "iunlock me (Some ip) k3 = Inr k4" by (auto simp: call_simps k3_def)
      have own4: "owns_call s {#(ip, ki), own_cwd s#} ?L k4" using owns_iunlock [OF own3 _ ul, of ki] own2(2) by simp
      define bad where "bad = (\<lambda>s.
          bindE (in_fs0 (ilock B sb me (Some ip)) s) (\<lambda>s.
          let s = s\<lparr>kfs := iupdate_at B sb ip (set_inode ip (\<lambda>x. x\<lparr>i_nlink := i_nlink x - 1\<rparr>) (kfs s))\<rparr> in
          bindE (in_fs0 (iunlockput B sb me ip) s) (\<lambda>s. Inr (-1 :: int, end_op s))))"
      have bad: ?thesis if o: "owns_call s {#(ip, ki), own_cwd s#} ?L k" and b: "bad ((begin_op s)\<lparr>kfs := k\<rparr>) = Inr (r, s')" for k
      proof -
        from b obtain k5 k6 where l: "ilock B sb me (Some ip) k = Inr k5"
          and up: "iunlockput B sb me ip (iupdate_at B sb ip (set_inode ip (\<lambda>x. x\<lparr>i_nlink := i_nlink x - 1\<rparr>) k5)) = Inr k6"
          and s': "s' = end_op ((begin_op s)\<lparr>kfs := k6\<rparr>)" by (auto simp: bad_def call_simps)
        note o5 = owns_ilock [OF o _ l, of ki, simplified]
        have "owns_call s {#(ip, ki), own_cwd s#} (?L[ip := Some me]) (iupdate_at B sb ip (set_inode ip (\<lambda>x. x\<lparr>i_nlink := i_nlink x - 1\<rparr>) k5))"
          by (rule owns_fields [OF o5(1), of ip ki]) simp_all
        from owns_iunlockput [OF this up] o5(2) show ?thesis unfolding s' by (intro balancedI [OF ok]) simp
      qed
      from run ni Some li nodir ul obtain q nm k5 where np: "nameiparent B sb me (cwd s) p2 name k4 = Inr (q, nm, k5)"
        by (auto simp: call_simps k3_def)
      note own5 = owns_nameiparent [OF own4 _ np, of ?kw, simplified]
      show ?thesis
      proof (cases q)
        case None
        with run ni Some li nodir ul np own5 show ?thesis by (intro bad [of k5]) (simp_all add: call_simps bad_def k3_def)
      next
        case dp: (Some dp)
        define kd where "kd = ikey (itable k5 ! dp)"
        have own5': "owns_call s {#(dp, kd), (ip, ki), own_cwd s#} ?L k5" using own5 dp by (simp add: kd_def)
        from run ni Some li nodir ul np dp obtain k6 where ld: "ilock B sb me (Some dp) k5 = Inr k6"
          by (auto simp: call_simps k3_def)
        note own6 = owns_ilock [OF own5' _ ld, of kd, simplified]
        have "\<exists>r2 k7. (if i_dev (itable k6 ! dp) \<noteq> i_dev (itable k6 ! ip) then k7 = k6 \<and> r2 = -1
            else dirlink B sb me dp nm (i_inum (itable k6 ! ip)) k6 = Inr (r2, k7)) \<and>
          (\<exists>k8. iunlockput B sb me dp k7 = Inr k8 \<and> (if r2 < 0 then bad ((begin_op s)\<lparr>kfs := k8\<rparr>) = Inr (r, s')
             else \<exists>k9. iput B sb me ip k8 = Inr k9 \<and> s' = end_op ((begin_op s)\<lparr>kfs := k9\<rparr>)))"
          using run ni Some li nodir ul np dp ld
          by (auto simp: call_simps k3_def bad_def split: if_splits)
        then obtain r2 k7 k8 where dl: "if i_dev (itable k6 ! dp) \<noteq> i_dev (itable k6 ! ip) then k7 = k6 \<and> r2 = -1
            else dirlink B sb me dp nm (i_inum (itable k6 ! ip)) k6 = Inr (r2, k7)"
          and up: "iunlockput B sb me dp k7 = Inr k8"
          and fin: "if r2 < 0 then bad ((begin_op s)\<lparr>kfs := k8\<rparr>) = Inr (r, s')
             else \<exists>k9. iput B sb me ip k8 = Inr k9 \<and> s' = end_op ((begin_op s)\<lparr>kfs := k9\<rparr>)" by blast
        have "owns_call s {#(dp, kd), (ip, ki), own_cwd s#} (?L[dp := Some me]) k7"
          using dl own6(1) owns_dirlink [OF own6(1), of dp kd] by (auto split: if_splits)
        from owns_iunlockput [OF this up] own6(2) have own8: "owns_call s {#(ip, ki), own_cwd s#} ?L k8" by simp
        show ?thesis
        proof (cases "r2 < 0")
          case True
          with fin bad [OF own8] show ?thesis by simp
        next
          case False
          with fin obtain k9 where p: "iput B sb me ip k8 = Inr k9" and s': "s' = end_op ((begin_op s)\<lparr>kfs := k9\<rparr>)" by auto
          from owns_iput [OF own8 p] show ?thesis unfolding s' by (intro balancedI [OF ok]) simp
        qed
      qed
    qed
  qed
qed

lemma unlink_entry_balanced:
  assumes ok: "table_ok (itable (kfs s))" "ilive (kfs s) (cwd s)"
    and own: "owns_call s {#(ip, ki), (dp, kd), own_cwd s#} (L[dp := Some me, ip := Some me]) k"
    and free: "L ! dp = None" "L[dp := Some me] ! ip = None" "dp < length L" "ip < length L" and L: "L = ilocks (kfs s)"
    and run: "unlink_entry B sb me dp ip off ((begin_op s)\<lparr>kfs := k\<rparr>) = Inr (r, s')"
  shows "balanced s s'"
proof -
  let ?M = "{#(ip, ki), (dp, kd), own_cwd s#}" and ?L = "L[dp := Some me, ip := Some me]"
  let ?dec = "\<lambda>i. set_inode i (\<lambda>x. x\<lparr>i_nlink := i_nlink x - 1\<rparr>)"
  from run obtain k1 where w: "write_kernel B sb dp (replicate 16 0) off 16 k = Inr (16, k1)"
    by (auto simp: unlink_entry_def call_simps split: if_splits)
  define k2 where "k2 = (if i_type (itable k1 ! ip) = T_DIR then iupdate_at B sb dp (?dec dp k1) else k1)"
  from run w obtain k3 k4 where up: "iunlockput B sb me dp k2 = Inr k3"
    and up2: "iunlockput B sb me ip (iupdate_at B sb ip (?dec ip k3)) = Inr k4" and s': "s' = end_op ((begin_op s)\<lparr>kfs := k4\<rparr>)"
    by (auto simp: unlink_entry_def call_simps k2_def split: if_splits)
  have own1: "owns_call s ?M ?L k1" by (rule owns_write_kernel [OF own _ w, of kd]) simp
  have "owns_call s ?M ?L k2" using own1 owns_fields [OF own1, of dp kd "\<lambda>x. x\<lparr>i_nlink := i_nlink x - 1\<rparr>" B sb] by (simp add: k2_def)
  then have "owns_call s {#(dp, kd), (ip, ki), own_cwd s#} ?L k2" by (simp add: add_mset_commute)
  from owns_iunlockput [OF this up] have own3: "owns_call s {#(ip, ki), own_cwd s#} (?L[dp := None]) k3" .
  have "owns_call s {#(ip, ki), own_cwd s#} (?L[dp := None]) (iupdate_at B sb ip (?dec ip k3))"
    by (rule owns_fields [OF own3, of ip ki]) simp_all
  from owns_iunlockput [OF this up2] locks_back(1) [OF free] show ?thesis unfolding s' by (intro balancedI [OF ok]) (simp add: L)
qed

lemma sys_unlink_balanced:
  assumes ok: "table_ok (itable (kfs s))" "ilive (kfs s) (cwd s)"
    and run: "sys_unlink B sb me name path s = Inr (r, s')" and str: "path = Some p1"
  shows "balanced s s'"
proof -
  let ?L = "ilocks (kfs s)" let ?kw = "ikey (the_inode s (cwd s))"
  note run = run [unfolded sys_unlink_def str option.case]
  from run obtain p nm k1 where np: "nameiparent B sb me (cwd s) p1 name (kfs s) = Inr (p, nm, k1)" by (auto simp: call_simps)
  note own1 = owns_nameiparent [OF owns_call_start [OF ok] _ np, of ?kw, simplified]
  show ?thesis
  proof (cases p)
    case None
    with run np own1 balancedI [OF ok, of k1] show ?thesis by (auto simp: call_simps)
  next
    case (Some dp)
    define kd where "kd = ikey (itable k1 ! dp)"
    have own1': "owns_call s {#(dp, kd), own_cwd s#} ?L k1" using own1 Some by (simp add: kd_def)
    from run np Some obtain k2 where ld: "ilock B sb me (Some dp) k1 = Inr k2" by (auto simp: call_simps)
    note own2 = owns_ilock [OF own1' _ ld, of kd, simplified]
    have bad: ?thesis if o: "owns_call s {#(dp, kd), own_cwd s#} (?L[dp := Some me]) k"
      and b: "bindE (in_fs0 (iunlockput B sb me dp) ((begin_op s)\<lparr>kfs := k\<rparr>)) (\<lambda>s. Inr (-1 :: int, end_op s)) = Inr (r, s')" for k
    proof -
      from b obtain k5 where up: "iunlockput B sb me dp k = Inr k5" and s': "s' = end_op ((begin_op s)\<lparr>kfs := k5\<rparr>)"
        by (auto simp: call_simps)
      from owns_iunlockput [OF o up] own2(2) show ?thesis unfolding s' by (intro balancedI [OF ok]) simp
    qed
    show ?thesis
    proof (cases "namecmp nm [46] = 0 \<or> namecmp nm [46, 46] = 0")
      case True
      with run np Some ld show ?thesis by (intro bad [OF own2(1)]) (auto simp: call_simps)
    next
      case dots: False
      with run np Some ld obtain f k3 where dl: "dirlookup B sb dp nm k2 = Inr (f, k3)" by (auto simp: call_simps)
      note own3 = owns_dirlookup [OF own2(1) _ dl, of kd, simplified]
      show ?thesis
      proof (cases f)
        case None
        with run np Some ld dots dl own3 show ?thesis by (intro bad [of k3]) (simp_all add: call_simps)
      next
        case f: (Some q)
        obtain ip off where q: "q = (ip, off)" by force
        define ki where "ki = ikey (itable k3 ! ip)"
        let ?M = "{#(ip, ki), (dp, kd), own_cwd s#}" and ?L2 = "?L[dp := Some me, ip := Some me]"
        have own3': "owns_call s ?M (?L[dp := Some me]) k3" using own3 f q by (simp add: ki_def)
        from run np Some ld dots dl f q obtain k4 where li: "ilock B sb me (Some ip) k3 = Inr k4" by (auto simp: call_simps)
        note own4 = owns_ilock [OF own3' _ li, of ki, simplified]
        have free: "?L ! dp = None" "?L[dp := Some me] ! ip = None" "dp < length ?L" "ip < length ?L"
          using own2(2,3) own4(2,3) by simp_all
        let ?s = "\<lambda>k. (begin_op s)\<lparr>kfs := k\<rparr>"
        from run np Some ld dots dl f q li have nl: "\<not> sint (i_nlink (itable k4 ! ip)) < 1"
          by (auto simp: in_fs_def in_fs0_def Let_def)
        with run np Some ld dots dl f q li have
          body: "bindE (if i_type (itable k4 ! ip) = T_DIR then in_fs (isdirempty B sb ip) (?s k4) else Inr (True, ?s k4)) (\<lambda>(e, s).
            if \<not> e then bindE (in_fs0 (iunlockput B sb me ip) s)
              (\<lambda>s. bindE (in_fs0 (iunlockput B sb me dp) s) (\<lambda>s. Inr (-1, end_op s)))
            else unlink_entry B sb me dp ip off s) = Inr (r, s')"
          by (simp add: in_fs_def [of "\<lambda>k. bindE (nameiparent B sb me (cwd s) p1 name k) (\<lambda>(dp, name, k). Inr ((dp, name), k))"]
            in_fs_def [of "dirlookup B sb dp nm"] in_fs0_def [of "ilock B sb me (Some dp)"] in_fs0_def [of "ilock B sb me (Some ip)"] Let_def
            split del: if_split cong: if_cong)
        obtain e k5 where em: "if i_type (itable k4 ! ip) = T_DIR then isdirempty B sb ip k4 = Inr (e, k5) else e \<and> k5 = k4" and
          fin: "if \<not> e then \<exists>k6. iunlockput B sb me ip k5 = Inr k6 \<and>
             bindE (in_fs0 (iunlockput B sb me dp) ((begin_op s)\<lparr>kfs := k6\<rparr>)) (\<lambda>s. Inr (-1 :: int, end_op s)) = Inr (r, s')
           else unlink_entry B sb me dp ip off ((begin_op s)\<lparr>kfs := k5\<rparr>) = Inr (r, s')"
        proof (cases "i_type (itable k4 ! ip) = T_DIR")
          case True
          with body obtain e k5 where "isdirempty B sb ip k4 = Inr (e, k5)" by (auto simp: bindE_eq_Inr in_fs_eq)
          with True body that [of e k5] show thesis by (cases e) (auto simp: in_fs_def bindE_eq_Inr in_fs0_eq)
        next
          case False
          with body that [of True k4] show thesis by simp
        qed
        have own5: "owns_call s ?M ?L2 k5"
          using em own4(1) owns_isdirempty [OF own4(1), of ip ki] by (auto split: if_splits)
        show ?thesis
        proof (cases e)
          case False
          with fin obtain k6 where up: "iunlockput B sb me ip k5 = Inr k6" and
            b: "bindE (in_fs0 (iunlockput B sb me dp) ((begin_op s)\<lparr>kfs := k6\<rparr>)) (\<lambda>s. Inr (-1 :: int, end_op s)) = Inr (r, s')"
            by auto
          have "?L2[ip := None] = ?L[dp := Some me]" using free(2) by (simp add: lock_unlock)
          with owns_iunlockput [OF own5 up] have "owns_call s {#(dp, kd), own_cwd s#} (?L[dp := Some me]) k6" by simp
          from bad [OF this b] show ?thesis .
        next
          case True
          with fin show ?thesis by (intro unlink_entry_balanced [OF ok own5 free refl]) simp
        qed
      qed
    qed
  qed
qed

text \<open>The calls that run \<open>create\<close> and give the new inode back.\<close>

lemma create_call_balanced:
  assumes ok: "table_ok (itable (kfs s))" "ilive (kfs s) (cwd s)"
    and cr: "create B sb me (cwd s) name path ty major minor (kfs s) = Inr (p, k1)"
    and nomore: "p = None \<Longrightarrow> s' = end_op ((begin_op s)\<lparr>kfs := k1\<rparr>)"
    and rest: "\<And>ip. p = Some ip \<Longrightarrow> \<exists>k2 k3. (\<forall>M L. owns_call s M L k1 \<longrightarrow> (ip, ikey (itable k1 ! ip)) \<in># M \<longrightarrow> owns_call s M L k2) \<and>
      iunlockput B sb me ip k2 = Inr k3 \<and> s' = end_op ((begin_op s)\<lparr>kfs := k3\<rparr>)"
  shows "balanced s s'"
proof -
  note own1 = owns_create [OF owns_call_start [OF ok] _ cr, of "ikey (the_inode s (cwd s))", simplified]
  show ?thesis
  proof (cases p)
    case None
    with own1 nomore balancedI [OF ok, of k1] show ?thesis by simp
  next
    case (Some ip)
    with rest obtain k2 k3 where k2: "\<And>M L. owns_call s M L k1 \<Longrightarrow> (ip, ikey (itable k1 ! ip)) \<in># M \<Longrightarrow> owns_call s M L k2"
      and up: "iunlockput B sb me ip k2 = Inr k3" and s': "s' = end_op ((begin_op s)\<lparr>kfs := k3\<rparr>)" by blast
    from own1 Some have "owns_call s {#(ip, ikey (itable k1 ! ip)), own_cwd s#} ((ilocks (kfs s))[ip := Some me]) k1"
      and free: "ilocks (kfs s) ! ip = None" by simp_all
    from owns_iunlockput [OF k2 [OF this(1)] up] free show ?thesis unfolding s' by (intro balancedI [OF ok]) simp
  qed
qed

lemma sys_mkdir_balanced:
  assumes ok: "table_ok (itable (kfs s))" "ilive (kfs s) (cwd s)" and run: "sys_mkdir B sb me name (Some path) s = Inr (r, s')"
  shows "balanced s s'"
proof -
  from run obtain p k1 where cr: "create B sb me (cwd s) name path T_DIR 0 0 (kfs s) = Inr (p, k1)"
    by (auto simp: sys_mkdir_def call_simps)
  show ?thesis
    by (rule create_call_balanced [OF ok cr]) (use run cr in \<open>auto simp: sys_mkdir_def call_simps split: option.splits\<close>)
qed

lemma sys_mknod_balanced:
  assumes ok: "table_ok (itable (kfs s))" "ilive (kfs s) (cwd s)"
    and run: "sys_mknod B sb me name (Some path) major minor s = Inr (r, s')"
  shows "balanced s s'"
proof -
  from run obtain p k1 where cr: "create B sb me (cwd s) name path T_DEVICE (ucast major) (ucast minor) (kfs s) = Inr (p, k1)"
    by (auto simp: sys_mknod_def call_simps)
  show ?thesis
    by (rule create_call_balanced [OF ok cr]) (use run cr in \<open>auto simp: sys_mknod_def call_simps split: option.splits\<close>)
qed

lemma sys_symlink_balanced:
  assumes ok: "table_ok (itable (kfs s))" "ilive (kfs s) (cwd s)"
    and run: "sys_symlink F B sb me name (Some target) (Some path) s = Inr (r, s')"
  shows "balanced s s'"
proof -
  let ?len = "of_nat (length (cstr target)) :: u32" let ?bytes = "cstr target @ [0]"
  from run obtain p k1 where cr: "create B sb me (cwd s) name path (t_symlink F) 0 0 (kfs s) = Inr (p, k1)"
    by (auto simp: sys_symlink_def call_simps)
  show ?thesis
  proof (rule create_call_balanced [OF ok cr])
    assume "p = None"
    with run cr show "s' = end_op ((begin_op s)\<lparr>kfs := k1\<rparr>)" by (auto simp: sys_symlink_def call_simps)
  next
    fix ip assume p: "p = Some ip"
    with run cr obtain n k2 where w: "write_kernel B sb ip ?bytes 0 (?len + 1) k1 = Inr (n, k2)"
      by (auto simp: sys_symlink_def call_simps)
    define k3 where "k3 = (if n \<noteq> ?len + 1 then k2 else iupdate_at B sb ip (set_inode ip (\<lambda>x. x\<lparr>i_size := ?len\<rparr>) k2))"
    have "owns_call s M L k3" if "owns_call s M L k1" and m: "(ip, ikey (itable k1 ! ip)) \<in># M" for M L
    proof -
      have "owns_call s M L k2" by (rule owns_write_kernel [OF that w])
      then show ?thesis using owns_fields [OF _ m, of _ L k2 "\<lambda>x. x\<lparr>i_size := ?len\<rparr>" B sb] by (simp add: k3_def)
    qed
    moreover from run cr p w obtain k4 where "iunlockput B sb me ip k3 = Inr k4" "s' = end_op ((begin_op s)\<lparr>kfs := k4\<rparr>)"
      by (auto simp: sys_symlink_def call_simps k3_def split: if_splits)
    ultimately show "\<exists>k2 k3. (\<forall>M L. owns_call s M L k1 \<longrightarrow> (ip, ikey (itable k1 ! ip)) \<in># M \<longrightarrow> owns_call s M L k2) \<and>
      iunlockput B sb me ip k2 = Inr k3 \<and> s' = end_op ((begin_op s)\<lparr>kfs := k3\<rparr>)" by blast
  qed
qed

lemma owns_follow_link:
  assumes run: "follow_link B sb me wd name junk ip k = Inr (p, k')"
    and own: "owns base (add_mset (ip, ki) M) (L[ip := Some me]) k" and free: "L ! ip = None" "ip < length L" and m: "(wd, kw) \<in># M"
  shows "case p of None \<Rightarrow> owns base M L k'
    | Some j \<Rightarrow> owns base (add_mset (j, ikey (itable k' ! j)) M) (L[j := Some me]) k' \<and> L ! j = None \<and> j < length L"
proof -
  from run obtain n bytes k1 where rd: "read_kernel B sb ip (i_size (itable k ! ip)) k = Inr ((n, bytes), k1)"
    by (auto simp: follow_link_def bindE_eq_Inr)
  have own1: "owns base (add_mset (ip, ki) M) (L[ip := Some me]) k1" by (rule owns_read_kernel [OF own _ rd, of ki]) simp
  from run rd obtain k2 where up: "iunlockput B sb me ip k1 = Inr k2" by (auto simp: follow_link_def bindE_eq_Inr split: if_splits)
  from owns_iunlockput [OF own1 up] free have own2: "owns base M L k2" by simp
  show ?thesis
  proof (cases "n = i_size (itable k1 ! ip)")
    case False
    with run rd up have "p = None" "k' = k2" by (auto simp: follow_link_def bindE_eq_Inr split: if_splits)
    with own2 show ?thesis by simp
  next
    case full: True
    with run rd up obtain target q k3 where ni: "namei B sb me wd name target k2 = Inr (q, k3)" and tg: "target_path bytes junk = Inr target"
      by (auto simp: follow_link_def bindE_eq_Inr split: if_splits)
    note own3 = owns_namei [OF own2 m ni]
    show ?thesis
    proof (cases q)
      case None
      with run rd up full ni tg own3 show ?thesis by (auto simp: follow_link_def bindE_eq_Inr split: if_splits)
    next
      case (Some j)
      with run rd up full ni tg have lk: "ilock B sb me (Some j) k3 = Inr k'" and p: "p = Some j"
        by (auto simp: follow_link_def bindE_eq_Inr split: if_splits)
      from own3 Some have "owns base (add_mset (j, ikey (itable k3 ! j)) M) L k3" by simp
      note own4 = owns_ilock [OF this _ lk, of "ikey (itable k3 ! j)", simplified]
      with owns_ikey [OF own4(1)] p show ?thesis by simp
    qed
  qed
qed

lemma owns_follow:
  assumes "follow B sb me wd locals junk symlink nofollow retry ip k = Inr (r, k')"
    and "owns base (add_mset (ip, ki) M) (L[ip := Some me]) k" and "L ! ip = None" "ip < length L" and "(wd, kw) \<in># M"
    and "retry \<le> 10"
  shows "case r of None \<Rightarrow> owns base M L k'
    | Some (j, n) \<Rightarrow> owns base (add_mset (j, ikey (itable k' ! j)) M) (L[j := Some me]) k' \<and> L ! j = None \<and> j < length L \<and>
        n \<le> 10 \<and> (i_type (itable k' ! j) = symlink \<longrightarrow> nofollow \<or> n = 10)"
  using assms
proof (induction "10 - retry" arbitrary: retry ip ki k rule: less_induct)
  case less
  note run = less.prems(1) [unfolded follow.simps [of B sb me wd locals junk symlink nofollow retry ip k]]
    and own = less.prems(2) and free = less.prems(3,4) and m = less.prems(5)
  show ?case
  proof (cases "i_type (itable k ! ip) = symlink \<and> \<not> nofollow \<and> retry < 10")
    case False
    with run have "r = Some (ip, retry)" "k' = k" by (auto split: if_splits)
    with False own free less.prems(6) owns_ikey [OF own] show ?thesis by auto
  next
    case True
    with run obtain p k1 where fl: "follow_link B sb me wd (locals retry) (junk retry) ip k = Inr (p, k1)" by (auto simp: bindE_eq_Inr)
    note own1 = owns_follow_link [OF fl own free m]
    show ?thesis
    proof (cases p)
      case None
      with run True fl own1 show ?thesis by auto
    next
      case (Some j)
      with own1 have own2: "owns base (add_mset (j, ikey (itable k1 ! j)) M) (L[j := Some me]) k1" "L ! j = None" "j < length L" by auto
      show ?thesis
      proof (cases "i_type (itable k1 ! j) = symlink")
        case link: True
        with run True fl Some have rec: "follow B sb me wd locals junk symlink nofollow (retry + 1) j k1 = Inr (r, k')" by auto
        show ?thesis by (rule less.hyps [OF _ rec own2 m]) (use True in auto)
      next
        case False
        with run True fl Some have "r = Some (j, retry)" "k' = k1" by auto
        with own2 False less.prems(6) show ?thesis by simp
      qed
    qed
  qed
qed

text \<open>What the loop computes, stated without its counter: a chain of \<open>n\<close> links from the locked inode \<open>ip\<close> to the locked inode \<open>j\<close>.\<close>

inductive link_chain :: "'d bio \<Rightarrow> superblock \<Rightarrow> int \<Rightarrow> nat \<Rightarrow> (nat \<Rightarrow> u8 list) \<Rightarrow> (nat \<Rightarrow> u8 list) \<Rightarrow> u16 \<Rightarrow> nat \<Rightarrow> 'd kst \<Rightarrow>
    nat \<Rightarrow> nat \<Rightarrow> 'd kst \<Rightarrow> bool" for B sb me wd locals junk symlink ip k where
  here: "link_chain B sb me wd locals junk symlink ip k 0 ip k"
| link: "link_chain B sb me wd locals junk symlink ip k n j k1 \<Longrightarrow> i_type (itable k1 ! j) = symlink \<Longrightarrow>
    follow_link B sb me wd (locals n) (junk n) j k1 = Inr (Some j', k2) \<Longrightarrow> link_chain B sb me wd locals junk symlink ip k (Suc n) j' k2"

lemma follow_chain:
  assumes "follow B sb me wd locals junk symlink False n j k1 = Inr (Some (i, m), k2)"
    and "link_chain B sb me wd locals junk symlink ip k n j k1" and "n \<le> 10" and "m < 10"
  shows "\<exists>n \<le> 10. link_chain B sb me wd locals junk symlink ip k n i k2 \<and> i_type (itable k2 ! i) \<noteq> symlink"
  using assms(1-3)
proof (induction "10 - n" arbitrary: n j k1 rule: less_induct)
  case less
  note run = less.prems(1) [unfolded follow.simps [of B sb me wd locals junk symlink False n j k1]]
  show ?case
  proof (cases "i_type (itable k1 ! j) = symlink \<and> n < 10")
    case False
    with run less.prems(3) assms(4) have "i = j" "k2 = k1" "i_type (itable k1 ! j) \<noteq> symlink" by (auto split: if_splits)
    with less.prems show ?thesis by blast
  next
    case True
    with run obtain j1 k3 where fl: "follow_link B sb me wd (locals n) (junk n) j k1 = Inr (Some j1, k3)"
      by (auto simp: bindE_eq_Inr split: option.splits)
    from link_chain.link [OF less.prems(2) _ fl] True have ch: "link_chain B sb me wd locals junk symlink ip k (Suc n) j1 k3" by blast
    show ?thesis
    proof (cases "i_type (itable k3 ! j1) = symlink")
      case link: True
      with run True fl have "follow B sb me wd locals junk symlink False (Suc n) j1 k3 = Inr (Some (i, m), k2)" by simp
      moreover from True have "10 - Suc n < 10 - n" "Suc n \<le> 10" by arith+
      ultimately show ?thesis using less.hyps ch by blast
    next
      case False
      with run True fl have "i = j1" "k2 = k3" by auto
      with ch False True show ?thesis by (metis Suc_leI)
    qed
  qed
qed

lemma chain_follow:
  assumes "link_chain B sb me wd locals junk symlink ip k n j k1" and "n \<le> 10"
  shows "follow B sb me wd locals junk symlink False 0 ip k =
    (if n = 0 \<or> i_type (itable k1 ! j) = symlink then follow B sb me wd locals junk symlink False n j k1 else Inr (Some (j, n - 1), k1))"
  using assms
proof induction
  case (link n j k1 j' k2)
  then have "follow B sb me wd locals junk symlink False 0 ip k = follow B sb me wd locals junk symlink False n j k1" by simp
  also have "\<dots> = (if i_type (itable k2 ! j') = symlink then follow B sb me wd locals junk symlink False (Suc n) j' k2 else Inr (Some (j', n), k2))"
    using link by (simp add: follow.simps [of B sb me wd locals junk symlink False n j k1])
  finally show ?case by simp
qed simp

lemma itrunc_type:
  assumes "itrunc B sb ip d = Inr (ip', d')"
  shows "i_type ip' = i_type ip"
proof -
  from assms obtain q1 e1 q2 e2 q3 e3 where "itrunc_direct B sb ip d = Inr (q1, e1)"
    "itrunc_indirect B sb q1 e1 = Inr (q2, e2)" "itrunc_double B sb q2 e2 = Inr (q3, e3)" "ip' = q3\<lparr>i_size := 0\<rparr>"
    by (auto simp: itrunc_def Let_def bindE_eq_Inr)
  then show ?thesis
    by (auto simp: itrunc_direct_def itrunc_indirect_def itrunc_double_def Let_def bindE_eq_Inr split: if_splits)
qed

text \<open>What the calls rely on in \<open>file.c\<close>: \<open>filealloc\<close> hands out a file that was not in use, of type \<open>FD_NONE\<close> with one reference, and closing
  such a file touches nothing else of the state.\<close>

definition fileops_ok :: "'d fileops \<Rightarrow> bool" where
  "fileops_ok F \<longleftrightarrow>
     (\<forall>s r s'. filealloc F s = (r, s') \<longrightarrow> kfs s' = kfs s \<and> ops s' = ops s \<and> cwd s' = cwd s \<and> ofile s' = ofile s \<and>
        (r = None \<longrightarrow> ftable s' = ftable s) \<and>
        (\<forall>f. r = Some f \<longrightarrow> f < length (ftable s) \<and> f_ref (ftable s ! f) = 0 \<and>
           (\<exists>x. ftable s' = (ftable s)[f := x] \<and> f_type x = FD_NONE \<and> f_ref x = 1))) \<and>
     (\<forall>s f s'. fileclose F f s = Inr s' \<longrightarrow> f_type (ftable s ! f) = FD_NONE \<longrightarrow> f_ref (ftable s ! f) = 1 \<longrightarrow>
        kfs s' = kfs s \<and> ops s' = ops s \<and> cwd s' = cwd s \<and> ofile s' = ofile s \<and> (\<exists>x. ftable s' = (ftable s)[f := x] \<and> f_ref x = 0))"

lemma fileops_ok_close:
  assumes "fileops_ok F" "fileclose F f s = Inr s'" "f_type (ftable s ! f) = FD_NONE" "f_ref (ftable s ! f) = 1"
  shows "kfs s' = kfs s \<and> ops s' = ops s \<and> cwd s' = cwd s \<and> ofile s' = ofile s \<and> (\<exists>x. ftable s' = (ftable s)[f := x] \<and> f_ref x = 0)"
  by (rule conjunct2 [OF assms(1) [unfolded fileops_ok_def], rule_format, OF assms(2-4)])

section \<open>Descriptors\<close>

text \<open>\<open>fdalloc\<close> finds the first free entry.\<close>

lemma fdalloc_from_idx:
  "fd + n = length t \<Longrightarrow> fdalloc_from n fd t = map_option (\<lambda>i. fd + i) (find_idx (\<lambda>f. f = None) (drop fd t))"
proof (induction n fd t rule: fdalloc_from.induct)
  case (2 n fd t)
  then have "drop fd t = t ! fd # drop (fd + 1) t" by (simp add: Cons_nth_drop_Suc)
  with 2 show ?case by (auto simp: option.map_comp comp_def)
qed simp

lemma fdalloc_idx:
  "length (ofile s) = nat NOFILE \<Longrightarrow> fdalloc f s = (case find_idx (\<lambda>f. f = None) (ofile s) of
     None \<Rightarrow> (-1, s) | Some fd \<Rightarrow> (int fd, s\<lparr>ofile := (ofile s)[fd := Some f]\<rparr>))"
  using fdalloc_from_idx [of 0 "nat NOFILE" "ofile s"] by (simp add: fdalloc_def option.map_ident)

section \<open>Opening a file\<close>

lemma open_inode_owns:
  assumes ok: "table_ok (itable (kfs s))" "ilive (kfs s) (cwd s)"
    and run: "open_inode B sb me name path omode (begin_op s) = Inr (p, s')"
  shows "s' = (begin_op s)\<lparr>kfs := kfs s'\<rparr>"
    and "p = None \<Longrightarrow> owns_call s {#own_cwd s#} (ilocks (kfs s)) (kfs s')"
    and "p = Some ip \<Longrightarrow> owns_call s {#(ip, ikey (the_inode s' ip)), own_cwd s#} ((ilocks (kfs s))[ip := Some me]) (kfs s') \<and>
      ilocks (kfs s) ! ip = None \<and> ip < length (ilocks (kfs s))"
proof -
  let ?L = "ilocks (kfs s)" let ?kw = "ikey (the_inode s (cwd s))"
  have "s' = (begin_op s)\<lparr>kfs := kfs s'\<rparr> \<and> (case p of None \<Rightarrow> owns_call s {#own_cwd s#} ?L (kfs s') | Some ip \<Rightarrow>
    owns_call s {#(ip, ikey (the_inode s' ip)), own_cwd s#} (?L[ip := Some me]) (kfs s') \<and> ?L ! ip = None \<and> ip < length ?L)"
  proof (cases "omode AND O_CREATE \<noteq> 0")
    case True
    with run obtain k1 where cr: "create B sb me (cwd s) name path T_FILE 0 0 (kfs s) = Inr (p, k1)"
      and s': "s' = (begin_op s)\<lparr>kfs := k1\<rparr>" by (auto simp: open_inode_def in_fs_eq)
    from owns_create [OF owns_call_start [OF ok] _ cr, of ?kw] s' show ?thesis by (auto split: option.splits)
  next
    case False
    with run obtain q k1 where ni: "namei B sb me (cwd s) name path (kfs s) = Inr (q, k1)"
      by (auto simp: open_inode_def call_simps)
    note own1 = owns_namei [OF owns_call_start [OF ok] _ ni, of ?kw, simplified]
    show ?thesis
    proof (cases q)
      case None
      with run False ni own1 show ?thesis by (auto simp: open_inode_def call_simps)
    next
      case (Some ip)
      with run False ni obtain k2 where lk: "ilock B sb me (Some ip) k1 = Inr k2" by (auto simp: open_inode_def call_simps)
      from own1 Some have "owns_call s {#(ip, ikey (itable k1 ! ip)), own_cwd s#} ?L k1" by simp
      note own2 = owns_ilock [OF this _ lk, of "ikey (itable k1 ! ip)", simplified]
      show ?thesis
      proof (cases "i_type (itable k2 ! ip) = T_DIR \<and> omode \<noteq> O_RDONLY")
        case True
        with run False ni Some lk obtain k3 where up: "iunlockput B sb me ip k2 = Inr k3" and r: "p = None"
          "s' = (begin_op s)\<lparr>kfs := k3\<rparr>" by (auto simp: open_inode_def call_simps)
        from owns_iunlockput [OF own2(1) up] own2(2) r show ?thesis by simp
      next
        case nodir: False
        with run False ni Some lk have "p = Some ip" "s' = (begin_op s)\<lparr>kfs := k2\<rparr>"
          by (auto simp: open_inode_def call_simps split: if_splits)
        with own2 owns_ikey [OF own2(1)] show ?thesis by simp
      qed
    qed
  qed
  then show "s' = (begin_op s)\<lparr>kfs := kfs s'\<rparr>" "p = None \<Longrightarrow> owns_call s {#own_cwd s#} (ilocks (kfs s)) (kfs s')"
    "p = Some ip \<Longrightarrow> owns_call s {#(ip, ikey (the_inode s' ip)), own_cwd s#} ((ilocks (kfs s))[ip := Some me]) (kfs s') \<and>
      ilocks (kfs s) ! ip = None \<and> ip < length (ilocks (kfs s))" by simp_all
qed

text \<open>What it means that the descriptor \<open>fd\<close> was opened on the inode \<open>ip\<close>.\<close>

definition opened :: "'d sys \<Rightarrow> int \<Rightarrow> nat \<Rightarrow> 'd sys \<Rightarrow> bool" where
  "opened s fd ip s' \<longleftrightarrow> (\<exists>n f x. fd = int n \<and> find_idx (\<lambda>x. x = None) (ofile s) = Some n \<and> ofile s' = (ofile s)[n := Some f] \<and>
     f < length (in_use s) \<and> in_use s ! f = None \<and> in_use s' = (in_use s)[f := Some x] \<and> f_ref x = 1 \<and> f_ip x = ip \<and>
     f_type x = (if i_type (the_inode s' ip) = T_DEVICE then FD_DEVICE else FD_INODE)) \<and>
     ilocks (kfs s') = ilocks (kfs s) \<and> table_ok (itable (kfs s')) \<and>
     irefs (itable (kfs s')) = (\<lambda>k. irefs (itable (kfs s)) k + ref1 (ikey (the_inode s' ip)) k) \<and>
     ilive (kfs s') ip \<and> (\<forall>i. ilive (kfs s) i \<longrightarrow> stays s s' i) \<and> ops s' = ops s \<and> cwd s' = cwd s"

lemma in_use_update: "f < length (ftable s) \<Longrightarrow> ftable s' = (ftable s)[f := x] \<Longrightarrow> in_use s' = (in_use s)[f := if f_ref x > 0 then Some x else None]"
  by (simp add: in_use_def map_update)

lemma in_use_free: "f < length (ftable s) \<Longrightarrow> f_ref (ftable s ! f) = 0 \<Longrightarrow> in_use s ! f = None"
  by (simp add: in_use_def)

lemma owns_call_refs:
  assumes "owns_call s {#(ip, k), own_cwd s#} L k'"
  shows "irefs (itable k') = (\<lambda>q. irefs (itable (kfs s)) q + ref1 k q)" and "ilive k' ip"
proof -
  show "ilive k' ip" using ownsD(2) [OF assms, of ip k] by simp
  have "irefs (itable k') x = irefs (itable (kfs s)) x - ref1 (ikey (the_inode s (cwd s))) x +
      int (count (image_mset snd {#(ip, k), own_cwd s#}) x)" for x
    using assms unfolding owns_def all_but_refs by blast
  then show "irefs (itable k') = (\<lambda>q. irefs (itable (kfs s)) q + ref1 k q)" by (auto simp: fun_eq_iff ref1_def)
qed

lemma open_file_spec:
  assumes ok: "table_ok (itable (kfs s))" "ilive (kfs s) (cwd s)" and F: "fileops_ok F" and len: "length (ofile s) = 16"
    and own: "owns_call s {#(ip, k), own_cwd s#} ((ilocks (kfs s))[ip := Some me]) (kfs s1)"
    and free: "ilocks (kfs s) ! ip = None" "ip < length (ilocks (kfs s))"
    and s1: "ops s1 = ops s + 1" "cwd s1 = cwd s" "ofile s1 = ofile s" "ftable s1 = ftable s"
    and run: "open_file F B sb me ip omode s1 = Inr (r, s')"
  shows "r = -1 \<and> balanced s s' \<or>
    opened s r ip s' \<and> i_type (the_inode s' ip) = i_type (the_inode s1 ip)"
proof -
  let ?L = "ilocks (kfs s)"
  have bad: "r = -1 \<and> balanced s s'" if "bindE (in_fs0 (iunlockput B sb me ip) s2) (\<lambda>s. Inr (-1, end_op s)) = Inr (r, s')"
    and s2: "kfs s2 = kfs s1" "ops s2 = ops s + 1" "cwd s2 = cwd s" "ofile s2 = ofile s" "in_use s2 = in_use s" for s2
  proof -
    from that(1) obtain k2 where up: "iunlockput B sb me ip (kfs s1) = Inr k2" and s': "s' = end_op (s2\<lparr>kfs := k2\<rparr>)" and r: "r = -1"
      by (auto simp: call_simps s2)
    from owns_iunlockput [OF own up] free have "owns_call s {#own_cwd s#} ?L k2" by simp
    from balancedI [OF ok this] r s2 show ?thesis by (simp add: balanced_def stays_def s' in_use_def)
  qed
  obtain g s2 where fa: "filealloc F s1 = (g, s2)" by force
  with F have s2: "kfs s2 = kfs s1" "ops s2 = ops s + 1" "cwd s2 = cwd s" "ofile s2 = ofile s"
    and g0: "g = None \<Longrightarrow> ftable s2 = ftable s"
    and g: "\<And>f. g = Some f \<Longrightarrow> f < length (ftable s) \<and> f_ref (ftable s ! f) = 0 \<and> (\<exists>x. ftable s2 = (ftable s)[f := x] \<and> f_type x = FD_NONE \<and> f_ref x = 1)"
    unfolding fileops_ok_def s1 [symmetric] by blast+
  have u1: "in_use s1 = in_use s" "g = None \<Longrightarrow> in_use s2 = in_use s" using s1(4) g0 by (simp_all add: in_use_def)
  show ?thesis
  proof (cases "i_type (the_inode s1 ip) = T_DEVICE \<and>
      (sint (i_major (the_inode s1 ip)) < 0 \<or> sint (i_major (the_inode s1 ip)) \<ge> NDEV) \<or> g = None")
    case True
    have "bindE (in_fs0 (iunlockput B sb me ip) s1) (\<lambda>s. Inr (-1, end_op s)) = Inr (r, s') \<or>
        g = None \<and> bindE (in_fs0 (iunlockput B sb me ip) s2) (\<lambda>s. Inr (-1, end_op s)) = Inr (r, s')"
      using run [unfolded open_file_def Let_def fa prod.case] True by (cases g) (simp_all split: if_split_asm)
    then show ?thesis using bad [OF _ refl s1(1-3) u1(1)] bad [OF _ s2 u1(2)] by blast
  next
    case False
    then obtain f where f: "g = Some f" by auto
    from g [OF f] obtain x0 where f0: "f < length (ftable s)" "f_ref (ftable s ! f) = 0" "ftable s2 = (ftable s)[f := x0]" "f_type x0 = FD_NONE" "f_ref x0 = 1"
      by blast
    then have x0: "ftable s2 ! f = x0" "length (ftable s2) = length (ftable s)" by simp_all
    from False have nodev: "\<not> (i_type (the_inode s1 ip) = T_DEVICE \<and>
      (sint (i_major (the_inode s1 ip)) < 0 \<or> sint (i_major (the_inode s1 ip)) \<ge> NDEV))" by blast
    note fd = fdalloc_idx [of s2 f, simplified s2 len]
    show ?thesis
    proof (cases "find_idx (\<lambda>f. f = None) (ofile s)")
      case None
      with fd len have "fdalloc f s2 = (-1, s2)" by simp
      with run False fa f obtain s3 where cl: "fileclose F f s2 = Inr s3"
        and rest: "bindE (in_fs0 (iunlockput B sb me ip) s3) (\<lambda>s. Inr (-1, end_op s)) = Inr (r, s')"
        by (auto simp: open_file_def Let_def bindE_eq_Inr split: if_splits)
      from fileops_ok_close [OF F cl] f0(4,5) x0(1) obtain x1 where s3: "kfs s3 = kfs s2" "ops s3 = ops s2" "cwd s3 = cwd s2"
        "ofile s3 = ofile s2" "ftable s3 = (ftable s2)[f := x1]" "f_ref x1 = 0" by auto
      have "in_use s3 = in_use s"
      proof -
        have "in_use s3 = (in_use s)[f := None]" using in_use_update [OF f0(1), of s3 x1] s3(5,6) f0(3) by simp
        then show ?thesis using in_use_free [OF f0(1,2)] list_update_id [of "in_use s" f] by simp
      qed
      with bad [OF rest] s2 s3 show ?thesis by simp
    next
      case (Some n)
      define s3 where "s3 = s2\<lparr>ofile := (ofile s)[n := Some f]\<rparr>"
      from fd Some len have fd: "fdalloc f s2 = (int n, s3)" by (simp add: s3_def)
      define x where "x = init_file ip (the_inode s1 ip) omode (ftable s2 ! f)"
      define s4 where "s4 = s3\<lparr>ftable := (ftable s2)[f := x]\<rparr>"
      have s4: "kfs s4 = kfs s1" by (simp add: s4_def s3_def s2)
      have "bindE (if omode AND O_TRUNC \<noteq> 0 \<and> i_type (the_inode s1 ip) = T_FILE then in_fs0 (itrunc_at B sb ip) s4 else Inr s4) (\<lambda>s.
          bindE (in_fs0 (iunlock me (Some ip)) s) (\<lambda>s. Inr (int n, end_op s))) = Inr (r, s')"
        using run [unfolded open_file_def Let_def, unfolded if_not_P [OF nodev]] fa f fd
        by (simp add: s4_def x_def s3_def s2 split del: if_split cong: if_cong)
      then obtain s5 where
        tr5: "(if omode AND O_TRUNC \<noteq> 0 \<and> i_type (the_inode s1 ip) = T_FILE then in_fs0 (itrunc_at B sb ip) s4 else Inr s4) = Inr s5" and
        rest5: "bindE (in_fs0 (iunlock me (Some ip)) s5) (\<lambda>s. Inr (int n, end_op s)) = Inr (r, s')"
        unfolding bindE_eq_Inr [of "if _ then _ else _"] by blast
      define k2 where "k2 = kfs s5"
      have tr: "if omode AND O_TRUNC \<noteq> 0 \<and> i_type (the_inode s1 ip) = T_FILE then itrunc_at B sb ip (kfs s1) = Inr k2 else k2 = kfs s1"
        and "s5 = s4\<lparr>kfs := k2\<rparr>" using tr5 s4 by (auto simp: k2_def in_fs0_eq split: if_splits)
      with rest5 have rest: "bindE (in_fs0 (iunlock me (Some ip)) (s3\<lparr>ftable := (ftable s2)[f := x], kfs := k2\<rparr>))
          (\<lambda>s. Inr (int n, end_op s)) = Inr (r, s')" by (simp add: s4_def)
      from rest obtain k3 where ul: "iunlock me (Some ip) k2 = Inr k3" and r: "r = int n"
        and s': "s' = end_op (s3\<lparr>ftable := (ftable s2)[f := x], kfs := k3\<rparr>)" by (auto simp: call_simps)
      have own2: "owns_call s {#(ip, k), own_cwd s#} (?L[ip := Some me]) k2"
        using tr own owns_itrunc_at [OF own, of ip k] by (auto split: if_splits)
      from owns_iunlock [OF own2 _ ul, of k] free have own3: "owns_call s {#(ip, k), own_cwd s#} ?L k3" by simp
      have "i_type (itable k2 ! ip) = i_type (the_inode s1 ip)"
      proof -
        have "ip < length (itable (kfs s1))" using owns_call_refs(2) [OF own] by (simp add: ilive_def)
        then show ?thesis using tr by (auto simp: itrunc_at_def bindE_eq_Inr split: if_splits dest!: itrunc_type)
      qed
      then have ty: "i_type (the_inode s' ip) = i_type (the_inode s1 ip)"
        using ul owns_call_refs(2) [OF own2] by (auto simp: s' iunlock_def ilive_def Let_def split: if_splits)
      have xf: "f_ref x = 1" "f_ip x = ip" "f_type x = (if i_type (the_inode s1 ip) = T_DEVICE then FD_DEVICE else FD_INODE)"
        using f0 x0 by (simp_all add: x_def init_file_def Let_def)
      have used: "in_use s' = (in_use s)[f := Some x]"
        using in_use_update [OF f0(1), of s' x] f0(3) xf(1) by (simp add: s' s3_def)
      have "owns_call s (add_mset (own_cwd s) {#(ip, k)#}) ?L k3" using own3 by (simp add: add_mset_commute)
      note stable = owns_end_stable [OF ok this]
      have lf: "f < length (in_use s)" "ofile s' = (ofile s)[n := Some f]" using f0(1) by (simp_all add: in_use_def s' s3_def)
      have "f_type x = (if i_type (the_inode s' ip) = T_DEVICE then FD_DEVICE else FD_INODE)" using xf(3) ty by simp
      with r Some lf in_use_free [OF f0(1,2)] used xf(1,2)
      have head: "\<exists>n f x. r = int n \<and> find_idx (\<lambda>x. x = None) (ofile s) = Some n \<and> ofile s' = (ofile s)[n := Some f] \<and>
        f < length (in_use s) \<and> in_use s ! f = None \<and> in_use s' = (in_use s)[f := Some x] \<and> f_ref x = 1 \<and> f_ip x = ip \<and>
        f_type x = (if i_type (the_inode s' ip) = T_DEVICE then FD_DEVICE else FD_INODE)" by blast
      have "opened s r ip s'" unfolding opened_def
        by (rule conjI [OF head]) (use owns_call_refs [OF own3] ownsD(1,4) [OF own3] owns_ikey [OF own3] s2 stable in
            \<open>simp add: stays_def s' s3_def\<close>)
      with ty show ?thesis by simp
    qed
  qed
qed

text \<open>\<open>iput\<close> keeps the type of every inode that stays in use.\<close>

lemma iput_type_live:
  assumes "i_type (itable k ! j) = ty" and run: "iput B sb me i k = Inr k'" and ok: "table_ok (itable k)"
    and l: "ilive k i" "ilive k' j"
  shows "i_type (itable k' ! j) = ty"
proof (cases "i_ref (itable k ! i) = 1 \<and> i_valid (itable k ! i) \<and> i_nlink (itable k ! i) = 0")
  case False
  with run assms(1) l show ?thesis by (cases "j = i") (auto simp: iput_def Let_def ilive_def)
next
  case True
  with run obtain x d where t: "itrunc B sb ((itable k ! i)\<lparr>i_lock := Some me\<rparr>) (disk k) = Inr (x, d)"
    and e: "itable k' = (itable k)[i := x\<lparr>i_type := 0, i_valid := False, i_lock := None, i_ref := i_ref x - 1\<rparr>]"
    using l by (auto simp: iput_def Let_def bindE_eq_Inr ilive_def split: if_splits)
  show ?thesis
  proof (cases "j = i")
    case True
    with l e itrunc_ident [OF t] \<open>_ = 1 \<and> _ \<and> _\<close> show ?thesis by (simp add: ilive_def)
  qed (use e assms(1) in simp)
qed

section \<open>An example process\<close>

text \<open>A process whose working directory is the example directory, with no file open; and a table of files with
  the two operations on it that opening uses.\<close>

definition ex_fileops :: "'d fileops" where
  "ex_fileops = \<lparr>filealloc = (\<lambda>s. case find_idx (\<lambda>f. f_ref f = 0) (ftable s) of None \<Rightarrow> (None, s)
       | Some f \<Rightarrow> (Some f, s\<lparr>ftable := (ftable s)[f := (ftable s ! f)\<lparr>f_ref := 1, f_type := FD_NONE\<rparr>]\<rparr>)),
     filedup = (\<lambda>f s. Inr s), fileclose = (\<lambda>f s. Inr (s\<lparr>ftable := (ftable s)[f := (ftable s ! f)\<lparr>f_ref := 0\<rparr>]\<rparr>)),
     fileread = (\<lambda>f p n s. Inr (-1, s)), filewrite = (\<lambda>f p n s. Inr (-1, s)), filestat = (\<lambda>f p s. Inr (-1, s)),
     pipealloc = (\<lambda>s. (None, s)), copyout_int = (\<lambda>a v s. (0, s)), t_symlink = 4, o_nofollow = 0x800\<rparr>"

lemma ex_fileops_ok: "fileops_ok ex_fileops"
  unfolding fileops_ok_def by (auto simp: ex_fileops_def find_idx_Some split: option.splits)

definition ex_file :: ofile_t where
  "ex_file = \<lparr>f_type = FD_NONE, f_ref = 0, f_readable = False, f_writable = False, f_pipe = None, f_ip = 0, f_off = 0, f_major = 0\<rparr>"

definition ex_sys :: "(u32 \<Rightarrow> u32 \<Rightarrow> u8 list) sys" where
  "ex_sys = \<lparr>kfs = ex_cwd, ftable = [ex_file], ofile = replicate 16 None, cwd = 0, ops = 0\<rparr>"

lemma ex_sys_ok: "table_ok (itable (kfs ex_sys))" "ilive (kfs ex_sys) (cwd ex_sys)"
  using ex_cwd_ok by (simp_all add: ex_sys_def)

lemma skip_empty: "skipelem [] name = None"
  by (simp add: skipelem_def cbyte_def)

section \<open>Properties\<close>

lemma link_unlink_keep:
  assumes "table_ok (itable (kfs s))" and "ilive (kfs s) (cwd s)"
    and "sys_link B sb me junk name old new s = Inr (r, s') \<or> sys_unlink B sb me name old s = Inr (r, s')"
  shows "balanced s s'"
  using assms(3)
proof
  assume run: "sys_link B sb me junk name old new s = Inr (r, s')"
  show ?thesis
  proof (cases "old = None \<or> new = None")
    case True
    with run assms(1) show ?thesis by (auto simp: sys_link_def balanced_def stays_def split: option.splits)
  next
    case False
    with sys_link_balanced [OF assms(1,2) run] show ?thesis by auto
  qed
next
  assume run: "sys_unlink B sb me name old s = Inr (r, s')"
  show ?thesis
  proof (cases old)
    case None
    with run assms(1) show ?thesis by (auto simp: sys_unlink_def balanced_def stays_def in_use_def)
  next
    case (Some p)
    with sys_unlink_balanced [OF assms(1,2) run] show ?thesis by auto
  qed
qed

text \<open>C14: \<open>link\<close> and \<open>unlink\<close> give back what they take: on every path on which they return, success or failure, no inode
  reference is lost or leaked, every lock is as it was, the transaction is closed, and the descriptors and the working
  directory are unchanged.\<close>

theorem link_unlink_balanced:
  assumes "table_ok (itable (kfs s))" and "ilive (kfs s) (cwd s)"
    and "sys_link B sb me junk name old new s = Inr (r, s') \<or> sys_unlink B sb me name old s = Inr (r, s')"
  shows "balanced s s'"
  using assms by (rule link_unlink_keep)

theorem link_unlink_balanced_witness:
  "\<exists>s'. sys_unlink ram_bio ex_sb 7 (replicate 14 0) (Some [46]) ex_sys = Inr (-1, s') \<and> balanced ex_sys s'"
proof -
  have sk: "skipelem [46] (replicate 14 0) = Some ([], 46 # replicate 13 0)"
    by (simp add: skipelem_def cbyte_def blit_def Let_def replicate_13)
  have dot: "namecmp (46 # replicate 13 0) [46] = 0"
    by (simp add: namecmp_def cbyte_def numeral_eq_Suc)
  have "\<exists>s'. sys_unlink ram_bio ex_sb 7 (replicate 14 0) (Some [46]) ex_sys = Inr (-1, s')"
    by (simp add: sys_unlink_def nameiparent_def namex_def cbyte_def idup_def ex_sys_def ex_cwd_def namex_loop.simps [of _ _ _ _ _ "[46]"] sk dot
        ilock_def iunlock_def iunlockput_def iput_def ex_dp_def ex_ip_def Let_def in_fs_def in_fs0_def begin_op_def end_op_def)
  with link_unlink_balanced [OF ex_sys_ok] show ?thesis by blast
qed

lemma create_calls_keep:
  assumes "table_ok (itable (kfs s))" and "ilive (kfs s) (cwd s)"
    and "sys_mkdir B sb me name path s = Inr (r, s') \<or> sys_mknod B sb me name path major minor s = Inr (r, s') \<or>
      sys_symlink F B sb me name target path s = Inr (r, s')"
  shows "balanced s s'"
proof (cases path)
  case None
  with assms show ?thesis
    by (auto simp: sys_mkdir_def sys_mknod_def sys_symlink_def balanced_def stays_def in_use_def Let_def split: option.splits)
next
  case (Some p)
  show ?thesis
  proof (cases "sys_symlink F B sb me name target path s = Inr (r, s') \<and> target = None")
    case True
    with assms show ?thesis by (auto simp: sys_symlink_def balanced_def stays_def in_use_def Let_def)
  next
    case False
    with assms(3) Some sys_mkdir_balanced [OF assms(1,2)] sys_mknod_balanced [OF assms(1,2)]
      sys_symlink_balanced [OF assms(1,2)] show ?thesis by auto
  qed
qed

text \<open>\<open>mkdir\<close>, \<open>mknod\<close> and \<open>symlink\<close>, which all go through \<open>create\<close>, give back what they take on every path on which
  they return, also where the new directory could not be filled or entered and the inode is given up again.\<close>

theorem create_calls_balanced:
  assumes "table_ok (itable (kfs s))" and "ilive (kfs s) (cwd s)"
    and "sys_mkdir B sb me name path s = Inr (r, s') \<or> sys_mknod B sb me name path major minor s = Inr (r, s') \<or>
      sys_symlink F B sb me name target path s = Inr (r, s')"
  shows "balanced s s'"
  using assms by (rule create_calls_keep)

theorem create_calls_balanced_witness:
  "\<exists>s'. sys_mkdir ram_bio ex_sb 7 (replicate 14 0) (Some []) ex_sys = Inr (-1, s') \<and> balanced ex_sys s'"
proof -
  have "\<exists>s'. sys_mkdir ram_bio ex_sb 7 (replicate 14 0) (Some []) ex_sys = Inr (-1, s')"
    by (simp add: sys_mkdir_def create_def nameiparent_def namex_def cbyte_def idup_def ex_sys_def ex_cwd_def
        namex_loop.simps [of _ _ _ _ _ "[]"] skip_empty iput_def ex_dp_def ex_ip_def Let_def in_fs_def begin_op_def)
  with create_calls_balanced [OF ex_sys_ok, of ram_bio ex_sb 7 "replicate 14 0" "Some []" _ _ 0 0 ex_fileops None] show ?thesis by blast
qed

lemma sys_chdir_spec:
  assumes ok: "table_ok (itable (kfs s))" "ilive (kfs s) (cwd s)" and run: "sys_chdir B sb me name path s = Inr (r, s')"
  shows "r = -1 \<and> balanced s s' \<or>
    r = 0 \<and> ilive (kfs s') (cwd s') \<and> i_type (the_inode s' (cwd s')) = T_DIR \<and> table_ok (itable (kfs s')) \<and>
    (\<forall>k. irefs (itable (kfs s')) k = irefs (itable (kfs s)) k - ref1 (ikey (the_inode s (cwd s))) k
       + ref1 (ikey (the_inode s' (cwd s'))) k) \<and>
    (\<forall>i. ilive (kfs s) i \<longrightarrow> i \<noteq> cwd s \<or> 1 < irefs (itable (kfs s)) (ikey (the_inode s (cwd s))) \<longrightarrow> stays s s' i) \<and>
    ilocks (kfs s') = ilocks (kfs s) \<and> ops s' = ops s \<and> ofile s' = ofile s \<and> in_use s' = in_use s"
proof (cases path)
  case None
  with run ok(1) show ?thesis by (auto simp: sys_chdir_def balanced_def stays_def in_use_def Let_def)
next
  case path: (Some p1)
  let ?L = "ilocks (kfs s)" let ?kw = "ikey (the_inode s (cwd s))"
  from run path obtain p k1 where ni: "namei B sb me (cwd s) name p1 (kfs s) = Inr (p, k1)" by (auto simp: sys_chdir_def call_simps)
  note own1 = owns_namei [OF owns_call_start [OF ok] _ ni, of ?kw, simplified]
  show ?thesis
  proof (cases p)
    case None
    with run path ni own1 balancedI [OF ok, of k1] show ?thesis by (auto simp: sys_chdir_def call_simps)
  next
    case (Some ip)
    define ki where "ki = ikey (itable k1 ! ip)"
    from own1 Some have "owns_call s {#(ip, ki), own_cwd s#} ?L k1" by (simp add: ki_def)
    moreover from run path ni Some obtain k2 where lk: "ilock B sb me (Some ip) k1 = Inr k2" by (auto simp: sys_chdir_def call_simps)
    ultimately have own2: "owns_call s {#(ip, ki), own_cwd s#} (?L[ip := Some me]) k2" and free: "?L ! ip = None"
      using owns_ilock [of _ "{#(ip, ki), own_cwd s#}" ?L k1 ip ki] by auto
    show ?thesis
    proof (cases "i_type (itable k2 ! ip) = T_DIR")
      case False
      with run path ni Some lk obtain k3 where up: "iunlockput B sb me ip k2 = Inr k3" and r: "r = -1"
        "s' = end_op ((begin_op s)\<lparr>kfs := k3\<rparr>)" by (auto simp: sys_chdir_def call_simps)
      from owns_iunlockput [OF own2 up] free balancedI [OF ok, of k3] r show ?thesis by simp
    next
      case True
      with run path ni Some lk obtain k3 k4 where ul: "iunlock me (Some ip) k2 = Inr k3" and ip: "iput B sb me (cwd s) k3 = Inr k4"
        and r: "r = 0" "s' = (end_op ((begin_op s)\<lparr>kfs := k4\<rparr>))\<lparr>cwd := ip\<rparr>" by (auto simp: sys_chdir_def call_simps)
      have own3: "owns_call s {#(ip, ki), own_cwd s#} ?L k3" using owns_iunlock [OF own2 _ ul, of ki] free by simp
      then have "owns_call s {#own_cwd s, (ip, ki)#} ?L k3" by (simp add: add_mset_commute)
      from owns_iput [OF this ip] have own4: "owns_call s {#(ip, ki)#} ?L k4" .
      have l3: "ilive k3 ip" using ownsD(2) [OF own3, of ip ki] by simp
      have "i_type (itable k3 ! ip) = T_DIR" using ul True l3 by (auto simp: iunlock_def Let_def ilive_def split: if_splits)
      then have ty: "i_type (itable k4 ! ip) = T_DIR" by (rule iput_type_live [OF _ ip ownsD(1) [OF own3]])
        (use ownsD(2) [OF own4, of ip ki] ownsD(2) [OF own3, of "cwd s" ?kw] in simp_all)
      have refs: "irefs (itable k4) k = irefs (itable (kfs s)) k - ref1 ?kw k + ref1 ki k" for k
      proof -
        have "irefs (itable k4) k = irefs (itable (kfs s)) k - ref1 ?kw k + int (count (image_mset snd {#(ip, ki)#}) k)"
          using own4 unfolding owns_def all_but_refs by blast
        then show ?thesis by (simp add: ref1_def)
      qed
      show ?thesis using r ty refs ownsD [OF own4] owns_ikey [OF own4] owns_stable [OF ok own4] by (simp add: stays_def in_use_def)
    qed
  qed
qed

text \<open>C15: \<open>chdir\<close> either fails with -1 and changes no count, lock or descriptor, or makes a directory the working
  directory: it then moves exactly one reference from the old directory to the new one.\<close>

theorem sys_chdir_correct:
  assumes ok: "table_ok (itable (kfs s))" "ilive (kfs s) (cwd s)" and run: "sys_chdir B sb me name path s = Inr (r, s')"
  shows "r = -1 \<and> balanced s s' \<or>
    r = 0 \<and> ilive (kfs s') (cwd s') \<and> i_type (the_inode s' (cwd s')) = T_DIR \<and> table_ok (itable (kfs s')) \<and>
    (\<forall>k. irefs (itable (kfs s')) k = irefs (itable (kfs s)) k - ref1 (ikey (the_inode s (cwd s))) k
       + ref1 (ikey (the_inode s' (cwd s'))) k) \<and>
    (\<forall>i. ilive (kfs s) i \<longrightarrow> i \<noteq> cwd s \<or> 1 < irefs (itable (kfs s)) (ikey (the_inode s (cwd s))) \<longrightarrow> stays s s' i) \<and>
    ilocks (kfs s') = ilocks (kfs s) \<and> ops s' = ops s \<and> ofile s' = ofile s \<and> in_use s' = in_use s"
  using assms by (rule sys_chdir_spec)

theorem sys_chdir_correct_witness:
  "\<exists>s'. sys_chdir ram_bio ex_sb 7 (replicate 14 0) (Some []) ex_sys = Inr (0, s') \<and> ilive (kfs s') (cwd s')"
proof -
  have "\<exists>s'. sys_chdir ram_bio ex_sb 7 (replicate 14 0) (Some []) ex_sys = Inr (0, s')"
    by (simp add: sys_chdir_def namei_def namex_def cbyte_def idup_def ex_sys_def ex_cwd_def
        namex_loop.simps [of _ _ _ _ _ "[]"] skip_empty iput_def ilock_def iunlock_def ex_dp_def ex_ip_def Let_def in_fs_def in_fs0_def begin_op_def)
  then obtain s' where run: "sys_chdir ram_bio ex_sb 7 (replicate 14 0) (Some []) ex_sys = Inr (0, s')" by blast
  with sys_chdir_correct [OF ex_sys_ok run] show ?thesis by simp
qed

lemma sys_open_spec:
  assumes ok: "table_ok (itable (kfs s))" "ilive (kfs s) (cwd s)" and F: "fileops_ok F" and len: "length (ofile s) = 16"
    and run: "sys_open F B sb me locals junk path omode s = Inr (r, s')"
  shows "r = -1 \<and> balanced s s' \<or>
    (\<exists>ip. opened s r ip s' \<and> (i_type (the_inode s' ip) = t_symlink F \<longrightarrow> omode AND o_nofollow F \<noteq> 0))"
proof (cases path)
  case None
  with run ok(1) show ?thesis by (auto simp: sys_open_def balanced_def stays_def in_use_def)
next
  case path: (Some p1)
  let ?L = "ilocks (kfs s)" let ?nf = "omode AND o_nofollow F \<noteq> 0"
  from run path obtain p s1 where oi: "open_inode B sb me (locals 10) p1 omode (begin_op s) = Inr (p, s1)"
    by (auto simp: sys_open_def bindE_eq_Inr)
  note o1 = open_inode_owns [OF ok oi]
  show ?thesis
  proof (cases p)
    case None
    with run path oi have "r = -1" "s' = end_op s1" by (auto simp: sys_open_def)
    with None o1(2) balancedI [OF ok, of "kfs s1"] o1(1) show ?thesis by simp
  next
    case (Some ip)
    note own1 = o1(3) [OF Some]
    have c1: "cwd s1 = cwd s" by (subst o1(1)) simp
    from run path oi Some obtain q k2 where fo: "follow B sb me (cwd s) locals junk (t_symlink F) ?nf 0 ip (kfs s1) = Inr (q, k2)"
      by (auto simp: sys_open_def call_simps c1)
    define s2 where "s2 = (begin_op s)\<lparr>kfs := k2\<rparr>"
    have s2: "s1\<lparr>kfs := k2\<rparr> = s2" unfolding s2_def by (subst o1(1)) simp
    note own2 = owns_follow [OF fo conjunct1 [OF own1], where kw = "ikey (the_inode s (cwd s))"]
    show ?thesis
    proof (cases q)
      case None
      with run path oi Some fo have "r = -1" "s' = end_op s2" by (auto simp: sys_open_def call_simps c1 s2)
      with own2 own1 None balancedI [OF ok, of k2] show ?thesis by (simp add: s2_def)
    next
      case q: (Some jn)
      obtain j n where jn: "jn = (j, n)" by force
      from own2 own1 q jn have own3: "owns_call s {#(j, ikey (itable k2 ! j)), own_cwd s#} (?L[j := Some me]) k2"
        and free: "?L ! j = None" "j < length ?L" and ty: "i_type (itable k2 ! j) = t_symlink F \<longrightarrow> ?nf \<or> n = 10" by auto
      show ?thesis
      proof (cases "n \<ge> 10")
        case True
        with run path oi Some fo q jn obtain k3 where up: "iunlockput B sb me j k2 = Inr k3" and r: "r = -1"
          and s': "s' = end_op ((begin_op s)\<lparr>kfs := k3\<rparr>)" by (auto simp: sys_open_def call_simps c1 s2 s2_def)
        from owns_iunlockput [OF own3 up] free balancedI [OF ok, of k3] r s' show ?thesis by simp
      next
        case False
        with run path oi Some fo q jn have "open_file F B sb me j omode s2 = Inr (r, s')"
          by (auto simp: sys_open_def call_simps c1 s2)
        with open_file_spec [OF ok F len _ free, of "ikey (itable k2 ! j)" me s2 B sb omode r s'] own3 ty False
        show ?thesis by (auto simp: s2_def)
      qed
    qed
  qed
qed

text \<open>What \<open>open\<close> looks for: \<open>n\<close> links after the inode of the path comes the inode \<open>j\<close>, which is locked in the state \<open>t\<close>.\<close>

definition links_to :: "'d fileops \<Rightarrow> 'd bio \<Rightarrow> superblock \<Rightarrow> int \<Rightarrow> (nat \<Rightarrow> u8 list) \<Rightarrow> (nat \<Rightarrow> u8 list) \<Rightarrow> u8 list option \<Rightarrow> u32 \<Rightarrow>
    'd sys \<Rightarrow> nat \<Rightarrow> nat \<Rightarrow> 'd sys \<Rightarrow> bool" where
  "links_to F B sb me locals junk path omode s n j t \<longleftrightarrow> (\<exists>p ip s1 k. path = Some p \<and>
     open_inode B sb me (locals 10) p omode (begin_op s) = Inr (Some ip, s1) \<and>
     link_chain B sb me (cwd s1) locals junk (t_symlink F) ip (kfs s1) n j k \<and> t = s1\<lparr>kfs := k\<rparr>)"

lemma sys_open_reaches:
  assumes run: "sys_open F B sb me locals junk path omode s = Inr (r, s')" and "r \<noteq> -1"
  shows "\<exists>n j t. links_to F B sb me locals junk path omode s n j t \<and> n \<le> 10 \<and> open_file F B sb me j omode t = Inr (r, s') \<and>
    (if omode AND o_nofollow F \<noteq> 0 then n = 0 else i_type (the_inode t j) \<noteq> t_symlink F)"
proof -
  let ?nf = "omode AND o_nofollow F \<noteq> 0"
  from assms obtain p ip s1 where oi: "path = Some p" "open_inode B sb me (locals 10) p omode (begin_op s) = Inr (Some ip, s1)"
    by (auto simp: sys_open_def bindE_eq_Inr split: option.splits)
  with assms obtain j m k where fo: "follow B sb me (cwd s1) locals junk (t_symlink F) ?nf 0 ip (kfs s1) = Inr (Some (j, m), k)"
    by (auto simp: sys_open_def call_simps split: option.splits)
  with assms oi have m: "m < 10" and opf: "open_file F B sb me j omode (s1\<lparr>kfs := k\<rparr>) = Inr (r, s')"
    by (auto simp: sys_open_def call_simps split: if_splits)
  have lt: "links_to F B sb me locals junk path omode s n j (s1\<lparr>kfs := k\<rparr>)"
    if "link_chain B sb me (cwd s1) locals junk (t_symlink F) ip (kfs s1) n j k" for n
    using that oi unfolding links_to_def by blast
  show ?thesis
  proof (cases ?nf)
    case True
    with fo have "j = ip" "k = kfs s1" by (simp_all add: follow.simps)
    with lt [of 0] link_chain.here have "links_to F B sb me locals junk path omode s 0 j (s1\<lparr>kfs := k\<rparr>)" by metis
    with True opf show ?thesis by (intro exI [of _ 0] exI [of _ j] exI [of _ "s1\<lparr>kfs := k\<rparr>"]) simp
  next
    case False
    with fo have "follow B sb me (cwd s1) locals junk (t_symlink F) False 0 ip (kfs s1) = Inr (Some (j, m), k)" by simp
    from follow_chain [OF this link_chain.here _ m] obtain n where "n \<le> 10" "i_type (itable k ! j) \<noteq> t_symlink F"
      "link_chain B sb me (cwd s1) locals junk (t_symlink F) ip (kfs s1) n j k" by auto
    with lt opf False show ?thesis by (intro exI [of _ n] exI [of _ j] exI [of _ "s1\<lparr>kfs := k\<rparr>"]) simp
  qed
qed

lemma sys_open_of_chain:
  assumes "links_to F B sb me locals junk path omode s n j t" and "n \<le> 10" and "omode AND o_nofollow F = 0"
  shows "i_type (the_inode t j) \<noteq> t_symlink F \<Longrightarrow> sys_open F B sb me locals junk path omode s = open_file F B sb me j omode t"
    and "n = 10 \<Longrightarrow> i_type (the_inode t j) = t_symlink F \<Longrightarrow>
      sys_open F B sb me locals junk path omode s = bindE (in_fs0 (iunlockput B sb me j) t) (\<lambda>s. Inr (-1, end_op s))"
proof -
  from assms(1) obtain p ip s1 k where oi: "path = Some p" "open_inode B sb me (locals 10) p omode (begin_op s) = Inr (Some ip, s1)"
    and ch: "link_chain B sb me (cwd s1) locals junk (t_symlink F) ip (kfs s1) n j k" and t: "t = s1\<lparr>kfs := k\<rparr>"
    by (auto simp: links_to_def)
  note f = chain_follow [OF ch assms(2)]
  show "sys_open F B sb me locals junk path omode s = open_file F B sb me j omode t" if "i_type (the_inode t j) \<noteq> t_symlink F"
  proof -
    have "\<not> 10 \<le> n - Suc 0" using assms(2) by simp
    with that f assms(3) show ?thesis by (simp add: sys_open_def oi in_fs_def t follow.simps [of _ _ _ _ _ _ _ _ 0 j])
  qed
  show "sys_open F B sb me locals junk path omode s = bindE (in_fs0 (iunlockput B sb me j) t) (\<lambda>s. Inr (-1, end_op s))"
    if "n = 10" "i_type (the_inode t j) = t_symlink F"
    using that f assms(3) by (simp add: sys_open_def oi in_fs_def t follow.simps [of _ _ _ _ _ _ _ _ 10 j])
qed

text \<open>C16: \<open>open\<close> either fails with -1 and leaves every reference count, lock, descriptor, open file and the transactions as they were (on disk a
  file that it created stays), or returns the least free descriptor, open on an inode to which exactly one reference was added and which is unlocked again.
  It follows ten links and no more: with \<open>O_NOFOLLOW\<close> the inode is that of the path, otherwise it is no link and is reached from the path by at most ten
  links; an inode that is no link is opened if ten or fewer links lead to it, and a link after ten links is an error.\<close>

theorem sys_open_correct:
  assumes ok: "table_ok (itable (kfs s))" "ilive (kfs s) (cwd s)" and F: "fileops_ok F" and len: "length (ofile s) = 16"
    and run: "sys_open F B sb me locals junk path omode s = Inr (r, s')"
  shows "(r = -1 \<and> balanced s s' \<or>
      (\<exists>ip. opened s r ip s' \<and> (i_type (the_inode s' ip) = t_symlink F \<longrightarrow> omode AND o_nofollow F \<noteq> 0))) \<and>
    (r \<noteq> -1 \<longrightarrow> (\<exists>n j t. links_to F B sb me locals junk path omode s n j t \<and> n \<le> 10 \<and> open_file F B sb me j omode t = Inr (r, s') \<and>
      (if omode AND o_nofollow F \<noteq> 0 then n = 0 else i_type (the_inode t j) \<noteq> t_symlink F))) \<and>
    (omode AND o_nofollow F = 0 \<longrightarrow> (\<forall>n j t. links_to F B sb me locals junk path omode s n j t \<longrightarrow> n \<le> 10 \<longrightarrow>
      (i_type (the_inode t j) \<noteq> t_symlink F \<longrightarrow> open_file F B sb me j omode t = Inr (r, s')) \<and>
      (i_type (the_inode t j) = t_symlink F \<longrightarrow> n = 10 \<longrightarrow> r = -1)))"
proof (intro conjI impI allI)
  show "r = -1 \<and> balanced s s' \<or> (\<exists>ip. opened s r ip s' \<and> (i_type (the_inode s' ip) = t_symlink F \<longrightarrow> omode AND o_nofollow F \<noteq> 0))"
    using assms by (rule sys_open_spec)
  show "\<exists>n j t. links_to F B sb me locals junk path omode s n j t \<and> n \<le> 10 \<and> open_file F B sb me j omode t = Inr (r, s') \<and>
      (if omode AND o_nofollow F \<noteq> 0 then n = 0 else i_type (the_inode t j) \<noteq> t_symlink F)" if "r \<noteq> -1"
    using run that by (rule sys_open_reaches)
  fix n j t
  assume l: "links_to F B sb me locals junk path omode s n j t" "n \<le> 10" and nf: "omode AND o_nofollow F = 0"
  show "open_file F B sb me j omode t = Inr (r, s')" if "i_type (the_inode t j) \<noteq> t_symlink F"
    using run sys_open_of_chain(1) [OF l nf that] by simp
  show "r = -1" if "i_type (the_inode t j) = t_symlink F" "n = 10"
    using run sys_open_of_chain(2) [OF l nf that(2,1)] by (auto simp: bindE_eq_Inr)
qed

theorem sys_open_correct_witness:
  "\<exists>s' ip. sys_open ex_fileops ram_bio ex_sb 7 (\<lambda>_. replicate 14 0) (\<lambda>_. replicate 128 0) (Some []) 0 ex_sys = Inr (0, s') \<and>
     opened ex_sys 0 ip s'"
proof -
  have fd0: "fdalloc_from 16 0 (replicate 16 None) = Some 0" by (simp add: numeral_eq_Suc)
  have "\<exists>s'. sys_open ex_fileops ram_bio ex_sb 7 (\<lambda>_. replicate 14 0) (\<lambda>_. replicate 128 0) (Some []) 0 ex_sys = Inr (0, s')"
    by (simp add: sys_open_def open_inode_def open_file_def follow.simps namei_def namex_def cbyte_def idup_def ex_sys_def ex_cwd_def
        namex_loop.simps [of _ _ _ _ _ "[]"] skip_empty iput_def ilock_def iunlock_def ex_dp_def ex_ip_def Let_def in_fs_def in_fs0_def
        begin_op_def ex_fileops_def ex_file_def fdalloc_def fd0)
  then obtain s' where run: "sys_open ex_fileops ram_bio ex_sb 7 (\<lambda>_. replicate 14 0) (\<lambda>_. replicate 128 0) (Some []) 0 ex_sys = Inr (0, s')"
    by blast
  have "length (ofile ex_sys) = 16" by (simp add: ex_sys_def)
  from sys_open_correct [OF ex_sys_ok ex_fileops_ok this run] run show ?thesis by auto
qed

section \<open>The calls of HW3\<close>

text \<open>\<open>HW3/source/sysfile.c\<close> has the same calls without symbolic links: its \<open>sys_open\<close> is this one.\<close>

definition hw3_sys_open :: "'d fileops \<Rightarrow> 'd bio \<Rightarrow> superblock \<Rightarrow> int \<Rightarrow> u8 list \<Rightarrow> u8 list option \<Rightarrow> u32 \<Rightarrow> 'd sys \<Rightarrow> (int \<times> 'd sys) res" where
  "hw3_sys_open F B sb me name path omode s =
     (case path of None \<Rightarrow> Inr (-1, s)
      | Some path \<Rightarrow>
        bindE (open_inode B sb me name path omode (begin_op s)) (\<lambda>(p, s).
        case p of None \<Rightarrow> Inr (-1, end_op s) | Some ip \<Rightarrow> open_file F B sb me ip omode s))"

text \<open>With \<open>O_NOFOLLOW\<close>, or when the inode is no link, the \<open>open\<close> of HW4 does what that of HW3 does.\<close>

lemma in_fs_follow_same:
  assumes "nofollow \<or> i_type (the_inode s ip) \<noteq> symlink"
  shows "in_fs (follow B sb me wd locals junk symlink nofollow retry ip) s = Inr (Some (ip, retry), s)"
  using assms by (auto simp: in_fs_def follow.simps)

lemma sys_open_nofollow:
  assumes "omode AND o_nofollow F \<noteq> 0"
  shows "sys_open F B sb me locals junk path omode s = hw3_sys_open F B sb me (locals 10) path omode s"
  using assms
  by (auto simp: sys_open_def hw3_sys_open_def in_fs_follow_same split: option.split intro!: arg_cong [where f = "bindE _"] ext)

lemma sys_open_no_link:
  assumes "\<And>p s' ip. path = Some p \<Longrightarrow> open_inode B sb me (locals 10) p omode (begin_op s) = Inr (Some ip, s') \<Longrightarrow> i_type (the_inode s' ip) \<noteq> t_symlink F"
  shows "sys_open F B sb me locals junk path omode s = hw3_sys_open F B sb me (locals 10) path omode s"
proof (cases path)
  case (Some p)
  show ?thesis
  proof (cases "open_inode B sb me (locals 10) p omode (begin_op s)")
    case (Inr q)
    obtain r s' where "q = (r, s')" by (cases q)
    then show ?thesis using assms [of p _ s'] Some Inr
      by (cases r) (simp_all add: sys_open_def hw3_sys_open_def in_fs_follow_same)
  qed (simp add: Some sys_open_def hw3_sys_open_def)
qed (simp add: sys_open_def hw3_sys_open_def)

end
