(* ===== verification/Machine.thy ===== *)
theory Machine
  imports Main
begin

text \<open>
  Transition systems: the states a machine can reach, invariants (the locale \<open>transition_system\<close>), refinement of an
  abstract machine (\<open>refined_system\<close>) and runs that must end (\<open>winding_down\<close>). The kernel's processes, the regions of a process and the
  game interpret these locales.
\<close>

section \<open>Transition systems\<close>

inductive reach :: "('s \<Rightarrow> bool) \<Rightarrow> ('s \<Rightarrow> 's \<Rightarrow> bool) \<Rightarrow> 's \<Rightarrow> bool" for init :: "'s \<Rightarrow> bool" and step :: "'s \<Rightarrow> 's \<Rightarrow> bool" where
  reach_init: "init s \<Longrightarrow> reach init step s"
| reach_step: "reach init step s \<Longrightarrow> step s s' \<Longrightarrow> reach init step s'"

locale transition_system =
  fixes init :: "'s \<Rightarrow> bool" and step :: "'s \<Rightarrow> 's \<Rightarrow> bool" and inv :: "'s \<Rightarrow> bool"
  assumes init_inv: "init s \<Longrightarrow> inv s"
    and step_inv: "inv s \<Longrightarrow> step s s' \<Longrightarrow> inv s'"
begin

lemma reach_inv: "reach init step s \<Longrightarrow> inv s"
  by (induction rule: reach.induct) (auto intro: init_inv step_inv)

lemma steps_inv: "step\<^sup>*\<^sup>* s s' \<Longrightarrow> inv s \<Longrightarrow> inv s'"
  by (induction rule: rtranclp_induct) (auto intro: step_inv)

end

text \<open>Steps that lead to a smaller rank, from states that are \<open>over\<close> to such states: no run from one of them is infinite.\<close>

locale winding_down =
  fixes over :: "'s \<Rightarrow> bool" and step :: "'s \<Rightarrow> 's \<Rightarrow> bool" and rank :: "'s \<Rightarrow> nat"
  assumes over_step: "over s \<Longrightarrow> step s s' \<Longrightarrow> over s'"
    and rank_step: "over s \<Longrightarrow> step s s' \<Longrightarrow> rank s' < rank s"
begin

lemma run_rank: "over (f 0) \<Longrightarrow> (\<And>n. n < k \<Longrightarrow> step (f n) (f (Suc n))) \<Longrightarrow> over (f k) \<and> rank (f k) + k \<le> rank (f 0)"
proof (induction k)
  case (Suc k)
  then have k: "over (f k)" "rank (f k) + k \<le> rank (f 0)" "step (f k) (f (Suc k))" by simp_all
  from over_step [OF k(1,3)] rank_step [OF k(1,3)] k(2) show ?case by simp
qed simp

lemma run_bound: "over (f 0) \<Longrightarrow> (\<And>n. n < k \<Longrightarrow> step (f n) (f (Suc n))) \<Longrightarrow> k \<le> rank (f 0)"
  using run_rank [of f k] by simp

end

text \<open>An invariant that is kept by an abstract machine is kept by every machine that refines it.\<close>

locale refined_system = abstract: transition_system ainit astep ainv
  for ainit :: "'a \<Rightarrow> bool" and astep :: "'a \<Rightarrow> 'a \<Rightarrow> bool" and ainv :: "'a \<Rightarrow> bool" +
  fixes cinit :: "'c \<Rightarrow> bool" and cstep :: "'c \<Rightarrow> 'c \<Rightarrow> bool" and abs :: "'c \<Rightarrow> 'a"
  assumes refines_init: "cinit s \<Longrightarrow> ainit (abs s)"
    and refines_step: "cstep s s' \<Longrightarrow> astep (abs s) (abs s')"
begin

lemma concrete_inv: "reach cinit cstep s \<Longrightarrow> ainv (abs s)"
  by (induction rule: reach.induct) (auto intro: refines_init refines_step abstract.init_inv abstract.step_inv)

lemma concrete_reach: "reach cinit cstep s \<Longrightarrow> reach ainit astep (abs s)"
  by (induction rule: reach.induct) (auto intro: refines_init refines_step reach.intros)

end

end
