(* ===== verification/Call_Runs.thy ===== *)
theory Call_Runs
  imports Sysfile Machine
begin

text \<open>
  Sequences of file-system calls of \<open>HW4/source/sysfile.c\<close> by a process. Between two calls every reference to an entry of the inode table is that
  of an open file or of the working directory, every reference to an open file is that of a descriptor, no inode is locked and no
  transaction is open (an interpretation of \<open>transition_system\<close>): what one call takes and keeps, a later one gives back.
\<close>

section \<open>What the calls rely on in file.c and pipe.c\<close>

definition same_file :: "ofile_t \<Rightarrow> ofile_t \<Rightarrow> bool" where
  "same_file x y \<longleftrightarrow> f_type y = f_type x \<and> f_ref y = f_ref x \<and> f_ip y = f_ip x"

text \<open>An operation that gives back what it takes, and of an open file at most moves the offset.\<close>

definition neutral :: "'d sys \<Rightarrow> 'd sys \<Rightarrow> bool" where
  "neutral s s' \<longleftrightarrow> (table_ok (itable (kfs s)) \<longrightarrow> table_ok (itable (kfs s'))) \<and> ilocks (kfs s') = ilocks (kfs s) \<and>
     irefs (itable (kfs s')) = irefs (itable (kfs s)) \<and> (\<forall>i. ilive (kfs s) i \<longrightarrow> stays s s' i) \<and> ops s' = ops s \<and> cwd s' = cwd s \<and>
     ofile s' = ofile s \<and> list_all2 (rel_option same_file) (in_use s) (in_use s')"

text \<open>\<open>fileclose\<close> gives the inode back with the last reference to the file.\<close>

definition closes :: "'d bio \<Rightarrow> superblock \<Rightarrow> int \<Rightarrow> nat \<Rightarrow> 'd sys \<Rightarrow> 'd sys \<Rightarrow> bool" where
  "closes B sb me f s s' \<longleftrightarrow> (let x = ftable s ! f in
     f < length (ftable s) \<and> 1 \<le> f_ref x \<and> ops s' = ops s \<and> cwd s' = cwd s \<and> ofile s' = ofile s \<and>
     (if 1 < f_ref x then kfs s' = kfs s \<and> ftable s' = (ftable s)[f := x\<lparr>f_ref := f_ref x - 1\<rparr>]
      else (\<exists>y. ftable s' = (ftable s)[f := y] \<and> f_ref y = 0) \<and>
        (if f_type x = FD_INODE \<or> f_type x = FD_DEVICE then iput B sb me (f_ip x) (kfs s) = Inr (kfs s') else kfs s' = kfs s)))"

definition makes_pipe :: "nat \<Rightarrow> nat \<Rightarrow> 'd sys \<Rightarrow> 'd sys \<Rightarrow> bool" where
  "makes_pipe a b s s' \<longleftrightarrow> a \<noteq> b \<and> a < length (in_use s) \<and> b < length (in_use s) \<and> in_use s ! a = None \<and> in_use s ! b = None \<and>
     (\<exists>x y. in_use s' = (in_use s)[a := Some x, b := Some y] \<and> f_type x = FD_PIPE \<and> f_type y = FD_PIPE \<and> f_ref x = 1 \<and> f_ref y = 1) \<and>
     kfs s' = kfs s \<and> ops s' = ops s \<and> cwd s' = cwd s \<and> ofile s' = ofile s"

definition file_counts :: "'d fileops \<Rightarrow> 'd bio \<Rightarrow> superblock \<Rightarrow> int \<Rightarrow> bool" where
  "file_counts F B sb me \<longleftrightarrow> fileops_ok F \<and>
     (\<forall>f s s'. filedup F f s = Inr s' \<longrightarrow> f < length (ftable s) \<and> 1 \<le> f_ref (ftable s ! f) \<and>
        s' = s\<lparr>ftable := (ftable s)[f := (ftable s ! f)\<lparr>f_ref := f_ref (ftable s ! f) + 1\<rparr>]\<rparr>) \<and>
     (\<forall>f s s'. fileclose F f s = Inr s' \<longrightarrow> closes B sb me f s s') \<and>
     (\<forall>f a n s r s'. fileread F f a n s = Inr (r, s') \<longrightarrow> neutral s s') \<and>
     (\<forall>f a n s r s'. filewrite F f a n s = Inr (r, s') \<longrightarrow> neutral s s') \<and>
     (\<forall>f a s r s'. filestat F f a s = Inr (r, s') \<longrightarrow> neutral s s') \<and>
     (\<forall>a v s r s'. copyout_int F a v s = (r, s') \<longrightarrow> neutral s s') \<and>
     (\<forall>s s'. pipealloc F s = (None, s') \<longrightarrow> neutral s s') \<and>
     (\<forall>s a b s'. pipealloc F s = (Some (a, b), s') \<longrightarrow> makes_pipe a b s s')"

lemma file_counts_dest:
  assumes "file_counts F B sb me"
  shows "fileops_ok F" "fileclose F f s = Inr s' \<Longrightarrow> closes B sb me f s s'"
    "filedup F f s = Inr s' \<Longrightarrow> f < length (ftable s) \<and> 1 \<le> f_ref (ftable s ! f) \<and>
      s' = s\<lparr>ftable := (ftable s)[f := (ftable s ! f)\<lparr>f_ref := f_ref (ftable s ! f) + 1\<rparr>]\<rparr>"
    "fileread F f a n s = Inr (r, s') \<Longrightarrow> neutral s s'" "filewrite F f a n s = Inr (r, s') \<Longrightarrow> neutral s s'"
    "filestat F f a s = Inr (r, s') \<Longrightarrow> neutral s s'" "copyout_int F a v s = (r, s') \<Longrightarrow> neutral s s'"
    "pipealloc F s = (None, s') \<Longrightarrow> neutral s s'" "pipealloc F s = (Some (c, d), s') \<Longrightarrow> makes_pipe c d s s'"
  using assms unfolding file_counts_def by (elim conjE, metis)+

section \<open>The invariant\<close>

text \<open>The entries of the inode table that open files and the working directory refer to, once for each reference.\<close>

definition of_file :: "ofile_t option \<Rightarrow> nat multiset" where
  "of_file u = (case u of None \<Rightarrow> {#} | Some x \<Rightarrow> if f_type x = FD_INODE \<or> f_type x = FD_DEVICE then {#f_ip x#} else {#})"

definition holders :: "'d sys \<Rightarrow> nat multiset" where
  "holders s = add_mset (cwd s) (sum_list (map of_file (in_use s)))"

text \<open>The references to open files that the descriptors stand for.\<close>

definition uses :: "ofile_t option list \<Rightarrow> nat \<Rightarrow> int" where
  "uses U f = (if f < length U then case U ! f of None \<Rightarrow> 0 | Some x \<Rightarrow> f_ref x else 0)"

abbreviation key_of :: "'d sys \<Rightarrow> nat \<Rightarrow> u32 \<times> u32" where
  "key_of s i \<equiv> ikey (the_inode s i)"

definition refs_are :: "'d sys \<Rightarrow> nat multiset \<Rightarrow> bool" where
  "refs_are s H \<longleftrightarrow> table_ok (itable (kfs s)) \<and> (\<forall>i \<in># H. ilive (kfs s) i) \<and>
     (\<forall>k. irefs (itable (kfs s)) k = int (count (image_mset (key_of s) H) k))"

text \<open>\<open>E f\<close> is the number of references to \<open>f\<close> that are counted and are not those of a descriptor; it is 0 between calls.\<close>

definition between :: "(nat \<Rightarrow> int) \<Rightarrow> 'd sys \<Rightarrow> bool" where
  "between E s \<longleftrightarrow> refs_are s (holders s) \<and> set (ilocks (kfs s)) \<subseteq> {None} \<and> ops s = 0 \<and> length (ofile s) = 16 \<and>
     (\<forall>f. int (count (mset (ofile s)) (Some f)) + E f = uses (in_use s) f)"

abbreviation calls_ok :: "'d sys \<Rightarrow> bool" where
  "calls_ok s \<equiv> between (\<lambda>f. 0) s"

text \<open>References are taken and given back.\<close>

lemma refs_are_change:
  assumes old: "refs_are s (keep + out)" and ok: "table_ok (itable (kfs s'))" and keep: "\<And>i. i \<in># keep \<Longrightarrow> stays s s' i"
    and new: "\<And>i. i \<in># new \<Longrightarrow> ilive (kfs s') i"
    and refs: "\<And>k. irefs (itable (kfs s')) k = irefs (itable (kfs s)) k - int (count (image_mset (key_of s) out) k) +
      int (count (image_mset (key_of s') new) k)"
  shows "refs_are s' (keep + new)"
proof -
  have "image_mset (key_of s') keep = image_mset (key_of s) keep" using keep by (intro image_mset_cong) (simp add: stays_def)
  moreover have "irefs (itable (kfs s)) k = int (count (image_mset (key_of s) keep) k) + int (count (image_mset (key_of s) out) k)" for k
    using old by (simp add: refs_are_def del: split_paired_All)
  ultimately have "irefs (itable (kfs s')) k = int (count (image_mset (key_of s') (keep + new)) k)" for k
    using refs [of k] by simp
  moreover have "\<forall>i \<in># keep + new. ilive (kfs s') i" using keep new by (auto simp: stays_def)
  ultimately show ?thesis using ok by (simp only: refs_are_def) blast
qed

lemma count_ref1: "int (count (image_mset g {#i#}) k) = ref1 (g i) k"
  by (simp add: ref1_def)

text \<open>The count of an entry is the number of its holders.\<close>

lemma refs_are_count:
  assumes "refs_are s H" and i: "i < length (itable (kfs s))"
  shows "i_ref (the_inode s i) = int (count H i)"
proof (cases "ilive (kfs s) i")
  case False
  then have "i \<notin># H" using assms(1) by (auto simp: refs_are_def)
  moreover have "0 \<le> i_ref (the_inode s i)" using assms by (auto simp: refs_are_def table_ok_def)
  ultimately show ?thesis using False i by (simp add: ilive_def count_eq_zero_iff)
next
  case True
  have ok: "table_ok (itable (kfs s))" using assms(1) by (simp add: refs_are_def)
  have "i_ref (the_inode s i) = irefs (itable (kfs s)) (key_of s i)" using irefs_unique [OF ok i] True by (simp add: ilive_def)
  also have "\<dots> = int (count (image_mset (key_of s) H) (key_of s i))" using assms(1) by (simp add: refs_are_def del: split_paired_All)
  also have "count (image_mset (key_of s) H) (key_of s i) = count H i"
  proof -
    have "j = i" if "j \<in># H" "key_of s j = key_of s i" for j
      using that assms(1) live_unique [OF ok _ True] by (auto simp: refs_are_def)
    then have "filter_mset (\<lambda>j. key_of s j = key_of s i) H = filter_mset (\<lambda>j. j = i) H" by (intro filter_mset_cong) auto
    moreover have "count (image_mset (key_of s) H) (key_of s i) = size (filter_mset (\<lambda>j. key_of s j = key_of s i) H)"
      by (induction H) auto
    moreover have "size (filter_mset (\<lambda>j. j = i) H) = count H i" by (induction H) auto
    ultimately show ?thesis by simp
  qed
  finally show ?thesis .
qed

section \<open>Files and descriptors\<close>

lemma count_list_update:
  "n < length xs \<Longrightarrow> int (count (mset (xs[n := y])) z) = int (count (mset xs) z) - (if xs ! n = z then 1 else 0) + (if y = z then 1 else 0)"
  using count_greater_zero_iff [of "mset xs" "xs ! n"] by (auto simp: mset_update of_nat_diff)

lemma uses_update: "f < length U \<Longrightarrow> uses (U[f := u]) g = (if g = f then case u of None \<Rightarrow> 0 | Some x \<Rightarrow> f_ref x else uses U g)"
  by (simp add: uses_def)

lemma holders_in_use: "cwd s' = cwd s \<Longrightarrow> in_use s' = in_use s \<Longrightarrow> holders s' = holders s"
  by (simp add: holders_def)

lemma sum_list_update_mset:
  "n < length xs \<Longrightarrow> sum_list (map (g :: 'a \<Rightarrow> nat multiset) (xs[n := y])) + g (xs ! n) = sum_list (map g xs) + g y"
  by (induction xs arbitrary: n) (auto simp: nth_Cons split: nat.split)

text \<open>The holders when an entry of the file table changes: the rest, and the entry.\<close>

definition but :: "nat \<Rightarrow> 'd sys \<Rightarrow> nat multiset" where
  "but f s = add_mset (cwd s) (sum_list (map of_file ((in_use s)[f := None])))"

lemma holders_split:
  assumes "f < length (in_use s)"
  shows "holders s = but f s + of_file (in_use s ! f)"
    and "cwd s' = cwd s \<Longrightarrow> in_use s' = (in_use s)[f := u] \<Longrightarrow> holders s' = but f s + of_file u"
proof -
  have e: "of_file None = {#}" by (simp add: of_file_def)
  show "holders s = but f s + of_file (in_use s ! f)"
    using sum_list_update_mset [OF assms, of of_file None] by (simp add: holders_def but_def e)
  show "holders s' = but f s + of_file u" if "cwd s' = cwd s" "in_use s' = (in_use s)[f := u]"
    using sum_list_update_mset [of f "(in_use s)[f := None]" of_file u] assms that by (simp add: holders_def but_def e)
qed

lemma between_fdalloc:
  assumes b: "between E s" and al: "fdalloc f s = (fd, s')"
  shows "(fd < 0 \<and> s' = s) \<or> (\<exists>n < 16. fd = int n \<and> ofile s ! n = None \<and> s' = s\<lparr>ofile := (ofile s)[n := Some f]\<rparr> \<and> between (E(f := E f - 1)) s')"
proof -
  have len: "length (ofile s) = 16" using b by (simp add: between_def)
  show ?thesis
  proof (cases "find_idx (\<lambda>f. f = None) (ofile s)")
    case None
    with al len show ?thesis by (simp add: fdalloc_idx)
  next
    case (Some n)
    then have n: "n < 16" "ofile s ! n = None" using len by (simp_all add: find_idx_Some)
    have s': "s' = s\<lparr>ofile := (ofile s)[n := Some f]\<rparr>" "fd = int n" using al len Some by (auto simp: fdalloc_idx)
    have u: "in_use s' = in_use s" "holders s' = holders s" "kfs s' = kfs s" by (simp_all add: s' in_use_def holders_def)
    have "int (count (mset (ofile s')) (Some g)) + (E(f := E f - 1)) g = uses (in_use s') g" for g
      using b n len count_list_update [of n "ofile s" "Some f" "Some g"] unfolding u between_def by (simp add: s')
    with b u have "between (E(f := E f - 1)) s'" by (simp add: between_def refs_are_def s')
    with n s' show ?thesis by blast
  qed
qed

lemma between_clear:
  assumes b: "between E s" and n: "n < 16" "ofile s ! n = Some f"
  shows "between (E(f := E f + 1)) (s\<lparr>ofile := (ofile s)[n := None]\<rparr>)"
proof -
  let ?s = "s\<lparr>ofile := (ofile s)[n := None]\<rparr>"
  have len: "length (ofile s) = 16" using b by (simp add: between_def)
  have u: "in_use ?s = in_use s" "holders ?s = holders s" by (simp_all add: in_use_def holders_def)
  have "int (count (mset (ofile ?s)) (Some g)) + (E(f := E f + 1)) g = uses (in_use ?s) g" for g
    using b n len count_list_update [of n "ofile s" None "Some g"] unfolding u between_def by simp
  with b u show ?thesis by (simp add: between_def refs_are_def)
qed

lemma same_file_option:
  "rel_option same_file a b \<Longrightarrow> of_file b = of_file a \<and> (case b of None \<Rightarrow> 0 | Some x \<Rightarrow> f_ref x) = (case a of None \<Rightarrow> 0 | Some x \<Rightarrow> f_ref x)"
  by (cases a; cases b) (simp_all add: of_file_def same_file_def)

lemma between_neutral:
  assumes b: "between E s" and n: "neutral s s'"
  shows "between E s'"
proof -
  have same: "list_all2 (rel_option same_file) (in_use s) (in_use s')" using n by (simp add: neutral_def)
  then have nth: "rel_option same_file (in_use s ! f) (in_use s' ! f)" if "f < length (in_use s)" for f using that by (simp add: list_all2_conv_all_nth)
  have len: "length (in_use s') = length (in_use s)" using same list_all2_lengthD by metis
  have "map of_file (in_use s') = map of_file (in_use s)"
    by (rule nth_equalityI) (use same_file_option [OF nth] len in simp_all)
  with n have h: "holders s' = holders s" by (simp add: holders_def neutral_def)
  have u: "uses (in_use s') f = uses (in_use s) f" for f
    using same_file_option [OF nth, of f] len by (simp add: uses_def)
  have old: "refs_are s (holders s + {#})" using b by (simp add: between_def)
  have live: "ilive (kfs s) i" if "i \<in># holders s" for i using old that by (simp add: refs_are_def)
  have "refs_are s' (holders s + {#})"
    by (rule refs_are_change [OF old]) (use n old live in \<open>auto simp: neutral_def refs_are_def\<close>)
  with b n h u show ?thesis by (simp add: between_def neutral_def)
qed

lemma list_all2_same: "list_all2 (rel_option same_file) U U"
  by (intro list.rel_refl option.rel_refl) (simp add: same_file_def)

lemma neutral_balanced: "table_ok (itable (kfs s)) \<Longrightarrow> balanced s s' \<Longrightarrow> neutral s s'"
  by (simp add: balanced_def neutral_def list_all2_same)

lemma between_dup:
  assumes F: "file_counts F B sb me" and b: "between E s" and run: "filedup F f s = Inr s'"
  shows "between (E(f := E f + 1)) s'"
proof -
  let ?x = "ftable s ! f"
  have f: "f < length (ftable s)" "1 \<le> f_ref ?x" and s': "s' = s\<lparr>ftable := (ftable s)[f := ?x\<lparr>f_ref := f_ref ?x + 1\<rparr>]\<rparr>"
    using file_counts_dest(3) [OF F run] by blast+
  have u: "in_use s' = (in_use s)[f := Some (?x\<lparr>f_ref := f_ref ?x + 1\<rparr>)]" "in_use s ! f = Some ?x" "length (in_use s) = length (ftable s)"
    using in_use_update [OF f(1), of s' "?x\<lparr>f_ref := f_ref ?x + 1\<rparr>"] f by (simp_all add: s' in_use_def)
  then have "f < length (in_use s)" using f by simp
  note R = holders_split [OF this]
  have "of_file (Some (?x\<lparr>f_ref := f_ref ?x + 1\<rparr>)) = of_file (Some ?x)" by (simp add: of_file_def)
  then have h: "holders s' = holders s" using R(1) R(2) [of s', OF _ u(1)] u(2) by (simp add: s')
  have "uses (in_use s') g = (E(f := E f + 1)) g - E g + uses (in_use s) g" for g
    using f(1) u by (simp add: uses_update) (simp add: uses_def)
  moreover have "int (count (mset (ofile s)) (Some g)) + E g = uses (in_use s) g" for g using b by (simp add: between_def)
  ultimately have "int (count (mset (ofile s)) (Some g)) + (E(f := E f + 1)) g = uses (in_use s') g" for g by (metis add.commute add_diff_cancel_left' diff_add_eq)
  with b h show ?thesis by (simp add: between_def refs_are_def s')
qed

lemma between_close:
  assumes F: "file_counts F B sb me" and b: "between E s" and run: "fileclose F f s = Inr s'"
  shows "between (E(f := E f - 1)) s' \<and> ofile s' = ofile s"
proof -
  let ?x = "ftable s ! f"
  have "closes B sb me f s s'" using file_counts_dest(2) [OF F run] .
  then have f: "f < length (ftable s)" "1 \<le> f_ref ?x" and s': "ops s' = ops s" "cwd s' = cwd s" "ofile s' = ofile s"
    and more: "1 < f_ref ?x \<Longrightarrow> kfs s' = kfs s \<and> ftable s' = (ftable s)[f := ?x\<lparr>f_ref := f_ref ?x - 1\<rparr>]"
    and final: "\<not> 1 < f_ref ?x \<Longrightarrow> (\<exists>y. ftable s' = (ftable s)[f := y] \<and> f_ref y = 0) \<and>
        (if f_type ?x = FD_INODE \<or> f_type ?x = FD_DEVICE then iput B sb me (f_ip ?x) (kfs s) = Inr (kfs s') else kfs s' = kfs s)"
    unfolding closes_def Let_def by (auto split: if_splits)
  have ux: "in_use s ! f = Some ?x" and l: "f < length (in_use s)" using f by (simp_all add: in_use_def)
  define R where "R = but f s"
  note R = holders_split [OF l, folded R_def]
  have old: "refs_are s (holders s)" using b by (simp add: between_def)
  have "\<exists>u. in_use s' = (in_use s)[f := u] \<and> (case u of None \<Rightarrow> 0 | Some y \<Rightarrow> f_ref y) = f_ref ?x - 1 \<and> refs_are s' (R + of_file u) \<and> ilocks (kfs s') = ilocks (kfs s)"
  proof (cases "1 < f_ref ?x")
    case True
    have u: "in_use s' = (in_use s)[f := Some (?x\<lparr>f_ref := f_ref ?x - 1\<rparr>)]"
      using in_use_update [OF f(1), of s' "?x\<lparr>f_ref := f_ref ?x - 1\<rparr>"] more [OF True] True by simp
    have "of_file (Some (?x\<lparr>f_ref := f_ref ?x - 1\<rparr>)) = of_file (Some ?x)" by (simp add: of_file_def)
    with old R(1) ux more [OF True] have "refs_are s' (R + of_file (Some (?x\<lparr>f_ref := f_ref ?x - 1\<rparr>)))" by (simp add: refs_are_def)
    with u more [OF True] show ?thesis by (intro exI [of _ "Some (?x\<lparr>f_ref := f_ref ?x - 1\<rparr>)"]) simp
  next
    case False
    with final obtain y where y: "ftable s' = (ftable s)[f := y]" "f_ref y = 0" by blast
    have u: "in_use s' = (in_use s)[f := None]" using in_use_update [OF f(1) y(1)] y(2) by simp
    have "refs_are s' (R + {#}) \<and> ilocks (kfs s') = ilocks (kfs s)"
    proof (cases "f_type ?x = FD_INODE \<or> f_type ?x = FD_DEVICE")
      case no: False
      then have "kfs s' = kfs s" using final [OF False] by simp
      moreover have "of_file (Some ?x) = {#}" using no by (simp add: of_file_def)
      ultimately show ?thesis using old R(1) ux by (simp add: refs_are_def)
    next
      case yes: True
      let ?i = "f_ip ?x"
      have ip: "iput B sb me ?i (kfs s) = Inr (kfs s')" using yes final [OF False] by simp
      have h: "holders s = R + {#?i#}" using R(1) ux yes by (simp add: of_file_def)
      with old have rs: "refs_are s (R + {#?i#})" by simp
      then have ok: "table_ok (itable (kfs s))" "ilive (kfs s) ?i" by (simp_all add: refs_are_def)
      note a = iput_acct [OF ok ip]
      have st: "stays s s' i" if i: "i \<in># R" for i
      proof -
        have "ilive (kfs s) i" using rs i by (simp add: refs_are_def)
        moreover have "i \<noteq> ?i \<or> 1 < irefs (itable (kfs s)) (key_of s ?i)"
        proof (cases "i = ?i")
          case True
          with i have "0 < count (image_mset (key_of s) R) (key_of s ?i)" by (metis count_greater_zero_iff imageI set_image_mset)
          moreover have "irefs (itable (kfs s)) (key_of s ?i) = int (count (image_mset (key_of s) (R + {#?i#})) (key_of s ?i))"
            using rs unfolding refs_are_def by blast
          ultimately show ?thesis by simp
        qed simp
        ultimately show ?thesis using a(4) by (simp add: stays_def)
      qed
      have "irefs (itable (kfs s')) k = irefs (itable (kfs s)) k - int (count (image_mset (key_of s) {#?i#}) k) + int (count (image_mset (key_of s') {#}) k)" for k
        using a(2) [of k] by (simp add: count_ref1 [simplified])
      from refs_are_change [OF rs a(1) st _ this] a(3) show ?thesis by simp
    qed
    with u False f(2) show ?thesis by (intro exI [of _ None]) (simp add: of_file_def)
  qed
  then obtain u where u: "in_use s' = (in_use s)[f := u]" "(case u of None \<Rightarrow> 0 | Some y \<Rightarrow> f_ref y) = f_ref ?x - 1"
    "refs_are s' (R + of_file u)" "ilocks (kfs s') = ilocks (kfs s)" by blast
  have h: "holders s' = R + of_file u" using R(2) [OF s'(2) u(1)] .
  have "uses (in_use s') g = (E(f := E f - 1)) g - E g + uses (in_use s) g" for g
    using l u(1,2) ux by (simp add: uses_update) (simp add: uses_def)
  moreover have "int (count (mset (ofile s)) (Some g)) + E g = uses (in_use s) g" for g using b by (simp add: between_def)
  ultimately have "int (count (mset (ofile s')) (Some g)) + (E(f := E f - 1)) g = uses (in_use s') g" for g
    unfolding s'(3) by (metis add.commute add_diff_cancel_left' diff_add_eq)
  with b h u(3,4) s' show ?thesis by (simp add: between_def)
qed

section \<open>The calls\<close>

lemma between_facts:
  assumes "between E s"
  shows "table_ok (itable (kfs s))" "ilive (kfs s) (cwd s)" "length (ofile s) = 16" "refs_are s (holders s)"
  using assms by (simp_all add: between_def refs_are_def holders_def)

lemma between_balanced: "between E s \<Longrightarrow> balanced s s' \<Longrightarrow> between E s'"
  using between_neutral neutral_balanced between_facts(1) by blast

lemma between_opened:
  assumes b: "between E s" and op: "opened s r ip s'"
  shows "between E s'"
proof -
  from op obtain n f x where n: "find_idx (\<lambda>x. x = None) (ofile s) = Some n" "ofile s' = (ofile s)[n := Some f]"
    and f: "f < length (in_use s)" "in_use s ! f = None" "in_use s' = (in_use s)[f := Some x]" "f_ref x = 1" "f_ip x = ip"
    and ty: "f_type x = FD_DEVICE \<or> f_type x = FD_INODE"
    and s': "ilocks (kfs s') = ilocks (kfs s)" "table_ok (itable (kfs s'))" "ilive (kfs s') ip" "ops s' = ops s" "cwd s' = cwd s"
    and refs: "irefs (itable (kfs s')) = (\<lambda>k. irefs (itable (kfs s)) k + ref1 (key_of s' ip) k)" and st: "\<forall>i. ilive (kfs s) i \<longrightarrow> stays s s' i"
    unfolding opened_def by (metis (full_types))
  note b' = between_facts [OF b]
  have n': "n < 16" "ofile s ! n = None" using n(1) b'(3) by (simp_all add: find_idx_Some)
  have h: "holders s = but f s" using holders_split(1) [OF f(1)] f(2) by (simp add: of_file_def)
  have h': "holders s' = but f s + {#ip#}" using holders_split(2) [OF f(1) s'(5) f(3)] f(5) ty by (auto simp: of_file_def)
  have old: "refs_are s (but f s + {#})" using b'(4) h by simp
  have "stays s s' i" if "i \<in># but f s" for i using old st that by (simp add: refs_are_def)
  moreover have "irefs (itable (kfs s')) k = irefs (itable (kfs s)) k - int (count (image_mset (key_of s) {#}) k) + int (count (image_mset (key_of s') {#ip#}) k)" for k
    by (simp add: refs ref1_def)
  ultimately have "refs_are s' (but f s + {#ip#})" by (intro refs_are_change [OF old s'(2)]) (use s'(3) in simp_all)
  moreover have "int (count (mset (ofile s')) (Some g)) + E g = uses (in_use s') g" for g
  proof -
    have "int (count (mset (ofile s)) (Some g)) + E g = uses (in_use s) g" using b by (simp add: between_def)
    moreover have "uses (in_use s) f = 0" using f(1,2) by (simp add: uses_def)
    ultimately show ?thesis using count_list_update [of n "ofile s" "Some f" "Some g"] n' b'(3) f(1,4) by (auto simp: n(2) f(3) uses_update)
  qed
  ultimately show ?thesis using b s' h' n(2) by (simp add: between_def)
qed

lemma between_chdir:
  assumes b: "between E s" and run: "sys_chdir B sb me name path s = Inr (r, s')"
  shows "between E s'"
proof (cases "balanced s s'")
  case True
  with b show ?thesis by (rule between_balanced)
next
  case False
  note b' = between_facts [OF b]
  from sys_chdir_spec [OF b'(1,2) run] False
  have s': "ilive (kfs s') (cwd s')" "table_ok (itable (kfs s'))" "ilocks (kfs s') = ilocks (kfs s)" "ops s' = ops s" "ofile s' = ofile s" "in_use s' = in_use s"
    and refs: "\<And>k. irefs (itable (kfs s')) k = irefs (itable (kfs s)) k - ref1 (key_of s (cwd s)) k + ref1 (key_of s' (cwd s')) k"
    and st: "\<And>i. ilive (kfs s) i \<Longrightarrow> i \<noteq> cwd s \<or> 1 < irefs (itable (kfs s)) (key_of s (cwd s)) \<Longrightarrow> stays s s' i" by blast+
  define R where "R = sum_list (map of_file (in_use s))"
  have h: "holders s = R + {#cwd s#}" "holders s' = R + {#cwd s'#}" by (simp_all add: holders_def R_def s'(6))
  have old: "refs_are s (R + {#cwd s#})" using b'(4) h by simp
  have "stays s s' i" if i: "i \<in># R" for i
  proof (rule st)
    show "ilive (kfs s) i" using old i by (simp add: refs_are_def)
    show "i \<noteq> cwd s \<or> 1 < irefs (itable (kfs s)) (key_of s (cwd s))"
    proof (cases "i = cwd s")
      case True
      with i have "0 < count (image_mset (key_of s) R) (key_of s (cwd s))" by (metis count_greater_zero_iff imageI set_image_mset)
      moreover have "irefs (itable (kfs s)) (key_of s (cwd s)) = int (count (image_mset (key_of s) (R + {#cwd s#})) (key_of s (cwd s)))"
        using old unfolding refs_are_def by blast
      ultimately show ?thesis by simp
    qed simp
  qed
  then have "refs_are s' (R + {#cwd s'#})" by (intro refs_are_change [OF old s'(2)]) (use s'(1) refs in \<open>simp_all add: ref1_def\<close>)
  with b s' h show ?thesis by (simp add: between_def)
qed

lemma argfd_file: "argfd fd s = Some f \<Longrightarrow> nat fd < 16 \<and> ofile s ! nat fd = Some f"
  by (auto simp: argfd_def split: if_splits)

lemma between_sys_dup:
  assumes F: "file_counts F B sb me" and b: "calls_ok s" and run: "sys_dup F n s = Inr (r, s')"
  shows "calls_ok s'"
proof (cases "argfd n s")
  case None
  with b run show ?thesis by (simp add: sys_dup_def)
next
  case (Some f)
  obtain fd t where al: "fdalloc f s = (fd, t)" by fastforce
  from between_fdalloc [OF b al] show ?thesis
  proof (elim disjE exE conjE)
    assume "fd < 0" "t = s"
    with b run Some al show ?thesis by (simp add: sys_dup_def)
  next
    fix k assume k: "fd = int k" "between ((\<lambda>f. 0)(f := 0 - 1)) t"
    with run Some al have "filedup F f t = Inr s'" by (auto simp: sys_dup_def bindE_eq_Inr)
    from between_dup [OF F k(2) this] show ?thesis by (simp add: fun_upd_idem)
  qed
qed

lemma between_sys_close:
  assumes F: "file_counts F B sb me" and b: "calls_ok s" and run: "sys_close F fd s = Inr (r, s')"
  shows "calls_ok s'"
proof (cases "argfd fd s")
  case None
  with b run show ?thesis by (simp add: sys_close_def)
next
  case (Some f)
  with run have cl: "fileclose F f (s\<lparr>ofile := (ofile s)[nat fd := None]\<rparr>) = Inr s'" by (auto simp: sys_close_def bindE_eq_Inr)
  note a = argfd_file [OF Some]
  from between_close [OF F between_clear [OF b conjunct1 [OF a] conjunct2 [OF a]] cl] show ?thesis by (simp add: fun_upd_idem)
qed

text \<open>Both ends of a pipe are counted and not in a descriptor.\<close>

definition ends :: "nat \<Rightarrow> nat \<Rightarrow> nat \<Rightarrow> int" where
  "ends a b = (\<lambda>f. (if f = a then 1 else 0) + (if f = b then 1 else 0))"

lemma between_pipealloc:
  assumes b: "calls_ok s" and p: "makes_pipe c d s s'"
  shows "between (ends c d) s'"
proof -
  from p obtain x y where cd: "c \<noteq> d" "c < length (in_use s)" "d < length (in_use s)" "in_use s ! c = None" "in_use s ! d = None"
    and u: "in_use s' = (in_use s)[c := Some x, d := Some y]" "f_type x = FD_PIPE" "f_type y = FD_PIPE" "f_ref x = 1" "f_ref y = 1"
    and s': "kfs s' = kfs s" "ops s' = ops s" "cwd s' = cwd s" "ofile s' = ofile s" unfolding makes_pipe_def by blast
  have none: "of_file None = {#}" "of_file (Some x) = {#}" "of_file (Some y) = {#}" using u(2,3) by (simp_all add: of_file_def)
  have "sum_list (map of_file (in_use s')) = sum_list (map of_file (in_use s))"
    using sum_list_update_mset [of d "(in_use s)[c := Some x]" of_file "Some y"] sum_list_update_mset [of c "in_use s" of_file "Some x"] cd
    by (simp add: u(1) none)
  then have h: "holders s' = holders s" by (simp add: holders_def s')
  have "uses (in_use s') f = ends c d f + uses (in_use s) f" for f
    using cd u(4,5) by (simp add: u(1) uses_update ends_def) (simp add: uses_def)
  with b h s' show ?thesis by (simp add: between_def refs_are_def)
qed

lemma between_close2:
  assumes F: "file_counts F B sb me" and b: "between (ends c d) s"
    and run: "bindE (fileclose F c s) (\<lambda>s. bindE (fileclose F d s) (\<lambda>s. Inr (- 1, s))) = Inr (r, s')"
  shows "calls_ok s'"
proof -
  from run obtain s1 where 1: "fileclose F c s = Inr s1" and 2: "fileclose F d s1 = Inr s'" by (auto simp: bindE_eq_Inr)
  from between_close [OF F conjunct1 [OF between_close [OF F b 1]] 2] have "between ((ends c d)(c := ends c d c - 1, d := ((ends c d)(c := ends c d c - 1)) d - 1)) s'"
    by simp
  moreover have "(ends c d)(c := ends c d c - 1, d := ((ends c d)(c := ends c d c - 1)) d - 1) = (\<lambda>f. 0)"
    by (auto simp: ends_def fun_eq_iff)
  ultimately show ?thesis by simp
qed

lemma between_sys_pipe:
  assumes F: "file_counts F B sb me" and b: "calls_ok s" and run: "sys_pipe F fdarray s = Inr (r, s')"
  shows "calls_ok s'"
proof -
  obtain ff s1 where pa: "pipealloc F s = (ff, s1)" by fastforce
  show ?thesis
  proof (cases ff)
    case None
    with pa run have "s' = s1" "neutral s s1" using file_counts_dest(8) [OF F] by (auto simp: sys_pipe_def)
    with between_neutral [OF b] show ?thesis by simp
  next
    case (Some cd)
    obtain c d where cd: "cd = (c, d)" by fastforce
    have mp: "makes_pipe c d s s1" using file_counts_dest(9) [OF F] pa Some cd by simp
    note b1 = between_pipealloc [OF b mp]
    define close2 where "close2 = (\<lambda>s. bindE (fileclose F c s) (\<lambda>s. bindE (fileclose F d s) (\<lambda>s. Inr (- 1 :: int, s))))"
    have closed: "calls_ok s'" if "close2 t = Inr (r, s')" "between (ends c d) t" for t
      using between_close2 [OF F that(2)] that(1) by (simp add: close2_def)
    obtain fd0 s2 where al: "fdalloc c s1 = (fd0, s2)" by fastforce
    note run = run [unfolded sys_pipe_def pa Some cd prod.case option.case Let_def, folded close2_def, unfolded al prod.case]
    from between_fdalloc [OF b1 al] show ?thesis
    proof (elim disjE exE conjE)
      assume "fd0 < 0" "s2 = s1"
      with run closed [OF _ b1] show ?thesis by (simp add: close2_def)
    next
      fix i assume i: "i < 16" "fd0 = int i" "ofile s1 ! i = None" "s2 = s1\<lparr>ofile := (ofile s1)[i := Some c]\<rparr>"
        and b2: "between ((ends c d)(c := ends c d c - 1)) s2"
      have len: "length (ofile s1) = 16" using b1 by (simp add: between_def)
      have oi: "ofile s2 ! i = Some c" using i len by simp
      have "((ends c d)(c := ends c d c - 1))(c := ((ends c d)(c := ends c d c - 1)) c + 1) = ends c d" by (simp add: fun_upd_idem)
      with between_clear [OF b2 i(1) oi] have undo0: "between (ends c d) (s2\<lparr>ofile := (ofile s2)[i := None]\<rparr>)" by simp
      obtain fd1 s3 where bl: "fdalloc d s2 = (fd1, s3)" by fastforce
      from between_fdalloc [OF b2 bl] show ?thesis
      proof (elim disjE exE conjE)
        assume "fd1 < 0" "s3 = s2"
        with run bl i(2) closed [OF _ undo0] show ?thesis by (simp add: close2_def)
      next
        fix j assume j: "j < 16" "fd1 = int j" "ofile s2 ! j = None" "s3 = s2\<lparr>ofile := (ofile s2)[j := Some d]\<rparr>"
          and b3: "between ((ends c d)(c := ends c d c - 1, d := ((ends c d)(c := ends c d c - 1)) d - 1)) s3"
        have "(ends c d)(c := ends c d c - 1, d := ((ends c d)(c := ends c d c - 1)) d - 1) = (\<lambda>f. 0)" by (auto simp: ends_def fun_eq_iff)
        with b3 have b3: "calls_ok s3" by simp
        have ij: "i \<noteq> j" using oi j(3) by auto
        have o3: "ofile s3 ! i = Some c" "ofile s3 ! j = Some d" using oi ij j i len by (simp_all add: i(4))
        define undo where "undo = (\<lambda>t. close2 (t\<lparr>ofile := (ofile t)[i := None, j := None]\<rparr>))"
        have undone: "calls_ok s'" if t: "undo t = Inr (r, s')" "calls_ok t" "ofile t = ofile s3" for t
        proof -
          let ?t = "t\<lparr>ofile := (ofile t)[i := None]\<rparr>"
          have "between ((\<lambda>f. 0)(c := 0 + 1)) ?t" using between_clear [OF t(2) i(1)] o3 t(3) by simp
          moreover have "ofile ?t ! j = Some d" using o3 ij t(3) by simp
          ultimately have "between (((\<lambda>f. 0)(c := 0 + 1))(d := ((\<lambda>f. 0)(c := 0 + 1)) d + 1)) (?t\<lparr>ofile := (ofile ?t)[j := None]\<rparr>)"
            by (rule between_clear [OF _ j(1)])
          moreover have "((\<lambda>f. 0)(c := 0 + 1))(d := ((\<lambda>f. 0)(c := 0 + 1)) d + 1) = ends c d" by (auto simp: ends_def fun_eq_iff)
          ultimately have "between (ends c d) (t\<lparr>ofile := (ofile t)[i := None, j := None]\<rparr>)" by simp
          then show ?thesis using closed t(1) by (simp add: undo_def)
        qed
        obtain e s4 where e: "copyout_int F fdarray fd0 s3 = (e, s4)" by fastforce
        have "neutral s3 s4" using file_counts_dest(7) [OF F e] .
        then have b4: "calls_ok s4" "ofile s4 = ofile s3" using between_neutral [OF b3] by (simp_all add: neutral_def)
        obtain e' s5 where e': "copyout_int F (fdarray + 4) fd1 s4 = (e', s5)" by fastforce
        have "neutral s4 s5" using file_counts_dest(7) [OF F e'] .
        then have b5: "calls_ok s5" "ofile s5 = ofile s3" using between_neutral [OF b4(1)] b4(2) by (simp_all add: neutral_def)
        have "(if e < 0 then undo s4 else if e' < 0 then undo s5 else Inr (0, s5)) = Inr (r, s')"
          using run bl e e' i(2) j(2) by (simp add: undo_def close2_def split: if_splits)
        then show ?thesis using undone b4 b5 by (auto split: if_splits)
      qed
    qed
  qed
qed

section \<open>Every sequence of calls\<close>

inductive callstep :: "'d fileops \<Rightarrow> 'd bio \<Rightarrow> superblock \<Rightarrow> int \<Rightarrow> 'd sys \<Rightarrow> 'd sys \<Rightarrow> bool"
  for F :: "'d fileops" and B :: "'d bio" and sb :: superblock and me :: int where
  dup: "sys_dup F fd s = Inr (r, s') \<Longrightarrow> callstep F B sb me s s'"
| reads: "sys_read F fd a n s = Inr (r, s') \<Longrightarrow> callstep F B sb me s s'"
| writes: "sys_write F fd a n s = Inr (r, s') \<Longrightarrow> callstep F B sb me s s'"
| close: "sys_close F fd s = Inr (r, s') \<Longrightarrow> callstep F B sb me s s'"
| fstat: "sys_fstat F fd a s = Inr (r, s') \<Longrightarrow> callstep F B sb me s s'"
| link: "sys_link B sb me junk name old new s = Inr (r, s') \<Longrightarrow> callstep F B sb me s s'"
| unlink: "sys_unlink B sb me name path s = Inr (r, s') \<Longrightarrow> callstep F B sb me s s'"
| opens: "sys_open F B sb me locals junk' path omode s = Inr (r, s') \<Longrightarrow> callstep F B sb me s s'"
| mkdir: "sys_mkdir B sb me name path s = Inr (r, s') \<Longrightarrow> callstep F B sb me s s'"
| mknod: "sys_mknod B sb me name path major minor s = Inr (r, s') \<Longrightarrow> callstep F B sb me s s'"
| chdir: "sys_chdir B sb me name path s = Inr (r, s') \<Longrightarrow> callstep F B sb me s s'"
| pipe: "sys_pipe F a s = Inr (r, s') \<Longrightarrow> callstep F B sb me s s'"
| symlink: "sys_symlink F B sb me name target path s = Inr (r, s') \<Longrightarrow> callstep F B sb me s s'"

lemma callstep_ok:
  assumes F: "file_counts F B sb me" and b: "calls_ok s" and step: "callstep F B sb me s s'"
  shows "calls_ok s'"
proof -
  note ok = between_facts(1,2) [OF b] and neutral = between_neutral [OF b] and balanced = between_balanced [OF b]
  from step show ?thesis
  proof cases
    case (dup fd r)
    then show ?thesis by (rule between_sys_dup [OF F b])
  next
    case (reads fd a n r)
    then show ?thesis using b neutral file_counts_dest(4) [OF F] by (auto simp: sys_read_def split: option.splits)
  next
    case (writes fd a n r)
    then show ?thesis using b neutral file_counts_dest(5) [OF F] by (auto simp: sys_write_def split: option.splits)
  next
    case (close fd r)
    then show ?thesis by (rule between_sys_close [OF F b])
  next
    case (fstat fd a r)
    then show ?thesis using b neutral file_counts_dest(6) [OF F] by (auto simp: sys_fstat_def split: option.splits)
  next
    case (link junk name old new r)
    then show ?thesis by (intro balanced link_unlink_keep [OF ok]) (rule disjI1)
  next
    case (unlink name path r)
    then show ?thesis by (intro balanced link_unlink_keep [OF ok]) (rule disjI2)
  next
    case (opens locals junk' path omode r)
    from sys_open_spec [OF ok file_counts_dest(1) [OF F] between_facts(3) [OF b] opens] show ?thesis
      using balanced between_opened [OF b] by blast
  next
    case (mkdir name path r)
    then show ?thesis by (intro balanced create_calls_keep [OF ok]) (rule disjI1)
  next
    case (mknod name path major minor r)
    then show ?thesis by (intro balanced create_calls_keep [OF ok]) (rule disjI2, rule disjI1)
  next
    case (chdir name path r)
    then show ?thesis by (rule between_chdir [OF b])
  next
    case (pipe a r)
    then show ?thesis by (rule between_sys_pipe [OF F b])
  next
    case (symlink name target path r)
    then show ?thesis by (intro balanced create_calls_keep [OF ok]) (rule disjI2, rule disjI2)
  qed
qed

text \<open>A process before its first call: it has a working directory, which nobody else refers to, and no open file.\<close>

definition fresh :: "'d sys \<Rightarrow> bool" where
  "fresh s \<longleftrightarrow> cwd s < length (itable (kfs s)) \<and> (\<forall>i < length (itable (kfs s)). i_ref (the_inode s i) = (if i = cwd s then 1 else 0)) \<and>
     set (ilocks (kfs s)) \<subseteq> {None} \<and> ops s = 0 \<and> ofile s = replicate 16 None \<and> (\<forall>x \<in> set (ftable s). f_ref x = 0)"

lemma no_refs: "sum_list (replicate n ({#} :: nat multiset)) = {#}"
  by (induction n) simp_all

lemma fresh_ok:
  assumes "fresh s"
  shows "calls_ok s"
proof -
  let ?t = "itable (kfs s)"
  have c: "cwd s < length ?t" "i_ref (?t ! cwd s) = 1" and r: "\<And>i. i < length ?t \<Longrightarrow> i_ref (?t ! i) = (if i = cwd s then 1 else 0)"
    using assms by (auto simp: fresh_def)
  have "0 \<le> i_ref ip" if "ip \<in> set ?t" for ip
  proof -
    from that obtain i where "i < length ?t" "ip = ?t ! i" by (metis in_set_conv_nth)
    with r show ?thesis by simp
  qed
  then have ok: "table_ok ?t" unfolding table_ok_def using r by (metis less_irrefl)
  have u: "in_use s = replicate (length (ftable s)) None"
    using assms by (intro nth_equalityI) (auto simp: in_use_def fresh_def)
  then have h: "holders s = {#cwd s#}" by (simp add: holders_def of_file_def no_refs)
  have "irefs ?t k = int (count (image_mset (key_of s) {#cwd s#}) k)" for k
  proof (cases "k = key_of s (cwd s)")
    case True
    then show ?thesis using irefs_unique [OF ok c(1)] c(2) by simp
  next
    case False
    then have "irefs ?t k = 0" by (intro irefs_absent [OF ok]) (use r in \<open>auto simp: in_set_conv_nth split: if_splits\<close>)
    with False show ?thesis by simp
  qed
  with ok c have "refs_are s {#cwd s#}" by (simp add: refs_are_def ilive_def del: split_paired_All)
  with assms h u show ?thesis by (simp add: between_def fresh_def uses_def)
qed

interpretation calls: transition_system "\<lambda>s. file_counts F B sb me \<and> fresh s" "\<lambda>s s'. file_counts F B sb me \<and> callstep F B sb me s s'" calls_ok
  for F :: "'d fileops" and B :: "'d bio" and sb :: superblock and me :: int
  by unfold_locales (auto intro: fresh_ok callstep_ok)

lemma calls_reach:
  assumes "file_counts F B sb me" "reach fresh (callstep F B sb me) s"
  shows "calls_ok s"
proof -
  have "reach (\<lambda>s. file_counts F B sb me \<and> fresh s) (\<lambda>s s'. file_counts F B sb me \<and> callstep F B sb me s s') s"
    using assms(2) by induction (auto intro: reach.intros assms(1))
  then show ?thesis by (rule calls.reach_inv)
qed

text \<open>C13: After any sequence of system calls of a process, the reference count of every entry of the inode table is the number of open files and
  working directories that refer to it, the reference count of every open file is the number of descriptors for it, no
  inode is locked and no transaction is open.\<close>

theorem inode_references_counted:
  assumes "file_counts F B sb me" and "reach fresh (callstep F B sb me) s"
  shows "(\<forall>i < length (itable (kfs s)). i_ref (the_inode s i) = int (count (holders s) i)) \<and>
    (\<forall>f < length (ftable s). 0 < f_ref (ftable s ! f) \<longrightarrow> f_ref (ftable s ! f) = int (count_list (ofile s) (Some f))) \<and>
    set (ilocks (kfs s)) \<subseteq> {None} \<and> ops s = 0"
proof -
  have b: "calls_ok s" by (rule calls_reach [OF assms])
  have "f_ref (ftable s ! f) = int (count_list (ofile s) (Some f))" if "f < length (ftable s)" "0 < f_ref (ftable s ! f)" for f
  proof -
    have "int (count (mset (ofile s)) (Some f)) = uses (in_use s) f" using b by (simp add: between_def)
    then show ?thesis using that by (simp add: uses_def in_use_def count_mset)
  qed
  then show ?thesis using b refs_are_count [OF between_facts(4) [OF b]] by (simp add: between_def)
qed

section \<open>An example\<close>

text \<open>A file table that counts, and the first process with the root directory alone in the inode table.\<close>

definition cx_fileops :: "'d bio \<Rightarrow> superblock \<Rightarrow> int \<Rightarrow> 'd fileops" where
  "cx_fileops B sb me = \<lparr>filealloc = filealloc ex_fileops,
     filedup = (\<lambda>f s. if f < length (ftable s) \<and> 1 \<le> f_ref (ftable s ! f)
       then Inr (s\<lparr>ftable := (ftable s)[f := (ftable s ! f)\<lparr>f_ref := f_ref (ftable s ! f) + 1\<rparr>]\<rparr>) else Inl (Panic ''filedup'')),
     fileclose = (\<lambda>f s. let x = ftable s ! f in
       if f \<ge> length (ftable s) \<or> f_ref x < 1 then Inl (Panic ''fileclose'')
       else if 1 < f_ref x then Inr (s\<lparr>ftable := (ftable s)[f := x\<lparr>f_ref := f_ref x - 1\<rparr>]\<rparr>)
       else let s = s\<lparr>ftable := (ftable s)[f := x\<lparr>f_ref := 0, f_type := FD_NONE\<rparr>]\<rparr> in
         if f_type x = FD_INODE \<or> f_type x = FD_DEVICE then in_fs0 (iput B sb me (f_ip x)) s else Inr s),
     fileread = (\<lambda>f p n s. Inr (-1, s)), filewrite = (\<lambda>f p n s. Inr (-1, s)), filestat = (\<lambda>f p s. Inr (-1, s)),
     pipealloc = (\<lambda>s. (None, s)), copyout_int = (\<lambda>a v s. (0, s)), t_symlink = 4, o_nofollow = 0x800\<rparr>"

lemma neutral_refl: "neutral s s"
  by (simp add: neutral_def stays_def list_all2_same)

lemma cx_counts: "file_counts (cx_fileops B sb me) B sb me"
proof -
  have a: "filealloc (cx_fileops B sb me) = filealloc ex_fileops" by (simp add: cx_fileops_def)
  have c: "closes B sb me f s s'" if "fileclose (cx_fileops B sb me) f s = Inr s'" for f s s'
    using that by (auto simp: cx_fileops_def closes_def Let_def in_fs0_eq split: if_splits)
  have ok: "fileops_ok (cx_fileops B sb me)"
  proof -
    have e: "kfs s' = kfs s \<and> ops s' = ops s \<and> cwd s' = cwd s \<and> ofile s' = ofile s \<and> (\<exists>x. ftable s' = (ftable s)[f := x] \<and> f_ref x = 0)"
      if "fileclose (cx_fileops B sb me) f s = Inr s'" "f_type (ftable s ! f) = FD_NONE" "f_ref (ftable s ! f) = 1" for f s s'
      using c [OF that(1)] that(2,3) by (simp add: closes_def)
    show ?thesis unfolding fileops_ok_def a
      by (rule conjI [OF conjunct1 [OF ex_fileops_ok [unfolded fileops_ok_def]]]) (intro allI impI, rule e)
  qed
  have d: "filedup (cx_fileops B sb me) f s = Inr s' \<Longrightarrow> f < length (ftable s)"
    "filedup (cx_fileops B sb me) f s = Inr s' \<Longrightarrow> 1 \<le> f_ref (ftable s ! f)"
    "filedup (cx_fileops B sb me) f s = Inr s' \<Longrightarrow> s' = s\<lparr>ftable := (ftable s)[f := (ftable s ! f)\<lparr>f_ref := f_ref (ftable s ! f) + 1\<rparr>]\<rparr>" for f s s'
    by (simp_all add: cx_fileops_def split: if_splits)
  have n: "fileread (cx_fileops B sb me) f p n s = Inr (r, s') \<Longrightarrow> neutral s s'"
    "filewrite (cx_fileops B sb me) f p n s = Inr (r, s') \<Longrightarrow> neutral s s'" "filestat (cx_fileops B sb me) f p s = Inr (r, s') \<Longrightarrow> neutral s s'"
    "pipealloc (cx_fileops B sb me) s = (None, s') \<Longrightarrow> neutral s s'" "copyout_int (cx_fileops B sb me) p v s = (r, s') \<Longrightarrow> neutral s s'"
    "pipealloc (cx_fileops B sb me) s = (Some (a, b), s') \<Longrightarrow> makes_pipe a b s s'"
    for f p n r v a b s s' by (simp_all add: cx_fileops_def neutral_refl)
  show ?thesis unfolding file_counts_def by (intro conjI allI impI) (rule ok | erule d c n)+
qed

definition cx_sys :: "(u32 \<Rightarrow> u32 \<Rightarrow> u8 list) sys" where
  "cx_sys = ex_sys\<lparr>kfs := \<lparr>disk = ex_ddisk, itable = [ex_dp\<lparr>i_lock := None\<rparr>, ex_ip\<lparr>i_ref := 0, i_lock := None\<rparr>]\<rparr>\<rparr>"

lemma cx_fresh: "fresh cx_sys"
  by (simp add: fresh_def cx_sys_def ex_sys_def ex_file_def ilocks_def ex_dp_def ex_ip_def less_Suc_eq nth_Cons' numeral_eq_Suc)

text \<open>The process opens its working directory and duplicates the descriptor.\<close>

theorem inode_references_counted_witness:
  "\<exists>s. reach fresh (callstep (cx_fileops ram_bio ex_sb 7) ram_bio ex_sb 7) s \<and> i_ref (the_inode s 0) = 2 \<and> count (holders s) 0 = 2 \<and>
     f_ref (ftable s ! 0) = 2 \<and> count_list (ofile s) (Some 0) = 2"
proof -
  let ?F = "cx_fileops ram_bio ex_sb 7"
  have fd: "fdalloc_from 16 0 (replicate 16 None) = Some 0" "fdalloc_from 16 0 ((replicate 16 None)[0 := Some 0]) = Some 1"
    by (simp_all add: numeral_eq_Suc)
  have "\<exists>s. sys_open ?F ram_bio ex_sb 7 (\<lambda>_. replicate 14 0) (\<lambda>_. replicate 128 0) (Some []) 0 cx_sys = Inr (0, s) \<and>
      ofile s = (replicate 16 None)[0 := Some 0] \<and> length (ftable s) = 1 \<and> f_ref (ftable s ! 0) = 1 \<and>
      length (itable (kfs s)) = 2 \<and> i_ref (the_inode s 0) = 2"
    by (simp add: sys_open_def open_inode_def open_file_def follow.simps namei_def namex_def cbyte_def idup_def cx_sys_def ex_sys_def
        namex_loop.simps [of _ _ _ _ _ "[]"] skip_empty iput_def ilock_def iunlock_def ex_dp_def ex_ip_def Let_def in_fs_def in_fs0_def
        begin_op_def end_op_def cx_fileops_def ex_fileops_def ex_file_def init_file_def fdalloc_def fd)
  then obtain s where s: "sys_open ?F ram_bio ex_sb 7 (\<lambda>_. replicate 14 0) (\<lambda>_. replicate 128 0) (Some []) 0 cx_sys = Inr (0, s)"
    "ofile s = (replicate 16 None)[0 := Some 0]" "length (ftable s) = 1" "f_ref (ftable s ! 0) = 1" "length (itable (kfs s)) = 2"
    "i_ref (the_inode s 0) = 2" by blast
  have "\<exists>t. sys_dup ?F 0 s = Inr (1, t) \<and> kfs t = kfs s \<and> length (ftable t) = 1 \<and> f_ref (ftable t ! 0) = 2"
    using s(2-4) by (cases "ftable s") (simp_all add: sys_dup_def argfd_def fdalloc_def fd(2) cx_fileops_def)
  then obtain t where t: "sys_dup ?F 0 s = Inr (1, t)" "kfs t = kfs s" "length (ftable t) = 1" "f_ref (ftable t ! 0) = 2" by blast
  let ?step = "callstep ?F ram_bio ex_sb 7"
  have "reach fresh ?step cx_sys" using cx_fresh by (rule reach_init)
  then have "reach fresh ?step s" using callstep.opens [OF s(1)] by (rule reach_step)
  then have "reach fresh ?step t" using callstep.dup [OF t(1)] by (rule reach_step)
  note r = this inode_references_counted [OF cx_counts this]
  from r(2) t(2-4) s(5,6) have "count (holders t) 0 = 2" "count_list (ofile t) (Some 0) = 2" by simp_all
  with r(1) t(2,4) s(6) show ?thesis by (intro exI [of _ t]) simp
qed

end
