(* ===== verification/Proc.thy ===== *)
theory Proc
  imports Kmem
begin

text \<open>
  Processes: \<open>HW3/source/proc.c\<close> and \<open>proc.h\<close>. The state holds the process table, the cpus, \<open>nextpid\<close> and
  \<open>initproc\<close>; a \<open>struct proc *\<close> is an index of the table, a null pointer is \<open>None\<close>. Everything the file calls
  in other files (the page allocator \<open>kalloc.c\<close>, page tables \<open>vm.c\<close>, open files \<open>file.c\<close>, inodes and the log) works on a
  further component \<open>mach\<close> of the state through the parameter \<open>kops\<close>.

  An operation is the code between its locks: what a process does while it holds \<open>p->lock\<close> or \<open>wait_lock\<close> is one
  function, and the step relation at the end of the theory interleaves these functions freely over all cpus. What
  \<open>spinlock.c\<close> reports to \<open>sched\<close> is the parameter \<open>senv\<close>. Signed overflow of \<open>nextpid\<close> is undefined.
\<close>

section \<open>State\<close>

abbreviation NPROC :: nat where "NPROC \<equiv> 64"
abbreviation NCPU :: nat where "NCPU \<equiv> 8"
abbreviation VMASIZE :: nat where "VMASIZE \<equiv> 16"
abbreviation PGSIZE :: u64 where "PGSIZE \<equiv> 4096"
abbreviation MAXVA :: u64 where "MAXVA \<equiv> 0x4000000000"
abbreviation TRAMPOLINE :: u64 where "TRAMPOLINE \<equiv> MAXVA - PGSIZE"
abbreviation TRAPFRAME :: u64 where "TRAPFRAME \<equiv> TRAMPOLINE - PGSIZE"
abbreviation KSTACK :: "nat \<Rightarrow> u64" where "KSTACK p \<equiv> TRAMPOLINE - (of_nat p + 1) * 2 * PGSIZE"
abbreviation PTE_R :: u64 where "PTE_R \<equiv> 2"
abbreviation PTE_W :: u64 where "PTE_W \<equiv> 4"
abbreviation PTE_X :: u64 where "PTE_X \<equiv> 8"
abbreviation PTE_U :: u64 where "PTE_U \<equiv> 16"
abbreviation INT_MAX :: int where "INT_MAX \<equiv> 2147483647"

datatype procstate = UNUSED | USED | SLEEPING | RUNNABLE | RUNNING | ZOMBIE

text \<open>What a process can sleep on: the address of a process, of \<open>ticks\<close>, or of something else.\<close>

datatype chan = Chan_proc nat | Chan_ticks | Chan_addr u64

record kcontext =
  c_ra :: u64
  c_sp :: u64
  c_s :: "u64 list"

datatype reg = R_ra | R_sp | R_gp | R_tp | R_t0 | R_t1 | R_t2 | R_s0 | R_s1 | R_a0 | R_a1 | R_a2 | R_a3 | R_a4 | R_a5
  | R_a6 | R_a7 | R_s2 | R_s3 | R_s4 | R_s5 | R_s6 | R_s7 | R_s8 | R_s9 | R_s10 | R_s11 | R_t3 | R_t4 | R_t5 | R_t6

record trapframe =
  kernel_satp :: u64
  kernel_sp :: u64
  kernel_trap :: u64
  epc :: u64
  kernel_hartid :: u64
  regs :: "reg \<Rightarrow> u64"

text \<open>A mapped region; a file is its index in the table of open files, and the \<open>int\<close> fields keep their width.\<close>

record vma =
  v_addr :: u64
  v_length :: u32
  v_prot :: u32
  v_flags :: u32
  v_file :: nat
  v_offset :: u32
  v_used :: bool

text \<open>The trapframe is the address of its page together with its content.\<close>

record proc =
  state :: procstate
  chan :: "chan option"
  killed :: bool
  xstate :: int
  pid :: int
  parent :: "nat option"
  kstack_va :: u64
  sz :: u64
  pagetable :: "u64 option"
  trapframe :: "(u64 \<times> trapframe) option"
  ctx :: kcontext
  p_ofile :: "nat option list"
  p_cwd :: "nat option"
  p_name :: "u8 list"
  vmas :: "vma list"

record cpu =
  c_proc :: "nat option"
  c_context :: kcontext
  c_intena :: bool

record 'v ks =
  procs :: "proc list"
  cpus :: "cpu list"
  nextpid :: int
  initproc :: "nat option"
  first :: bool
  ticks :: u32
  mach :: 'v

text \<open>The rest of the kernel, as far as processes use it. A page or page table is its address; \<open>None\<close> is the null pointer.\<close>

record 'v kops =
  kalloc :: "'v \<Rightarrow> u64 option \<times> 'v"
  kfree :: "u64 \<Rightarrow> 'v \<Rightarrow> 'v"
  kvmmap :: "u64 \<Rightarrow> u64 \<Rightarrow> u64 \<Rightarrow> u64 \<Rightarrow> u64 \<Rightarrow> 'v \<Rightarrow> 'v res"
  uvmcreate :: "'v \<Rightarrow> u64 option \<times> 'v"
  mappages :: "u64 \<Rightarrow> u64 \<Rightarrow> u64 \<Rightarrow> u64 \<Rightarrow> u64 \<Rightarrow> 'v \<Rightarrow> (int \<times> 'v) res"
  uvmunmap :: "u64 \<Rightarrow> u64 \<Rightarrow> u64 \<Rightarrow> bool \<Rightarrow> 'v \<Rightarrow> 'v res"
  uvmfree :: "u64 \<Rightarrow> u64 \<Rightarrow> 'v \<Rightarrow> 'v res"
  uvmfirst :: "u64 \<Rightarrow> u8 list \<Rightarrow> 'v \<Rightarrow> 'v res"
  uvmalloc :: "u64 \<Rightarrow> u64 \<Rightarrow> u64 \<Rightarrow> u64 \<Rightarrow> 'v \<Rightarrow> u64 \<times> 'v"
  uvmdealloc :: "u64 \<Rightarrow> u64 \<Rightarrow> u64 \<Rightarrow> 'v \<Rightarrow> u64 \<times> 'v"
  uvmcopy :: "u64 \<Rightarrow> u64 \<Rightarrow> u64 \<Rightarrow> 'v \<Rightarrow> (int \<times> 'v) res"
  k_copyout :: "u64 \<Rightarrow> u64 \<Rightarrow> int \<Rightarrow> 'v \<Rightarrow> int \<times> 'v"
  k_filedup :: "nat \<Rightarrow> 'v \<Rightarrow> 'v res"
  k_fileclose :: "nat \<Rightarrow> 'v \<Rightarrow> 'v res"
  k_idup :: "nat \<Rightarrow> 'v \<Rightarrow> 'v"
  k_iput :: "nat \<Rightarrow> 'v \<Rightarrow> 'v res"
  k_namei :: "u8 list \<Rightarrow> 'v \<Rightarrow> (nat option \<times> 'v) res"
  k_fsinit :: "u32 \<Rightarrow> 'v \<Rightarrow> 'v res"
  a_trampoline :: u64
  a_forkret :: u64

text \<open>What \<open>holding(&p->lock)\<close>, \<open>mycpu()->noff\<close> and \<open>intr_get()\<close> say when \<open>sched\<close> is called.\<close>

record senv =
  e_holding :: bool
  e_noff :: int
  e_intr :: bool

section \<open>The process table and the cpus\<close>

definition set_proc :: "nat \<Rightarrow> (proc \<Rightarrow> proc) \<Rightarrow> 'v ks \<Rightarrow> 'v ks" where
  "set_proc i f s = s\<lparr>procs := (procs s)[i := f (procs s ! i)]\<rparr>"

definition set_cpu :: "nat \<Rightarrow> nat option \<Rightarrow> 'v ks \<Rightarrow> 'v ks" where
  "set_cpu c p s = s\<lparr>cpus := (cpus s)[c := (cpus s ! c)\<lparr>c_proc := p\<rparr>]\<rparr>"

definition on_mach :: "('v \<Rightarrow> 'v res) \<Rightarrow> 'v ks \<Rightarrow> 'v ks res" where
  "on_mach f s = bindE (f (mach s)) (\<lambda>m. Inr (s\<lparr>mach := m\<rparr>))"

text \<open>\<open>cpuid()\<close> is the argument \<open>c\<close> of the functions that use it.\<close>

definition mycpu :: "nat \<Rightarrow> 'v ks \<Rightarrow> cpu" where
  "mycpu c s = cpus s ! c"

definition myproc :: "nat \<Rightarrow> 'v ks \<Rightarrow> nat option" where
  "myproc c s = c_proc (mycpu c s)"

fun proc_mapstacks_from :: "'v kops \<Rightarrow> u64 \<Rightarrow> nat list \<Rightarrow> 'v \<Rightarrow> 'v res" where
  "proc_mapstacks_from K kpgtbl [] m = Inr m"
| "proc_mapstacks_from K kpgtbl (i # is) m =
     (case kalloc K m of
        (None, m) \<Rightarrow> Inl (Panic ''kalloc'')
      | (Some pa, m) \<Rightarrow> bindE (kvmmap K kpgtbl (KSTACK i) pa PGSIZE (PTE_R OR PTE_W) m) (proc_mapstacks_from K kpgtbl is))"

definition proc_mapstacks :: "'v kops \<Rightarrow> u64 \<Rightarrow> 'v ks \<Rightarrow> 'v ks res" where
  "proc_mapstacks K kpgtbl = on_mach (proc_mapstacks_from K kpgtbl [0..<NPROC])"

definition procinit :: "'v ks \<Rightarrow> 'v ks" where
  "procinit s = s\<lparr>procs := map (\<lambda>i. (procs s ! i)\<lparr>state := UNUSED, kstack_va := KSTACK i\<rparr>) [0..<NPROC]\<rparr>"

definition allocpid :: "'v ks \<Rightarrow> (int \<times> 'v ks) res" where
  "allocpid s = (if nextpid s \<ge> INT_MAX then Inl (Undefined ''nextpid'') else Inr (nextpid s, s\<lparr>nextpid := nextpid s + 1\<rparr>))"

definition proc_pagetable :: "'v kops \<Rightarrow> u64 \<Rightarrow> 'v \<Rightarrow> (u64 option \<times> 'v) res" where
  "proc_pagetable K tf m =
     (case uvmcreate K m of
        (None, m) \<Rightarrow> Inr (None, m)
      | (Some pt, m) \<Rightarrow>
        bindE (mappages K pt TRAMPOLINE PGSIZE (a_trampoline K) (PTE_R OR PTE_X) m) (\<lambda>(r, m).
        if r < 0 then bindE (uvmfree K pt 0 m) (\<lambda>m. Inr (None, m))
        else
        bindE (mappages K pt TRAPFRAME PGSIZE tf (PTE_R OR PTE_W) m) (\<lambda>(r, m).
        if r < 0 then
          bindE (uvmunmap K pt TRAMPOLINE 1 False m) (\<lambda>m. bindE (uvmfree K pt 0 m) (\<lambda>m. Inr (None, m)))
        else Inr (Some pt, m))))"

definition proc_freepagetable :: "'v kops \<Rightarrow> u64 \<Rightarrow> u64 \<Rightarrow> 'v \<Rightarrow> 'v res" where
  "proc_freepagetable K pt n m =
     bindE (uvmunmap K pt TRAMPOLINE 1 False m) (\<lambda>m.
     bindE (uvmunmap K pt TRAPFRAME 1 False m) (uvmfree K pt n))"

definition freeproc :: "'v kops \<Rightarrow> nat \<Rightarrow> 'v ks \<Rightarrow> 'v ks res" where
  "freeproc K i s =
     (let p = procs s ! i;
          s = (case trapframe p of None \<Rightarrow> s | Some (a, _) \<Rightarrow> s\<lparr>mach := kfree K a (mach s)\<rparr>) in
      bindE (case pagetable p of None \<Rightarrow> Inr s | Some pt \<Rightarrow> on_mach (proc_freepagetable K pt (sz p)) s) (\<lambda>s.
      Inr (set_proc i (\<lambda>p. p\<lparr>trapframe := None, pagetable := None, sz := 0, pid := 0, parent := None,
        p_name := (p_name p)[0 := 0], chan := None, killed := False, xstate := 0, state := UNUSED\<rparr>) s)))"

text \<open>The content of a fresh trapframe page is whatever the page held: the argument \<open>junk\<close>.\<close>

definition allocproc :: "'v kops \<Rightarrow> trapframe \<Rightarrow> 'v ks \<Rightarrow> (nat option \<times> 'v ks) res" where
  "allocproc K junk s =
     (case find_idx (\<lambda>p. state p = UNUSED) (procs s) of
        None \<Rightarrow> Inr (None, s)
      | Some i \<Rightarrow>
        bindE (allocpid s) (\<lambda>(n, s).
        let s = set_proc i (\<lambda>p. p\<lparr>pid := n, state := USED\<rparr>) s in
        case kalloc K (mach s) of
          (None, m) \<Rightarrow> bindE (freeproc K i (set_proc i (\<lambda>p. p\<lparr>trapframe := None\<rparr>) (s\<lparr>mach := m\<rparr>))) (\<lambda>s. Inr (None, s))
        | (Some tf, m) \<Rightarrow>
          let s = set_proc i (\<lambda>p. p\<lparr>trapframe := Some (tf, junk)\<rparr>) (s\<lparr>mach := m\<rparr>) in
          bindE (proc_pagetable K tf (mach s)) (\<lambda>(pt, m).
          let s = set_proc i (\<lambda>p. p\<lparr>pagetable := pt\<rparr>) (s\<lparr>mach := m\<rparr>) in
          if pt = None then bindE (freeproc K i s) (\<lambda>s. Inr (None, s))
          else Inr (Some i, set_proc i (\<lambda>p. p\<lparr>ctx := \<lparr>c_ra = a_forkret K, c_sp = kstack_va p + PGSIZE,
            c_s = replicate 12 0\<rparr>\<rparr>) s))))"

section \<open>Running and sleeping\<close>

text \<open>\<open>sched\<close> with its four checks; the \<open>swtch\<close> it ends with returns to \<open>scheduler\<close>, which clears \<open>c->proc\<close>.
  The saved \<open>intena\<close> is put back when the process runs again.\<close>

definition sched :: "senv \<Rightarrow> nat \<Rightarrow> 'v ks \<Rightarrow> 'v ks res" where
  "sched E c s =
     (case myproc c s of
        None \<Rightarrow> Inl (Undefined ''myproc'')
      | Some p \<Rightarrow>
        if \<not> e_holding E then Inl (Panic ''sched p->lock'')
        else if e_noff E \<noteq> 1 then Inl (Panic ''sched locks'')
        else if state (procs s ! p) = RUNNING then Inl (Panic ''sched running'')
        else if e_intr E then Inl (Panic ''sched interruptible'')
        else Inr (set_cpu c None s))"

text \<open>The body of the loop of \<open>scheduler\<close> for the entry \<open>p\<close>, up to the \<open>swtch\<close>.\<close>

definition scheduler_visit :: "nat \<Rightarrow> nat \<Rightarrow> 'v ks \<Rightarrow> 'v ks" where
  "scheduler_visit c p s =
     (if state (procs s ! p) = RUNNABLE then set_cpu c (Some p) (set_proc p (\<lambda>q. q\<lparr>state := RUNNING\<rparr>) s) else s)"

text \<open>The functions run by a process \<open>p\<close> on the cpu \<open>c\<close>, so that \<open>myproc()\<close> is \<open>p\<close>.\<close>

definition yield :: "senv \<Rightarrow> nat \<Rightarrow> nat \<Rightarrow> 'v ks \<Rightarrow> 'v ks res" where
  "yield E c p s = sched E c (set_proc p (\<lambda>q. q\<lparr>state := RUNNABLE\<rparr>) s)"

text \<open>\<open>sleep\<close> up to its \<open>sched\<close>, and what follows when the process runs again.\<close>

definition sleep :: "senv \<Rightarrow> nat \<Rightarrow> nat \<Rightarrow> chan \<Rightarrow> 'v ks \<Rightarrow> 'v ks res" where
  "sleep E c p ch s = sched E c (set_proc p (\<lambda>q. q\<lparr>chan := Some ch, state := SLEEPING\<rparr>) s)"

definition sleep_tail :: "nat \<Rightarrow> 'v ks \<Rightarrow> 'v ks" where
  "sleep_tail p s = set_proc p (\<lambda>q. q\<lparr>chan := None\<rparr>) s"

definition wake_one :: "chan option \<Rightarrow> proc \<Rightarrow> proc" where
  "wake_one ch p = (if state p = SLEEPING \<and> chan p = ch then p\<lparr>state := RUNNABLE\<rparr> else p)"

text \<open>\<open>me\<close> is \<open>myproc()\<close>, which is \<open>None\<close> in an interrupt that came while no process was running.\<close>

definition wakeup :: "nat option \<Rightarrow> chan option \<Rightarrow> 'v ks \<Rightarrow> 'v ks" where
  "wakeup me ch s = s\<lparr>procs := map (\<lambda>i. if Some i \<noteq> me then wake_one ch (procs s ! i) else procs s ! i) [0..<length (procs s)]\<rparr>"

definition kill :: "int \<Rightarrow> 'v ks \<Rightarrow> int \<times> 'v ks" where
  "kill n s =
     (case find_idx (\<lambda>p. pid p = n) (procs s) of
        None \<Rightarrow> (-1, s)
      | Some i \<Rightarrow> (0, set_proc i (\<lambda>p. if state p = SLEEPING then p\<lparr>killed := True, state := RUNNABLE\<rparr> else p\<lparr>killed := True\<rparr>) s))"

definition setkilled :: "nat \<Rightarrow> 'v ks \<Rightarrow> 'v ks" where
  "setkilled p s = set_proc p (\<lambda>q. q\<lparr>killed := True\<rparr>) s"

definition forkret :: "'v kops \<Rightarrow> 'v ks \<Rightarrow> 'v ks res" where
  "forkret K s = (if first s then on_mach (k_fsinit K 1) (s\<lparr>first := False\<rparr>) else Inr s)"

section \<open>Making, ending and reaping processes\<close>

definition initcode :: "u8 list" where
  "initcode = [
  0x17, 0x05, 0x00, 0x00, 0x13, 0x05, 0x45, 0x02,
  0x97, 0x05, 0x00, 0x00, 0x93, 0x85, 0x35, 0x02,
  0x93, 0x08, 0x70, 0x00, 0x73, 0x00, 0x00, 0x00,
  0x93, 0x08, 0x20, 0x00, 0x73, 0x00, 0x00, 0x00,
  0xef, 0xf0, 0x9f, 0xff, 0x2f, 0x69, 0x6e, 0x69,
  0x74, 0x00, 0x00, 0x24, 0x00, 0x00, 0x00, 0x00,
  0x00, 0x00, 0x00, 0x00]"

text \<open>\<open>safestrcpy\<close> of a name into \<open>char name[16]\<close> that held \<open>old\<close>.\<close>

definition safestrcpy :: "u8 list \<Rightarrow> u8 list \<Rightarrow> u8 list" where
  "safestrcpy old s = (let t = take 15 (takeWhile (\<lambda>c. c \<noteq> 0) s) @ [0] in t @ drop (length t) old)"

definition set_tf :: "(trapframe \<Rightarrow> trapframe) \<Rightarrow> proc \<Rightarrow> proc" where
  "set_tf f p = p\<lparr>trapframe := map_option (\<lambda>(a, t). (a, f t)) (trapframe p)\<rparr>"

definition userinit :: "'v kops \<Rightarrow> trapframe \<Rightarrow> 'v ks \<Rightarrow> 'v ks res" where
  "userinit K junk s =
     bindE (allocproc K junk s) (\<lambda>(r, s).
     let s = s\<lparr>initproc := r\<rparr> in
     case r of None \<Rightarrow> Inl (Undefined ''userinit'')
     | Some i \<Rightarrow>
       bindE (on_mach (uvmfirst K (the (pagetable (procs s ! i))) initcode) s) (\<lambda>s.
       let s = set_proc i (\<lambda>p. set_tf (\<lambda>t. t\<lparr>epc := 0, regs := (regs t)(R_sp := PGSIZE)\<rparr>) (p\<lparr>sz := PGSIZE\<rparr>)) s;
           s = set_proc i (\<lambda>p. p\<lparr>p_name := safestrcpy (p_name p) [105, 110, 105, 116, 99, 111, 100, 101]\<rparr>) s in
       bindE (k_namei K [47] (mach s)) (\<lambda>(d, m).
       Inr (set_proc i (\<lambda>p. p\<lparr>p_cwd := d, state := RUNNABLE\<rparr>) (s\<lparr>mach := m\<rparr>)))))"

text \<open>\<open>n\<close> is a C \<open>int\<close>, added to \<open>sz\<close> with its sign.\<close>

definition growproc :: "'v kops \<Rightarrow> nat \<Rightarrow> u32 \<Rightarrow> 'v ks \<Rightarrow> int \<times> 'v ks" where
  "growproc K p n s =
     (let q = procs s ! p; pt = the (pagetable q) in
      if sint n > 0 then
        (case uvmalloc K pt (sz q) (sz q + scast n) PTE_W (mach s) of (z, m) \<Rightarrow>
           if z = 0 then (-1, s\<lparr>mach := m\<rparr>) else (0, set_proc p (\<lambda>q. q\<lparr>sz := z\<rparr>) (s\<lparr>mach := m\<rparr>)))
      else if sint n < 0 then
        (case uvmdealloc K pt (sz q) (sz q + scast n) (mach s) of (z, m) \<Rightarrow> (0, set_proc p (\<lambda>q. q\<lparr>sz := z\<rparr>) (s\<lparr>mach := m\<rparr>)))
      else (0, s))"

text \<open>The loops of \<open>fork\<close> that copy the open files and the mapped regions; \<open>old\<close> is what the child's entry held.\<close>

fun fork_files :: "'v kops \<Rightarrow> nat option list \<Rightarrow> nat option list \<Rightarrow> 'v \<Rightarrow> (nat option list \<times> 'v) res" where
  "fork_files K (Some f # fs) (x # old) m =
     bindE (k_filedup K f m) (\<lambda>m. bindE (fork_files K fs old m) (\<lambda>(r, m). Inr (Some f # r, m)))"
| "fork_files K (None # fs) (x # old) m = bindE (fork_files K fs old m) (\<lambda>(r, m). Inr (x # r, m))"
| "fork_files K _ old m = Inr (old, m)"

fun fork_vmas :: "'v kops \<Rightarrow> vma list \<Rightarrow> vma list \<Rightarrow> 'v \<Rightarrow> (vma list \<times> 'v) res" where
  "fork_vmas K (v # vs) (x # old) m =
     (if v_used v then bindE (k_filedup K (v_file v) m) (\<lambda>m. bindE (fork_vmas K vs old m) (\<lambda>(r, m). Inr (v # r, m)))
      else bindE (fork_vmas K vs old m) (\<lambda>(r, m). Inr (x # r, m)))"
| "fork_vmas K _ old m = Inr (old, m)"

text \<open>\<open>fork\<close> while it holds the child's lock: the child, ready but for its parent and state, and its pid.\<close>

definition fork_copy :: "'v kops \<Rightarrow> trapframe \<Rightarrow> nat \<Rightarrow> 'v ks \<Rightarrow> ((nat \<times> int) option \<times> 'v ks) res" where
  "fork_copy K junk p s =
     bindE (allocproc K junk s) (\<lambda>(r, s).
     case r of None \<Rightarrow> Inr (None, s)
     | Some np \<Rightarrow>
       bindE (uvmcopy K (the (pagetable (procs s ! p))) (the (pagetable (procs s ! np))) (sz (procs s ! p)) (mach s)) (\<lambda>(e, m).
       let s = s\<lparr>mach := m\<rparr> in
       if e < 0 then bindE (freeproc K np s) (\<lambda>s. Inr (None, s))
       else
       let q = procs s ! p;
           s = set_proc np (\<lambda>x. x\<lparr>sz := sz q\<rparr>) s;
           s = set_proc np (set_tf (\<lambda>t. (snd (the (trapframe q)))\<lparr>regs := (regs (snd (the (trapframe q))))(R_a0 := 0)\<rparr>)) s in
       bindE (fork_files K (p_ofile q) (p_ofile (procs s ! np)) (mach s)) (\<lambda>(fs, m).
       let s = set_proc np (\<lambda>x. x\<lparr>p_ofile := fs\<rparr>) (s\<lparr>mach := k_idup K (the (p_cwd q)) m\<rparr>);
           s = set_proc np (\<lambda>x. x\<lparr>p_cwd := p_cwd q\<rparr>) s in
       bindE (fork_vmas K (vmas q) (vmas (procs s ! np)) (mach s)) (\<lambda>(vs, m).
       let s = set_proc np (\<lambda>x. x\<lparr>vmas := vs\<rparr>) (s\<lparr>mach := m\<rparr>);
           s = set_proc np (\<lambda>x. x\<lparr>p_name := safestrcpy (p_name x) (p_name q)\<rparr>) s in
       Inr (Some (np, pid (procs s ! np)), s)))))"

text \<open>Under \<open>wait_lock\<close>, and under the child's lock again.\<close>

definition fork_parent :: "nat \<Rightarrow> nat \<Rightarrow> 'v ks \<Rightarrow> 'v ks" where
  "fork_parent p np s = set_proc np (\<lambda>x. x\<lparr>parent := Some p\<rparr>) s"

definition fork_ready :: "nat \<Rightarrow> 'v ks \<Rightarrow> 'v ks" where
  "fork_ready np s = set_proc np (\<lambda>x. x\<lparr>state := RUNNABLE\<rparr>) s"

definition fork :: "'v kops \<Rightarrow> trapframe \<Rightarrow> nat \<Rightarrow> 'v ks \<Rightarrow> (int \<times> 'v ks) res" where
  "fork K junk p s =
     bindE (fork_copy K junk p s) (\<lambda>(r, s).
     case r of None \<Rightarrow> Inr (-1, s)
     | Some (np, n) \<Rightarrow> Inr (n, fork_ready np (fork_parent p np s)))"

definition reparent_visit :: "nat \<Rightarrow> nat \<Rightarrow> 'v ks \<Rightarrow> 'v ks" where
  "reparent_visit p i s =
     (if parent (procs s ! i) = Some p then
        wakeup (Some p) (map_option Chan_proc (initproc s)) (set_proc i (\<lambda>q. q\<lparr>parent := initproc s\<rparr>) s)
      else s)"

definition reparent :: "nat \<Rightarrow> 'v ks \<Rightarrow> 'v ks" where
  "reparent p s = fold (reparent_visit p) [0..<length (procs s)] s"

abbreviation MAP_SHARED :: u32 where "MAP_SHARED \<equiv> 1"
abbreviation MAP_PRIVATE :: u32 where "MAP_PRIVATE \<equiv> 2"

text \<open>The macros \<open>PGROUNDUP\<close> and \<open>PGROUNDDOWN\<close> on addresses and on \<open>int\<close>s.\<close>

definition PGROUNDUP :: "'a::len word \<Rightarrow> 'a word" where
  "PGROUNDUP a = (a + 4095) AND NOT 4095"

definition PGROUNDDOWN :: "'a::len word \<Rightarrow> 'a word" where
  "PGROUNDDOWN a = a AND NOT 4095"

text \<open>The loops of \<open>exit\<close> over the open files and the mapped regions.\<close>

fun exit_files :: "'v kops \<Rightarrow> nat option list \<Rightarrow> 'v \<Rightarrow> (nat option list \<times> 'v) res" where
  "exit_files K [] m = Inr ([], m)"
| "exit_files K (f # fs) m =
     bindE (case f of None \<Rightarrow> Inr m | Some f \<Rightarrow> k_fileclose K f m) (\<lambda>m.
     bindE (exit_files K fs m) (\<lambda>(r, m). Inr (None # r, m)))"

fun exit_vmas :: "'v kops \<Rightarrow> u64 \<Rightarrow> vma list \<Rightarrow> 'v \<Rightarrow> (vma list \<times> 'v) res" where
  "exit_vmas K pt [] m = Inr ([], m)"
| "exit_vmas K pt (v # vs) m =
     bindE (if v_used v then
              bindE (uvmunmap K pt (v_addr v) (scast (PGROUNDUP (v_length v)) div PGSIZE) (v_flags v AND MAP_SHARED = 0) m) (\<lambda>m.
              bindE (k_fileclose K (v_file v) m) (\<lambda>m. Inr (v\<lparr>v_used := False\<rparr>, m)))
            else Inr (v, m)) (\<lambda>(v, m).
     bindE (exit_vmas K pt vs m) (\<lambda>(r, m). Inr (v # r, m)))"

text \<open>\<open>exit\<close> before it takes \<open>wait_lock\<close>, and from there to the end.\<close>

definition exit_release :: "'v kops \<Rightarrow> nat \<Rightarrow> 'v ks \<Rightarrow> 'v ks res" where
  "exit_release K p s =
     (if initproc s = Some p then Inl (Panic ''init exiting'')
      else
      bindE (exit_files K (p_ofile (procs s ! p)) (mach s)) (\<lambda>(fs, m).
      let s = set_proc p (\<lambda>q. q\<lparr>p_ofile := fs\<rparr>) (s\<lparr>mach := m\<rparr>) in
      bindE (exit_vmas K (the (pagetable (procs s ! p))) (vmas (procs s ! p)) (mach s)) (\<lambda>(vs, m).
      let s = set_proc p (\<lambda>q. q\<lparr>vmas := vs\<rparr>) (s\<lparr>mach := m\<rparr>) in
      bindE (on_mach (k_iput K (the (p_cwd (procs s ! p)))) s) (\<lambda>s.
      Inr (set_proc p (\<lambda>q. q\<lparr>p_cwd := None\<rparr>) s)))))"

definition exit_zombie :: "senv \<Rightarrow> nat \<Rightarrow> nat \<Rightarrow> int \<Rightarrow> 'v ks \<Rightarrow> 'v ks res" where
  "exit_zombie E c p status s =
     (let s = reparent p s;
          s = wakeup (Some p) (map_option Chan_proc (parent (procs s ! p))) s;
          s = set_proc p (\<lambda>q. q\<lparr>xstate := status, state := ZOMBIE\<rparr>) s
      in sched E c s)"

definition exit :: "'v kops \<Rightarrow> senv \<Rightarrow> nat \<Rightarrow> nat \<Rightarrow> int \<Rightarrow> 'v ks \<Rightarrow> 'v ks res" where
  "exit K E c p status s = bindE (exit_release K p s) (exit_zombie E c p status)"

text \<open>The scan of \<open>wait\<close> over the entries \<open>is\<close>: its return value, or whether there are children.\<close>

fun wait_scan :: "'v kops \<Rightarrow> nat \<Rightarrow> u64 \<Rightarrow> nat list \<Rightarrow> bool \<Rightarrow> 'v ks \<Rightarrow> ((int + bool) \<times> 'v ks) res" where
  "wait_scan K p addr [] havekids s = Inr (Inr havekids, s)"
| "wait_scan K p addr (i # is) havekids s =
     (if parent (procs s ! i) = Some p then
        if state (procs s ! i) = ZOMBIE then
          let n = pid (procs s ! i);
              (e, m) = (if addr \<noteq> 0 then k_copyout K (the (pagetable (procs s ! p))) addr (xstate (procs s ! i)) (mach s)
                        else (0, mach s));
              s = s\<lparr>mach := m\<rparr> in
          if e < 0 then Inr (Inl (-1), s)
          else bindE (freeproc K i s) (\<lambda>s. Inr (Inl n, s))
        else wait_scan K p addr is True s
      else wait_scan K p addr is havekids s)"

text \<open>One round of the loop of \<open>wait\<close>: the value it returns, or \<open>None\<close> when the process went to sleep.\<close>

definition wait_round :: "'v kops \<Rightarrow> senv \<Rightarrow> nat \<Rightarrow> nat \<Rightarrow> u64 \<Rightarrow> 'v ks \<Rightarrow> (int option \<times> 'v ks) res" where
  "wait_round K E c p addr s =
     bindE (wait_scan K p addr [0..<length (procs s)] False s) (\<lambda>(r, s).
     case r of Inl v \<Rightarrow> Inr (Some v, s)
     | Inr havekids \<Rightarrow>
       if \<not> havekids \<or> killed (procs s ! p) then Inr (Some (-1), s)
       else bindE (sleep E c p (Chan_proc p) s) (\<lambda>s. Inr (None, s)))"

section \<open>Steps\<close>

text \<open>\<open>runs c p s\<close>: the process \<open>p\<close> runs on the cpu \<open>c\<close> and is past the end of any \<open>sleep\<close>.\<close>

definition runs :: "nat \<Rightarrow> nat \<Rightarrow> 'v ks \<Rightarrow> bool" where
  "runs c p s \<longleftrightarrow> c < length (cpus s) \<and> p < length (procs s) \<and> myproc c s = Some p \<and> chan (procs s ! p) = None"

text \<open>An entry that \<open>exit_release\<close> has emptied. Between the two parts of \<open>exit\<close> other processes run; the loops that close the files of the process
  are one step.\<close>

definition released :: "proc \<Rightarrow> bool" where
  "released q \<longleftrightarrow> p_cwd q = None \<and> (\<forall>f \<in> set (p_ofile q). f = None) \<and> (\<forall>v \<in> set (vmas q). \<not> v_used v)"

inductive kstep :: "'v kops \<Rightarrow> 'v ks \<Rightarrow> 'v ks \<Rightarrow> bool" for K :: "'v kops" where
  schedule: "c < length (cpus s) \<Longrightarrow> p < length (procs s) \<Longrightarrow> myproc c s = None \<Longrightarrow> kstep K s (scheduler_visit c p s)"
| resume: "c < length (cpus s) \<Longrightarrow> p < length (procs s) \<Longrightarrow> myproc c s = Some p \<Longrightarrow> kstep K s (sleep_tail p s)"
| yield: "runs c p s \<Longrightarrow> yield E c p s = Inr s' \<Longrightarrow> kstep K s s'"
| sleep: "runs c p s \<Longrightarrow> (\<And>q. ch \<noteq> Chan_proc q) \<Longrightarrow> sleep E c p ch s = Inr s' \<Longrightarrow> kstep K s s'"
| wakeup: "c < length (cpus s) \<Longrightarrow> kstep K s (wakeup (myproc c s) (Some ch) s)"
| kill: "runs c p s \<Longrightarrow> kstep K s (snd (kill n s))"
| setkilled: "runs c p s \<Longrightarrow> kstep K s (setkilled p s)"
| growproc: "runs c p s \<Longrightarrow> kstep K s (snd (growproc K p n s))"
| fork_copy: "runs c p s \<Longrightarrow> fork_copy K junk p s = Inr (r, s') \<Longrightarrow> kstep K s s'"
| fork_parent: "runs c p s \<Longrightarrow> np < length (procs s) \<Longrightarrow> state (procs s ! np) = USED \<Longrightarrow> np \<noteq> p \<Longrightarrow> kstep K s (fork_parent p np s)"
| fork_ready: "runs c p s \<Longrightarrow> np < length (procs s) \<Longrightarrow> state (procs s ! np) = USED \<Longrightarrow> parent (procs s ! np) \<noteq> None \<Longrightarrow>
    kstep K s (fork_ready np s)"
| exit_release: "runs c p s \<Longrightarrow> exit_release K p s = Inr s' \<Longrightarrow> kstep K s s'"
| exit_zombie: "runs c p s \<Longrightarrow> initproc s \<noteq> Some p \<Longrightarrow> released (procs s ! p) \<Longrightarrow> exit_zombie E c p status s = Inr s' \<Longrightarrow> kstep K s s'"
| wait: "runs c p s \<Longrightarrow> wait_round K E c p addr s = Inr (r, s') \<Longrightarrow> kstep K s s'"
| forkret: "runs c p s \<Longrightarrow> forkret K s = Inr s' \<Longrightarrow> kstep K s s'"
| outside: "kstep K s (s\<lparr>mach := m\<rparr>)"

end
