(* ===== verification/Vma.thy ===== *)
theory Vma
  imports Proc
begin

text \<open>
  Mapped files: \<open>sys_mmap\<close> and \<open>sys_munmap\<close> of \<open>HW3/source/sysfile.c\<close> and the page fault they rely on, in \<open>usertrap\<close> of
  \<open>HW3/source/trap.c\<close>. The regions of a process are the sixteen entries of its array \<open>vma\<close>. Open files, inodes, page tables and
  pages (\<open>file.c\<close>, \<open>fs.c\<close>, \<open>vm.c\<close>, \<open>kalloc.c\<close>) are parameters; in \<open>mapops\<close> an inode is named by the open file \<open>v->file\<close>.
\<close>

section \<open>State and parameters\<close>

abbreviation PROT_READ :: u32 where "PROT_READ \<equiv> 1"
abbreviation PROT_WRITE :: u32 where "PROT_WRITE \<equiv> 2"
abbreviation PROT_EXEC :: u32 where "PROT_EXEC \<equiv> 4"

record 'v mapops =
  m_readable :: "nat \<Rightarrow> 'v \<Rightarrow> bool"
  m_writable :: "nat \<Rightarrow> 'v \<Rightarrow> bool"
  m_begin :: "'v \<Rightarrow> 'v"
  m_end :: "'v \<Rightarrow> 'v"
  m_ilock :: "nat \<Rightarrow> 'v \<Rightarrow> 'v res"
  m_iunlock :: "nat \<Rightarrow> 'v \<Rightarrow> 'v res"
  m_walkaddr :: "u64 \<Rightarrow> u64 \<Rightarrow> 'v \<Rightarrow> u64"
  m_writei :: "nat \<Rightarrow> bool \<Rightarrow> u64 \<Rightarrow> u32 \<Rightarrow> u32 \<Rightarrow> 'v \<Rightarrow> (int \<times> 'v) res"
  m_readi :: "nat \<Rightarrow> bool \<Rightarrow> u64 \<Rightarrow> u32 \<Rightarrow> u32 \<Rightarrow> 'v \<Rightarrow> (int \<times> 'v) res"
  m_zero :: "u64 \<Rightarrow> 'v \<Rightarrow> 'v"

section \<open>mmap\<close>

text \<open>The search for a free entry from index \<open>i\<close> on, with \<open>assigned_addr\<close>.\<close>

fun mmap_scan :: "nat \<Rightarrow> u64 \<Rightarrow> vma list \<Rightarrow> (nat \<times> u64) option" where
  "mmap_scan i assigned [] = None"
| "mmap_scan i assigned (v # vs) =
     (if \<not> v_used v then Some (i, assigned)
      else mmap_scan (i + 1)
        (if v_addr v < assigned then v_addr v - scast (PGROUNDUP (v_length v)) else assigned) vs)"

text \<open>\<open>f\<close> is what \<open>argfd\<close> found; its return value is not looked at, so that without a file the pointer is not initialised.\<close>

definition sys_mmap :: "'v kops \<Rightarrow> 'v mapops \<Rightarrow> nat \<Rightarrow> u64 \<Rightarrow> u32 \<Rightarrow> u32 \<Rightarrow> u32 \<Rightarrow> nat option \<Rightarrow> u32 \<Rightarrow> 'v ks \<Rightarrow> (u64 \<times> 'v ks) res" where
  "sys_mmap K M p addr len prot flags f offset s =
     (let addr = PGROUNDDOWN addr; len = PGROUNDUP len in
      if sint len \<le> 0 \<or> sint offset < 0 then Inr (-1, s)
      else if f = None \<and> (prot AND PROT_READ \<noteq> 0 \<or> prot AND PROT_WRITE \<noteq> 0) then Inl (Undefined ''f'')
      else if prot AND PROT_READ \<noteq> 0 \<and> \<not> m_readable M (the f) (mach s) then Inr (-1, s)
      else if prot AND PROT_WRITE \<noteq> 0 \<and> \<not> m_writable M (the f) (mach s) \<and> flags AND MAP_SHARED \<noteq> 0 then Inr (-1, s)
      else
      case mmap_scan 0 (MAXVA - 2 * PGSIZE) (vmas (procs s ! p)) of
        None \<Rightarrow> Inl (Panic ''syscall mmap'')
      | Some (i, assigned) \<Rightarrow>
        let v = \<lparr>v_addr = assigned - scast (PGROUNDUP len), v_length = len, v_prot = prot, v_flags = flags,
                 v_file = the f, v_offset = offset, v_used = True\<rparr>;
            s = set_proc p (\<lambda>q. q\<lparr>vmas := (vmas q)[i := v]\<rparr>) s in
        if f = None then Inl (Undefined ''f'')
        else bindE (on_mach (k_filedup K (the f)) s) (\<lambda>s. Inr (v_addr v, s)))"

section \<open>munmap\<close>

text \<open>The region that contains an address: the search \<open>sys_munmap\<close> and the page fault share.\<close>

definition vma_covers :: "u64 \<Rightarrow> vma \<Rightarrow> bool" where
  "vma_covers addr v \<longleftrightarrow> v_used v \<and> v_addr v \<le> addr \<and> addr < v_addr v + scast (v_length v)"

definition vma_find :: "u64 \<Rightarrow> vma list \<Rightarrow> nat option" where
  "vma_find addr vs = find_idx (vma_covers addr) vs"

text \<open>The addresses from \<open>start\<close> to below \<open>stop\<close> in steps of a page.\<close>

definition page_addrs :: "u64 \<Rightarrow> u64 \<Rightarrow> u64 list" where
  "page_addrs start stop = map (\<lambda>i. start + of_nat i * PGSIZE) [0..<(unat stop - unat start + 4095) div 4096]"

text \<open>The loop that writes the pages back; \<open>False\<close> where a write failed and the call returns -1.\<close>

fun munmap_write :: "'v mapops \<Rightarrow> u64 \<Rightarrow> vma \<Rightarrow> u64 list \<Rightarrow> 'v \<Rightarrow> (bool \<times> 'v) res" where
  "munmap_write M pt v [] m = Inr (True, m)"
| "munmap_write M pt v (a # as) m =
     (if m_walkaddr M pt a m = 0 then munmap_write M pt v as m
      else bindE (m_writei M (v_file v) True a (v_offset v + ucast (a - v_addr v)) 4096 m) (\<lambda>(r, m).
        if r < 0 then Inr (False, m) else munmap_write M pt v as m))"

definition sys_munmap :: "'v kops \<Rightarrow> 'v mapops \<Rightarrow> nat \<Rightarrow> u64 \<Rightarrow> u32 \<Rightarrow> 'v ks \<Rightarrow> (int \<times> 'v ks) res" where
  "sys_munmap K M p addr len s =
     (let q = procs s ! p; pt = the (pagetable q) in
      case vma_find addr (vmas q) of
        None \<Rightarrow> Inr (-1, s)
      | Some i \<Rightarrow>
        let v = vmas q ! i;
            start = PGROUNDDOWN addr;
            stop = PGROUNDUP (addr + scast len) in
        bindE (if v_flags v AND MAP_SHARED \<noteq> 0 \<and> v_prot v AND PROT_WRITE \<noteq> 0 then
                 bindE (m_ilock M (v_file v) (m_begin M (mach s))) (\<lambda>m.
                 bindE (munmap_write M pt v (page_addrs start stop) m) (\<lambda>(ok, m).
                 bindE (m_iunlock M (v_file v) m) (\<lambda>m. Inr (ok, m_end M m))))
               else Inr (True, mach s)) (\<lambda>(ok, m).
        if \<not> ok then Inr (-1, s\<lparr>mach := m\<rparr>)
        else
        bindE (uvmunmap K pt start ((stop - start) div PGSIZE) (v_flags v AND MAP_SHARED = 0) m) (\<lambda>m.
        if start = v_addr v \<and> stop = v_addr v + scast (v_length v) then
          bindE (k_fileclose K (v_file v) m) (\<lambda>m.
          Inr (0, set_proc p (\<lambda>q. q\<lparr>vmas := (vmas q)[i := v\<lparr>v_used := False\<rparr>]\<rparr>) (s\<lparr>mach := m\<rparr>)))
        else Inr (0, s\<lparr>mach := m\<rparr>))))"

section \<open>The page fault\<close>

definition fault_perm :: "u32 \<Rightarrow> u64" where
  "fault_perm prot = PTE_U OR (if prot AND PROT_READ \<noteq> 0 then PTE_R else 0) OR (if prot AND PROT_WRITE \<noteq> 0 then PTE_W else 0)
     OR (if prot AND PROT_EXEC \<noteq> 0 then PTE_X else 0)"

text \<open>\<open>int offset = v->offset + (addr - v->addr)\<close>\<close>

definition fault_offset :: "vma \<Rightarrow> u64 \<Rightarrow> u32" where
  "fault_offset v addr = v_offset v + ucast (addr - v_addr v)"

text \<open>\<open>True\<close> where the handler jumps to \<open>err\<close>.\<close>

definition page_fault :: "'v kops \<Rightarrow> 'v mapops \<Rightarrow> nat \<Rightarrow> u64 \<Rightarrow> 'v ks \<Rightarrow> (bool \<times> 'v ks) res" where
  "page_fault K M p addr s =
     (let q = procs s ! p in
      case vma_find addr (vmas q) of
        None \<Rightarrow> Inl (Panic ''page fault trap: no matching VMA'')
      | Some i \<Rightarrow>
        let v = vmas q ! i in
        case kalloc K (mach s) of
          (None, m) \<Rightarrow> Inr (True, s\<lparr>mach := m\<rparr>)
        | (Some pa, m) \<Rightarrow>
          bindE (m_ilock M (v_file v) (m_zero M pa m)) (\<lambda>m.
          bindE (m_readi M (v_file v) False pa (fault_offset v addr) 4096 m) (\<lambda>(r, m).
          bindE (m_iunlock M (v_file v) m) (\<lambda>m.
          if r < 0 then Inr (True, s\<lparr>mach := kfree K pa m\<rparr>)
          else
          bindE (mappages K (the (pagetable q)) addr PGSIZE pa (fault_perm (v_prot v)) m) (\<lambda>(r, m).
          if r \<noteq> 0 then Inr (True, s\<lparr>mach := kfree K pa m\<rparr>) else Inr (False, s\<lparr>mach := m\<rparr>))))))"

lemma PGROUNDDOWN_shift: "PGROUNDDOWN (a :: 'a::len word) = push_bit 12 (drop_bit 12 a)"
proof -
  have m: "(4095 :: 'a word) = mask 12" by (simp add: mask_eq_exp_minus_1)
  show ?thesis unfolding PGROUNDDOWN_def m by (rule bit_word_eqI) (auto simp: bit_simps)
qed

lemma unat_PGROUNDDOWN: "unat (PGROUNDDOWN (a :: 'a::len word)) = unat a div 4096 * 4096"
proof -
  have "unat a div 4096 * 4096 < 2 ^ LENGTH('a)"
    using unsigned_less [of a, where 'a = nat] by (meson div_times_less_eq_dividend le_less_trans)
  then have "take_bit LENGTH('a) (push_bit 12 (drop_bit 12 (unat a))) = unat a div 4096 * 4096"
    by (simp add: push_bit_eq_mult drop_bit_eq_div take_bit_nat_eq_self)
  moreover have "drop_bit 12 (take_bit LENGTH('a) (unat a)) = drop_bit 12 (unat a)" by (simp add: take_bit_nat_eq_self)
  ultimately show ?thesis unfolding PGROUNDDOWN_shift unsigned_push_bit_eq unsigned_drop_bit_eq by (simp only:)
qed

lemma unat_PGROUNDUP:
  assumes "12 < LENGTH('a)" and "unat a + 4095 < 2 ^ LENGTH('a)"
  shows "unat (PGROUNDUP (a :: 'a::len word)) = (unat a + 4095) div 4096 * 4096"
proof -
  have "(4095 :: nat) < 2 ^ 12" by simp
  also have "(2 :: nat) ^ 12 < 2 ^ LENGTH('a)" using assms(1) by (rule power_strict_increasing) simp
  finally have "unat (4095 :: 'a word) = 4095" by (simp add: unsigned_numeral take_bit_nat_eq_self)
  with assms(2) have "unat (a + 4095) = unat a + 4095" by (simp add: unat_word_ariths)
  with unat_PGROUNDDOWN [of "a + 4095"] show ?thesis by (simp add: PGROUNDUP_def PGROUNDDOWN_def)
qed

lemma uint_sint_nonneg:
  fixes n :: u32
  assumes "0 \<le> sint n"
  shows "uint n = sint n" and "sint n < 2147483648"
proof -
  show b: "sint n < 2147483648" using sint_less [of n] by simp
  then have "sint n < 2 ^ LENGTH(32)" by simp
  with assms show "uint n = sint n" unfolding uint_sint by (rule take_bit_int_eq_self)
qed

lemma unat_scast_nonneg:
  fixes n :: u32
  assumes "0 \<le> sint n"
  shows "unat (scast n :: u64) = unat n" and "unat n < 2147483648"
proof -
  note u = uint_sint_nonneg [OF assms]
  then show "unat n < 2147483648" unfolding unat_eq_nat_uint by linarith
  have "sint n < 2 ^ LENGTH(64)" using u(2) by simp
  then have "uint (scast n :: u64) = sint n" unfolding scast_eq uint_word_of_int_eq by (rule take_bit_int_eq_self [OF assms])
  with u(1) show "unat (scast n :: u64) = unat n" unfolding unat_eq_nat_uint by (simp only:)
qed
lemma unat_scast_small:
  fixes n :: u32
  assumes "unat n < 2147483648"
  shows "unat (scast n :: u64) = unat n"
proof (rule unat_scast_nonneg)
  have "uint n = int (unat n)" by simp
  with assms have "uint n < 2147483648" by linarith
  then have "uint n < 2 ^ 31" by simp
  then have "signed_take_bit 31 (uint n) = uint n" using uint_nonnegative [of n] by (intro signed_take_bit_int_eq_self) linarith+
  then have "sint n = uint n" unfolding sint_uint by simp
  then show "0 \<le> sint n" by simp
qed

lemma PGROUNDDOWN_le: "unat (PGROUNDDOWN (a :: 'a::len word)) \<le> unat a" and PGROUNDDOWN_aligned: "unat (PGROUNDDOWN a) mod 4096 = 0"
  by (simp_all add: unat_PGROUNDDOWN)

lemma PGROUNDUP_idem:
  assumes "12 < LENGTH('a)" and "unat (a :: 'a::len word) mod 4096 = 0" and "unat a + 4095 < 2 ^ LENGTH('a)"
  shows "PGROUNDUP a = a"
proof -
  obtain k where "unat a = 4096 * k" using assms(2) by (auto simp: mod_eq_0_iff_dvd)
  moreover have "(4096 * k + 4095) div 4096 = k" by simp
  ultimately have "(unat a + 4095) div 4096 * 4096 = unat a" by simp
  with unat_PGROUNDUP [OF assms(1,3)] show ?thesis unfolding word_unat_eq_iff by (simp only:)
qed

text \<open>A length that is positive once rounded up was positive, and the sum in the macro did not wrap.\<close>

lemma PGROUNDUP_length:
  fixes n :: u32
  assumes "0 < sint (PGROUNDUP n)"
  shows "unat (PGROUNDUP n) = (unat n + 4095) div 4096 * 4096" and "unat n \<le> 2147479552" and "0 < unat n"
    and "unat (PGROUNDUP n) \<le> 2147479552"
proof -
  have s: "unat (PGROUNDUP n) < 2147483648" using unat_scast_nonneg(2) [of "PGROUNDUP n"] assms by simp
  have nz: "unat (PGROUNDUP n) \<noteq> 0" using assms by (auto simp: unat_eq_0)
  have nw: "unat n + 4095 < 2 ^ LENGTH(32)"
  proof (rule ccontr)
    assume *: "\<not> ?thesis"
    with unat_u32 [of n] have "unat (n + 4095) = unat n + 4095 - 4294967296" by (simp add: unat_word_ariths mod_if)
    then have "unat (n + 4095) div 4096 = 0" using unat_u32 [of n] by simp
    then have "unat (PGROUNDDOWN (n + 4095)) = 0" by (simp add: unat_PGROUNDDOWN)
    with nz show False by (simp add: PGROUNDUP_def PGROUNDDOWN_def)
  qed
  then show e: "unat (PGROUNDUP n) = (unat n + 4095) div 4096 * 4096" by (rule unat_PGROUNDUP [rotated]) simp
  define q where "q = (unat n + 4095) div 4096"
  have "unat n + 4095 < q * 4096 + 4096" unfolding q_def using div_mult_mod_eq [of "unat n + 4095" 4096] by linarith
  moreover from s e have q: "q * 4096 < 2147483648" unfolding q_def by linarith
  moreover have q: "q \<le> 524287"
  proof (rule ccontr)
    assume "\<not> q \<le> 524287"
    with q show False by linarith
  qed
  ultimately show "unat n \<le> 2147479552" by linarith
  from q e show "unat (PGROUNDUP n) \<le> 2147479552" unfolding q_def by linarith
  from nz e show "0 < unat n" by (cases "unat n = 0") auto
qed

lemma PGROUNDUP_length_aligned:
  fixes n :: u32
  assumes "0 < sint (PGROUNDUP n)"
  shows "unat (PGROUNDUP n) mod 4096 = 0" and "PGROUNDUP (PGROUNDUP n) = PGROUNDUP n"
proof -
  show a: "unat (PGROUNDUP n) mod 4096 = 0" using PGROUNDUP_length(1) [OF assms] by simp
  show "PGROUNDUP (PGROUNDUP n) = PGROUNDUP n"
    by (rule PGROUNDUP_idem) (use a PGROUNDUP_length(4) [OF assms] in simp_all)
qed

section \<open>The regions of a process\<close>

text \<open>The addresses of a region, as numbers. The region in entry \<open>j\<close> is made of whole pages below the trapframe, and not
  more than \<open>(2 * j + 1) * 2 ^ 31\<close> bytes below it, so that the search in \<open>sys_mmap\<close> never wraps around.\<close>

definition lo :: "vma \<Rightarrow> nat" where
  "lo v = unat (v_addr v)"

definition hi :: "vma \<Rightarrow> nat" where
  "hi v = unat (v_addr v) + unat (v_length v)"

definition region_ok :: "nat \<Rightarrow> vma \<Rightarrow> bool" where
  "region_ok j v \<longleftrightarrow> 0 < sint (v_length v) \<and> unat (v_length v) mod 4096 = 0 \<and> lo v mod 4096 = 0 \<and>
     hi v \<le> unat TRAPFRAME \<and> unat TRAPFRAME \<le> lo v + (2 * j + 1) * 2147483648"

definition vma_inv :: "vma list \<Rightarrow> bool" where
  "vma_inv vs \<longleftrightarrow> length vs = VMASIZE \<and> (\<forall>j < length vs. v_used (vs ! j) \<longrightarrow> region_ok j (vs ! j))"

definition apart :: "vma \<Rightarrow> vma \<Rightarrow> bool" where
  "apart v w \<longleftrightarrow> hi v \<le> lo w \<or> hi w \<le> lo v"

text \<open>The regions in use do not overlap.\<close>

definition disjoint_regions :: "vma list \<Rightarrow> bool" where
  "disjoint_regions vs \<longleftrightarrow>
     (\<forall>i < length vs. \<forall>j < i. v_used (vs ! i) \<longrightarrow> v_used (vs ! j) \<longrightarrow> apart (vs ! i) (vs ! j))"

lemma TRAPFRAME_nat: "unat TRAPFRAME = 274877898752"
  by simp

lemma region_length:
  assumes "region_ok j v"
  shows "unat (scast (v_length v) :: u64) = unat (v_length v)" and "unat (v_length v) < 2147483648" and "0 < unat (v_length v)"
    and "PGROUNDUP (v_length v) = v_length v" and "lo v < hi v"
proof -
  have n: "0 \<le> sint (v_length v)" using assms by (simp add: region_ok_def)
  show l: "unat (scast (v_length v) :: u64) = unat (v_length v)" "unat (v_length v) < 2147483648" by (rule unat_scast_nonneg [OF n])+
  show p: "0 < unat (v_length v)"
  proof (rule ccontr)
    assume "\<not> 0 < unat (v_length v)"
    then have "v_length v = 0" by (simp add: unat_eq_0)
    with assms show False by (simp add: region_ok_def)
  qed
  show "PGROUNDUP (v_length v) = v_length v" by (rule PGROUNDUP_idem) (use assms l(2) in \<open>simp_all add: region_ok_def\<close>)
  show "lo v < hi v" using p by (simp add: lo_def hi_def)
qed

lemma vma_covers_region:
  assumes "region_ok j v"
  shows "vma_covers a v \<longleftrightarrow> v_used v \<and> lo v \<le> unat a \<and> unat a < hi v"
proof -
  have "hi v < 2 ^ LENGTH(64)" using assms unfolding region_ok_def TRAPFRAME_nat by simp
  then have "unat (v_addr v + scast (v_length v)) = hi v"
    using region_length(1) [OF assms] by (simp add: hi_def unat_word_ariths)
  then show ?thesis by (simp add: vma_covers_def lo_def word_le_nat_alt word_less_nat_alt)
qed

section \<open>The search for an address\<close>

lemma region_bounds:
  assumes "region_ok j v"
  shows "hi v \<le> 274877898752" and "274877898752 \<le> lo v + 4294967296 * j + 2147483648" and "lo v mod 4096 = 0" and "unat (v_length v) mod 4096 = 0"
  using assms unfolding region_ok_def TRAPFRAME_nat by simp_all

lemma mmap_scan_Some:
  assumes "mmap_scan i a vs = Some (k, b)" and "\<And>j. j < length vs \<Longrightarrow> v_used (vs ! j) \<Longrightarrow> region_ok (i + j) (vs ! j)"
    and "i + length vs \<le> VMASIZE" and "unat a \<le> 274877898752" and "274877898752 \<le> unat a + 4294967296 * i" and "unat a mod 4096 = 0"
  shows "\<exists>n < length vs. k = i + n \<and> \<not> v_used (vs ! n) \<and> (\<forall>j < n. v_used (vs ! j) \<and> unat b \<le> lo (vs ! j)) \<and>
    unat b \<le> unat a \<and> 274877898752 \<le> unat b + 4294967296 * k \<and> unat b mod 4096 = 0"
  using assms
proof (induction vs arbitrary: i a)
  case Nil
  then show ?case by simp
next
  case (Cons v vs)
  show ?case
  proof (cases "v_used v")
    case False
    with Cons.prems show ?thesis by (intro exI [of _ 0]) auto
  next
    case True
    define a' where "a' = (if v_addr v < a then v_addr v - scast (PGROUNDUP (v_length v)) else a)"
    have r: "region_ok i v" using Cons.prems(2) [of 0] True by simp
    note l = region_length [OF r] and b = region_bounds [OF r]
    have i: "i < 16" using Cons.prems(3) by simp
    have sub: "unat (v_addr v - scast (v_length v)) = lo v - unat (v_length v) \<and> unat (v_length v) \<le> lo v"
    proof -
      have "unat (v_length v) \<le> lo v" using b(2) l(2) i by linarith
      then show ?thesis using l(1) by (simp add: lo_def unat_sub word_le_nat_alt)
    qed
    have a': "unat a' \<le> unat a \<and> unat a' \<le> lo v \<and> 274877898752 \<le> unat a' + 4294967296 * (i + 1) \<and> unat a' mod 4096 = 0"
    proof (cases "v_addr v < a")
      case True
      then have "unat a' = lo v - unat (v_length v)" using sub l(4) by (simp add: a'_def)
      moreover have "(lo v - unat (v_length v)) mod 4096 = 0" using b(3,4) by (simp add: mod_eq_0_iff_dvd)
      moreover have "unat (v_addr v) < unat a" using True by (simp add: word_less_nat_alt)
      ultimately show ?thesis using b(2) l(2) sub [THEN conjunct2] by (intro conjI; (simp; fail)?) (unfold lo_def; linarith)+
    next
      case False
      then have "unat a \<le> lo v" by (simp add: lo_def word_less_nat_alt)
      with False Cons.prems(5,6) show ?thesis by (simp add: a'_def)
    qed
    have s: "mmap_scan (i + 1) a' vs = Some (k, b)" using Cons.prems(1) True by (simp add: a'_def)
    have "unat a' \<le> 274877898752" using a' Cons.prems(4) by linarith
    from Cons.IH [OF s _ _ this] a' Cons.prems(2) [of "Suc _"] Cons.prems(3) obtain n where n: "n < length vs" "k = i + 1 + n" "\<not> v_used (vs ! n)"
      "\<forall>j < n. v_used (vs ! j) \<and> unat b \<le> lo (vs ! j)" "unat b \<le> unat a'" "274877898752 \<le> unat b + 4294967296 * k" "unat b mod 4096 = 0"
      by auto
    have "\<forall>j < Suc n. v_used ((v # vs) ! j) \<and> unat b \<le> lo ((v # vs) ! j)"
      using n(4,5) a' True by (auto simp: less_Suc_eq_0_disj)
    with n a' show ?thesis by (intro exI [of _ "Suc n"]) auto
  qed
qed

lemma on_mach_Inr: "on_mach f s = Inr s' \<longleftrightarrow> (\<exists>m. f (mach s) = Inr m \<and> s' = s\<lparr>mach := m\<rparr>)"
  by (auto simp: on_mach_def bindE_eq_Inr)

text \<open>The requests \<open>sys_mmap\<close> turns down.\<close>

definition mmap_refused :: "'v mapops \<Rightarrow> u32 \<Rightarrow> u32 \<Rightarrow> u32 \<Rightarrow> nat \<Rightarrow> u32 \<Rightarrow> 'v \<Rightarrow> bool" where
  "mmap_refused M len prot flags f offset m \<longleftrightarrow>
     sint (PGROUNDUP len) \<le> 0 \<or> sint offset < 0 \<or> prot AND PROT_READ \<noteq> 0 \<and> \<not> m_readable M f m \<or>
     prot AND PROT_WRITE \<noteq> 0 \<and> \<not> m_writable M f m \<and> flags AND MAP_SHARED \<noteq> 0"

definition new_vma :: "u64 \<Rightarrow> u32 \<Rightarrow> u32 \<Rightarrow> u32 \<Rightarrow> nat \<Rightarrow> u32 \<Rightarrow> vma" where
  "new_vma a len prot flags f offset = \<lparr>v_addr = a, v_length = PGROUNDUP len, v_prot = prot, v_flags = flags, v_file = f,
     v_offset = offset, v_used = True\<rparr>"

text \<open>What is left of the call when it goes ahead.\<close>

lemma sys_mmap_eq:
  assumes "\<not> mmap_refused M len prot flags f offset (mach s)"
  shows "sys_mmap K M p addr len prot flags (Some f) offset s =
      (case mmap_scan 0 TRAPFRAME (vmas (procs s ! p)) of None \<Rightarrow> Inl (Panic ''syscall mmap'')
       | Some (i, b) \<Rightarrow> let a = b - scast (PGROUNDUP len) in
           bindE (on_mach (k_filedup K f) (set_proc p (\<lambda>q. q\<lparr>vmas := (vmas q)[i := new_vma a len prot flags f offset]\<rparr>) s)) (\<lambda>s. Inr (a, s)))"
proof -
  have pos: "0 < sint (PGROUNDUP len)" using assms by (auto simp: mmap_refused_def)
  note idem = PGROUNDUP_length_aligned(2) [OF pos]
  have c: "\<not> (sint (PGROUNDUP len) \<le> 0 \<or> sint offset < 0)" "\<not> (prot AND PROT_READ \<noteq> 0 \<and> \<not> m_readable M f (mach s))"
    "\<not> (prot AND PROT_WRITE \<noteq> 0 \<and> \<not> m_writable M f (mach s) \<and> flags AND MAP_SHARED \<noteq> 0)"
    using assms by (auto simp: mmap_refused_def)
  have T: "MAXVA - 2 * PGSIZE = TRAPFRAME" by simp
  show ?thesis
    unfolding sys_mmap_def new_vma_def Let_def option.sel if_not_P [OF c(1)] if_not_P [OF c(2)] if_not_P [OF c(3)] idem T
    by (simp only: option.distinct simp_thms if_False vma.select_convs)
qed

lemma sys_mmap_Inr:
  assumes "sys_mmap K M p addr len prot flags (Some f) offset s = Inr (a, s')" and "\<not> mmap_refused M len prot flags f offset (mach s)"
  shows "\<exists>i b m. mmap_scan 0 TRAPFRAME (vmas (procs s ! p)) = Some (i, b) \<and> 0 < sint (PGROUNDUP len) \<and>
    a = b - scast (PGROUNDUP len) \<and>
    s' = (set_proc p (\<lambda>q. q\<lparr>vmas := (vmas q)[i := new_vma a len prot flags f offset]\<rparr>) s)\<lparr>mach := m\<rparr>"
proof -
  have pos: "0 < sint (PGROUNDUP len)" using assms(2) by (auto simp: mmap_refused_def)
  note e = assms(1) [unfolded sys_mmap_eq [OF assms(2)] Let_def]
  obtain i b where sc: "mmap_scan 0 TRAPFRAME (vmas (procs s ! p)) = Some (i, b)"
  proof (cases "mmap_scan 0 TRAPFRAME (vmas (procs s ! p))")
    case None
    with e show thesis by simp
  next
    case (Some x)
    with that show thesis by (cases x) blast
  qed
  let ?s = "set_proc p (\<lambda>q. q\<lparr>vmas := (vmas q)[i := new_vma (b - scast (PGROUNDUP len)) len prot flags f offset]\<rparr>) s"
  have "bindE (on_mach (k_filedup K f) ?s) (\<lambda>s. Inr (b - scast (PGROUNDUP len), s)) = Inr (a, s')"
    using e unfolding sc by (simp only: option.case prod.case)
  then obtain m where "s' = ?s\<lparr>mach := m\<rparr>" "a = b - scast (PGROUNDUP len)"
    unfolding bindE_eq_Inr on_mach_Inr by (elim exE conjE) (drule sum.inject(2) [THEN iffD1], drule prod.inject [THEN iffD1], blast)
  with sc pos show ?thesis by blast
qed

text \<open>The new region lies below the address the search ended at.\<close>

lemma new_region:
  assumes "vma_inv vs" and "mmap_scan 0 TRAPFRAME vs = Some (i, b)" and "0 < sint (PGROUNDUP len)"
    and v: "v_addr v = b - scast (PGROUNDUP len)" "v_length v = PGROUNDUP len"
  shows "find_idx (\<lambda>v. \<not> v_used v) vs = Some i" and "vma_inv (vs[i := v])" and "\<forall>j < i. v_used (vs ! j) \<and> hi v \<le> lo (vs ! j)"
proof -
  let ?n = "unat (PGROUNDUP len)"
  have t: "unat (TRAPFRAME :: u64) = 274877898752" by (rule TRAPFRAME_nat)
  have "\<exists>n < length vs. i = 0 + n \<and> \<not> v_used (vs ! n) \<and> (\<forall>j < n. v_used (vs ! j) \<and> unat b \<le> lo (vs ! j)) \<and>
    unat b \<le> unat (TRAPFRAME :: u64) \<and> 274877898752 \<le> unat b + 4294967296 * i \<and> unat b mod 4096 = 0"
    by (rule mmap_scan_Some [OF assms(2)]) (use assms(1) in \<open>simp_all add: vma_inv_def\<close>)
  then have i: "i < length vs" "\<not> v_used (vs ! i)" "\<forall>j < i. v_used (vs ! j) \<and> unat b \<le> lo (vs ! j)"
    and b: "unat b \<le> 274877898752" "274877898752 \<le> unat b + 4294967296 * i" "unat b mod 4096 = 0" using t by auto
  show "find_idx (\<lambda>v. \<not> v_used v) vs = Some i" using i by (simp add: find_idx_Some)
  have i16: "i < 16" using i(1) assms(1) by (simp add: vma_inv_def)
  note l = PGROUNDUP_length [OF assms(3)] PGROUNDUP_length_aligned [OF assms(3)]
  have sl: "unat (scast (PGROUNDUP len) :: u64) = ?n" by (rule unat_scast_nonneg) (use assms(3) in simp)
  have le: "?n \<le> unat b" using l(4) b(2) i16 by linarith
  then have lo: "lo v = unat b - ?n" using sl by (simp add: lo_def v unat_sub word_le_nat_alt)
  then have hi: "hi v = unat b" using le by (simp add: hi_def lo_def v)
  have "region_ok i v"
    unfolding region_ok_def t
  proof (intro conjI)
    show "lo v mod 4096 = 0" using b(3) l(5) by (simp add: lo mod_eq_0_iff_dvd)
    show "274877898752 \<le> lo v + (2 * i + 1) * 2147483648" using b(2) l(4) le unfolding lo by (simp add: algebra_simps; linarith)
  qed (use assms(3) l(5) b(1) hi v in simp_all)
  with assms(1) i(1) show "vma_inv (vs[i := v])" by (simp add: vma_inv_def nth_list_update)
  show "\<forall>j < i. v_used (vs ! j) \<and> hi v \<le> lo (vs ! j)" using i(3) hi by simp
qed

section \<open>munmap and the page fault on the table of regions\<close>

text \<open>The pages \<open>sys_munmap\<close> takes away, and whether they are all of the region.\<close>

definition whole_region :: "u64 \<Rightarrow> u32 \<Rightarrow> vma \<Rightarrow> bool" where
  "whole_region addr len v \<longleftrightarrow> PGROUNDDOWN addr = v_addr v \<and> PGROUNDUP (addr + scast len) = v_addr v + scast (v_length v)"

lemma whole_region_nat:
  assumes "region_ok j v"
  shows "whole_region addr len v \<longleftrightarrow> unat (PGROUNDDOWN addr) = lo v \<and> unat (PGROUNDUP (addr + scast len)) = hi v"
proof -
  have "unat (v_addr v + scast (v_length v)) = hi v"
    using region_bounds(1) [OF assms] region_length(1) [OF assms] by (simp add: hi_def unat_word_ariths)
  then show ?thesis unfolding whole_region_def by (metis lo_def word_unat_eq_iff)
qed

lemma sys_munmap_outcome:
  assumes "sys_munmap K M p addr len s = Inr (r, s')"
  shows "case vma_find addr (vmas (procs s ! p)) of None \<Rightarrow> r = -1 \<and> s' = s
    | Some i \<Rightarrow> let v = vmas (procs s ! p) ! i; start = PGROUNDDOWN addr; stop = PGROUNDUP (addr + scast len);
          saved = v_flags v AND MAP_SHARED \<noteq> 0 \<and> v_prot v AND PROT_WRITE \<noteq> 0 in
        saved \<and> r = -1 \<and> s' = s\<lparr>mach := mach s'\<rparr> \<or>
        (\<exists>m m1. r = 0 \<and> (\<not> saved \<longrightarrow> m = mach s) \<and>
          uvmunmap K (the (pagetable (procs s ! p))) start ((stop - start) div PGSIZE) (v_flags v AND MAP_SHARED = 0) m = Inr m1 \<and>
          (if whole_region addr len v
           then k_fileclose K (v_file v) m1 = Inr (mach s') \<and> s' = set_proc p (\<lambda>q. q\<lparr>vmas := (vmas q)[i := v\<lparr>v_used := False\<rparr>]\<rparr>) (s\<lparr>mach := mach s'\<rparr>)
           else s' = s\<lparr>mach := m1\<rparr>))"
proof (cases "vma_find addr (vmas (procs s ! p))")
  case None
  with assms show ?thesis by (simp add: sys_munmap_def Let_def)
next
  case (Some i)
  let ?v = "vmas (procs s ! p) ! i" and ?start = "PGROUNDDOWN addr" and ?stop = "PGROUNDUP (addr + scast len)"
  let ?wr = "v_flags ?v AND MAP_SHARED \<noteq> 0 \<and> v_prot ?v AND PROT_WRITE \<noteq> 0" and ?pt = "the (pagetable (procs s ! p))"
  define w where "w = (if ?wr then
                 bindE (m_ilock M (v_file ?v) (m_begin M (mach s))) (\<lambda>m.
                 bindE (munmap_write M ?pt ?v (page_addrs ?start ?stop) m) (\<lambda>(ok, m).
                 bindE (m_iunlock M (v_file ?v) m) (\<lambda>m. Inr (ok, m_end M m))))
               else Inr (True, mach s))"
  from assms Some obtain ok m where w: "w = Inr (ok, m)" and rest: "(if \<not> ok then Inr (-1, s\<lparr>mach := m\<rparr>)
        else
        bindE (uvmunmap K ?pt ?start ((?stop - ?start) div PGSIZE) (v_flags ?v AND MAP_SHARED = 0) m) (\<lambda>m.
        if ?start = v_addr ?v \<and> ?stop = v_addr ?v + scast (v_length ?v) then
          bindE (k_fileclose K (v_file ?v) m) (\<lambda>m.
          Inr (0, set_proc p (\<lambda>q. q\<lparr>vmas := (vmas q)[i := ?v\<lparr>v_used := False\<rparr>]\<rparr>) (s\<lparr>mach := m\<rparr>)))
        else Inr (0, s\<lparr>mach := m\<rparr>))) = Inr (r, s')"
    unfolding sys_munmap_def Let_def w_def [symmetric] by (cases w) (auto simp: w_def [symmetric])
  have unsaved: "ok \<and> m = mach s" if "\<not> ?wr" using w that by (auto simp: w_def)
  show ?thesis
  proof (cases ok)
    case False
    with unsaved have ?wr by blast
    moreover from False rest have "r = -1" "s' = s\<lparr>mach := mach s'\<rparr>" by auto
    ultimately show ?thesis unfolding Some Let_def option.case by blast
  next
    case True
    with rest obtain m1 where un: "uvmunmap K ?pt ?start ((?stop - ?start) div PGSIZE) (v_flags ?v AND MAP_SHARED = 0) m = Inr m1"
      and last: "(if whole_region addr len ?v then
          bindE (k_fileclose K (v_file ?v) m1) (\<lambda>m.
          Inr (0, set_proc p (\<lambda>q. q\<lparr>vmas := (vmas q)[i := ?v\<lparr>v_used := False\<rparr>]\<rparr>) (s\<lparr>mach := m\<rparr>)))
        else Inr (0, s\<lparr>mach := m1\<rparr>)) = Inr (r, s')"
      by (simp add: whole_region_def bindE_eq_Inr) blast
    have "r = 0 \<and> (if whole_region addr len ?v
           then k_fileclose K (v_file ?v) m1 = Inr (mach s') \<and> s' = set_proc p (\<lambda>q. q\<lparr>vmas := (vmas q)[i := ?v\<lparr>v_used := False\<rparr>]\<rparr>) (s\<lparr>mach := mach s'\<rparr>)
           else s' = s\<lparr>mach := m1\<rparr>)"
    proof (cases "whole_region addr len ?v")
      case True
      with last obtain m2 where "k_fileclose K (v_file ?v) m1 = Inr m2" "r = 0"
        "s' = set_proc p (\<lambda>q. q\<lparr>vmas := (vmas q)[i := ?v\<lparr>v_used := False\<rparr>]\<rparr>) (s\<lparr>mach := m2\<rparr>)" by (auto simp: bindE_eq_Inr)
      moreover then have "mach s' = m2" by (simp add: set_proc_def)
      ultimately show ?thesis using True by simp
    qed (use last in simp)
    with un unsaved show ?thesis unfolding Some Let_def option.case by blast
  qed
qed

lemma sys_munmap_Inr:
  assumes "sys_munmap K M p addr len s = Inr (r, s')"
  shows "case vma_find addr (vmas (procs s ! p)) of None \<Rightarrow> r = -1 \<and> s' = s
    | Some i \<Rightarrow> let v = vmas (procs s ! p) ! i in
        \<exists>m. r = -1 \<and> s' = s\<lparr>mach := m\<rparr> \<and> v_flags v AND MAP_SHARED \<noteq> 0 \<and> v_prot v AND PROT_WRITE \<noteq> 0 \<or>
          r = 0 \<and> s' = (if whole_region addr len v then set_proc p (\<lambda>q. q\<lparr>vmas := (vmas q)[i := v\<lparr>v_used := False\<rparr>]\<rparr>) (s\<lparr>mach := m\<rparr>)
                         else s\<lparr>mach := m\<rparr>)"
proof (cases "vma_find addr (vmas (procs s ! p))")
  case None
  with sys_munmap_outcome [OF assms] show ?thesis by simp
next
  case (Some i)
  note out = sys_munmap_outcome [OF assms, unfolded Some option.case Let_def]
  show ?thesis unfolding Some option.case Let_def
  proof (rule disjE [OF out], goal_cases)
    case 1
    then show ?case by (intro exI [of _ "mach s'"] disjI1 conjI) (elim conjE, assumption)+
  next
    case 2
    then obtain m1 where r: "r = 0" and c: "if whole_region addr len (vmas (procs s ! p) ! i)
      then k_fileclose K (v_file (vmas (procs s ! p) ! i)) m1 = Inr (mach s') \<and>
        s' = set_proc p (\<lambda>q. q\<lparr>vmas := (vmas q)[i := (vmas (procs s ! p) ! i)\<lparr>v_used := False\<rparr>]\<rparr>) (s\<lparr>mach := mach s'\<rparr>)
      else s' = s\<lparr>mach := m1\<rparr>" by (elim exE conjE) (rule that)
    show ?case
    proof (cases "whole_region addr len (vmas (procs s ! p) ! i)")
      case True
      note c = c [unfolded if_P [OF True]]
      show ?thesis unfolding if_P [OF True] by (rule exI, rule disjI2, rule conjI [OF r conjunct2 [OF c]])
    next
      case False
      note c = c [unfolded if_not_P [OF False]]
      show ?thesis unfolding if_not_P [OF False] by (rule exI, rule disjI2, rule conjI [OF r c])
    qed
  qed
qed

lemma page_fault_Inr:
  assumes "page_fault K M p addr s = Inr (err, s')"
  shows "\<exists>i m. vma_find addr (vmas (procs s ! p)) = Some i \<and> s' = s\<lparr>mach := m\<rparr> \<and>
    (err \<or> (\<exists>pa m1. mappages K (the (pagetable (procs s ! p))) addr PGSIZE pa (fault_perm (v_prot (vmas (procs s ! p) ! i))) m1 = Inr (0, m)))"
  using assms by (auto simp: page_fault_def Let_def bindE_eq_Inr split: option.splits prod.splits if_splits)

lemma vma_inv_unused: "vma_inv vs \<Longrightarrow> vma_inv (vs[i := v\<lparr>v_used := False\<rparr>])"
  by (cases "i < length vs") (auto simp: vma_inv_def nth_list_update)

lemma disjoint_unused: "disjoint_regions vs \<Longrightarrow> disjoint_regions (vs[i := v\<lparr>v_used := False\<rparr>])"
  by (cases "i < length vs") (auto simp: disjoint_regions_def nth_list_update)

end
