(* ===== verification/Descriptors.thy ===== *)
theory Descriptors
  imports Vma
begin

text \<open>
  File descriptors of the processes of HW3: the calls of \<open>HW3/source/sysfile.c\<close> that work on the table \<open>ofile\<close> of the calling process \<open>p\<close>, over the
  process table of \<open>Proc\<close>. Open files are behind \<open>filedup\<close> and \<open>fileclose\<close> of \<open>kops\<close> and the further operations of \<open>file.c\<close> and \<open>pipe.c\<close> in the
  parameter \<open>fops\<close>; arguments have been fetched.
\<close>

abbreviation NOFILE :: nat where "NOFILE \<equiv> 16"

record 'v fops =
  f_alloc :: "'v \<Rightarrow> nat option \<times> 'v"
  f_read :: "nat \<Rightarrow> u64 \<Rightarrow> u32 \<Rightarrow> 'v \<Rightarrow> (int \<times> 'v) res"
  f_write :: "nat \<Rightarrow> u64 \<Rightarrow> u32 \<Rightarrow> 'v \<Rightarrow> (int \<times> 'v) res"
  f_stat :: "nat \<Rightarrow> u64 \<Rightarrow> 'v \<Rightarrow> (int \<times> 'v) res"
  f_pipe :: "'v \<Rightarrow> (nat \<times> nat) option \<times> 'v"

section \<open>The table\<close>

text \<open>The file of a descriptor, where \<open>argfd\<close> returns 0.\<close>

definition hw3_argfd :: "nat \<Rightarrow> int \<Rightarrow> 'v ks \<Rightarrow> nat option" where
  "hw3_argfd p fd s = (if fd < 0 \<or> fd \<ge> int NOFILE then None else p_ofile (procs s ! p) ! nat fd)"

definition set_fd :: "nat \<Rightarrow> nat \<Rightarrow> nat option \<Rightarrow> 'v ks \<Rightarrow> 'v ks" where
  "set_fd p fd f = set_proc p (\<lambda>q. q\<lparr>p_ofile := (p_ofile q)[fd := f]\<rparr>)"

definition hw3_fdalloc :: "nat \<Rightarrow> nat \<Rightarrow> 'v ks \<Rightarrow> int \<times> 'v ks" where
  "hw3_fdalloc p f s =
     (case find_idx (\<lambda>x. x = None) (take NOFILE (p_ofile (procs s ! p))) of
        None \<Rightarrow> (-1, s) | Some fd \<Rightarrow> (int fd, set_fd p fd (Some f) s))"

section \<open>The calls\<close>

definition hw3_sys_dup :: "'v kops \<Rightarrow> nat \<Rightarrow> int \<Rightarrow> 'v ks \<Rightarrow> (int \<times> 'v ks) res" where
  "hw3_sys_dup K p n s =
     (case hw3_argfd p n s of None \<Rightarrow> Inr (-1, s)
      | Some f \<Rightarrow> (case hw3_fdalloc p f s of (fd, s) \<Rightarrow>
          if fd < 0 then Inr (-1, s) else bindE (on_mach (k_filedup K f) s) (\<lambda>s. Inr (fd, s))))"

definition on_file :: "('v \<Rightarrow> (int \<times> 'v) res) \<Rightarrow> 'v ks \<Rightarrow> (int \<times> 'v ks) res" where
  "on_file f s = bindE (f (mach s)) (\<lambda>(r, m). Inr (r, s\<lparr>mach := m\<rparr>))"

definition hw3_sys_read :: "'v fops \<Rightarrow> nat \<Rightarrow> int \<Rightarrow> u64 \<Rightarrow> u32 \<Rightarrow> 'v ks \<Rightarrow> (int \<times> 'v ks) res" where
  "hw3_sys_read D p fd a n s = (case hw3_argfd p fd s of None \<Rightarrow> Inr (-1, s) | Some f \<Rightarrow> on_file (f_read D f a n) s)"

definition hw3_sys_write :: "'v fops \<Rightarrow> nat \<Rightarrow> int \<Rightarrow> u64 \<Rightarrow> u32 \<Rightarrow> 'v ks \<Rightarrow> (int \<times> 'v ks) res" where
  "hw3_sys_write D p fd a n s = (case hw3_argfd p fd s of None \<Rightarrow> Inr (-1, s) | Some f \<Rightarrow> on_file (f_write D f a n) s)"

definition hw3_sys_fstat :: "'v fops \<Rightarrow> nat \<Rightarrow> int \<Rightarrow> u64 \<Rightarrow> 'v ks \<Rightarrow> (int \<times> 'v ks) res" where
  "hw3_sys_fstat D p fd st s = (case hw3_argfd p fd s of None \<Rightarrow> Inr (-1, s) | Some f \<Rightarrow> on_file (f_stat D f st) s)"

definition hw3_sys_close :: "'v kops \<Rightarrow> nat \<Rightarrow> int \<Rightarrow> 'v ks \<Rightarrow> (int \<times> 'v ks) res" where
  "hw3_sys_close K p fd s =
     (case hw3_argfd p fd s of None \<Rightarrow> Inr (-1, s)
      | Some f \<Rightarrow> bindE (on_mach (k_fileclose K f) (set_fd p (nat fd) None s)) (\<lambda>s. Inr (0, s)))"

text \<open>What \<open>sys_open\<close> does to the tables: a new file and its descriptor, or -1 (the inode is then given back by the caller).\<close>

definition open_descriptor :: "'v kops \<Rightarrow> 'v fops \<Rightarrow> nat \<Rightarrow> 'v ks \<Rightarrow> ((int \<times> nat) option \<times> 'v ks) res" where
  "open_descriptor K D p s =
     (case f_alloc D (mach s) of
        (None, m) \<Rightarrow> Inr (None, s\<lparr>mach := m\<rparr>)
      | (Some f, m) \<Rightarrow>
        (case hw3_fdalloc p f (s\<lparr>mach := m\<rparr>) of (fd, s) \<Rightarrow>
           if fd < 0 then bindE (on_mach (k_fileclose K f) s) (\<lambda>s. Inr (None, s)) else Inr (Some (fd, f), s)))"

text \<open>The two ways \<open>sys_pipe\<close> gives up after \<open>pipealloc\<close> close both ends.\<close>

definition close_both :: "'v kops \<Rightarrow> nat \<Rightarrow> nat \<Rightarrow> 'v ks \<Rightarrow> (int \<times> 'v ks) res" where
  "close_both K rf pw s = bindE (on_mach (k_fileclose K rf) s) (\<lambda>s. bindE (on_mach (k_fileclose K pw) s) (\<lambda>s. Inr (-1, s)))"

definition hw3_sys_pipe :: "'v kops \<Rightarrow> 'v fops \<Rightarrow> nat \<Rightarrow> u64 \<Rightarrow> 'v ks \<Rightarrow> (int \<times> 'v ks) res" where
  "hw3_sys_pipe K D p fdarray s =
     (case f_pipe D (mach s) of
        (None, m) \<Rightarrow> Inr (-1, s\<lparr>mach := m\<rparr>)
      | (Some (rf, pw), m) \<Rightarrow>
        (case hw3_fdalloc p rf (s\<lparr>mach := m\<rparr>) of (fd0, s) \<Rightarrow>
         if fd0 < 0 then close_both K rf pw s
         else case hw3_fdalloc p pw s of (fd1, s) \<Rightarrow>
         if fd1 < 0 then close_both K rf pw (set_fd p (nat fd0) None s)
         else
         let pt = the (pagetable (procs s ! p)); (e, m) = k_copyout K pt fdarray fd0 (mach s);
             (e, m) = (if e < 0 then (e, m) else k_copyout K pt (fdarray + 4) fd1 m); s = s\<lparr>mach := m\<rparr> in
         if e < 0 then close_both K rf pw (set_fd p (nat fd1) None (set_fd p (nat fd0) None s)) else Inr (0, s)))"

section \<open>Listing the processes\<close>

text \<open>\<open>procdump\<close>: the number, the name of the state and the name of every process in use, one line each. The state is always one of the six.\<close>

definition state_name :: "procstate \<Rightarrow> string" where
  "state_name st = (case st of UNUSED \<Rightarrow> ''unused'' | USED \<Rightarrow> ''used'' | SLEEPING \<Rightarrow> ''sleep '' | RUNNABLE \<Rightarrow> ''runble''
     | RUNNING \<Rightarrow> ''run   '' | ZOMBIE \<Rightarrow> ''zombie'')"

definition procdump :: "'v ks \<Rightarrow> (int \<times> string \<times> u8 list) list" where
  "procdump s = map (\<lambda>p. (pid p, state_name (state p), takeWhile (\<lambda>c. c \<noteq> 0) (p_name p))) (filter (\<lambda>p. state p \<noteq> UNUSED) (procs s))"

end
