(* ===== verification/Proc_Inv.thy ===== *)
theory Proc_Inv
  imports Proc Machine
begin

text \<open>
  What processes promise each other, over every interleaving of the steps of the process theory. The abstract machine
  below keeps of a process only its state, channel, pid and parent, and of a cpu only the process it runs; its steps
  say what each operation may do to them. Every step of the kernel is a step of the abstract machine
  (\<open>kstep_refines\<close>), and the invariant \<open>sane\<close> is kept by the abstract steps, so that it holds in every reachable state of the
  kernel. The passage from steps to reachable states is the locale \<open>transition_system\<close> of \<open>Machine\<close>.
\<close>

section \<open>The abstract machine\<close>

record view =
  v_st :: procstate
  v_ch :: "chan option"
  v_id :: int
  v_par :: "nat option"

record astate =
  avs :: "view list"
  arun :: "nat option list"
  anext :: int
  ainit :: "nat option"

definition view_of :: "proc \<Rightarrow> view" where
  "view_of p = \<lparr>v_st = state p, v_ch = chan p, v_id = pid p, v_par = parent p\<rparr>"

definition abs_ks :: "'v ks \<Rightarrow> astate" where
  "abs_ks s = \<lparr>avs = map view_of (procs s), arun = map c_proc (cpus s), anext = nextpid s, ainit = initproc s\<rparr>"

definition on_cpu :: "nat \<Rightarrow> nat \<Rightarrow> astate \<Rightarrow> bool" where
  "on_cpu c p a \<longleftrightarrow> c < length (arun a) \<and> p < length (avs a) \<and> arun a ! c = Some p"

text \<open>Some sleepers may have been woken.\<close>

definition woken :: "view \<Rightarrow> view \<Rightarrow> bool" where
  "woken v w \<longleftrightarrow> w = v \<or> v_st v = SLEEPING \<and> w = v\<lparr>v_st := RUNNABLE\<rparr>"

definition no_zombie_child :: "nat \<Rightarrow> astate \<Rightarrow> bool" where
  "no_zombie_child p a \<longleftrightarrow> (\<forall>i < length (avs a). v_par (avs a ! i) = Some p \<longrightarrow> v_st (avs a ! i) \<noteq> ZOMBIE)"

text \<open>A process waiting for its children.\<close>

definition in_wait :: "nat \<Rightarrow> astate \<Rightarrow> bool" where
  "in_wait q a \<longleftrightarrow> v_st (avs a ! q) = SLEEPING \<and> v_ch (avs a ! q) = Some (Chan_proc q)"

definition upd :: "nat \<Rightarrow> (view \<Rightarrow> view) \<Rightarrow> astate \<Rightarrow> astate" where
  "upd i f a = a\<lparr>avs := (avs a)[i := f (avs a ! i)]\<rparr>"

definition leave_cpu :: "nat \<Rightarrow> astate \<Rightarrow> astate" where
  "leave_cpu c a = a\<lparr>arun := (arun a)[c := None]\<rparr>"

text \<open>The exit of \<open>p\<close>: its children go to init, sleepers may wake, and neither init (if it got a child) nor the parent sleeps in
  \<open>wait\<close> afterwards.\<close>

definition exited :: "nat \<Rightarrow> astate \<Rightarrow> astate \<Rightarrow> bool" where
  "exited p a b \<longleftrightarrow> length (avs b) = length (avs a) \<and> arun b = arun a \<and> anext b = anext a \<and> ainit b = ainit a \<and>
     (\<forall>j < length (avs a).
        let v = avs a ! j; v' = v\<lparr>v_par := if v_par v = Some p then ainit a else v_par v\<rparr> in
        if j = p then avs b ! j = v'\<lparr>v_st := ZOMBIE\<rparr> else woken v' (avs b ! j)) \<and>
     (\<forall>j < length (avs a). \<forall>q < length (avs a). ainit a = Some q \<longrightarrow> v_par (avs a ! j) = Some p \<longrightarrow> \<not> in_wait q b) \<and>
     (\<forall>q < length (avs a). v_par (avs b ! p) = Some q \<longrightarrow> \<not> in_wait q b)"

inductive astep :: "astate \<Rightarrow> astate \<Rightarrow> bool" where
  a_skip: "astep a a"
| a_run: "c < length (arun a) \<Longrightarrow> p < length (avs a) \<Longrightarrow> arun a ! c = None \<Longrightarrow> v_st (avs a ! p) = RUNNABLE \<Longrightarrow>
    astep a ((upd p (\<lambda>v. v\<lparr>v_st := RUNNING\<rparr>) a)\<lparr>arun := (arun a)[c := Some p]\<rparr>)"
| a_resume: "on_cpu c p a \<Longrightarrow> astep a (upd p (\<lambda>v. v\<lparr>v_ch := None\<rparr>) a)"
| a_yield: "on_cpu c p a \<Longrightarrow> astep a (leave_cpu c (upd p (\<lambda>v. v\<lparr>v_st := RUNNABLE\<rparr>) a))"
| a_sleep: "on_cpu c p a \<Longrightarrow> (\<And>q. ch = Chan_proc q \<Longrightarrow> q = p \<and> no_zombie_child p a) \<Longrightarrow>
    astep a (leave_cpu c (upd p (\<lambda>v. v\<lparr>v_ch := Some ch, v_st := SLEEPING\<rparr>) a))"
| a_wake: "list_all2 woken (avs a) vs \<Longrightarrow> astep a (a\<lparr>avs := vs\<rparr>)"
| a_alloc: "p < length (avs a) \<Longrightarrow> v_st (avs a ! p) = UNUSED \<Longrightarrow>
    astep a ((upd p (\<lambda>v. v\<lparr>v_st := USED, v_id := anext a\<rparr>) a)\<lparr>anext := anext a + 1\<rparr>)"
| a_alloc_fail: "p < length (avs a) \<Longrightarrow> v_st (avs a ! p) = UNUSED \<Longrightarrow>
    astep a ((upd p (\<lambda>v. \<lparr>v_st = UNUSED, v_ch = None, v_id = 0, v_par = None\<rparr>) a)\<lparr>anext := anext a + 1\<rparr>)"
| a_parent: "on_cpu c p a \<Longrightarrow> np < length (avs a) \<Longrightarrow> v_st (avs a ! np) = USED \<Longrightarrow>
    astep a (upd np (\<lambda>v. v\<lparr>v_par := Some p\<rparr>) a)"
| a_ready: "np < length (avs a) \<Longrightarrow> v_st (avs a ! np) = USED \<Longrightarrow> v_par (avs a ! np) \<noteq> None \<Longrightarrow>
    astep a (upd np (\<lambda>v. v\<lparr>v_st := RUNNABLE\<rparr>) a)"
| a_exit: "on_cpu c p a \<Longrightarrow> ainit a \<noteq> Some p \<Longrightarrow> exited p a b \<Longrightarrow> astep a (leave_cpu c b)"
| a_reap: "on_cpu c p a \<Longrightarrow> i < length (avs a) \<Longrightarrow> v_par (avs a ! i) = Some p \<Longrightarrow> v_st (avs a ! i) = ZOMBIE \<Longrightarrow>
    astep a (upd i (\<lambda>v. \<lparr>v_st = UNUSED, v_ch = None, v_id = 0, v_par = None\<rparr>) a)"

section \<open>The invariant\<close>

text \<open>Pids of processes are positive, below \<open>nextpid\<close> and pairwise different.\<close>

definition ids_ok :: "astate \<Rightarrow> bool" where
  "ids_ok a \<longleftrightarrow> 0 < anext a \<and>
     (\<forall>i < length (avs a). v_st (avs a ! i) \<noteq> UNUSED \<longrightarrow> 0 < v_id (avs a ! i) \<and> v_id (avs a ! i) < anext a) \<and>
     (\<forall>i < length (avs a). \<forall>j < length (avs a). v_st (avs a ! i) \<noteq> UNUSED \<longrightarrow> v_st (avs a ! j) \<noteq> UNUSED \<longrightarrow>
        v_id (avs a ! i) = v_id (avs a ! j) \<longrightarrow> i = j)"

text \<open>A process is \<open>RUNNING\<close> exactly when a cpu runs it, and then one cpu only.\<close>

definition cpus_ok :: "astate \<Rightarrow> bool" where
  "cpus_ok a \<longleftrightarrow>
     (\<forall>c < length (arun a). \<forall>i. arun a ! c = Some i \<longrightarrow> i < length (avs a) \<and> v_st (avs a ! i) = RUNNING) \<and>
     (\<forall>i < length (avs a). v_st (avs a ! i) = RUNNING \<longrightarrow> (\<exists>c < length (arun a). arun a ! c = Some i)) \<and>
     (\<forall>c < length (arun a). \<forall>d < length (arun a). \<forall>i. arun a ! c = Some i \<longrightarrow> arun a ! d = Some i \<longrightarrow> c = d)"

text \<open>Every parent is alive, init is alive, and every process that has been started has a parent, but for init.\<close>

definition kin_ok :: "astate \<Rightarrow> bool" where
  "kin_ok a \<longleftrightarrow>
     (\<forall>i < length (avs a). v_st (avs a ! i) = UNUSED \<longrightarrow> v_par (avs a ! i) = None) \<and>
     (\<forall>i < length (avs a). \<forall>q. v_par (avs a ! i) = Some q \<longrightarrow> q < length (avs a) \<and> v_st (avs a ! q) \<noteq> UNUSED \<and> v_st (avs a ! q) \<noteq> ZOMBIE) \<and>
     (\<exists>q < length (avs a). ainit a = Some q \<and> v_st (avs a ! q) \<noteq> UNUSED \<and> v_st (avs a ! q) \<noteq> USED \<and> v_st (avs a ! q) \<noteq> ZOMBIE) \<and>
     (\<forall>i < length (avs a). v_st (avs a ! i) \<noteq> UNUSED \<longrightarrow> v_st (avs a ! i) \<noteq> USED \<longrightarrow> ainit a = Some i \<or> v_par (avs a ! i) \<noteq> None)"

text \<open>No process sleeps in \<open>wait\<close> while it has a child to reap.\<close>

definition wait_ok :: "astate \<Rightarrow> bool" where
  "wait_ok a \<longleftrightarrow> (\<forall>i < length (avs a). \<forall>q. v_par (avs a ! i) = Some q \<longrightarrow> v_st (avs a ! i) = ZOMBIE \<longrightarrow> \<not> in_wait q a)"

definition sane :: "astate \<Rightarrow> bool" where
  "sane a \<longleftrightarrow> ids_ok a \<and> cpus_ok a \<and> kin_ok a \<and> wait_ok a"

text \<open>The steps are checked part by part; what they change are single entries.\<close>

lemmas step_simps = on_cpu_def upd_def leave_cpu_def nth_list_update in_wait_def no_zombie_child_def

lemma woken_simps:
  assumes "woken v w"
  shows "v_ch w = v_ch v" "v_id w = v_id v" "v_par w = v_par v"
    and "v_st w = v_st v \<or> v_st v = SLEEPING \<and> v_st w = RUNNABLE"
  using assms by (auto simp: woken_def)

lemma exitedD:
  assumes "exited p a b"
  shows "length (avs b) = length (avs a)" "arun b = arun a" "anext b = anext a" "ainit b = ainit a"
    and "j < length (avs a) \<Longrightarrow> v_id (avs b ! j) = v_id (avs a ! j) \<and> v_ch (avs b ! j) = v_ch (avs a ! j) \<and>
      v_par (avs b ! j) = (if v_par (avs a ! j) = Some p then ainit a else v_par (avs a ! j))"
    and "p < length (avs a) \<Longrightarrow> v_st (avs b ! p) = ZOMBIE"
    and "j < length (avs a) \<Longrightarrow> j \<noteq> p \<Longrightarrow>
      v_st (avs b ! j) = v_st (avs a ! j) \<or> v_st (avs a ! j) = SLEEPING \<and> v_st (avs b ! j) = RUNNABLE"
    and "j < length (avs a) \<Longrightarrow> q < length (avs a) \<Longrightarrow> ainit a = Some q \<Longrightarrow> v_par (avs a ! j) = Some p \<Longrightarrow> \<not> in_wait q b"
    and "q < length (avs a) \<Longrightarrow> v_par (avs b ! p) = Some q \<Longrightarrow> \<not> in_wait q b"
proof -
  have e: "j < length (avs a) \<Longrightarrow> (let v = avs a ! j; v' = v\<lparr>v_par := if v_par v = Some p then ainit a else v_par v\<rparr> in
        if j = p then avs b ! j = v'\<lparr>v_st := ZOMBIE\<rparr> else woken v' (avs b ! j))" for j
    using assms unfolding exited_def by blast
  show "length (avs b) = length (avs a)" "arun b = arun a" "anext b = anext a" "ainit b = ainit a"
    using assms unfolding exited_def by blast+
  show "j < length (avs a) \<Longrightarrow> v_id (avs b ! j) = v_id (avs a ! j) \<and> v_ch (avs b ! j) = v_ch (avs a ! j) \<and>
      v_par (avs b ! j) = (if v_par (avs a ! j) = Some p then ainit a else v_par (avs a ! j))"
    using e [of j] by (auto simp: Let_def split: if_splits dest: woken_simps)
  show "p < length (avs a) \<Longrightarrow> v_st (avs b ! p) = ZOMBIE" using e [of p] by (simp add: Let_def)
  show "j < length (avs a) \<Longrightarrow> j \<noteq> p \<Longrightarrow>
      v_st (avs b ! j) = v_st (avs a ! j) \<or> v_st (avs a ! j) = SLEEPING \<and> v_st (avs b ! j) = RUNNABLE"
    using e [of j] by (auto simp: Let_def dest: woken_simps(4))
  show "j < length (avs a) \<Longrightarrow> q < length (avs a) \<Longrightarrow> ainit a = Some q \<Longrightarrow> v_par (avs a ! j) = Some p \<Longrightarrow> \<not> in_wait q b"
    "q < length (avs a) \<Longrightarrow> v_par (avs b ! p) = Some q \<Longrightarrow> \<not> in_wait q b"
    using assms unfolding exited_def by blast+
qed

lemma wakes_nth:
  assumes "list_all2 woken vs ws"
  shows "length ws = length vs" and "i < length vs \<Longrightarrow> v_ch (ws ! i) = v_ch (vs ! i) \<and> v_id (ws ! i) = v_id (vs ! i) \<and>
    v_par (ws ! i) = v_par (vs ! i) \<and> (v_st (ws ! i) = v_st (vs ! i) \<or> v_st (vs ! i) = SLEEPING \<and> v_st (ws ! i) = RUNNABLE)"
  using assms list_all2_lengthD [OF assms] woken_simps [OF list_all2_nthD [OF assms, of i]] by auto

lemma leave_simps [simp]:
  "avs (leave_cpu c a) = avs a" "anext (leave_cpu c a) = anext a" "ainit (leave_cpu c a) = ainit a"
  "ids_ok (leave_cpu c a) \<longleftrightarrow> ids_ok a" "kin_ok (leave_cpu c a) \<longleftrightarrow> kin_ok a" "wait_ok (leave_cpu c a) \<longleftrightarrow> wait_ok a"
  by (simp_all add: leave_cpu_def ids_ok_def kin_ok_def wait_ok_def in_wait_def)

lemma ids_mono:
  assumes "ids_ok a" and "length (avs b) = length (avs a)" and "anext a \<le> anext b"
    and "\<And>i. i < length (avs a) \<Longrightarrow> v_st (avs b ! i) \<noteq> UNUSED \<Longrightarrow> v_st (avs a ! i) \<noteq> UNUSED \<and> v_id (avs b ! i) = v_id (avs a ! i)"
  shows "ids_ok b"
  using assms unfolding ids_ok_def by (metis dual_order.strict_trans1)

lemma cpus_mono:
  assumes "cpus_ok a" and "length (avs b) = length (avs a)" and "arun b = arun a"
    and "\<And>i. i < length (avs a) \<Longrightarrow> v_st (avs b ! i) = RUNNING \<longleftrightarrow> v_st (avs a ! i) = RUNNING"
  shows "cpus_ok b"
  using assms unfolding cpus_ok_def by metis

lemma cpus_leave:
  assumes "cpus_ok a" and "on_cpu c p a" and "length (avs b) = length (avs a)" and "arun b = (arun a)[c := None]"
    and "\<And>i. i < length (avs a) \<Longrightarrow> v_st (avs b ! i) = RUNNING \<longleftrightarrow> i \<noteq> p \<and> v_st (avs a ! i) = RUNNING"
  shows "cpus_ok b"
proof -
  have r: "arun b ! d = Some i \<longleftrightarrow> arun a ! d = Some i \<and> i \<noteq> p" if "d < length (arun a)" for d i
  proof (cases "d = c")
    case True
    with that assms(2,4) show ?thesis by (auto simp: on_cpu_def)
  next
    case False
    have "arun a ! d \<noteq> Some p" using assms(1,2) False that unfolding cpus_ok_def on_cpu_def by blast
    with False that assms(4) show ?thesis by auto
  qed
  have len: "length (arun b) = length (arun a)" by (simp add: assms(4))
  note k = assms(1) [unfolded cpus_ok_def]
  show ?thesis unfolding cpus_ok_def len assms(3)
  proof (intro conjI allI impI)
    fix d i assume "d < length (arun a)" "arun b ! d = Some i"
    with r k have i: "i < length (avs a) \<and> v_st (avs a ! i) = RUNNING \<and> i \<noteq> p" by blast
    with assms(5) show "i < length (avs a)" "v_st (avs b ! i) = RUNNING" by blast+
  next
    fix i assume "i < length (avs a)" "v_st (avs b ! i) = RUNNING"
    with assms(5) have "v_st (avs a ! i) = RUNNING" "i \<noteq> p" by blast+
    with k r \<open>i < _\<close> show "\<exists>c<length (arun a). arun b ! c = Some i" by blast
  next
    fix d d' i assume "d < length (arun a)" "d' < length (arun a)" "arun b ! d = Some i" "arun b ! d' = Some i"
    with r k show "d = d'" by blast
  qed
qed

lemma kinD:
  assumes "kin_ok a"
  shows "i < length (avs a) \<Longrightarrow> v_st (avs a ! i) = UNUSED \<Longrightarrow> v_par (avs a ! i) = None"
    and "i < length (avs a) \<Longrightarrow> v_par (avs a ! i) = Some q \<Longrightarrow> q < length (avs a) \<and> v_st (avs a ! q) \<noteq> UNUSED \<and> v_st (avs a ! q) \<noteq> ZOMBIE"
    and "\<exists>q<length (avs a). ainit a = Some q \<and> v_st (avs a ! q) \<noteq> UNUSED \<and> v_st (avs a ! q) \<noteq> USED \<and> v_st (avs a ! q) \<noteq> ZOMBIE"
    and "i < length (avs a) \<Longrightarrow> v_st (avs a ! i) \<noteq> UNUSED \<Longrightarrow> v_st (avs a ! i) \<noteq> USED \<Longrightarrow> ainit a = Some i \<or> v_par (avs a ! i) \<noteq> None"
  using assms unfolding kin_ok_def by blast+

lemma kin_mono:
  assumes "kin_ok a" and "length (avs b) = length (avs a)" and "ainit b = ainit a"
    and "\<And>i. i < length (avs a) \<Longrightarrow> v_par (avs b ! i) = v_par (avs a ! i) \<and>
      (v_st (avs b ! i) = UNUSED \<longleftrightarrow> v_st (avs a ! i) = UNUSED) \<and> (v_st (avs b ! i) = USED \<longleftrightarrow> v_st (avs a ! i) = USED) \<and>
      (v_st (avs b ! i) = ZOMBIE \<longleftrightarrow> v_st (avs a ! i) = ZOMBIE)"
  shows "kin_ok b"
proof -
  note k = kinD [OF assms(1)]
  show ?thesis unfolding kin_ok_def assms(2,3)
  proof (intro conjI allI impI)
    fix i assume "i < length (avs a)" "v_st (avs b ! i) = UNUSED"
    with assms(4) [of i] k(1) [of i] show "v_par (avs b ! i) = None" by simp
  next
    fix i q assume i: "i < length (avs a)" "v_par (avs b ! i) = Some q"
    with assms(4) [of i] k(2) [of i q] have "q < length (avs a) \<and> v_st (avs a ! q) \<noteq> UNUSED \<and> v_st (avs a ! q) \<noteq> ZOMBIE" by simp
    with assms(4) [of q] show "q < length (avs a)" "v_st (avs b ! q) \<noteq> UNUSED" "v_st (avs b ! q) \<noteq> ZOMBIE" by blast+
  next
    from k(3) assms(4) show "\<exists>q<length (avs a). ainit a = Some q \<and> v_st (avs b ! q) \<noteq> UNUSED \<and> v_st (avs b ! q) \<noteq> USED \<and> v_st (avs b ! q) \<noteq> ZOMBIE"
      by blast
  next
    fix i assume "i < length (avs a)" "v_st (avs b ! i) \<noteq> UNUSED" "v_st (avs b ! i) \<noteq> USED"
    with assms(4) [of i] k(4) [of i] show "ainit a = Some i \<or> v_par (avs b ! i) \<noteq> None" by simp
  qed
qed

text \<open>A change of one entry \<open>j\<close> that is nobody's parent before or after, or that stays alive.\<close>

lemma kin_upd:
  assumes "kin_ok a" and j: "j < length (avs a)"
    and "v_st x = UNUSED \<Longrightarrow> v_par x = None"
    and "\<And>q. v_par x = Some q \<Longrightarrow> q < length (avs a) \<and> v_st (avs a ! q) \<noteq> UNUSED \<and> v_st (avs a ! q) \<noteq> ZOMBIE"
    and "v_st (avs a ! j) \<noteq> UNUSED \<Longrightarrow> v_st (avs a ! j) \<noteq> ZOMBIE \<Longrightarrow> v_st x \<noteq> UNUSED \<and> v_st x \<noteq> ZOMBIE"
    and "v_st x \<noteq> UNUSED \<Longrightarrow> v_st x \<noteq> USED \<Longrightarrow> ainit a = Some j \<or> v_par x \<noteq> None"
    and "ainit a = Some j \<Longrightarrow> v_st (avs a ! j) \<noteq> USED \<Longrightarrow> v_st x \<noteq> USED"
    and "avs b = (avs a)[j := x]" and "ainit b = ainit a"
  shows "kin_ok b"
proof -
  note k = kinD [OF assms(1)]
  have n: "avs b ! i = (if i = j then x else avs a ! i)" if "i < length (avs a)" for i using that j by (simp add: assms(8) nth_list_update)
  have len: "length (avs b) = length (avs a)" by (simp add: assms(8))
  have alive: "v_st (avs b ! q) \<noteq> UNUSED \<and> v_st (avs b ! q) \<noteq> ZOMBIE"
    if "q < length (avs a)" "v_st (avs a ! q) \<noteq> UNUSED" "v_st (avs a ! q) \<noteq> ZOMBIE" for q
    using that n [of q] assms(5) by auto
  show ?thesis unfolding kin_ok_def len assms(9)
  proof (intro conjI allI impI)
    fix i assume "i < length (avs a)" "v_st (avs b ! i) = UNUSED"
    with n [of i] k(1) [of i] assms(3) show "v_par (avs b ! i) = None" by (cases "i = j") auto
  next
    fix i q assume i: "i < length (avs a)" "v_par (avs b ! i) = Some q"
    have "q < length (avs a) \<and> v_st (avs a ! q) \<noteq> UNUSED \<and> v_st (avs a ! q) \<noteq> ZOMBIE"
      using i n [of i] k(2) [of i q] assms(4) [of q] by (cases "i = j") auto
    with alive [of q] show "q < length (avs a)" "v_st (avs b ! q) \<noteq> UNUSED" "v_st (avs b ! q) \<noteq> ZOMBIE" by blast+
  next
    from k(3) obtain r where r: "r < length (avs a)" "ainit a = Some r" "v_st (avs a ! r) \<noteq> UNUSED" "v_st (avs a ! r) \<noteq> USED"
      "v_st (avs a ! r) \<noteq> ZOMBIE" by blast
    with alive [of r] n [of r] assms(7) show "\<exists>q<length (avs a). ainit a = Some q \<and> v_st (avs b ! q) \<noteq> UNUSED \<and> v_st (avs b ! q) \<noteq> USED \<and> v_st (avs b ! q) \<noteq> ZOMBIE"
      by (intro exI [of _ r]) (auto split: if_splits)
  next
    fix i assume "i < length (avs a)" "v_st (avs b ! i) \<noteq> UNUSED" "v_st (avs b ! i) \<noteq> USED"
    with n [of i] k(4) [of i] assms(6) show "ainit a = Some i \<or> v_par (avs b ! i) \<noteq> None" by (cases "i = j") auto
  qed
qed

lemma wait_mono:
  assumes "wait_ok a" and "length (avs b) = length (avs a)"
    and "\<And>i q. i < length (avs a) \<Longrightarrow> v_par (avs b ! i) = Some q \<Longrightarrow> v_st (avs b ! i) = ZOMBIE \<Longrightarrow>
      v_par (avs a ! i) = Some q \<and> v_st (avs a ! i) = ZOMBIE \<and> (in_wait q b \<longrightarrow> in_wait q a) \<or> \<not> in_wait q b"
  shows "wait_ok b"
  unfolding wait_ok_def assms(2) using assms(1) [unfolded wait_ok_def] assms(3) by blast

lemma ids_step: "astep a b \<Longrightarrow> ids_ok a \<Longrightarrow> cpus_ok a \<Longrightarrow> ids_ok b"
proof (induction rule: astep.induct)
  case (a_wake a vs)
  note w = wakes_nth [OF a_wake(1)]
  from w show ?case by (intro ids_mono [OF a_wake(2)]) (simp_all, metis procstate.distinct(3) procstate.distinct(5))
next
  case (a_exit c p a b)
  note e = exitedD [OF a_exit(3)]
  have "v_st (avs a ! p) = RUNNING" using a_exit(1,5) by (auto simp: cpus_ok_def on_cpu_def)
  with e(5,7) show ?case by (intro ids_mono [OF a_exit(4)]) (simp_all add: leave_cpu_def e(1,3), metis procstate.distinct)
next
  case (a_alloc p a)
  then show ?case by (auto simp: ids_ok_def upd_def nth_list_update)
next
  case (a_parent c p a np)
  then show ?case by (intro ids_mono [OF a_parent(4)]) (auto simp: step_simps split: if_splits)
next
  case (a_ready np a)
  then show ?case by (intro ids_mono [OF a_ready(4)]) (auto simp: step_simps split: if_splits)
next
  case (a_reap c p a i)
  then show ?case by (intro ids_mono [OF a_reap(5)]) (auto simp: step_simps split: if_splits)
next
  case (a_alloc_fail p a)
  then show ?case by (intro ids_mono [OF a_alloc_fail(3)]) (auto simp: step_simps split: if_splits)
next
  case (a_run c a p)
  then show ?case by (intro ids_mono [OF a_run(5)]) (auto simp: step_simps split: if_splits)
next
  case (a_resume c p a)
  then show ?case by (intro ids_mono [OF a_resume(2)]) (auto simp: step_simps split: if_splits)
next
  case (a_yield c p a)
  then have "v_st (avs a ! p) = RUNNING" by (auto simp: cpus_ok_def on_cpu_def)
  with a_yield show ?case by (intro ids_mono [OF a_yield(2)]) (auto simp: step_simps split: if_splits)
next
  case (a_sleep c p a ch)
  then have "v_st (avs a ! p) = RUNNING" by (auto simp: cpus_ok_def on_cpu_def)
  with a_sleep show ?case by (intro ids_mono [OF a_sleep(3)]) (auto simp: step_simps split: if_splits)
qed

lemma cpus_step: "astep a b \<Longrightarrow> cpus_ok a \<Longrightarrow> cpus_ok b"
proof (induction rule: astep.induct)
  case (a_wake a vs)
  note w = wakes_nth [OF a_wake(1)]
  have "v_st (vs ! i) = RUNNING \<longleftrightarrow> v_st (avs a ! i) = RUNNING" if "i < length (avs a)" for i using w(2) [OF that] by auto
  with w(1) show ?case by (intro cpus_mono [OF a_wake(2)]) simp_all
next
  case (a_exit c p a b)
  note e = exitedD [OF a_exit(3)]
  have "v_st (avs b ! i) = RUNNING \<longleftrightarrow> i \<noteq> p \<and> v_st (avs a ! i) = RUNNING" if "i < length (avs a)" for i
    using e(6) e(7) [OF that] that by (cases "i = p") auto
  then show ?case by (intro cpus_leave [OF a_exit(4,1)]) (simp_all add: leave_cpu_def e(1,2))
next
  case (a_run c a p)
  let ?b = "(upd p (\<lambda>v. v\<lparr>v_st := RUNNING\<rparr>) a)\<lparr>arun := (arun a)[c := Some p]\<rparr>"
  have st: "v_st (avs ?b ! i) = RUNNING \<longleftrightarrow> i = p \<or> v_st (avs a ! i) = RUNNING" if "i < length (avs a)" for i
    using that a_run(2) by (simp add: upd_def nth_list_update)
  have r: "arun ?b ! d = Some i \<longleftrightarrow> d = c \<and> i = p \<or> arun a ! d = Some i" if "d < length (arun a)" for d i
    using that a_run(1,3) by (auto simp: nth_list_update)
  have np: "arun a ! d \<noteq> Some p" if "d < length (arun a)" for d
    using a_run(4,5) that by (auto simp: cpus_ok_def)
  have len: "length (arun ?b) = length (arun a)" "length (avs ?b) = length (avs a)" by (simp_all add: upd_def)
  show ?case unfolding cpus_ok_def len
  proof (intro conjI allI impI)
    fix d i assume d: "d < length (arun a)" "arun ?b ! d = Some i"
    with r a_run(2,5) have i: "i < length (avs a)" unfolding cpus_ok_def by metis
    from d r a_run(5) have "i = p \<or> v_st (avs a ! i) = RUNNING" unfolding cpus_ok_def by metis
    with st [OF i] show "v_st (avs ?b ! i) = RUNNING" by blast
    show "i < length (avs a)" by (rule i)
  next
    fix i assume "i < length (avs a)" "v_st (avs ?b ! i) = RUNNING"
    with st have "i = p \<or> v_st (avs a ! i) = RUNNING" by blast
    with a_run(1,5) r \<open>i < _\<close> show "\<exists>d<length (arun a). arun ?b ! d = Some i" unfolding cpus_ok_def by metis
  next
    fix d d' i assume "d < length (arun a)" "d' < length (arun a)" "arun ?b ! d = Some i" "arun ?b ! d' = Some i"
    with r np a_run(5) show "d = d'" unfolding cpus_ok_def by metis
  qed
next
  case (a_yield c p a)
  then show ?case by (intro cpus_leave [OF a_yield(2,1)]) (auto simp: step_simps split: if_splits)
next
  case (a_sleep c p a ch)
  then show ?case by (intro cpus_leave [OF a_sleep(3,1)]) (auto simp: step_simps split: if_splits)
next
  case (a_alloc p a)
  then show ?case by (intro cpus_mono [OF a_alloc(3)]) (auto simp: step_simps split: if_splits)
next
  case (a_parent c p a np)
  then show ?case by (intro cpus_mono [OF a_parent(4)]) (auto simp: step_simps split: if_splits)
next
  case (a_ready np a)
  then show ?case by (intro cpus_mono [OF a_ready(4)]) (auto simp: step_simps split: if_splits)
next
  case (a_reap c p a i)
  then show ?case by (intro cpus_mono [OF a_reap(5)]) (auto simp: step_simps split: if_splits)
next
  case (a_alloc_fail p a)
  then show ?case by (intro cpus_mono [OF a_alloc_fail(3)]) (auto simp: step_simps split: if_splits)
next
  case (a_resume c p a)
  then show ?case by (intro cpus_mono [OF a_resume(2)]) (auto simp: step_simps split: if_splits)
qed


lemma kin_step: "astep a b \<Longrightarrow> kin_ok a \<Longrightarrow> cpus_ok a \<Longrightarrow> kin_ok b"
proof (induction rule: astep.induct)
  case (a_wake a vs)
  note w = wakes_nth [OF a_wake(1)]
  show ?case
  proof (rule kin_mono [OF a_wake(2)])
    fix i assume "i < length (avs a)"
    from w(2) [OF this] show "v_par (avs (a\<lparr>avs := vs\<rparr>) ! i) = v_par (avs a ! i) \<and>
      (v_st (avs (a\<lparr>avs := vs\<rparr>) ! i) = UNUSED \<longleftrightarrow> v_st (avs a ! i) = UNUSED) \<and> (v_st (avs (a\<lparr>avs := vs\<rparr>) ! i) = USED \<longleftrightarrow> v_st (avs a ! i) = USED) \<and>
      (v_st (avs (a\<lparr>avs := vs\<rparr>) ! i) = ZOMBIE \<longleftrightarrow> v_st (avs a ! i) = ZOMBIE)" by auto
  qed (simp_all add: w(1))
next
  case (a_exit c p a b)
  note e = exitedD [OF a_exit(3)]
  have p: "p < length (avs a)" "v_st (avs a ! p) = RUNNING" using a_exit(1,5) by (auto simp: cpus_ok_def on_cpu_def)
  from a_exit(4) obtain r where r: "r < length (avs a)" "ainit a = Some r" "v_st (avs a ! r) \<noteq> UNUSED"
    "v_st (avs a ! r) \<noteq> USED" "v_st (avs a ! r) \<noteq> ZOMBIE" unfolding kin_ok_def by blast
  with a_exit(2) have rp: "r \<noteq> p" by auto
  have st: "(v_st (avs b ! i) = UNUSED \<longleftrightarrow> v_st (avs a ! i) = UNUSED) \<and> (v_st (avs b ! i) = USED \<longleftrightarrow> v_st (avs a ! i) = USED) \<and>
      (i \<noteq> p \<longrightarrow> (v_st (avs b ! i) = ZOMBIE \<longleftrightarrow> v_st (avs a ! i) = ZOMBIE))" if "i < length (avs a)" for i
    using e(6) [OF p(1)] p(2) e(7) [OF that] by (cases "i = p") auto
  have par: "v_par (avs b ! i) = (if v_par (avs a ! i) = Some p then Some r else v_par (avs a ! i))" if "i < length (avs a)" for i
    using e(5) [OF that] r(2) by simp
  have kids: "q < length (avs a) \<and> v_st (avs a ! q) \<noteq> UNUSED \<and> v_st (avs a ! q) \<noteq> ZOMBIE"
    if "i < length (avs a)" "v_par (avs a ! i) = Some q" for i q using a_exit(4) that unfolding kin_ok_def by blast
  show ?case
    unfolding leave_simps kin_ok_def e(1,4)
  proof (intro conjI allI impI)
    fix i assume i: "i < length (avs a)" "v_st (avs b ! i) = UNUSED"
    with st have "v_st (avs a ! i) = UNUSED" by blast
    with a_exit(4) i(1) have "v_par (avs a ! i) = None" unfolding kin_ok_def by blast
    with par i(1) show "v_par (avs b ! i) = None" by simp
  next
    fix i q assume i: "i < length (avs a)" "v_par (avs b ! i) = Some q"
    have "q < length (avs a) \<and> v_st (avs a ! q) \<noteq> UNUSED \<and> v_st (avs a ! q) \<noteq> ZOMBIE \<and> q \<noteq> p"
      using par [OF i(1)] i(2) r rp kids [OF i(1), of q] by (auto split: if_splits)
    with st [of q] show "q < length (avs a)" "v_st (avs b ! q) \<noteq> UNUSED" "v_st (avs b ! q) \<noteq> ZOMBIE" by blast+
  next
    show "\<exists>q<length (avs a). ainit a = Some q \<and> v_st (avs b ! q) \<noteq> UNUSED \<and> v_st (avs b ! q) \<noteq> USED \<and> v_st (avs b ! q) \<noteq> ZOMBIE"
      using r rp st [of r] by blast
  next
    fix i assume i: "i < length (avs a)" "v_st (avs b ! i) \<noteq> UNUSED" "v_st (avs b ! i) \<noteq> USED"
    with st have "v_st (avs a ! i) \<noteq> UNUSED" "v_st (avs a ! i) \<noteq> USED" by blast+
    with a_exit(4) i(1) have "ainit a = Some i \<or> v_par (avs a ! i) \<noteq> None" unfolding kin_ok_def by blast
    with par [OF i(1)] show "ainit a = Some i \<or> v_par (avs b ! i) \<noteq> None" by auto
  qed
next
  case (a_run c a p)
  then show ?case by (intro kin_mono [OF a_run(5)]) (auto simp: step_simps split: if_splits)
next
  case (a_yield c p a)
  then have "v_st (avs a ! p) = RUNNING" by (auto simp: cpus_ok_def on_cpu_def)
  with a_yield show ?case by (intro kin_mono [OF a_yield(2)]) (auto simp: step_simps split: if_splits)
next
  case (a_sleep c p a ch)
  then have "v_st (avs a ! p) = RUNNING" by (auto simp: cpus_ok_def on_cpu_def)
  with a_sleep show ?case by (intro kin_mono [OF a_sleep(3)]) (auto simp: step_simps split: if_splits)
next
  case (a_resume c p a)
  then show ?case by (intro kin_mono [OF a_resume(2)]) (auto simp: step_simps split: if_splits)
next
  case (a_alloc p a)
  note k = kinD [OF a_alloc(3)]
  from a_alloc k(1) [of p] k(3) show ?case by (intro kin_upd [OF a_alloc(3,1), where x = "(avs a ! p)\<lparr>v_st := USED, v_id := anext a\<rparr>"])
    (auto simp: upd_def)
next
  case (a_alloc_fail p a)
  with kinD(1) [OF a_alloc_fail(3,1)] show ?case by (intro kin_mono [OF a_alloc_fail(3)]) (auto simp: step_simps split: if_splits)
next
  case (a_parent c p a np)
  then have "v_st (avs a ! p) = RUNNING" "p < length (avs a)" by (auto simp: cpus_ok_def on_cpu_def)
  with a_parent show ?case by (intro kin_upd [OF a_parent(4,2), where x = "(avs a ! np)\<lparr>v_par := Some p\<rparr>"]) (auto simp: upd_def)
next
  case (a_ready np a)
  with kinD(2) [OF a_ready(4,1)] show ?case
    by (intro kin_upd [OF a_ready(4,1), where x = "(avs a ! np)\<lparr>v_st := RUNNABLE\<rparr>"]) (auto simp: upd_def)
next
  case (a_reap c p a i)
  note k = kinD [OF a_reap(5)]
  from k(3) a_reap(4) show ?case
    by (intro kin_upd [OF a_reap(5,2), where x = "\<lparr>v_st = UNUSED, v_ch = None, v_id = 0, v_par = None\<rparr>"]) (auto simp: upd_def)
qed simp_all


lemma wait_step: "astep a b \<Longrightarrow> wait_ok a \<Longrightarrow> cpus_ok a \<Longrightarrow> kin_ok a \<Longrightarrow> wait_ok b"
proof (induction rule: astep.induct)
  case (a_wake a vs)
  note w = wakes_nth [OF a_wake(1)]
  show ?case
  proof (rule wait_mono [OF a_wake(2)])
    fix i q assume i: "i < length (avs a)" "v_par (avs (a\<lparr>avs := vs\<rparr>) ! i) = Some q" "v_st (avs (a\<lparr>avs := vs\<rparr>) ! i) = ZOMBIE"
    with w(2) [OF i(1)] have z: "v_par (avs a ! i) = Some q" "v_st (avs a ! i) = ZOMBIE" by auto
    with kinD(2) [OF a_wake(4) i(1)] have "q < length (avs a)" by blast
    from w(2) [OF this] z show "v_par (avs a ! i) = Some q \<and> v_st (avs a ! i) = ZOMBIE \<and> (in_wait q (a\<lparr>avs := vs\<rparr>) \<longrightarrow> in_wait q a) \<or>
      \<not> in_wait q (a\<lparr>avs := vs\<rparr>)" by (auto simp: in_wait_def)
  qed (simp add: w(1))
next
  case (a_exit c p a b)
  note e = exitedD [OF a_exit(3)]
  have p: "p < length (avs a)" using a_exit(1) by (simp add: on_cpu_def)
  from kinD(3) [OF a_exit(6)] obtain r where r: "r < length (avs a)" "ainit a = Some r" by blast
  show ?case unfolding leave_simps
  proof (rule wait_mono [OF a_exit(4) e(1)])
    fix i q assume i: "i < length (avs a)" "v_par (avs b ! i) = Some q" "v_st (avs b ! i) = ZOMBIE"
    show "v_par (avs a ! i) = Some q \<and> v_st (avs a ! i) = ZOMBIE \<and> (in_wait q b \<longrightarrow> in_wait q a) \<or> \<not> in_wait q b"
    proof (cases "i = p \<or> v_par (avs a ! i) = Some p")
      case True
      with kinD(2) [OF a_exit(6) i(1), of q] i e(8) [of i r] e(9) [of q] e(5) [OF i(1)] r show ?thesis by (auto split: if_splits)
    next
      case False
      with i e(5,7) [of i] have z: "v_par (avs a ! i) = Some q" "v_st (avs a ! i) = ZOMBIE" by auto
      with kinD(2) [OF a_exit(6) i(1)] have "q < length (avs a)" by blast
      with e(5) [of q] e(6) [OF p] e(7) [of q] z show ?thesis by (cases "q = p") (auto simp: in_wait_def)
    qed
  qed
next
  case (a_sleep c p a ch)
  have p: "p < length (avs a)" "v_st (avs a ! p) = RUNNING" using a_sleep(1,4) by (auto simp: cpus_ok_def on_cpu_def)
  let ?b = "upd p (\<lambda>v. v\<lparr>v_ch := Some ch, v_st := SLEEPING\<rparr>) a"
  have n: "avs ?b ! i = (if i = p then (avs a ! p)\<lparr>v_ch := Some ch, v_st := SLEEPING\<rparr> else avs a ! i)" if "i < length (avs a)" for i
    using that p(1) by (simp add: upd_def nth_list_update)
  show ?case unfolding leave_simps
  proof (rule wait_mono [OF a_sleep(3)])
    fix i q assume i: "i < length (avs a)" "v_par (avs ?b ! i) = Some q" "v_st (avs ?b ! i) = ZOMBIE"
    with n [of i] have z: "v_par (avs a ! i) = Some q" "v_st (avs a ! i) = ZOMBIE" by (auto split: if_splits)
    with kinD(2) [OF a_sleep(5) i(1)] have q: "q < length (avs a)" by blast
    show "v_par (avs a ! i) = Some q \<and> v_st (avs a ! i) = ZOMBIE \<and> (in_wait q ?b \<longrightarrow> in_wait q a) \<or> \<not> in_wait q ?b"
    proof (cases "q = p")
      case True
      with a_sleep(2) z i(1) have "ch \<noteq> Chan_proc p" unfolding no_zombie_child_def by blast
      with True p(1) n [OF p(1)] show ?thesis by (simp add: in_wait_def)
    next
      case False
      with n [OF q] z show ?thesis by (simp add: in_wait_def)
    qed
  qed (simp add: upd_def)
next
  case (a_run c a p)
  then show ?case by (intro wait_mono [OF a_run(5)]) (auto simp: step_simps split: if_splits)
next
  case (a_yield c p a)
  then show ?case by (intro wait_mono [OF a_yield(2)]) (auto simp: step_simps split: if_splits)
next
  case (a_resume c p a)
  then show ?case by (intro wait_mono [OF a_resume(2)]) (auto simp: step_simps split: if_splits)
next
  case (a_alloc p a)
  then show ?case by (intro wait_mono [OF a_alloc(3)]) (auto simp: step_simps split: if_splits)
next
  case (a_alloc_fail p a)
  then show ?case by (intro wait_mono [OF a_alloc_fail(3)]) (auto simp: step_simps split: if_splits)
next
  case (a_parent c p a np)
  then show ?case by (intro wait_mono [OF a_parent(4)]) (auto simp: step_simps split: if_splits)
next
  case (a_ready np a)
  then show ?case by (intro wait_mono [OF a_ready(4)]) (auto simp: step_simps split: if_splits)
next
  case (a_reap c p a i)
  then show ?case by (intro wait_mono [OF a_reap(5)]) (auto simp: step_simps split: if_splits)
qed

lemma sane_step: "sane a \<Longrightarrow> astep a b \<Longrightarrow> sane b"
  using ids_step cpus_step kin_step wait_step unfolding sane_def by blast


section \<open>The kernel's steps are steps of the abstract machine\<close>

lemma view_sel [simp]:
  "v_st (view_of p) = state p" "v_ch (view_of p) = chan p" "v_id (view_of p) = pid p" "v_par (view_of p) = parent p"
  by (simp_all add: view_of_def)

lemma view_eq: "view_of p = v \<longleftrightarrow> v_st v = state p \<and> v_ch v = chan p \<and> v_id v = pid p \<and> v_par v = parent p"
  by (auto simp: view_of_def)

lemma abs_simps [simp]:
  "abs_ks (s\<lparr>mach := m\<rparr>) = abs_ks s" "abs_ks (s\<lparr>first := b\<rparr>) = abs_ks s"
  "abs_ks (s\<lparr>nextpid := n\<rparr>) = (abs_ks s)\<lparr>anext := n\<rparr>" "abs_ks (s\<lparr>initproc := q\<rparr>) = (abs_ks s)\<lparr>ainit := q\<rparr>"
  "length (avs (abs_ks s)) = length (procs s)" "length (arun (abs_ks s)) = length (cpus s)"
  "anext (abs_ks s) = nextpid s" "ainit (abs_ks s) = initproc s"
  by (simp_all add: abs_ks_def)

lemma abs_nth [simp]:
  "i < length (procs s) \<Longrightarrow> avs (abs_ks s) ! i = view_of (procs s ! i)"
  "c < length (cpus s) \<Longrightarrow> arun (abs_ks s) ! c = myproc c s"
  by (simp_all add: abs_ks_def myproc_def mycpu_def)

lemma abs_set_proc:
  assumes "i < length (procs s)" and "view_of (f (procs s ! i)) = g (view_of (procs s ! i))"
  shows "abs_ks (set_proc i f s) = upd i g (abs_ks s)"
  using assms by (simp add: abs_ks_def set_proc_def upd_def map_update)

lemma abs_quiet:
  assumes "\<And>p. view_of (f p) = view_of p"
  shows "abs_ks (set_proc i f s) = abs_ks s"
proof (cases "i < length (procs s)")
  case True
  then have "map view_of ((procs s)[i := f (procs s ! i)]) = map view_of (procs s)"
    by (simp add: map_update assms list_update_same_conv)
  then show ?thesis by (simp add: abs_ks_def set_proc_def)
qed (simp add: abs_ks_def set_proc_def list_update_beyond)

lemma abs_set_cpu:
  "c < length (cpus s) \<Longrightarrow> abs_ks (set_cpu c p s) = (abs_ks s)\<lparr>arun := (arun (abs_ks s))[c := p]\<rparr>"
  by (simp add: abs_ks_def set_cpu_def map_update)

lemma set_proc_simps [simp]:
  "length (procs (set_proc i f s)) = length (procs s)" "cpus (set_proc i f s) = cpus s" "nextpid (set_proc i f s) = nextpid s"
  "mach (set_proc i f s) = mach s" "initproc (set_proc i f s) = initproc s" "myproc c (set_proc i f s) = myproc c s"
  by (simp_all add: set_proc_def myproc_def mycpu_def)

lemma set_proc_nth [simp]:
  "i < length (procs s) \<Longrightarrow> procs (set_proc i f s) ! j = (if i = j then f (procs s ! i) else procs s ! j)"
  by (simp add: set_proc_def)

lemma sched_refines:
  assumes "sched E c s = Inr s'" and "c < length (cpus s)"
  shows "abs_ks s' = leave_cpu c (abs_ks s)"
  using assms by (auto simp: sched_def leave_cpu_def abs_set_cpu split: option.splits if_splits)

abbreviation gone :: "view \<Rightarrow> view" where
  "gone \<equiv> (\<lambda>v. \<lparr>v_st = UNUSED, v_ch = None, v_id = 0, v_par = None\<rparr>)"

lemma freeproc_refines:
  assumes "freeproc K i s = Inr s'" and "i < length (procs s)"
  shows "abs_ks s' = upd i gone (abs_ks s)"
proof -
  let ?f = "\<lambda>p. p\<lparr>trapframe := None, pagetable := None, sz := 0, pid := 0, parent := None,
        p_name := (p_name p)[0 := 0], chan := None, killed := False, xstate := 0, state := UNUSED\<rparr>"
  have "\<exists>m. s' = set_proc i ?f (s\<lparr>mach := m\<rparr>)"
  proof (cases "trapframe (procs s ! i) = None \<and> pagetable (procs s ! i) = None")
    case True
    with assms(1) have "s' = set_proc i ?f (s\<lparr>mach := mach s\<rparr>)" by (simp add: freeproc_def)
    then show ?thesis by blast
  next
    case False
    with assms(1) show ?thesis
      by (auto simp: freeproc_def Let_def bindE_eq_Inr on_mach_def split: option.splits prod.splits)
  qed
  then show ?thesis using assms(2) by (auto simp: abs_set_proc [where g = gone] view_eq)
qed

lemma upd_upd [simp]: "upd i f (upd i g a) = (if i < length (avs a) then upd i (f \<circ> g) a else a)"
  by (simp add: upd_def list_update_beyond)

lemma upd_anext: "(upd i f a)\<lparr>anext := n\<rparr> = upd i f (a\<lparr>anext := n\<rparr>)"
  by (simp add: upd_def)

lemma allocproc_refines:
  assumes "allocproc K junk s = Inr (r, s')"
  shows "case r of None \<Rightarrow> abs_ks s' = abs_ks s \<or> (\<exists>i < length (procs s). state (procs s ! i) = UNUSED \<and>
        abs_ks s' = (upd i gone (abs_ks s))\<lparr>anext := nextpid s + 1\<rparr>)
    | Some i \<Rightarrow> i < length (procs s) \<and> state (procs s ! i) = UNUSED \<and>
        abs_ks s' = (upd i (\<lambda>v. v\<lparr>v_st := USED, v_id := nextpid s\<rparr>) (abs_ks s))\<lparr>anext := nextpid s + 1\<rparr>"
proof (cases "find_idx (\<lambda>p. state p = UNUSED) (procs s)")
  case None
  with assms show ?thesis by (auto simp: allocproc_def)
next
  case (Some i)
  then have i: "i < length (procs s)" "state (procs s ! i) = UNUSED" by (auto simp: find_idx_Some)
  define s1 where "s1 = set_proc i (\<lambda>p. p\<lparr>pid := nextpid s, state := USED\<rparr>) (s\<lparr>nextpid := nextpid s + 1\<rparr>)"
  have a1: "abs_ks s1 = (upd i (\<lambda>v. v\<lparr>v_st := USED, v_id := nextpid s\<rparr>) (abs_ks s))\<lparr>anext := nextpid s + 1\<rparr>"
    unfolding s1_def upd_anext
    by (subst abs_set_proc [where g = "\<lambda>v. v\<lparr>v_st := USED, v_id := nextpid s\<rparr>"]) (use i in \<open>simp_all add: view_eq\<close>)
  have l1: "length (procs s1) = length (procs s)" by (simp add: s1_def)
  have free: "abs_ks s' = (upd i gone (abs_ks s))\<lparr>anext := nextpid s + 1\<rparr>"
    if "freeproc K i s2 = Inr s'" "abs_ks s2 = abs_ks s1" "length (procs s2) = length (procs s)" for s2
    using freeproc_refines [OF that(1)] that(2,3) i(1) by (simp add: a1 upd_anext comp_def)
  obtain q m where ka: "kalloc K (mach s1) = (q, m)" by force
  note unfold = assms [unfolded allocproc_def, simplified Some option.case allocpid_def, simplified]
  show ?thesis
  proof (cases q)
    case None
    with unfold ka have "r = None" "freeproc K i (set_proc i (\<lambda>p. p\<lparr>trapframe := None\<rparr>) (s1\<lparr>mach := m\<rparr>)) = Inr s'"
      by (auto simp: bindE_eq_Inr Let_def s1_def split: if_splits)
    with free [OF this(2)] i l1 show ?thesis by (auto simp: abs_quiet view_of_def)
  next
    case (Some tf)
    with unfold ka obtain pt m' where pp: "proc_pagetable K tf m = Inr (pt, m')"
      by (auto simp: bindE_eq_Inr Let_def s1_def split: if_splits)
    define s2 where "s2 = set_proc i (\<lambda>p. p\<lparr>pagetable := pt\<rparr>) ((set_proc i (\<lambda>p. p\<lparr>trapframe := Some (tf, junk)\<rparr>) (s1\<lparr>mach := m\<rparr>))\<lparr>mach := m'\<rparr>)"
    have a2: "abs_ks s2 = abs_ks s1" "length (procs s2) = length (procs s)" by (simp_all add: s2_def abs_quiet view_of_def l1)
    from unfold ka Some pp have "(if pt = None then r = None \<and> freeproc K i s2 = Inr s'
      else r = Some i \<and> s' = set_proc i (\<lambda>p. p\<lparr>ctx := \<lparr>c_ra = a_forkret K, c_sp = kstack_va p + PGSIZE, c_s = replicate 12 0\<rparr>\<rparr>) s2)"
      by (auto simp: bindE_eq_Inr Let_def s1_def s2_def split: if_splits)
    then show ?thesis using free [OF _ a2] i a1 a2 by (auto simp: abs_quiet view_of_def split: if_splits)
  qed
qed


text \<open>\<open>wakeup\<close> wakes sleepers, and leaves nobody asleep on its channel but for the caller itself.\<close>

lemma woken_refl [simp]: "woken v v"
  by (simp add: woken_def)

lemma woken_trans: "woken u v \<Longrightarrow> woken v w \<Longrightarrow> woken u w"
  by (auto simp: woken_def)

lemma wakeup_simps [simp]:
  "length (procs (wakeup me ch s)) = length (procs s)" "cpus (wakeup me ch s) = cpus s" "nextpid (wakeup me ch s) = nextpid s"
  "initproc (wakeup me ch s) = initproc s" "myproc c (wakeup me ch s) = myproc c s"
  by (simp_all add: wakeup_def myproc_def mycpu_def)

lemma wakeup_nth:
  "i < length (procs s) \<Longrightarrow> procs (wakeup me ch s) ! i = (if Some i \<noteq> me then wake_one ch (procs s ! i) else procs s ! i)"
  by (simp add: wakeup_def)

lemma wake_one_view: "woken (view_of p) (view_of (wake_one ch p))"
  by (auto simp: wake_one_def woken_def view_of_def)

lemma wake_one_simps [simp]: "parent (wake_one ch p) = parent p" "chan (wake_one ch p) = chan p" "pid (wake_one ch p) = pid p"
  by (simp_all add: wake_one_def)

lemma wakeup_refines: "astep (abs_ks s) (abs_ks (wakeup me ch s))"
proof -
  have "list_all2 woken (avs (abs_ks s)) (map view_of (procs (wakeup me ch s)))"
    by (rule list_all2_all_nthI) (auto simp: wakeup_nth wake_one_view)
  from a_wake [OF this] show ?thesis by (simp add: abs_ks_def)
qed

lemma wakeup_no_sleeper:
  "q < length (procs s) \<Longrightarrow> Some q \<noteq> me \<Longrightarrow> \<not> (state (procs (wakeup me ch s) ! q) = SLEEPING \<and> chan (procs (wakeup me ch s) ! q) = ch)"
  by (auto simp: wakeup_nth wake_one_def)

lemma wakeup_keeps_awake:
  "q < length (procs s) \<Longrightarrow> \<not> (state (procs s ! q) = SLEEPING \<and> chan (procs s ! q) = x) \<Longrightarrow>
    \<not> (state (procs (wakeup me ch s) ! q) = SLEEPING \<and> chan (procs (wakeup me ch s) ! q) = x)"
  by (auto simp: wakeup_nth wake_one_def)

text \<open>The loop of \<open>reparent\<close> after the first \<open>k\<close> entries.\<close>

lemma reparent_prefix:
  assumes "initproc s \<noteq> Some p" and "k \<le> length (procs s)"
  defines "s' \<equiv> fold (reparent_visit p) [0..<k] s"
  shows "length (procs s') = length (procs s) \<and> cpus s' = cpus s \<and> nextpid s' = nextpid s \<and> initproc s' = initproc s \<and>
    (\<forall>j < length (procs s). pid (procs s' ! j) = pid (procs s ! j) \<and> chan (procs s' ! j) = chan (procs s ! j) \<and>
       parent (procs s' ! j) = (if j < k \<and> parent (procs s ! j) = Some p then initproc s else parent (procs s ! j)) \<and>
       (state (procs s' ! j) = state (procs s ! j) \<or> j \<noteq> p \<and> state (procs s ! j) = SLEEPING \<and> state (procs s' ! j) = RUNNABLE)) \<and>
    (\<forall>j < k. \<forall>q < length (procs s). initproc s = Some q \<longrightarrow> parent (procs s ! j) = Some p \<longrightarrow>
       \<not> (state (procs s' ! q) = SLEEPING \<and> chan (procs s' ! q) = Some (Chan_proc q)))"
  using assms(2) unfolding s'_def
proof (induction k)
  case (Suc k)
  define s1 where "s1 = fold (reparent_visit p) [0..<k] s"
  note main = Suc.IH [OF Suc_leD [OF Suc.prems], folded s1_def]
  from main have IH: "length (procs s1) = length (procs s)" "cpus s1 = cpus s" "nextpid s1 = nextpid s" "initproc s1 = initproc s"
    "\<And>j. j < length (procs s) \<Longrightarrow> pid (procs s1 ! j) = pid (procs s ! j) \<and> chan (procs s1 ! j) = chan (procs s ! j) \<and>
       parent (procs s1 ! j) = (if j < k \<and> parent (procs s ! j) = Some p then initproc s else parent (procs s ! j)) \<and>
       (state (procs s1 ! j) = state (procs s ! j) \<or> j \<noteq> p \<and> state (procs s ! j) = SLEEPING \<and> state (procs s1 ! j) = RUNNABLE)"
    "\<And>j q. j < k \<Longrightarrow> q < length (procs s) \<Longrightarrow> initproc s = Some q \<Longrightarrow> parent (procs s ! j) = Some p \<Longrightarrow>
       \<not> (state (procs s1 ! q) = SLEEPING \<and> chan (procs s1 ! q) = Some (Chan_proc q))"
    by blast+
  have k: "k < length (procs s)" using Suc.prems by simp
  have e: "fold (reparent_visit p) [0..<Suc k] s = reparent_visit p k s1" by (simp add: s1_def)
  have pk: "parent (procs s1 ! k) = parent (procs s ! k)" using IH(5) [OF k] by simp
  show ?case
  proof (cases "parent (procs s ! k) = Some p")
    case False
    with pk have v: "reparent_visit p k s1 = s1" by (simp add: reparent_visit_def)
    show ?thesis unfolding e v using IH False by (auto simp: less_Suc_eq)
  next
    case True
    define s2 where "s2 = set_proc k (\<lambda>q. q\<lparr>parent := initproc s\<rparr>) s1"
    have v: "reparent_visit p k s1 = wakeup (Some p) (map_option Chan_proc (initproc s)) s2"
      using True pk IH(4) by (simp add: reparent_visit_def s2_def)
    have n2: "procs s2 ! j = (if j = k then (procs s1 ! k)\<lparr>parent := initproc s\<rparr> else procs s1 ! j)" for j
      using k IH(1) by (simp add: s2_def eq_commute)
    have n: "procs (reparent_visit p k s1) ! j = (if j \<noteq> p then wake_one (map_option Chan_proc (initproc s)) (procs s2 ! j) else procs s2 ! j)"
      if "j < length (procs s)" for j using that IH(1) by (simp add: v wakeup_nth s2_def)
    have wake: "\<not> (state (procs (reparent_visit p k s1) ! q) = SLEEPING \<and> chan (procs (reparent_visit p k s1) ! q) = Some (Chan_proc q))"
      if "q < length (procs s)" "initproc s = Some q" for q
      using wakeup_no_sleeper [of q s2 "Some p" "map_option Chan_proc (initproc s)"] that assms(1) IH(1) by (auto simp: v s2_def)
    have "pid (procs (reparent_visit p k s1) ! j) = pid (procs s ! j) \<and> chan (procs (reparent_visit p k s1) ! j) = chan (procs s ! j) \<and>
       parent (procs (reparent_visit p k s1) ! j) = (if j < Suc k \<and> parent (procs s ! j) = Some p then initproc s else parent (procs s ! j)) \<and>
       (state (procs (reparent_visit p k s1) ! j) = state (procs s ! j) \<or>
        j \<noteq> p \<and> state (procs s ! j) = SLEEPING \<and> state (procs (reparent_visit p k s1) ! j) = RUNNABLE)" if "j < length (procs s)" for j
      using IH(5) [OF that] n [OF that] n2 [of j] True pk by (auto simp: less_Suc_eq wake_one_def)
    moreover have "length (procs (reparent_visit p k s1)) = length (procs s)" "cpus (reparent_visit p k s1) = cpus s"
      "nextpid (reparent_visit p k s1) = nextpid s" "initproc (reparent_visit p k s1) = initproc s"
      using IH(1-4) by (simp_all add: v s2_def)
    ultimately show ?thesis unfolding e using wake by blast
  qed
qed simp


lemma exit_zombie_refines:
  assumes run: "exit_zombie E c p status s = Inr s'" and on: "runs c p s" and ni: "initproc s \<noteq> Some p"
  shows "astep (abs_ks s) (abs_ks s')"
proof -
  have p: "c < length (cpus s)" "p < length (procs s)" "myproc c s = Some p" using on by (auto simp: runs_def)
  define s1 where "s1 = reparent p s"
  note r = reparent_prefix [OF ni order_refl, folded reparent_def s1_def]
  define s2 where "s2 = wakeup (Some p) (map_option Chan_proc (parent (procs s1 ! p))) s1"
  define s3 where "s3 = set_proc p (\<lambda>q. q\<lparr>xstate := status, state := ZOMBIE\<rparr>) s2"
  have len: "length (procs s1) = length (procs s)" using r by blast
  have n: "procs s3 ! j = (if j = p then (procs s1 ! p)\<lparr>xstate := status, state := ZOMBIE\<rparr>
      else wake_one (map_option Chan_proc (parent (procs s1 ! p))) (procs s1 ! j))" if "j < length (procs s)" for j
    using that p(2) len by (simp add: s3_def s2_def wakeup_nth eq_commute)
  have s1: "pid (procs s1 ! j) = pid (procs s ! j)" "chan (procs s1 ! j) = chan (procs s ! j)"
      "parent (procs s1 ! j) = (if parent (procs s ! j) = Some p then initproc s else parent (procs s ! j))"
      "state (procs s1 ! j) = state (procs s ! j) \<or> j \<noteq> p \<and> state (procs s ! j) = SLEEPING \<and> state (procs s1 ! j) = RUNNABLE"
    if "j < length (procs s)" for j using r that by auto
  have "exited p (abs_ks s) (abs_ks s3)"
    unfolding exited_def
  proof (intro conjI allI impI)
    show "length (avs (abs_ks s3)) = length (avs (abs_ks s))" using len by (simp add: s3_def s2_def)
    show "arun (abs_ks s3) = arun (abs_ks s)" "anext (abs_ks s3) = anext (abs_ks s)" "ainit (abs_ks s3) = ainit (abs_ks s)"
      using r by (simp_all add: s3_def s2_def abs_ks_def)
  next
    fix j assume "j < length (avs (abs_ks s))"
    then have j: "j < length (procs s)" and j3: "j < length (procs s3)" using len by (simp_all add: s3_def s2_def)
    show "let v = avs (abs_ks s) ! j; v' = v\<lparr>v_par := if v_par v = Some p then ainit (abs_ks s) else v_par v\<rparr> in
        if j = p then avs (abs_ks s3) ! j = v'\<lparr>v_st := ZOMBIE\<rparr> else woken v' (avs (abs_ks s3) ! j)"
    proof (cases "j = p")
      case True
      with n [OF j] s1 [OF j] j j3 show ?thesis by (simp add: view_eq)
    next
      case False
      let ?v = "(view_of (procs s ! j))\<lparr>v_par := if parent (procs s ! j) = Some p then initproc s else parent (procs s ! j)\<rparr>"
      have "woken ?v (view_of (procs s1 ! j))" using s1 [OF j] by (auto simp: woken_def view_of_def)
      with n [OF j] False have "woken ?v (view_of (procs s3 ! j))" using wake_one_view woken_trans by auto
      with False j j3 show ?thesis by (simp add: Let_def split: if_splits)
    qed
  next
    fix j q assume j: "j < length (avs (abs_ks s))" "q < length (avs (abs_ks s))" "ainit (abs_ks s) = Some q" "v_par (avs (abs_ks s) ! j) = Some p"
    then have "j < length (procs s)" "q < length (procs s)" "initproc s = Some q" "parent (procs s ! j) = Some p" by simp_all
    moreover from this r have "\<not> (state (procs s1 ! q) = SLEEPING \<and> chan (procs s1 ! q) = Some (Chan_proc q))" by blast
    ultimately show "\<not> in_wait q (abs_ks s3)"
      using n [of q] ni len by (auto simp: in_wait_def s3_def s2_def wake_one_def)
  next
    fix q assume q: "q < length (avs (abs_ks s))" "v_par (avs (abs_ks s3) ! p) = Some q"
    then have "parent (procs s1 ! p) = Some q" using p(2) len by (simp add: s3_def s2_def wakeup_nth)
    then show "\<not> in_wait q (abs_ks s3)" using q n [of q] len
      by (cases "q = p") (auto simp: in_wait_def s3_def s2_def wake_one_def split: if_splits)
  qed
  moreover have "abs_ks s' = leave_cpu c (abs_ks s3)"
  proof (rule sched_refines)
    show "sched E c s3 = Inr s'" using run by (simp add: exit_zombie_def Let_def s1_def s2_def s3_def)
    show "c < length (cpus s3)" using p(1) r by (simp add: s3_def s2_def)
  qed
  moreover have "on_cpu c p (abs_ks s)" using p by (simp add: on_cpu_def)
  ultimately show ?thesis using a_exit ni by simp
qed

lemma wait_scan_refines:
  assumes "wait_scan K p addr is hk s = Inr (r, s')" and "set is \<subseteq> {..<length (procs s)}"
  shows "case r of Inl v \<Rightarrow> abs_ks s' = abs_ks s \<or>
        (\<exists>i < length (procs s). parent (procs s ! i) = Some p \<and> state (procs s ! i) = ZOMBIE \<and> abs_ks s' = upd i gone (abs_ks s))
    | Inr hk' \<Rightarrow> s' = s \<and> (\<forall>i \<in> set is. parent (procs s ! i) = Some p \<longrightarrow> state (procs s ! i) \<noteq> ZOMBIE)"
  using assms
proof (induction "is" arbitrary: hk)
  case (Cons i "is")
  show ?case
  proof (cases "parent (procs s ! i) = Some p \<and> state (procs s ! i) = ZOMBIE")
    case False
    with Cons.prems have "\<exists>hk. wait_scan K p addr is hk s = Inr (r, s')" by (auto split: if_splits)
    with Cons.IH Cons.prems(2) False show ?thesis by (auto split: sum.splits)
  next
    case True
    obtain e m where c: "(if addr \<noteq> 0 then k_copyout K (the (pagetable (procs s ! p))) addr (xstate (procs s ! i)) (mach s)
                        else (0, mach s)) = (e, m)" by force
    with Cons.prems True have "e < 0 \<and> r = Inl (-1) \<and> s' = s\<lparr>mach := m\<rparr> \<or> r = Inl (pid (procs s ! i)) \<and> freeproc K i (s\<lparr>mach := m\<rparr>) = Inr s'"
      by (auto simp: Let_def bindE_eq_Inr split: if_splits)
    then show ?thesis
    proof
      assume "r = Inl (pid (procs s ! i)) \<and> freeproc K i (s\<lparr>mach := m\<rparr>) = Inr s'"
      with freeproc_refines [of K i "s\<lparr>mach := m\<rparr>" s'] True Cons.prems(2) show ?thesis by auto
    qed auto
  qed
qed auto

lemma wait_round_refines:
  assumes run: "wait_round K E c p addr s = Inr (r, s')" and on: "runs c p s"
  shows "astep (abs_ks s) (abs_ks s')"
proof -
  have p: "c < length (cpus s)" "p < length (procs s)" "myproc c s = Some p" using on by (auto simp: runs_def)
  have oc: "on_cpu c p (abs_ks s)" using p by (simp add: on_cpu_def)
  from run obtain q s1 where ws: "wait_scan K p addr [0..<length (procs s)] False s = Inr (q, s1)"
    by (auto simp: wait_round_def bindE_eq_Inr)
  have "set [0..<length (procs s)] \<subseteq> {..<length (procs s)}" by auto
  note w = wait_scan_refines [OF ws this]
  show ?thesis
  proof (cases q)
    case (Inl v)
    with run ws have "s' = s1" by (auto simp: wait_round_def)
    with w Inl have "abs_ks s' = abs_ks s \<or> (\<exists>i < length (procs s). parent (procs s ! i) = Some p \<and>
      state (procs s ! i) = ZOMBIE \<and> abs_ks s' = upd i gone (abs_ks s))" by auto
    then show ?thesis using a_skip a_reap [OF oc] by auto
  next
    case (Inr hk)
    with w have s1: "s1 = s" and nz: "no_zombie_child p (abs_ks s)" by (auto simp: no_zombie_child_def)
    from run ws Inr s1 have "s' = s \<or> sleep E c p (Chan_proc p) s = Inr s'"
      by (auto simp: wait_round_def bindE_eq_Inr split: if_splits)
    then show ?thesis
    proof
      assume "sleep E c p (Chan_proc p) s = Inr s'"
      then have "abs_ks s' = leave_cpu c (abs_ks (set_proc p (\<lambda>q. q\<lparr>chan := Some (Chan_proc p), state := SLEEPING\<rparr>) s))"
        unfolding sleep_def by (rule sched_refines) (simp add: p)
      also have "abs_ks (set_proc p (\<lambda>q. q\<lparr>chan := Some (Chan_proc p), state := SLEEPING\<rparr>) s) =
        upd p (\<lambda>v. v\<lparr>v_ch := Some (Chan_proc p), v_st := SLEEPING\<rparr>) (abs_ks s)"
        by (rule abs_set_proc [OF p(2)]) (simp add: view_eq)
      finally show ?thesis using a_sleep [OF oc, of "Chan_proc p"] nz by simp
    qed (simp add: a_skip)
  qed
qed


lemma fork_copy_refines:
  assumes run: "fork_copy K junk p s = Inr (r, s')"
  shows "astep (abs_ks s) (abs_ks s')"
proof -
  from run obtain q s1 where al: "allocproc K junk s = Inr (q, s1)" by (auto simp: fork_copy_def bindE_eq_Inr)
  note a = allocproc_refines [OF al]
  have failed: "astep (abs_ks s) b" if "i < length (procs s)" "state (procs s ! i) = UNUSED"
    "b = (upd i gone (abs_ks s))\<lparr>anext := nextpid s + 1\<rparr>" for i b
    using a_alloc_fail [of i "abs_ks s"] that by simp
  show ?thesis
  proof (cases q)
    case None
    with run al have "s' = s1" by (auto simp: fork_copy_def bindE_eq_Inr)
    with a None failed show ?thesis by (auto intro: a_skip)
  next
    case (Some np)
    with a have np: "np < length (procs s)" "state (procs s ! np) = UNUSED"
      and a1: "abs_ks s1 = (upd np (\<lambda>v. v\<lparr>v_st := USED, v_id := nextpid s\<rparr>) (abs_ks s))\<lparr>anext := nextpid s + 1\<rparr>" by auto
    have l1: "length (procs s1) = length (procs s)" using arg_cong [OF a1, of "\<lambda>a. length (avs a)"] by (simp add: upd_def)
    from run al Some obtain e m where uc: "uvmcopy K (the (pagetable (procs s1 ! p))) (the (pagetable (procs s1 ! np))) (sz (procs s1 ! p)) (mach s1) = Inr (e, m)"
      by (auto simp: fork_copy_def bindE_eq_Inr)
    show ?thesis
    proof (cases "e < 0")
      case True
      with run al Some uc have "freeproc K np (s1\<lparr>mach := m\<rparr>) = Inr s'" by (auto simp: fork_copy_def bindE_eq_Inr)
      from freeproc_refines [OF this] np l1 have "abs_ks s' = (upd np gone (abs_ks s))\<lparr>anext := nextpid s + 1\<rparr>"
        by (simp add: a1 upd_anext comp_def)
      with failed np show ?thesis by blast
    next
      case False
      with run al Some uc have "abs_ks s' = abs_ks s1"
        by (auto simp: fork_copy_def bindE_eq_Inr Let_def abs_quiet view_of_def set_tf_def)
      with a_alloc [of np "abs_ks s"] np a1 show ?thesis by simp
    qed
  qed
qed

lemma exit_release_abs:
  assumes "exit_release K p s = Inr s'"
  shows "abs_ks s' = abs_ks s" and "initproc s \<noteq> Some p" and "cpus s' = cpus s" and "initproc s' = initproc s" and "length (procs s') = length (procs s)"
  using assms by (auto simp: exit_release_def bindE_eq_Inr on_mach_def Let_def abs_quiet view_of_def split: if_splits)

lemma exit_release_runs:
  assumes "exit_release K p s = Inr s'" and "runs c p s"
  shows "runs c p s'"
proof -
  note a = exit_release_abs [OF assms(1)]
  from a(1,5) have "view_of (procs s' ! p) = view_of (procs s ! p)" if "p < length (procs s)"
    using that abs_nth(1) [of p s'] abs_nth(1) [of p s] by simp
  with a assms(2) show ?thesis by (auto simp: runs_def myproc_def mycpu_def view_of_def)
qed

text \<open>The whole of \<open>exit\<close> is one abstract step too.\<close>

lemma exit_refines:
  assumes "exit K E c p status s = Inr s'" and on: "runs c p s"
  shows "astep (abs_ks s) (abs_ks s')"
proof -
  from assms(1) obtain s1 where er: "exit_release K p s = Inr s1" and ez: "exit_zombie E c p status s1 = Inr s'"
    by (auto simp: exit_def bindE_eq_Inr)
  note a = exit_release_abs [OF er]
  from exit_zombie_refines [OF ez exit_release_runs [OF er on]] show ?thesis using a by simp
qed

text \<open>Every step of the kernel is a step of the abstract machine.\<close>

lemma kstep_astep: "kstep K s s' \<Longrightarrow> astep (abs_ks s) (abs_ks s')"
proof (induction rule: kstep.induct)
  case (schedule c s p)
  show ?case
  proof (cases "state (procs s ! p) = RUNNABLE")
    case True
    have "abs_ks (set_proc p (\<lambda>q. q\<lparr>state := RUNNING\<rparr>) s) = upd p (\<lambda>v. v\<lparr>v_st := RUNNING\<rparr>) (abs_ks s)"
      by (rule abs_set_proc [OF schedule(2)]) (simp add: view_eq)
    with True schedule a_run [of c "abs_ks s" p] show ?thesis
      by (simp add: scheduler_visit_def abs_set_cpu) (simp add: upd_def)
  qed (simp add: scheduler_visit_def a_skip)
next
  case (resume c s p)
  have "abs_ks (sleep_tail p s) = upd p (\<lambda>v. v\<lparr>v_ch := None\<rparr>) (abs_ks s)"
    unfolding sleep_tail_def by (rule abs_set_proc [OF resume(2)]) (simp add: view_eq)
  with a_resume [of c p "abs_ks s"] resume show ?case by (simp add: on_cpu_def)
next
  case (yield c p s E s')
  have "abs_ks (set_proc p (\<lambda>q. q\<lparr>state := RUNNABLE\<rparr>) s) = upd p (\<lambda>v. v\<lparr>v_st := RUNNABLE\<rparr>) (abs_ks s)"
    by (rule abs_set_proc) (use yield in \<open>simp_all add: view_eq runs_def\<close>)
  with yield sched_refines [of E c _ s'] a_yield [of c p "abs_ks s"] show ?case by (simp add: yield_def runs_def on_cpu_def)
next
  case (sleep c p s ch E s')
  have "abs_ks (set_proc p (\<lambda>q. q\<lparr>chan := Some ch, state := SLEEPING\<rparr>) s) = upd p (\<lambda>v. v\<lparr>v_ch := Some ch, v_st := SLEEPING\<rparr>) (abs_ks s)"
    by (rule abs_set_proc) (use sleep in \<open>simp_all add: view_eq runs_def\<close>)
  with sleep sched_refines [of E c _ s'] a_sleep [of c p "abs_ks s" ch] show ?case by (simp add: sleep_def runs_def on_cpu_def)
next
  case (wakeup c s ch)
  show ?case by (rule wakeup_refines)
next
  case (kill c p s n)
  show ?case
  proof (cases "find_idx (\<lambda>p. pid p = n) (procs s)")
    case (Some i)
    let ?f = "\<lambda>p. if state p = SLEEPING then p\<lparr>killed := True, state := RUNNABLE\<rparr> else p\<lparr>killed := True\<rparr>"
    have "list_all2 woken (avs (abs_ks s)) (map view_of (procs (set_proc i ?f s)))"
      by (rule list_all2_all_nthI) (use Some in \<open>auto simp: find_idx_Some woken_def view_of_def\<close>)
    from a_wake [OF this] Some show ?thesis by (simp add: kill_def abs_ks_def)
  qed (simp add: kill_def a_skip)
next
  case (setkilled c p s)
  then show ?case by (simp add: setkilled_def abs_quiet view_of_def a_skip)
next
  case (growproc c p s n)
  then show ?case by (auto simp: growproc_def Let_def abs_quiet view_of_def a_skip split: prod.splits)
next
  case (fork_copy c p s junk r s')
  then show ?case by (blast intro: fork_copy_refines)
next
  case (fork_parent c p s np)
  have "abs_ks (fork_parent p np s) = upd np (\<lambda>v. v\<lparr>v_par := Some p\<rparr>) (abs_ks s)"
    unfolding fork_parent_def by (rule abs_set_proc [OF fork_parent(2)]) (simp add: view_eq)
  with a_parent [of c p "abs_ks s" np] fork_parent show ?case by (simp add: on_cpu_def runs_def)
next
  case (fork_ready c p s np)
  have "abs_ks (fork_ready np s) = upd np (\<lambda>v. v\<lparr>v_st := RUNNABLE\<rparr>) (abs_ks s)"
    unfolding fork_ready_def by (rule abs_set_proc [OF fork_ready(2)]) (simp add: view_eq)
  with a_ready [of np "abs_ks s"] fork_ready show ?case by simp
next
  case (exit_release c p s s')
  then show ?case using exit_release_abs a_skip by metis
next
  case (exit_zombie c p s E status s')
  then show ?case by (blast intro: exit_zombie_refines)
next
  case (wait c p s E addr r s')
  then show ?case by (blast intro: wait_round_refines)
next
  case (forkret c p s s')
  then show ?case by (auto simp: forkret_def on_mach_def bindE_eq_Inr a_skip split: if_splits)
next
  case (outside s m)
  then show ?case by (simp add: a_skip)
qed

section \<open>From boot on\<close>

text \<open>The variables of \<open>proc.c\<close> before \<open>procinit\<close>, and the state after \<open>procinit\<close> and \<open>userinit\<close>.\<close>

definition zeroed :: "'v ks \<Rightarrow> bool" where
  "zeroed s \<longleftrightarrow> length (procs s) = NPROC \<and> (\<forall>p \<in> set (procs s). chan p = None \<and> pid p = 0 \<and> parent p = None) \<and>
     map c_proc (cpus s) = replicate NCPU None \<and> nextpid s = 1"

definition kboot :: "'v kops \<Rightarrow> 'v ks \<Rightarrow> bool" where
  "kboot K s \<longleftrightarrow> (\<exists>s0 junk. zeroed s0 \<and> userinit K junk (procinit s0) = Inr s)"

definition no_proc :: view where
  "no_proc = \<lparr>v_st = UNUSED, v_ch = None, v_id = 0, v_par = None\<rparr>"

definition aboot :: "astate \<Rightarrow> bool" where
  "aboot a \<longleftrightarrow> (\<exists>i < NPROC. a = \<lparr>avs = (replicate NPROC no_proc)[i := \<lparr>v_st = RUNNABLE, v_ch = None, v_id = 1, v_par = None\<rparr>],
     arun = replicate NCPU None, anext = 2, ainit = Some i\<rparr>)"

lemma aboot_sane: "aboot a \<Longrightarrow> sane a"
proof -
  assume "aboot a"
  then obtain i where i: "i < 64" and a: "a = \<lparr>avs = (replicate 64 no_proc)[i := \<lparr>v_st = RUNNABLE, v_ch = None, v_id = 1, v_par = None\<rparr>],
     arun = replicate 8 None, anext = 2, ainit = Some i\<rparr>" by (auto simp: aboot_def)
  have n: "avs a ! j = (if j = i then \<lparr>v_st = RUNNABLE, v_ch = None, v_id = 1, v_par = None\<rparr> else no_proc)" if "j < 64" for j
    using that i by (simp add: a nth_list_update)
  have s: "length (avs a) = 64" "anext a = 2" "ainit a = Some i" "length (arun a) = 8" "\<And>c. c < 8 \<Longrightarrow> arun a ! c = None"
    by (simp_all add: a)
  have "ids_ok a" unfolding ids_ok_def s by (simp add: n no_proc_def)
  moreover have "cpus_ok a" unfolding cpus_ok_def s by (simp add: n s no_proc_def)
  moreover have "kin_ok a" using i unfolding kin_ok_def s by (auto simp: n no_proc_def)
  moreover have "wait_ok a" unfolding wait_ok_def s by (simp add: n no_proc_def)
  ultimately show ?thesis by (simp add: sane_def)
qed

lemma kboot_refines: "kboot K s \<Longrightarrow> aboot (abs_ks s)"
proof -
  assume "kboot K s"
  then obtain s0 junk where z: "zeroed s0" and u: "userinit K junk (procinit s0) = Inr s" by (auto simp: kboot_def)
  have "map view_of (procs (procinit s0)) = replicate 64 no_proc"
    by (rule nth_equalityI) (use z in \<open>auto simp: procinit_def zeroed_def view_of_def no_proc_def\<close>)
  then have a0: "abs_ks (procinit s0) = \<lparr>avs = replicate 64 no_proc, arun = replicate 8 None, anext = 1, ainit = initproc s0\<rparr>"
    using z by (simp add: abs_ks_def procinit_def zeroed_def)
  from u obtain i s1 where al: "allocproc K junk (procinit s0) = Inr (Some i, s1)"
    by (auto simp: userinit_def bindE_eq_Inr Let_def split: option.splits)
  have np: "nextpid (procinit s0) = 1" "nextpid s0 = 1" using z by (simp_all add: procinit_def zeroed_def)
  from allocproc_refines [OF al] have i: "i < 64"
    and a1: "abs_ks s1 = \<lparr>avs = (replicate 64 no_proc)[i := \<lparr>v_st = USED, v_ch = None, v_id = 1, v_par = None\<rparr>],
      arun = replicate 8 None, anext = 2, ainit = initproc s0\<rparr>"
    unfolding a0 by (auto simp: upd_def np no_proc_def procinit_def)
  have l1: "length (procs s1) = 64" using arg_cong [OF a1, of "\<lambda>a. length (avs a)"] by simp
  from u al obtain s2 d m where s: "s = set_proc i (\<lambda>p. p\<lparr>p_cwd := d, state := RUNNABLE\<rparr>) (s2\<lparr>mach := m\<rparr>)"
    and a2: "abs_ks s2 = (abs_ks s1)\<lparr>ainit := Some i\<rparr>" and l2: "length (procs s2) = 64"
    by (auto simp: userinit_def bindE_eq_Inr Let_def on_mach_def abs_quiet view_of_def set_tf_def l1)
  have "abs_ks s = upd i (\<lambda>v. v\<lparr>v_st := RUNNABLE\<rparr>) (abs_ks s2)"
    unfolding s by (subst abs_set_proc [where g = "\<lambda>v. v\<lparr>v_st := RUNNABLE\<rparr>"]) (simp_all add: i l2 view_eq)
  then show "aboot (abs_ks s)" using i by (auto simp: aboot_def a2 a1 upd_def)
qed

interpretation kernel: refined_system aboot astep sane "kboot K" "kstep K" abs_ks for K :: "'v kops"
  by unfold_locales (auto intro: aboot_sane sane_step kboot_refines kstep_astep)

lemma reachable_sane: "reach (kboot K) (kstep K) s \<Longrightarrow> sane (abs_ks s)"
  by (rule kernel.concrete_inv)

section \<open>An example kernel\<close>

text \<open>A kernel in which every allocation succeeds; pages and page tables are numbered by a counter.\<close>

definition ex_kops :: "u64 kops" where
  "ex_kops = \<lparr>kalloc = (\<lambda>m. (Some m, m + 4096)), kfree = (\<lambda>a m. m), kvmmap = (\<lambda>t v p n f m. Inr m),
     uvmcreate = (\<lambda>m. (Some m, m + 4096)), mappages = (\<lambda>t v n p f m. Inr (0, m)), uvmunmap = (\<lambda>t v n f m. Inr m),
     uvmfree = (\<lambda>t n m. Inr m), uvmfirst = (\<lambda>t b m. Inr m), uvmalloc = (\<lambda>t k n f m. (n, m)), uvmdealloc = (\<lambda>t k n m. (n, m)),
     uvmcopy = (\<lambda>t u n m. Inr (0, m)), k_copyout = (\<lambda>t a v m. (0, m)), k_filedup = (\<lambda>f m. Inr m), k_fileclose = (\<lambda>f m. Inr m),
     k_idup = (\<lambda>i m. m), k_iput = (\<lambda>i m. Inr m), k_namei = (\<lambda>p m. Inr (Some 0, m)), k_fsinit = (\<lambda>d m. Inr m),
     a_trampoline = 0, a_forkret = 0\<rparr>"

definition ex_ctx :: kcontext where
  "ex_ctx = \<lparr>c_ra = 0, c_sp = 0, c_s = replicate 12 0\<rparr>"

definition ex_tf :: trapframe where
  "ex_tf = \<lparr>kernel_satp = 0, kernel_sp = 0, kernel_trap = 0, epc = 0, kernel_hartid = 0, regs = (\<lambda>r. 0)\<rparr>"

definition ex_proc :: proc where
  "ex_proc = \<lparr>state = UNUSED, chan = None, killed = False, xstate = 0, pid = 0, parent = None, kstack_va = 0, sz = 0,
     pagetable = None, trapframe = None, ctx = ex_ctx, p_ofile = replicate 16 None, p_cwd = None, p_name = replicate 16 0, vmas = []\<rparr>"

definition ex_zero :: "u64 ks" where
  "ex_zero = \<lparr>procs = replicate NPROC ex_proc, cpus = replicate NCPU \<lparr>c_proc = None, c_context = ex_ctx, c_intena = False\<rparr>,
     nextpid = 1, initproc = None, first = True, ticks = 0, mach = 4096\<rparr>"

definition ex_booted :: "u64 ks" where
  "ex_booted = (case userinit ex_kops ex_tf (procinit ex_zero) of Inr s \<Rightarrow> s | Inl e \<Rightarrow> ex_zero)"

definition ex_rest :: "proc list" where
  "ex_rest = map (\<lambda>i. ex_proc\<lparr>kstack_va := KSTACK i\<rparr>) [1..<64]"

lemma ex_rest: "length ex_rest = 63" "p \<in> set ex_rest \<Longrightarrow> state p = UNUSED \<and> parent p = None \<and> pid p = 0"
  by (auto simp: ex_rest_def ex_proc_def)

lemma ex_procinit: "procs (procinit ex_zero) = ex_proc\<lparr>kstack_va := KSTACK 0\<rparr> # ex_rest"
proof -
  have "procs (procinit ex_zero) = map (\<lambda>i. ex_proc\<lparr>kstack_va := KSTACK i\<rparr>) [0..<64]"
    by (simp add: procinit_def ex_zero_def) (simp add: ex_proc_def)
  also have "[0..<64] = 0 # [1..<64 :: nat]" by (simp add: upt_rec)
  finally show ?thesis by (simp add: ex_rest_def)
qed

lemma ex_booted:
  "userinit ex_kops ex_tf (procinit ex_zero) = Inr ex_booted"
  "\<exists>p. procs ex_booted = p # ex_rest \<and> state p = RUNNABLE \<and> pid p = 1 \<and> chan p = None \<and> parent p = None \<and> trapframe p \<noteq> None \<and>
     pagetable p \<noteq> None \<and> p_ofile p = replicate 16 None \<and> vmas p = [] \<and> p_cwd p = Some 0 \<and> killed p = False"
  "cpus ex_booted = cpus ex_zero" "initproc ex_booted = Some 0" "nextpid ex_booted = 2"
proof -
  have i: "cpus (procinit ex_zero) = cpus ex_zero" "nextpid (procinit ex_zero) = 1" by (simp_all add: procinit_def ex_zero_def)
  have "\<exists>s. userinit ex_kops ex_tf (procinit ex_zero) = Inr s \<and> cpus s = cpus ex_zero \<and> initproc s = Some 0 \<and> nextpid s = 2 \<and>
    (\<exists>p. procs s = p # ex_rest \<and> state p = RUNNABLE \<and> pid p = 1 \<and> chan p = None \<and> parent p = None \<and> trapframe p \<noteq> None \<and> pagetable p \<noteq> None \<and> p_ofile p = replicate 16 None \<and> vmas p = [] \<and> p_cwd p = Some 0 \<and> killed p = False)"
    by (simp add: userinit_def allocproc_def ex_procinit i allocpid_def proc_pagetable_def ex_kops_def on_mach_def Let_def set_proc_def set_tf_def)
      (simp add: ex_proc_def)
  then show "userinit ex_kops ex_tf (procinit ex_zero) = Inr ex_booted"
    "\<exists>p. procs ex_booted = p # ex_rest \<and> state p = RUNNABLE \<and> pid p = 1 \<and> chan p = None \<and> parent p = None \<and> trapframe p \<noteq> None \<and> pagetable p \<noteq> None \<and> p_ofile p = replicate 16 None \<and> vmas p = [] \<and> p_cwd p = Some 0 \<and> killed p = False"
    "cpus ex_booted = cpus ex_zero" "initproc ex_booted = Some 0" "nextpid ex_booted = 2"
    by (auto simp: ex_booted_def i)
qed

text \<open>The booted kernel with its first process running on cpu 0.\<close>

definition ex_running :: "u64 ks" where
  "ex_running = scheduler_visit 0 0 ex_booted"

lemma ex_step: "kstep ex_kops ex_booted ex_running"
proof -
  obtain p where "procs ex_booted = p # ex_rest" using ex_booted(2) by blast
  then show ?thesis unfolding ex_running_def
    by (intro schedule) (simp_all add: ex_booted(3) ex_zero_def myproc_def mycpu_def)
qed

lemma ex_reach: "reach (kboot ex_kops) (kstep ex_kops) ex_booted" "reach (kboot ex_kops) (kstep ex_kops) ex_running"
proof -
  have "kboot ex_kops ex_booted" using ex_booted(1) by (auto simp: kboot_def zeroed_def ex_zero_def ex_proc_def intro!: exI [of _ ex_zero])
  then show "reach (kboot ex_kops) (kstep ex_kops) ex_booted" by (rule reach_init)
  then show "reach (kboot ex_kops) (kstep ex_kops) ex_running" using ex_step by (rule reach_step)
qed

lemma ex_running:
  "\<exists>p. procs ex_running = p # ex_rest \<and> state p = RUNNING \<and> pid p = 1 \<and> chan p = None \<and> parent p = None \<and>
     trapframe p \<noteq> None \<and> pagetable p \<noteq> None \<and> p_ofile p = replicate 16 None \<and> vmas p = [] \<and> p_cwd p = Some 0 \<and> killed p = False"
  "myproc 0 ex_running = Some 0" "length (cpus ex_running) = 8" "nextpid ex_running = 2" "initproc ex_running = Some 0"
  using ex_booted(2-5) by (auto simp: ex_running_def scheduler_visit_def set_cpu_def set_proc_def myproc_def mycpu_def ex_zero_def)

text \<open>The first process forks; the child runs on cpu 1 and exits.\<close>

definition ex_env :: senv where
  "ex_env = \<lparr>e_holding = True, e_noff = 1, e_intr = False\<rparr>"

lemma fork_files_none: "length old = n \<Longrightarrow> fork_files K (replicate n None) old m = Inr (old, m)"
  by (induction n arbitrary: old) (auto simp: length_Suc_conv)

lemma exit_files_none: "exit_files K (replicate n None) m = Inr (replicate n None, m)"
  by (induction n) simp_all

lemma ex_rest_Cons: "ex_rest = ex_proc\<lparr>kstack_va := KSTACK 1\<rparr> # map (\<lambda>i. ex_proc\<lparr>kstack_va := KSTACK i\<rparr>) [2..<64]"
  by (simp add: ex_rest_def upt_rec)

lemma ex_forked:
  "\<exists>s p q. fork_copy ex_kops ex_tf 0 ex_running = Inr (Some (1, 2), s) \<and> procs s = p # q # drop 1 ex_rest \<and> state p = RUNNING \<and> chan p = None \<and>
     parent p = None \<and> state q = USED \<and> chan q = None \<and> parent q = None \<and> p_ofile q = replicate 16 None \<and> vmas q = [] \<and>
     myproc 0 s = Some 0 \<and> myproc 1 s = None \<and> length (cpus s) = 8 \<and> initproc s = Some 0"
proof -
  obtain p where p: "procs ex_running = p # ex_rest" "state p = RUNNING" "pid p = 1" "chan p = None" "parent p = None"
    "trapframe p \<noteq> None" "pagetable p \<noteq> None" "p_ofile p = replicate 16 None" "vmas p = []" "p_cwd p = Some 0" "killed p = False"
    using ex_running(1) by blast
  have c1: "myproc 1 ex_running = None"
    by (simp add: ex_running_def scheduler_visit_def set_cpu_def set_proc_def myproc_def mycpu_def ex_booted(3) ex_zero_def)
  have f: "find_idx (\<lambda>p. state p = UNUSED) (procs ex_running) = Some 1" by (simp add: p ex_rest_Cons ex_proc_def)
  show ?thesis
    using p c1 ex_running(2-5)
    by (auto simp: fork_copy_def allocproc_def f allocpid_def proc_pagetable_def ex_kops_def Let_def set_proc_def set_tf_def
        ex_rest_Cons fork_files_none ex_proc_def myproc_def mycpu_def)
qed

lemma ex_zombie: obtains s where "reach (kboot ex_kops) (kstep ex_kops) s" "1 < length (procs s)" "state (procs s ! 1) = ZOMBIE"
proof -
  obtain s p q where s: "fork_copy ex_kops ex_tf 0 ex_running = Inr (Some (1, 2), s)" "procs s = p # q # drop 1 ex_rest"
    "state p = RUNNING" "chan p = None" "parent p = None" "state q = USED" "chan q = None" "parent q = None" "p_ofile q = replicate 16 None" "vmas q = []"
    "myproc 0 s = Some 0" "myproc 1 s = None" "length (cpus s) = 8" "initproc s = Some 0" using ex_forked by blast
  let ?q = "q\<lparr>parent := Some 0\<rparr>"
  define s1 where "s1 = fork_parent 0 1 s"
  define s2 where "s2 = fork_ready 1 s1"
  define s3 where "s3 = scheduler_visit 1 1 s2"
  have p1: "procs s1 = p # ?q # drop 1 ex_rest" "cpus s1 = cpus s" "initproc s1 = Some 0" by (simp_all add: s1_def fork_parent_def set_proc_def s)
  have p2: "procs s2 = p # ?q\<lparr>state := RUNNABLE\<rparr> # drop 1 ex_rest" "cpus s2 = cpus s" "initproc s2 = Some 0"
    by (simp_all add: s2_def fork_ready_def set_proc_def p1)
  have p3: "procs s3 = p # ?q\<lparr>state := RUNNING\<rparr> # drop 1 ex_rest" "myproc 1 s3 = Some 1" "length (cpus s3) = 8" "initproc s3 = Some 0"
    using s(13) by (simp_all add: s3_def scheduler_visit_def set_proc_def set_cpu_def p2 myproc_def mycpu_def)
  have my: "myproc c s1 = myproc c s" "myproc c s2 = myproc c s" for c by (simp_all add: myproc_def mycpu_def p1 p2)
  have "runs 0 0 ex_running" using ex_running(1-3) by (auto simp: runs_def)
  from reach_step [OF ex_reach(2) kstep.fork_copy [OF this s(1)]] have r0: "reach (kboot ex_kops) (kstep ex_kops) s" .
  have "kstep ex_kops s s1" unfolding s1_def by (rule kstep.fork_parent [of 0]) (simp_all add: runs_def s)
  from reach_step [OF r0 this] have r1: "reach (kboot ex_kops) (kstep ex_kops) s1" .
  have "kstep ex_kops s1 s2" unfolding s2_def by (rule kstep.fork_ready [of 0 0]) (simp_all add: runs_def p1 my s)
  from reach_step [OF r1 this] have r2: "reach (kboot ex_kops) (kstep ex_kops) s2" .
  have "kstep ex_kops s2 s3" unfolding s3_def by (rule kstep.schedule) (use s(12,13) in \<open>simp_all add: p2 my\<close>)
  from reach_step [OF r2 this] have r3: "reach (kboot ex_kops) (kstep ex_kops) s3" .
  obtain s4 where x: "exit_release ex_kops 1 s3 = Inr s4" and p4: "procs s4 ! 1 = (?q\<lparr>state := RUNNING\<rparr>)\<lparr>p_cwd := None\<rparr>"
    "cpus s4 = cpus s3" "initproc s4 = Some 0" "length (procs s4) = length (procs s3)"
    using s(9,10) by (auto simp: exit_release_def p3 exit_files_none ex_kops_def on_mach_def set_proc_def Let_def)
  note rp = reparent_prefix [of s4 1, OF _ order_refl, folded reparent_def]
  have "\<exists>s5. exit_zombie ex_env 1 1 0 s4 = Inr s5 \<and> length (procs s5) = length (procs s4) \<and> state (procs s5 ! 1) = ZOMBIE"
    using rp p3 p4 by (simp add: exit_zombie_def sched_def ex_env_def Let_def myproc_def mycpu_def set_cpu_def)
  then obtain s5 where x5: "exit_zombie ex_env 1 1 0 s4 = Inr s5" "length (procs s5) = length (procs s4)" "state (procs s5 ! 1) = ZOMBIE" by blast
  have r: "runs 1 1 s3" using s(7) p3 by (simp add: runs_def)
  then have "kstep ex_kops s3 s4" using x by (rule kstep.exit_release)
  from reach_step [OF r3 this] have r4: "reach (kboot ex_kops) (kstep ex_kops) s4" .
  have "kstep ex_kops s4 s5"
    by (rule kstep.exit_zombie [OF exit_release_runs [OF x r] _ _ x5(1)]) (use p4 s(9,10) in \<open>auto simp: released_def\<close>)
  from reach_step [OF r4 this] show thesis by (rule that) (use x5 p4 p3 in simp_all)
qed

section \<open>Properties\<close>

text \<open>C17: the kernel refines the abstract process machine: whatever a step does to the whole kernel state, what it does to the states,
  channels, pids and parents of the processes and to the assignment of processes to cpus is one of the abstract steps.\<close>

theorem kstep_refines:
  assumes "kstep K s s'"
  shows "astep (abs_ks s) (abs_ks s')"
  using assms by (rule kstep_astep)

theorem kstep_refines_witness:
  "astep (abs_ks ex_booted) (abs_ks ex_running)"
  by (rule kstep_refines [OF ex_step])

text \<open>C18: in every state the kernel can reach from boot, by any interleaving on any number of cpus, the pids of the processes are positive, below
  \<open>nextpid\<close> and pairwise different.\<close>

theorem pids_unique:
  assumes "reach (kboot K) (kstep K) s" and "i < length (procs s)" and "state (procs s ! i) \<noteq> UNUSED"
  shows "0 < pid (procs s ! i) \<and> pid (procs s ! i) < nextpid s \<and>
    (\<forall>j < length (procs s). state (procs s ! j) \<noteq> UNUSED \<longrightarrow> pid (procs s ! j) = pid (procs s ! i) \<longrightarrow> j = i)"
proof -
  have "ids_ok (abs_ks s)" using reachable_sane [OF assms(1)] by (simp add: sane_def)
  with assms(2,3) show ?thesis by (simp add: ids_ok_def)
qed

theorem pids_unique_witness:
  "0 < pid (procs ex_running ! 0) \<and> pid (procs ex_running ! 0) < nextpid ex_running \<and> state (procs ex_running ! 0) = RUNNING"
proof -
  obtain p where p: "procs ex_running = p # ex_rest" "state p = RUNNING" using ex_running(1) by blast
  with pids_unique [OF ex_reach(2), of 0] show ?thesis by simp
qed

text \<open>C19: in every reachable state a process is \<open>RUNNING\<close> exactly when some cpu runs it, and no process is run by two cpus.\<close>

theorem one_cpu_each:
  assumes "reach (kboot K) (kstep K) s"
  shows "(\<forall>c < length (cpus s). \<forall>i. myproc c s = Some i \<longrightarrow> i < length (procs s) \<and> state (procs s ! i) = RUNNING) \<and>
    (\<forall>i < length (procs s). state (procs s ! i) = RUNNING \<longrightarrow> (\<exists>!c. c < length (cpus s) \<and> myproc c s = Some i))"
proof -
  have ok: "cpus_ok (abs_ks s)" using reachable_sane [OF assms] by (simp add: sane_def)
  have run: "i < length (procs s) \<and> state (procs s ! i) = RUNNING" if "c < length (cpus s)" "myproc c s = Some i" for c i
    using ok that unfolding cpus_ok_def by (metis abs_nth(1,2) abs_simps(5,6) view_sel(1))
  have "\<exists>!c. c < length (cpus s) \<and> myproc c s = Some i" if "i < length (procs s)" "state (procs s ! i) = RUNNING" for i
  proof -
    from ok that have "\<exists>c < length (cpus s). myproc c s = Some i" unfolding cpus_ok_def by (metis abs_nth(1,2) abs_simps(5,6) view_sel(1))
    moreover have "c = d" if "c < length (cpus s)" "myproc c s = Some i" "d < length (cpus s)" "myproc d s = Some i" for c d
      using ok that unfolding cpus_ok_def by (metis abs_nth(2) abs_simps(6))
    ultimately show ?thesis by blast
  qed
  with run show ?thesis by blast
qed

theorem one_cpu_each_witness:
  "state (procs ex_running ! 0) = RUNNING \<and> (\<exists>!c. c < length (cpus ex_running) \<and> myproc c ex_running = Some 0)"
proof -
  obtain p where p: "procs ex_running = p # ex_rest" "state p = RUNNING" using ex_running(1) by blast
  with one_cpu_each [OF ex_reach(2)] show ?thesis by simp
qed

text \<open>C20: in every reachable state the parent of a process is alive, neither freed nor a zombie; every zombie has one, so that it can be
  reaped; and no wakeup is lost: a process that sleeps in \<open>wait\<close> has no child that is a zombie.\<close>

theorem zombies_are_reaped:
  assumes "reach (kboot K) (kstep K) s" and "i < length (procs s)" and "state (procs s ! i) = ZOMBIE"
  shows "\<exists>q < length (procs s). parent (procs s ! i) = Some q \<and> state (procs s ! q) \<notin> {UNUSED, ZOMBIE} \<and>
    \<not> (state (procs s ! q) = SLEEPING \<and> chan (procs s ! q) = Some (Chan_proc q))"
proof -
  have k: "kin_ok (abs_ks s)" and w: "wait_ok (abs_ks s)" using reachable_sane [OF assms(1)] by (simp_all add: sane_def)
  from kinD(3) [OF k] assms have "initproc s \<noteq> Some i" by auto
  with kinD(4) [OF k, of i] assms obtain q where q: "parent (procs s ! i) = Some q" by auto
  with kinD(2) [OF k, of i q] assms(2) have "q < length (procs s)" "state (procs s ! q) \<noteq> UNUSED" "state (procs s ! q) \<noteq> ZOMBIE" by auto
  moreover have "\<not> in_wait q (abs_ks s)" using w q assms(2,3) by (simp add: wait_ok_def)
  ultimately show ?thesis using q by (auto simp: in_wait_def)
qed

theorem zombies_are_reaped_witness:
  "\<exists>s :: u64 ks. state (procs s ! 1) = ZOMBIE \<and> (\<exists>q < length (procs s). parent (procs s ! 1) = Some q \<and>
     \<not> (state (procs s ! q) = SLEEPING \<and> chan (procs s ! q) = Some (Chan_proc q)))"
proof -
  obtain s where s: "reach (kboot ex_kops) (kstep ex_kops) s" "1 < length (procs s)" "state (procs s ! 1) = ZOMBIE" by (rule ex_zombie)
  with zombies_are_reaped [OF s] show ?thesis by blast
qed

end
