(* ===== verification/Proc_Ops.thy ===== *)
theory Proc_Ops
  imports Proc_Inv
begin

text \<open>
  What the operations on processes do to the whole process table: \<open>wait\<close> against a search of the table, \<open>fork\<close> on
  both of its outcomes, and \<open>kill\<close>.
\<close>

section \<open>wait\<close>

definition zombie_of :: "nat \<Rightarrow> proc \<Rightarrow> bool" where
  "zombie_of p q \<longleftrightarrow> parent q = Some p \<and> state q = ZOMBIE"

text \<open>The body of the scan at a zombie child.\<close>

definition reap :: "'v kops \<Rightarrow> nat \<Rightarrow> u64 \<Rightarrow> nat \<Rightarrow> 'v ks \<Rightarrow> ((int + bool) \<times> 'v ks) res" where
  "reap K p addr i s =
     (let (e, m) = (if addr \<noteq> 0 then k_copyout K (the (pagetable (procs s ! p))) addr (xstate (procs s ! i)) (mach s)
                    else (0, mach s)) in
      if e < 0 then Inr (Inl (-1), s\<lparr>mach := m\<rparr>)
      else bindE (freeproc K i (s\<lparr>mach := m\<rparr>)) (\<lambda>s'. Inr (Inl (pid (procs s ! i)), s')))"

lemma wait_scan_none:
  "(\<forall>i \<in> set is. \<not> zombie_of p (procs s ! i)) \<Longrightarrow>
    wait_scan K p addr is hk s = Inr (Inr (hk \<or> (\<exists>i \<in> set is. parent (procs s ! i) = Some p)), s)"
  by (induction "is" arbitrary: hk) (auto simp: zombie_of_def)

lemma wait_scan_first:
  "(\<forall>i \<in> set pre. \<not> zombie_of p (procs s ! i)) \<Longrightarrow> zombie_of p (procs s ! i) \<Longrightarrow>
    wait_scan K p addr (pre @ i # post) hk s = reap K p addr i s"
proof (induction pre arbitrary: hk)
  case Nil
  then show ?case by (auto simp: zombie_of_def reap_def Let_def split: prod.splits)
qed (auto simp: zombie_of_def)

lemma wait_scan_find:
  "wait_scan K p addr [0..<length (procs s)] False s =
     (case find_idx (zombie_of p) (procs s) of
        None \<Rightarrow> Inr (Inr (\<exists>q \<in> set (procs s). parent q = Some p), s)
      | Some i \<Rightarrow> reap K p addr i s)"
proof (cases "find_idx (zombie_of p) (procs s)")
  case None
  then have n: "\<forall>i < length (procs s). \<not> zombie_of p (procs s ! i)" by (simp add: find_idx_None)
  have "(\<exists>i \<in> set [0..<length (procs s)]. parent (procs s ! i) = Some p) \<longleftrightarrow> (\<exists>q \<in> set (procs s). parent q = Some p)"
    by (auto simp: set_conv_nth)
  with n None wait_scan_none [of "[0..<length (procs s)]" p s K addr False] show ?thesis by simp
next
  case (Some i)
  then have i: "i < length (procs s)" "zombie_of p (procs s ! i)" "\<forall>j < i. \<not> zombie_of p (procs s ! j)" by (auto simp: find_idx_Some)
  then have "[0..<length (procs s)] = [0..<i] @ i # [Suc i..<length (procs s)]"
    using upt_add_eq_append [of 0 i "length (procs s) - i"] by (simp add: upt_conv_Cons)
  with Some i show ?thesis by (simp add: wait_scan_first)
qed

lemma freeproc_procs:
  assumes "freeproc K i s = Inr s'" and "i < length (procs s)"
  shows "procs s' = (procs s)[i := procs s' ! i] \<and> state (procs s' ! i) = UNUSED \<and> pid (procs s' ! i) = 0 \<and> parent (procs s' ! i) = None \<and>
    pagetable (procs s' ! i) = None \<and> trapframe (procs s' ! i) = None \<and> cpus s' = cpus s"
  using assms by (auto simp: freeproc_def Let_def bindE_eq_Inr on_mach_def set_proc_def split: option.splits prod.splits)

section \<open>fork\<close>

lemma allocproc_Some:
  assumes "allocproc K junk s = Inr (Some i, s')"
  shows "i < length (procs s)" and "state (procs s ! i) = UNUSED" and "nextpid s' = nextpid s + 1"
    and "\<exists>x. procs s' = (procs s)[i := x] \<and> pid x = nextpid s \<and> state x = USED \<and> trapframe x \<noteq> None \<and> pagetable x \<noteq> None \<and>
      p_ofile x = p_ofile (procs s ! i) \<and> vmas x = vmas (procs s ! i) \<and> parent x = parent (procs s ! i)"
proof -
  show i: "i < length (procs s)" "state (procs s ! i) = UNUSED" using allocproc_refines [OF assms] by auto
  obtain j where f: "find_idx (\<lambda>p. state p = UNUSED) (procs s) = Some j"
    using assms by (auto simp: allocproc_def split: option.splits)
  then have j: "j < length (procs s)" by (auto simp: find_idx_Some)
  from assms f have np: "nextpid s < INT_MAX" by (auto simp: allocproc_def allocpid_def split: if_splits)
  obtain tf m where ka: "kalloc K (mach s) = (Some tf, m)"
    using assms np by (cases "kalloc K (mach s)"; cases "fst (kalloc K (mach s))") (auto simp: allocproc_def f allocpid_def bindE_eq_Inr)
  obtain pt m' where pp: "proc_pagetable K tf m = Inr (Some pt, m')"
    using assms np by (auto simp: allocproc_def f allocpid_def bindE_eq_Inr ka Let_def split: if_splits)
  from assms np have e: "i = j" "procs s' = (procs s)[j := (procs s ! j)\<lparr>pid := nextpid s, state := USED, trapframe := Some (tf, junk), pagetable := Some pt,
      ctx := \<lparr>c_ra = a_forkret K, c_sp = kstack_va (procs s ! j) + PGSIZE, c_s = replicate 12 0\<rparr>\<rparr>]" "nextpid s' = nextpid s + 1"
    using j by (simp_all add: allocproc_def f allocpid_def ka pp Let_def set_proc_def, auto)
  show "nextpid s' = nextpid s + 1" by (rule e)
  show "\<exists>x. procs s' = (procs s)[i := x] \<and> pid x = nextpid s \<and> state x = USED \<and> trapframe x \<noteq> None \<and> pagetable x \<noteq> None \<and>
      p_ofile x = p_ofile (procs s ! i) \<and> vmas x = vmas (procs s ! i) \<and> parent x = parent (procs s ! i)"
    unfolding e(1,2) by (intro exI conjI) (rule refl, simp_all)
qed

lemma fork_files_copies:
  "fork_files K fs old m = Inr (r, m') \<Longrightarrow> length fs = length old \<Longrightarrow>
    length r = length fs \<and> (\<forall>i < length fs. r ! i = (if fs ! i \<noteq> None then fs ! i else old ! i))"
proof (induction K fs old m arbitrary: r m' rule: fork_files.induct)
  case (1 K f fs x old m)
  then obtain m1 r1 where "fork_files K fs old m1 = Inr (r1, m')" "r = Some f # r1" "k_filedup K f m = Inr m1" by (auto simp: bindE_eq_Inr)
  with "1.IH" [OF this(1)] 1(3) show ?case by (auto simp: nth_Cons')
next
  case (2 K fs x old m)
  then obtain r1 where "fork_files K fs old m = Inr (r1, m')" "r = x # r1" by (auto simp: bindE_eq_Inr)
  with "2.IH" [OF this(1)] 2(3) show ?case by (auto simp: nth_Cons')
qed auto

lemma fork_vmas_copies:
  "fork_vmas K vs old m = Inr (r, m') \<Longrightarrow> length vs = length old \<Longrightarrow>
    length r = length vs \<and> (\<forall>i < length vs. r ! i = (if v_used (vs ! i) then vs ! i else old ! i))"
proof (induction K vs old m arbitrary: r m' rule: fork_vmas.induct)
  case (1 K v vs x old m)
  show ?case
  proof (cases "v_used v")
    case True
    with 1(3) obtain m1 r1 where "fork_vmas K vs old m1 = Inr (r1, m')" "r = v # r1" "k_filedup K (v_file v) m = Inr m1" by (auto simp: bindE_eq_Inr)
    with "1.IH"(1) [OF True this(1)] 1(4) True show ?thesis by (auto simp: nth_Cons')
  next
    case False
    with 1(3) obtain r1 where "fork_vmas K vs old m = Inr (r1, m')" "r = x # r1" by (auto simp: bindE_eq_Inr)
    with "1.IH"(2) [OF False this(1)] 1(4) False show ?thesis by (auto simp: nth_Cons')
  qed
qed auto

lemma allocproc_None:
  assumes "allocproc K junk s = Inr (None, s')"
  shows "procs s' = procs s \<or> (\<exists>i x. i < length (procs s) \<and> state (procs s ! i) = UNUSED \<and> procs s' = (procs s)[i := x] \<and> state x = UNUSED)"
proof (cases "find_idx (\<lambda>p. state p = UNUSED) (procs s)")
  case None
  with assms show ?thesis by (auto simp: allocproc_def)
next
  case (Some j)
  then have j: "j < length (procs s)" "state (procs s ! j) = UNUSED" by (auto simp: find_idx_Some)
  have "\<exists>s2. freeproc K j s2 = Inr s' \<and> (\<exists>x. procs s2 = (procs s)[j := x])"
    using assms j by (auto simp: allocproc_def Some allocpid_def bindE_eq_Inr Let_def set_proc_def split: if_splits prod.splits option.splits) fastforce+
  then obtain s2 x where f: "freeproc K j s2 = Inr s'" and s2: "procs s2 = (procs s)[j := x]" by blast
  have "j < length (procs s2)" using j by (simp add: s2)
  from freeproc_procs [OF f this] have "procs s' = (procs s)[j := procs s' ! j]" "state (procs s' ! j) = UNUSED" by (auto simp: s2)
  with j show ?thesis by blast
qed

text \<open>The process \<open>x\<close> as the copy of \<open>q\<close>, in the entry that held \<open>old\<close>: a file or region that \<open>q\<close> does not have
  is left as it was in the entry.\<close>

definition copy_of :: "proc \<Rightarrow> proc \<Rightarrow> proc \<Rightarrow> bool" where
  "copy_of q old x \<longleftrightarrow> sz x = sz q \<and> p_cwd x = p_cwd q \<and>
     (\<exists>a. trapframe x = Some (a, (snd (the (trapframe q)))\<lparr>regs := (regs (snd (the (trapframe q))))(R_a0 := 0)\<rparr>)) \<and>
     length (p_ofile x) = length (p_ofile q) \<and> length (vmas x) = length (vmas q) \<and>
     (\<forall>fd < length (p_ofile q). p_ofile x ! fd = (if p_ofile q ! fd \<noteq> None then p_ofile q ! fd else p_ofile old ! fd)) \<and>
     (\<forall>i < length (vmas q). vmas x ! i = (if v_used (vmas q ! i) then vmas q ! i else vmas old ! i))"

lemma fork_copy_Some:
  assumes run: "fork_copy K junk p s = Inr (Some (np, n), s')" and p: "p < length (procs s)" "state (procs s ! p) \<noteq> UNUSED"
    and len: "\<And>q. q \<in> set (procs s) \<Longrightarrow> length (p_ofile q) = length (p_ofile (procs s ! p)) \<and> length (vmas q) = length (vmas (procs s ! p))"
  shows "np < length (procs s) \<and> state (procs s ! np) = UNUSED \<and> n = nextpid s \<and> nextpid s' = nextpid s + 1 \<and>
    (\<exists>x. procs s' = (procs s)[np := x] \<and> pid x = n \<and> copy_of (procs s ! p) (procs s ! np) x)"
proof -
  from run obtain i s1 where al: "allocproc K junk s = Inr (Some i, s1)"
    by (auto simp: fork_copy_def bindE_eq_Inr split: option.splits)
  note a = allocproc_Some [OF al]
  obtain x where x: "procs s1 = (procs s)[i := x]" "pid x = nextpid s" "trapframe x \<noteq> None" "p_ofile x = p_ofile (procs s ! i)"
    "vmas x = vmas (procs s ! i)" using a(4) by blast
  have ip: "i \<noteq> p" using a(2) p(2) by auto
  have q: "procs s1 ! p = procs s ! p" "procs s1 ! i = x" "length (procs s1) = length (procs s)" using x(1) ip a(1) by simp_all
  let ?q = "procs s ! p" and ?t = "snd (the (trapframe (procs s ! p)))"
  obtain tf where tf: "trapframe x = Some tf" using x(3) by blast
  from run al obtain m where uc: "uvmcopy K (the (pagetable ?q)) (the (pagetable x)) (sz ?q) (mach s1) = Inr m" and "\<not> fst m < 0"
    by (auto simp: fork_copy_def bindE_eq_Inr q Let_def split: if_splits)
  with run al obtain fs m1 vs m2 where ff: "fork_files K (p_ofile ?q) (p_ofile (procs s ! i)) (snd m) = Inr (fs, m1)"
    and fv: "fork_vmas K (vmas ?q) (vmas (procs s ! i)) (k_idup K (the (p_cwd ?q)) m1) = Inr (vs, m2)"
    and e: "np = i" "n = nextpid s" "nextpid s' = nextpid s1"
      "procs s' = (procs s)[i := x\<lparr>sz := sz ?q, trapframe := Some (fst tf, ?t\<lparr>regs := (regs ?t)(R_a0 := 0)\<rparr>), p_ofile := fs, p_cwd := p_cwd ?q,
        vmas := vs, p_name := safestrcpy (p_name x) (p_name ?q)\<rparr>]"
    using ip p(1) a(1) by (cases m) (auto simp: fork_copy_def bindE_eq_Inr q Let_def x set_proc_def set_tf_def tf split: prod.splits)
  have l: "length (p_ofile ?q) = length (p_ofile (procs s ! i))" "length (vmas ?q) = length (vmas (procs s ! i))"
    using len [of "procs s ! i"] a(1) by simp_all
  have "copy_of ?q (procs s ! i) (x\<lparr>sz := sz ?q, trapframe := Some (fst tf, ?t\<lparr>regs := (regs ?t)(R_a0 := 0)\<rparr>), p_ofile := fs, p_cwd := p_cwd ?q,
        vmas := vs, p_name := safestrcpy (p_name x) (p_name ?q)\<rparr>)"
    using fork_files_copies [OF ff l(1)] fork_vmas_copies [OF fv l(2)] by (simp add: copy_of_def)
  with e a x show ?thesis by auto
qed

lemma fork_copy_None:
  assumes run: "fork_copy K junk p s = Inr (None, s')"
  shows "procs s' = procs s \<or> (\<exists>i x. i < length (procs s) \<and> state (procs s ! i) = UNUSED \<and> procs s' = (procs s)[i := x] \<and> state x = UNUSED)"
proof -
  from run obtain q s1 where al: "allocproc K junk s = Inr (q, s1)" by (auto simp: fork_copy_def bindE_eq_Inr)
  show ?thesis
  proof (cases q)
    case None
    with run al have "s' = s1" by (auto simp: fork_copy_def)
    with allocproc_None al None show ?thesis by blast
  next
    case (Some i)
    note a = allocproc_Some [OF al [unfolded Some]]
    from run al Some obtain m where f: "freeproc K i (s1\<lparr>mach := m\<rparr>) = Inr s'"
      by (auto simp: fork_copy_def bindE_eq_Inr Let_def split: if_splits)
    from a obtain x where x: "procs s1 = (procs s)[i := x]" by blast
    with freeproc_procs [OF f] a have "procs s' = (procs s)[i := procs s' ! i]" "state (procs s' ! i) = UNUSED" by auto
    with a show ?thesis by blast
  qed
qed

text \<open>\<open>kill\<close> does not look at the state of an entry: pid 0 is the pid of every unused one.\<close>

lemma kill_zero_marks_unused:
  assumes "find_idx (\<lambda>p. pid p = 0) (procs s) = Some i" and "state (procs s ! i) = UNUSED"
  shows "fst (kill 0 s) = 0 \<and> killed (procs (snd (kill 0 s)) ! i)"
proof -
  have "i < length (procs s)" using assms(1) by (simp add: find_idx_Some)
  then show ?thesis by (simp add: kill_def assms(1))
qed

text \<open>\<open>allocproc\<close> does not clear the mark.\<close>

lemma allocproc_keeps_killed:
  assumes "allocproc K junk s = Inr (Some i, s')"
  shows "killed (procs s' ! i) = killed (procs s ! i)"
proof -
  from assms obtain j where f: "find_idx (\<lambda>p. state p = UNUSED) (procs s) = Some j" by (auto simp: allocproc_def split: option.splits)
  then have j: "j < length (procs s)" by (auto simp: find_idx_Some)
  have i: "i < length (procs s)" "state (procs s ! i) = UNUSED" using allocproc_Some [OF assms] by auto
  from assms f have np: "nextpid s < INT_MAX" by (auto simp: allocproc_def allocpid_def split: if_splits)
  obtain tf m where ka: "kalloc K (mach s) = (Some tf, m)"
    using assms np by (cases "kalloc K (mach s)"; cases "fst (kalloc K (mach s))") (auto simp: allocproc_def f allocpid_def bindE_eq_Inr)
  obtain pt m' where pp: "proc_pagetable K tf m = Inr (Some pt, m')"
    using assms np by (auto simp: allocproc_def f allocpid_def bindE_eq_Inr ka Let_def split: if_splits)
  from assms np j show ?thesis by (auto simp: allocproc_def f allocpid_def ka pp Let_def set_proc_def)
qed

section \<open>Properties\<close>

lemma wait_round_eq:
  "wait_round K E c p addr s =
     (case find_idx (zombie_of p) (procs s) of
        Some i \<Rightarrow> (case (if addr \<noteq> 0 then k_copyout K (the (pagetable (procs s ! p))) addr (xstate (procs s ! i)) (mach s) else (0, mach s)) of (e, m) \<Rightarrow>
          if e < 0 then Inr (Some (-1), s\<lparr>mach := m\<rparr>)
          else bindE (freeproc K i (s\<lparr>mach := m\<rparr>)) (\<lambda>s'. Inr (Some (pid (procs s ! i)), s')))
      | None \<Rightarrow> if (\<forall>q \<in> set (procs s). parent q \<noteq> Some p) \<or> killed (procs s ! p) then Inr (Some (-1), s)
          else bindE (sleep E c p (Chan_proc p) s) (\<lambda>s. Inr (None, s)))"
  unfolding wait_round_def wait_scan_find
  by (auto simp: reap_def Let_def bindE_assoc split: option.split prod.split)

text \<open>C23: a round of \<open>wait\<close> is a search for the first zombie child. If there is one and an address is given, its status is copied out to that address; when
  this fails the call returns -1 and every process is as it was, otherwise it frees the entry of the child, after the copy, changes no other entry and returns the
  child's pid. If there is none the call fails with -1 when the process has no child or has been killed, and sleeps on its own
  address otherwise.\<close>

theorem wait_round_correct:
  assumes on: "runs c p s" and run: "wait_round K E c p addr s = Inr (r, s')"
  shows "case find_idx (\<lambda>q. parent q = Some p \<and> state q = ZOMBIE) (procs s) of
      Some i \<Rightarrow>
        (case (if addr \<noteq> 0 then k_copyout K (the (pagetable (procs s ! p))) addr (xstate (procs s ! i)) (mach s) else (0, mach s)) of (e, m) \<Rightarrow>
         if e < 0 then r = Some (-1) \<and> s' = s\<lparr>mach := m\<rparr>
         else r = Some (pid (procs s ! i)) \<and> freeproc K i (s\<lparr>mach := m\<rparr>) = Inr s' \<and>
           procs s' = (procs s)[i := procs s' ! i] \<and> state (procs s' ! i) = UNUSED \<and>
           pid (procs s' ! i) = 0 \<and> parent (procs s' ! i) = None \<and> trapframe (procs s' ! i) = None \<and> pagetable (procs s' ! i) = None)
    | None \<Rightarrow>
        if (\<forall>q \<in> set (procs s). parent q \<noteq> Some p) \<or> killed (procs s ! p) then r = Some (-1) \<and> s' = s
        else r = None \<and> procs s' = (procs s)[p := (procs s ! p)\<lparr>chan := Some (Chan_proc p), state := SLEEPING\<rparr>] \<and> myproc c s' = None"
proof -
  have z: "(\<lambda>q. parent q = Some p \<and> state q = ZOMBIE) = zombie_of p" by (simp add: fun_eq_iff zombie_of_def)
  note run = run [unfolded wait_round_eq]
  show ?thesis
  proof (cases "find_idx (zombie_of p) (procs s)")
    case None
    with run on show ?thesis
      by (auto simp: z sleep_def sched_def set_cpu_def set_proc_def myproc_def mycpu_def runs_def bindE_eq_Inr split: if_splits option.splits)
  next
    case (Some i)
    then have i: "i < length (procs s)" by (simp add: find_idx_Some)
    obtain e m where c: "(if addr \<noteq> 0 then k_copyout K (the (pagetable (procs s ! p))) addr (xstate (procs s ! i)) (mach s)
                    else (0, mach s)) = (e, m)" by force
    from run Some c have "if e < 0 then r = Some (-1) \<and> s' = s\<lparr>mach := m\<rparr>
        else r = Some (pid (procs s ! i)) \<and> freeproc K i (s\<lparr>mach := m\<rparr>) = Inr s'"
      by (auto simp: bindE_eq_Inr)
    then show ?thesis
      unfolding z Some option.case c prod.case using freeproc_procs [of K i "s\<lparr>mach := m\<rparr>" s'] i by (cases "e < 0") simp_all
  qed
qed

text \<open>A process with a zombie child whose status can be copied to the address 4096 only.\<close>

definition ex_waiting :: "u64 ks" where
  "ex_waiting = ex_zero\<lparr>procs := [ex_proc\<lparr>state := RUNNING, pid := 1, pagetable := Some 0\<rparr>,
     ex_proc\<lparr>state := ZOMBIE, pid := 2, parent := Some 0, xstate := 7\<rparr>], cpus := [\<lparr>c_proc = Some 0, c_context = ex_ctx, c_intena = False\<rparr>]\<rparr>"

definition ex_copy_kops :: "u64 kops" where
  "ex_copy_kops = ex_kops\<lparr>k_copyout := (\<lambda>t a v m. if a = 4096 then (0, m) else (-1, m))\<rparr>"

lemma ex_waiting:
  "runs 0 0 ex_waiting" "find_idx (\<lambda>q. parent q = Some 0 \<and> state q = ZOMBIE) (procs ex_waiting) = Some 1"
  "length (procs ex_waiting) = 2" "pid (procs ex_waiting ! 1) = 2"
  "\<exists>s'. wait_round ex_copy_kops ex_env 0 0 4096 ex_waiting = Inr (Some 2, s')"
  "\<exists>s'. wait_round ex_copy_kops ex_env 0 0 8 ex_waiting = Inr (Some (-1), s')"
  by (simp_all add: runs_def ex_waiting_def ex_proc_def ex_zero_def myproc_def mycpu_def wait_round_eq zombie_of_def ex_copy_kops_def ex_kops_def
      freeproc_def set_proc_def Let_def)

theorem wait_round_correct_witness:
  "(\<exists>s'. wait_round ex_copy_kops ex_env 0 0 4096 ex_waiting = Inr (Some 2, s') \<and> state (procs s' ! 1) = UNUSED \<and> procs s' ! 0 = procs ex_waiting ! 0) \<and>
   (\<exists>s'. wait_round ex_copy_kops ex_env 0 0 8 ex_waiting = Inr (Some (-1), s') \<and> procs s' = procs ex_waiting)"
proof -
  obtain s1 s2 where run: "wait_round ex_copy_kops ex_env 0 0 4096 ex_waiting = Inr (Some 2, s1)"
    "wait_round ex_copy_kops ex_env 0 0 8 ex_waiting = Inr (Some (-1), s2)" using ex_waiting(5,6) by blast
  have "procs s1 = (procs ex_waiting)[1 := procs s1 ! 1] \<and> state (procs s1 ! 1) = UNUSED"
    using wait_round_correct [OF ex_waiting(1) run(1)] by (simp add: ex_waiting(2,4) ex_copy_kops_def)
  moreover from this have "procs s1 ! 0 = procs ex_waiting ! 0" by (metis nth_list_update_neq zero_neq_one)
  moreover have "procs s2 = procs ex_waiting"
    using wait_round_correct [OF ex_waiting(1) run(2)] by (simp add: ex_waiting(2) ex_copy_kops_def)
  ultimately show ?thesis using run by blast
qed

text \<open>C24: \<open>fork\<close> either returns -1 and leaves every process as it was, or returns the next pid and turns one unused
  entry into a runnable child of the caller: a copy of its memory size, working directory, open files, mapped regions and
  registers, except that \<open>a0\<close> is 0; no other entry changes.\<close>

theorem fork_correct:
  assumes run: "fork K junk p s = Inr (r, s')" and p: "p < length (procs s)" "state (procs s ! p) \<noteq> UNUSED"
    and len: "\<forall>q \<in> set (procs s). length (p_ofile q) = length (p_ofile (procs s ! p)) \<and> length (vmas q) = length (vmas (procs s ! p))"
  shows "r = -1 \<and> (procs s' = procs s \<or> (\<exists>i x. i < length (procs s) \<and> state (procs s ! i) = UNUSED \<and> procs s' = (procs s)[i := x] \<and> state x = UNUSED)) \<or>
    (\<exists>np x. np < length (procs s) \<and> state (procs s ! np) = UNUSED \<and> r = nextpid s \<and> nextpid s' = nextpid s + 1 \<and>
       procs s' = (procs s)[np := x] \<and> state x = RUNNABLE \<and> pid x = r \<and> parent x = Some p \<and> copy_of (procs s ! p) (procs s ! np) x)"
proof -
  from run obtain q s1 where fc: "fork_copy K junk p s = Inr (q, s1)" by (auto simp: fork_def bindE_eq_Inr)
  show ?thesis
  proof (cases q)
    case None
    with run fc have "r = -1" "s' = s1" by (auto simp: fork_def)
    with fork_copy_None fc None show ?thesis by blast
  next
    case (Some y)
    obtain np n where y: "y = (np, n)" by force
    from run fc Some y have r: "r = n" and s': "s' = fork_ready np (fork_parent p np s1)" by (auto simp: fork_def)
    from fork_copy_Some [OF fc [unfolded Some y] p] len obtain x where np: "np < length (procs s)" "state (procs s ! np) = UNUSED" "n = nextpid s"
      "nextpid s1 = nextpid s + 1" and x: "procs s1 = (procs s)[np := x]" "pid x = n" "copy_of (procs s ! p) (procs s ! np) x" by blast
    have "procs s' = (procs s)[np := x\<lparr>parent := Some p, state := RUNNABLE\<rparr>]"
      using np(1) by (simp add: s' fork_ready_def fork_parent_def set_proc_def x(1))
    moreover have "copy_of (procs s ! p) (procs s ! np) (x\<lparr>parent := Some p, state := RUNNABLE\<rparr>)" using x(3) by (simp add: copy_of_def)
    moreover have "nextpid s' = nextpid s + 1" using np(4) by (simp add: s' fork_ready_def fork_parent_def)
    ultimately show ?thesis using np x(2) r by (intro disjI2 exI [of _ np] exI [of _ "x\<lparr>parent := Some p, state := RUNNABLE\<rparr>"]) simp
  qed
qed

theorem fork_correct_witness:
  "\<exists>s' np x. fork ex_kops ex_tf 0 ex_running = Inr (2, s') \<and> procs s' = (procs ex_running)[np := x] \<and> state x = RUNNABLE \<and> parent x = Some 0"
proof -
  from ex_forked obtain s where "fork_copy ex_kops ex_tf 0 ex_running = Inr (Some (1, 2), s)" by blast
  then have run: "fork ex_kops ex_tf 0 ex_running = Inr (2, fork_ready 1 (fork_parent 0 1 s))" by (simp add: fork_def)
  obtain p where p: "procs ex_running = p # ex_rest" "state p = RUNNING" "p_ofile p = replicate 16 None" "vmas p = []" using ex_running(1) by blast
  have len: "\<forall>q \<in> set (procs ex_running). length (p_ofile q) = length (p_ofile (procs ex_running ! 0)) \<and>
    length (vmas q) = length (vmas (procs ex_running ! 0))" by (auto simp: p ex_rest_def ex_proc_def)
  from fork_correct [OF run _ _ len] run p show ?thesis by auto
qed

end
