(* ===== verification/File_Refs.thy ===== *)
theory File_Refs
  imports Descriptors Proc_Ops "HOL-Library.Multiset"
begin

text \<open>
  Who holds open files. A file is held once for each descriptor and each mapped region of each process; the reference counts of \<open>file.c\<close> are a
  multiset \<open>refs\<close> of files, a function of the state behind \<open>kops\<close>. The two agree in every state that the kernel can reach by the steps of \<open>kstep\<close>
  and the calls on descriptors and regions (an interpretation of \<open>transition_system\<close>): no call, fork or exit loses a reference to a file or keeps
  one too many.
\<close>

section \<open>Files that are held\<close>

abbreviation bag :: "('a \<Rightarrow> nat multiset) \<Rightarrow> 'a list \<Rightarrow> nat multiset" where
  "bag g xs \<equiv> sum_list (map g xs)"

definition of_slot :: "nat option \<Rightarrow> nat multiset" where
  "of_slot x = (case x of None \<Rightarrow> {#} | Some f \<Rightarrow> {#f#})"

definition of_region :: "vma \<Rightarrow> nat multiset" where
  "of_region v = (if v_used v then {#v_file v#} else {#})"

definition held :: "proc \<Rightarrow> nat multiset" where
  "held p = bag of_slot (p_ofile p) + bag of_region (vmas p)"

lemma bag_update: "i < length xs \<Longrightarrow> bag g (xs[i := y]) + g (xs ! i) = bag g xs + g y"
  by (induction xs arbitrary: i) (auto simp: nth_Cons split: nat.split)

lemma bag_empty: "bag g xs = {#} \<longleftrightarrow> (\<forall>x \<in> set xs. g x = {#})"
  by (induction xs) auto

lemma of_slot_simps [simp]: "of_slot None = {#}" "of_slot (Some f) = {#f#}" "of_slot x = {#} \<longleftrightarrow> x = None"
  by (auto simp: of_slot_def split: option.split)

lemma of_region_simps [simp]: "of_region v = {#} \<longleftrightarrow> \<not> v_used v" "v_used v \<Longrightarrow> of_region v = {#v_file v#}"
  by (auto simp: of_region_def)

section \<open>What the operations on files promise\<close>

text \<open>\<open>filedup\<close> adds a reference and \<open>fileclose\<close> takes one away (both panic without one), a new file and each end of a new pipe has one,
  and nothing else changes the counts.\<close>

definition kops_refs :: "'v kops \<Rightarrow> ('v \<Rightarrow> nat multiset) \<Rightarrow> bool" where
  "kops_refs K refs \<longleftrightarrow>
     (\<forall>f m m'. k_filedup K f m = Inr m' \<longrightarrow> refs m' = add_mset f (refs m)) \<and>
     (\<forall>f m m'. k_fileclose K f m = Inr m' \<longrightarrow> refs m = add_mset f (refs m')) \<and>
     (\<forall>m. refs (snd (kalloc K m)) = refs m) \<and> (\<forall>a m. refs (kfree K a m) = refs m) \<and> (\<forall>m. refs (snd (uvmcreate K m)) = refs m) \<and>
     (\<forall>t v n a f m r m'. mappages K t v n a f m = Inr (r, m') \<longrightarrow> refs m' = refs m) \<and>
     (\<forall>t v n f m m'. uvmunmap K t v n f m = Inr m' \<longrightarrow> refs m' = refs m) \<and>
     (\<forall>t n m m'. uvmfree K t n m = Inr m' \<longrightarrow> refs m' = refs m) \<and>
     (\<forall>t b m m'. uvmfirst K t b m = Inr m' \<longrightarrow> refs m' = refs m) \<and>
     (\<forall>t a b f m. refs (snd (uvmalloc K t a b f m)) = refs m) \<and> (\<forall>t a b m. refs (snd (uvmdealloc K t a b m)) = refs m) \<and>
     (\<forall>t u n m r m'. uvmcopy K t u n m = Inr (r, m') \<longrightarrow> refs m' = refs m) \<and>
     (\<forall>t a v m. refs (snd (k_copyout K t a v m)) = refs m) \<and> (\<forall>i m. refs (k_idup K i m) = refs m) \<and>
     (\<forall>i m m'. k_iput K i m = Inr m' \<longrightarrow> refs m' = refs m) \<and>
     (\<forall>p m r m'. k_namei K p m = Inr (r, m') \<longrightarrow> refs m' = refs m) \<and> (\<forall>d m m'. k_fsinit K d m = Inr m' \<longrightarrow> refs m' = refs m)"

definition mapops_refs :: "'v mapops \<Rightarrow> ('v \<Rightarrow> nat multiset) \<Rightarrow> bool" where
  "mapops_refs M refs \<longleftrightarrow>
     (\<forall>m. refs (m_begin M m) = refs m) \<and> (\<forall>m. refs (m_end M m) = refs m) \<and> (\<forall>a m. refs (m_zero M a m) = refs m) \<and>
     (\<forall>f m m'. m_ilock M f m = Inr m' \<longrightarrow> refs m' = refs m) \<and> (\<forall>f m m'. m_iunlock M f m = Inr m' \<longrightarrow> refs m' = refs m) \<and>
     (\<forall>f u a off n m r m'. m_writei M f u a off n m = Inr (r, m') \<longrightarrow> refs m' = refs m) \<and>
     (\<forall>f u a off n m r m'. m_readi M f u a off n m = Inr (r, m') \<longrightarrow> refs m' = refs m)"

definition fops_refs :: "'v fops \<Rightarrow> ('v \<Rightarrow> nat multiset) \<Rightarrow> bool" where
  "fops_refs D refs \<longleftrightarrow>
     (\<forall>m r m'. f_alloc D m = (r, m') \<longrightarrow> refs m' = of_slot r + refs m) \<and>
     (\<forall>m r m'. f_pipe D m = (r, m') \<longrightarrow> refs m' = (case r of None \<Rightarrow> {#} | Some (a, b) \<Rightarrow> {#a, b#}) + refs m) \<and>
     (\<forall>f a n m r m'. f_read D f a n m = Inr (r, m') \<longrightarrow> refs m' = refs m) \<and>
     (\<forall>f a n m r m'. f_write D f a n m = Inr (r, m') \<longrightarrow> refs m' = refs m) \<and>
     (\<forall>f a m r m'. f_stat D f a m = Inr (r, m') \<longrightarrow> refs m' = refs m)"

section \<open>The invariant\<close>

definition dead :: "proc \<Rightarrow> bool" where
  "dead p \<longleftrightarrow> state p = UNUSED \<or> state p = ZOMBIE"

text \<open>The table holds exactly \<open>N\<close>.\<close>

abbreviation tables_ok :: "nat multiset \<Rightarrow> proc list \<Rightarrow> bool" where
  "tables_ok N ps \<equiv> N = bag held ps \<and>
     (\<forall>p \<in> set ps. length (p_ofile p) = NOFILE \<and> length (vmas p) = VMASIZE \<and> (dead p \<longrightarrow> held p = {#}))"

definition files_ok :: "('v \<Rightarrow> nat multiset) \<Rightarrow> 'v ks \<Rightarrow> bool" where
  "files_ok refs s \<longleftrightarrow> tables_ok (refs (mach s)) (procs s)"

text \<open>One entry of the process table becomes \<open>x\<close>, and the references change with what it holds.\<close>

lemma tables_ok_entry:
  assumes "tables_ok N ps" "i < length ps" "N' + held (ps ! i) = N + held x"
    "length (p_ofile x) = NOFILE" "length (vmas x) = VMASIZE" "dead x \<Longrightarrow> held x = {#}"
  shows "tables_ok N' (ps[i := x])"
proof -
  have "N' + held (ps ! i) = bag held (ps[i := x]) + held (ps ! i)"
    using assms(1,3) bag_update [OF assms(2), of held x] by simp
  then have "N' = bag held (ps[i := x])" by simp
  moreover have "p = x \<or> p \<in> set ps" if "p \<in> set (ps[i := x])" for p
    using that set_update_subset_insert [of ps i x] by auto
  ultimately show ?thesis using assms(1,4-6) by metis
qed

lemma files_ok_entry:
  assumes "files_ok refs s" "procs s' = (procs s)[i := x]" "i < length (procs s)"
    "refs (mach s') + held (procs s ! i) = refs (mach s) + held x"
    "length (p_ofile x) = NOFILE" "length (vmas x) = VMASIZE" "dead x \<Longrightarrow> held x = {#}"
  shows "files_ok refs s'"
  using tables_ok_entry [of "refs (mach s)" "procs s" i "refs (mach s')" x] assms unfolding files_ok_def by presburger

text \<open>Steps that do not touch descriptors, regions and counts.\<close>

definition same_tables :: "proc \<Rightarrow> proc \<Rightarrow> bool" where
  "same_tables p q \<longleftrightarrow> p_ofile q = p_ofile p \<and> vmas q = vmas p \<and> (dead q \<longrightarrow> dead p)"

definition quiet :: "('v \<Rightarrow> nat multiset) \<Rightarrow> 'v ks \<Rightarrow> 'v ks \<Rightarrow> bool" where
  "quiet refs s s' \<longleftrightarrow> refs (mach s') = refs (mach s) \<and> list_all2 same_tables (procs s) (procs s')"

lemma same_tables_refl [simp]: "same_tables p p"
  by (simp add: same_tables_def)

lemma quiet_refl [simp]: "quiet refs s s"
  by (simp add: quiet_def list.rel_refl)

lemma quiet_trans: "quiet refs s t \<Longrightarrow> quiet refs t u \<Longrightarrow> quiet refs s u"
  unfolding quiet_def by (auto intro: list_all2_trans [rotated 1] simp: same_tables_def)

lemma quiet_files_ok:
  assumes "quiet refs s s'" "files_ok refs s"
  shows "files_ok refs s'"
proof -
  have same: "list_all2 same_tables (procs s) (procs s')" using assms(1) by (simp add: quiet_def)
  then have "map held (procs s') = map held (procs s)"
    by (intro nth_equalityI) (auto simp: list_all2_conv_all_nth same_tables_def held_def)
  moreover have "length (p_ofile q) = NOFILE \<and> length (vmas q) = VMASIZE \<and> (dead q \<longrightarrow> held q = {#})" if "q \<in> set (procs s')" for q
  proof -
    from that same obtain p where "p \<in> set (procs s)" "same_tables p q"
      by (metis in_set_conv_nth list_all2_conv_all_nth)
    then show ?thesis using assms(2) by (auto simp: files_ok_def same_tables_def held_def)
  qed
  ultimately show ?thesis using assms by (simp add: files_ok_def quiet_def)
qed

lemma quiet_entry:
  assumes "procs s' = (procs s)[i := x]" "refs (mach s') = refs (mach s)" "i < length (procs s) \<Longrightarrow> same_tables (procs s ! i) x"
  shows "quiet refs s s'"
  using assms by (auto simp: quiet_def list_all2_conv_all_nth) (metis same_tables_refl nth_list_update_eq nth_list_update_neq)

lemma quiet_set_proc:
  assumes "\<And>q. p_ofile (f q) = p_ofile q" "\<And>q. vmas (f q) = vmas q" "dead (f (procs s ! i)) \<Longrightarrow> dead (procs s ! i)"
  shows "quiet refs s (set_proc i f s)"
  by (rule quiet_entry [of _ _ i "f (procs s ! i)"]) (use assms in \<open>auto simp: set_proc_def same_tables_def\<close>)

lemma quiet_same: "procs s' = procs s \<Longrightarrow> refs (mach s') = refs (mach s) \<Longrightarrow> quiet refs s s'"
  by (simp add: quiet_def list.rel_refl)

section \<open>The operations on processes\<close>

lemma kops_keep:
  assumes "kops_refs K refs"
  shows "k_filedup K f m = Inr m' \<Longrightarrow> refs m' = add_mset f (refs m)" "k_fileclose K f m = Inr m' \<Longrightarrow> refs m = add_mset f (refs m')"
    "kalloc K m = (o1, m') \<Longrightarrow> refs m' = refs m" "refs (kfree K a m) = refs m" "uvmcreate K m = (o2, m') \<Longrightarrow> refs m' = refs m"
    "mappages K t v n b g m = Inr (r, m') \<Longrightarrow> refs m' = refs m" "uvmunmap K t v n fr m = Inr m' \<Longrightarrow> refs m' = refs m"
    "uvmfree K t n m = Inr m' \<Longrightarrow> refs m' = refs m" "uvmfirst K t code m = Inr m' \<Longrightarrow> refs m' = refs m"
    "uvmalloc K t n1 n2 g m = (w1, m') \<Longrightarrow> refs m' = refs m" "uvmdealloc K t n1 n2 m = (w1, m') \<Longrightarrow> refs m' = refs m"
    "uvmcopy K t u n m = Inr (r, m') \<Longrightarrow> refs m' = refs m" "k_copyout K t v z m = (r, m') \<Longrightarrow> refs m' = refs m"
    "refs (k_idup K ip m) = refs m" "k_iput K ip m = Inr m' \<Longrightarrow> refs m' = refs m" "k_namei K path m = Inr (o3, m') \<Longrightarrow> refs m' = refs m"
    "k_fsinit K dv m = Inr m' \<Longrightarrow> refs m' = refs m"
  using assms unfolding kops_refs_def by (metis snd_conv)+

lemma refs_freeproc:
  assumes K: "kops_refs K refs" and run: "freeproc K i s = Inr s'"
  shows "refs (mach s') = refs (mach s) \<and> (\<exists>x. procs s' = (procs s)[i := x] \<and> p_ofile x = p_ofile (procs s ! i) \<and> vmas x = vmas (procs s ! i) \<and>
    state x = UNUSED)"
proof -
  define m where "m = (case trapframe (procs s ! i) of None \<Rightarrow> mach s | Some (a, _) \<Rightarrow> kfree K a (mach s))"
  have m: "refs m = refs (mach s)" by (auto simp: m_def kops_keep(4) [OF K] split: option.split)
  obtain m' where m': "(case pagetable (procs s ! i) of None \<Rightarrow> Inr m | Some pt \<Rightarrow> proc_freepagetable K pt (sz (procs s ! i)) m) = Inr m'"
    and s': "s' = set_proc i (\<lambda>p. p\<lparr>trapframe := None, pagetable := None, sz := 0, pid := 0, parent := None,
        p_name := (p_name p)[0 := 0], chan := None, killed := False, xstate := 0, state := UNUSED\<rparr>) (s\<lparr>mach := m'\<rparr>)"
    using run by (auto simp: freeproc_def on_mach_def bindE_eq_Inr Let_def m_def split: option.splits)
  have "refs m' = refs m"
    using m' by (auto simp: proc_freepagetable_def bindE_eq_Inr dest!: kops_keep(7,8) [OF K] split: option.splits)
  with m show ?thesis by (simp add: s' set_proc_def) (rule exI, rule conjI [OF refl], simp)
qed

lemma refs_proc_pagetable:
  assumes K: "kops_refs K refs" and run: "proc_pagetable K tf m = Inr (r, m')"
  shows "refs m' = refs m"
  using run
  by (auto simp: proc_pagetable_def bindE_eq_Inr dest!: kops_keep(5-8) [OF K] split: prod.splits option.splits if_splits)

text \<open>A new process: its entry was unused, and its tables are as they were.\<close>

lemma refs_allocproc:
  assumes K: "kops_refs K refs" and run: "allocproc K junk s = Inr (r, s')"
  shows "refs (mach s') = refs (mach s) \<and> (r = None \<longrightarrow> quiet refs s s') \<and>
    (\<forall>i. r = Some i \<longrightarrow> i < length (procs s) \<and> state (procs s ! i) = UNUSED \<and>
       (\<exists>x. procs s' = (procs s)[i := x] \<and> state x = USED \<and> p_ofile x = p_ofile (procs s ! i) \<and> vmas x = vmas (procs s ! i)))"
proof (cases "find_idx (\<lambda>p. state p = UNUSED) (procs s)")
  case None
  with run show ?thesis by (auto simp: allocproc_def)
next
  case (Some j)
  then have j: "j < length (procs s)" "state (procs s ! j) = UNUSED" by (auto simp: find_idx_Some)
  from run Some have np: "nextpid s < INT_MAX" by (auto simp: allocproc_def allocpid_def split: if_splits)
  have free: "refs (mach s') = refs (mach s) \<and> quiet refs s s'"
    if f: "freeproc K j t = Inr s'" and t: "refs (mach t) = refs (mach s)" "procs t = (procs s)[j := x]"
      "p_ofile x = p_ofile (procs s ! j)" "vmas x = vmas (procs s ! j)" for t x
  proof -
    from refs_freeproc [OF K f] t obtain y where "refs (mach s') = refs (mach s)" "procs s' = (procs s)[j := y]"
      "p_ofile y = p_ofile (procs s ! j)" "vmas y = vmas (procs s ! j)" "state y = UNUSED" using j by auto
    then show ?thesis using j by (auto simp: same_tables_def dead_def intro: quiet_entry)
  qed
  obtain ka m where ka: "kalloc K (mach s) = (ka, m)" by fastforce
  note m = kops_keep(3) [OF K ka]
  show ?thesis
  proof (cases ka)
    case None
    from run np Some ka None obtain t where "freeproc K j t = Inr s'" "r = None"
      "t = set_proc j (\<lambda>p. p\<lparr>trapframe := None\<rparr>) ((set_proc j (\<lambda>p. p\<lparr>pid := nextpid s, state := USED\<rparr>) (s\<lparr>nextpid := nextpid s + 1\<rparr>))\<lparr>mach := m\<rparr>)"
      by (auto simp: allocproc_def allocpid_def bindE_eq_Inr Let_def set_proc_def)
    then show ?thesis using j m free [of t "procs t ! j"] by (auto simp: set_proc_def)
  next
    case ka_Some: (Some tf)
    obtain pt m' where pp: "proc_pagetable K tf m = Inr (pt, m')"
      using run np Some ka ka_Some by (auto simp: allocproc_def allocpid_def bindE_eq_Inr Let_def set_proc_def)
    note m' = refs_proc_pagetable [OF K pp]
    define t where "t = set_proc j (\<lambda>p. p\<lparr>pagetable := pt\<rparr>) ((set_proc j (\<lambda>p. p\<lparr>trapframe := Some (tf, junk)\<rparr>)
      ((set_proc j (\<lambda>p. p\<lparr>pid := nextpid s, state := USED\<rparr>) (s\<lparr>nextpid := nextpid s + 1\<rparr>))\<lparr>mach := m\<rparr>))\<lparr>mach := m'\<rparr>)"
    have t: "procs t = (procs s)[j := procs t ! j]" "p_ofile (procs t ! j) = p_ofile (procs s ! j)" "vmas (procs t ! j) = vmas (procs s ! j)"
      "refs (mach t) = refs (mach s)" "state (procs t ! j) = USED"
      using j m m' by (simp_all add: t_def set_proc_def)
    have e: "allocproc K junk s = (if pt = None then bindE (freeproc K j t) (\<lambda>s. Inr (None, s))
          else Inr (Some j, set_proc j (\<lambda>p. p\<lparr>ctx := \<lparr>c_ra = a_forkret K, c_sp = kstack_va p + PGSIZE, c_s = replicate 12 0\<rparr>\<rparr>) t))"
      using np Some ka ka_Some pp by (simp add: allocproc_def allocpid_def Let_def t_def set_proc_def)
    show ?thesis
    proof (cases "pt = None")
      case True
      with run e have "freeproc K j t = Inr s'" "r = None" by (auto simp: bindE_eq_Inr)
      with free [OF this(1) t(4,1-3)] show ?thesis by simp
    next
      case False
      with run e have "r = Some j" and s': "s' = set_proc j (\<lambda>p. p\<lparr>ctx := \<lparr>c_ra = a_forkret K, c_sp = kstack_va p + PGSIZE, c_s = replicate 12 0\<rparr>\<rparr>) t"
        by auto
      have "procs s' = (procs s)[j := procs s' ! j]" using j by (simp add: s' set_proc_def t_def)
      moreover have "p_ofile (procs s' ! j) = p_ofile (procs s ! j)" "vmas (procs s' ! j) = vmas (procs s ! j)"
        "state (procs s' ! j) = USED" "refs (mach s') = refs (mach s)"
        using j m m' by (simp_all add: s' set_proc_def t_def)
      ultimately show ?thesis using j \<open>r = Some j\<close> by blast
    qed
  qed
qed

text \<open>The loops of \<open>fork\<close> and \<open>exit\<close>.\<close>

lemma refs_fork_files:
  assumes K: "kops_refs K refs"
  shows "fork_files K fs old m = Inr (r, m') \<Longrightarrow> length fs = length old \<Longrightarrow> bag of_slot old = {#} \<Longrightarrow>
    length r = length fs \<and> bag of_slot r = bag of_slot fs \<and> refs m' = bag of_slot fs + refs m"
proof (induction fs arbitrary: old m r)
  case (Cons f fs)
  then obtain x old' where old: "old = x # old'" by (cases old) auto
  show ?case using Cons unfolding old by (cases f) (auto simp: bindE_eq_Inr dest!: kops_keep(1) [OF K] Cons.IH)
qed simp

lemma refs_fork_vmas:
  assumes K: "kops_refs K refs"
  shows "fork_vmas K vs old m = Inr (r, m') \<Longrightarrow> length vs = length old \<Longrightarrow> bag of_region old = {#} \<Longrightarrow>
    length r = length vs \<and> bag of_region r = bag of_region vs \<and> refs m' = bag of_region vs + refs m"
proof (induction vs arbitrary: old m r)
  case (Cons v vs)
  then obtain x old' where old: "old = x # old'" by (cases old) auto
  show ?case using Cons unfolding old
    by (cases "v_used v") (auto simp: bindE_eq_Inr of_region_def dest!: kops_keep(1) [OF K] Cons.IH)
qed simp

lemma refs_exit_files:
  assumes K: "kops_refs K refs"
  shows "exit_files K fs m = Inr (r, m') \<Longrightarrow> length r = length fs \<and> bag of_slot r = {#} \<and> refs m = bag of_slot fs + refs m'"
proof (induction fs arbitrary: m r)
  case (Cons f fs)
  then show ?case by (cases f) (auto simp: bindE_eq_Inr dest!: kops_keep(2) [OF K] Cons.IH)
qed simp

lemma refs_exit_vmas:
  assumes K: "kops_refs K refs"
  shows "exit_vmas K pt vs m = Inr (r, m') \<Longrightarrow> length r = length vs \<and> bag of_region r = {#} \<and> refs m = bag of_region vs + refs m'"
proof (induction vs arbitrary: m r)
  case (Cons v vs)
  then show ?case
    by (cases "v_used v") (auto simp: bindE_eq_Inr of_region_def dest!: kops_keep(2,7) [OF K] Cons.IH)
qed simp

lemma files_ok_fork_copy:
  assumes K: "kops_refs K refs" and ok: "files_ok refs s" and p: "p < length (procs s)" "state (procs s ! p) \<noteq> UNUSED"
    and run: "fork_copy K junk p s = Inr (r, s')"
  shows "files_ok refs s'"
proof -
  from run obtain q s1 where al: "allocproc K junk s = Inr (q, s1)" by (auto simp: fork_copy_def bindE_eq_Inr)
  note a = refs_allocproc [OF K al]
  show ?thesis
  proof (cases q)
    case None
    with run al a ok show ?thesis by (auto simp: fork_copy_def intro: quiet_files_ok)
  next
    case (Some i)
    from a Some obtain x where i: "i < length (procs s)" "state (procs s ! i) = UNUSED" "procs s1 = (procs s)[i := x]"
      "p_ofile x = p_ofile (procs s ! i)" "vmas x = vmas (procs s ! i)" "refs (mach s1) = refs (mach s)" by blast
    have ip: "i \<noteq> p" using i(2) p(2) by auto
    have pq: "procs s1 ! p = procs s ! p" "procs s1 ! i = x" using i(1,3) ip by simp_all
    obtain e m where uc: "uvmcopy K (the (pagetable (procs s ! p))) (the (pagetable x)) (sz (procs s ! p)) (mach s1) = Inr (e, m)"
      using run al Some by (auto simp: fork_copy_def bindE_eq_Inr pq)
    have m: "refs m = refs (mach s)" using kops_keep(12) [OF K uc] i(6) by simp
    have empty: "held (procs s ! i) = {#}" using ok i(1,2) by (simp add: files_ok_def dead_def)
    have len: "length (p_ofile (procs s ! j)) = NOFILE \<and> length (vmas (procs s ! j)) = VMASIZE" if "j < length (procs s)" for j
      using ok that by (simp add: files_ok_def)
    show ?thesis
    proof (cases "e < 0")
      case True
      with run al Some uc have "freeproc K i (s1\<lparr>mach := m\<rparr>) = Inr s'" by (auto simp: fork_copy_def pq bindE_eq_Inr Let_def)
      from refs_freeproc [OF K this] obtain y where "procs s' = (procs s)[i := y]" "p_ofile y = p_ofile x" "vmas y = vmas x" "state y = UNUSED"
        "refs (mach s') = refs (mach s)" using m i(3) pq by auto
      then have "quiet refs s s'" using i by (intro quiet_entry [of _ _ i y]) (auto simp: same_tables_def dead_def)
      then show ?thesis using ok by (rule quiet_files_ok)
    next
      case False
      from run al Some uc False obtain fs m1 vs m2 where
        ff: "fork_files K (p_ofile (procs s ! p)) (p_ofile (procs s ! i)) m = Inr (fs, m1)"
        and fv: "fork_vmas K (vmas (procs s ! p)) (vmas (procs s ! i)) (k_idup K (the (p_cwd (procs s ! p))) m1) = Inr (vs, m2)"
        and s': "mach s' = m2" "procs s' = (procs s)[i := procs s' ! i]" "p_ofile (procs s' ! i) = fs" "vmas (procs s' ! i) = vs"
          "state (procs s' ! i) = state x"
        using ip i(1) p(1) by (auto simp: fork_copy_def bindE_eq_Inr pq Let_def set_proc_def set_tf_def i split: prod.splits)
      have f: "length fs = NOFILE" "bag of_slot fs = bag of_slot (p_ofile (procs s ! p))" "refs m1 = bag of_slot (p_ofile (procs s ! p)) + refs m"
        using refs_fork_files [OF K ff] len [OF p(1)] len [OF i(1)] empty by (auto simp: held_def)
      have v: "length vs = VMASIZE" "bag of_region vs = bag of_region (vmas (procs s ! p))" "refs m2 = bag of_region (vmas (procs s ! p)) + refs m1"
        using refs_fork_vmas [OF K fv] len [OF p(1)] len [OF i(1)] empty by (auto simp: held_def kops_keep(14) [OF K])
      have "state x = USED" using a Some i(1) pq by auto
      with f v s' m empty show ?thesis
        by (intro files_ok_entry [OF ok s'(2) i(1)]) (auto simp: held_def dead_def)
    qed
  qed
qed

text \<open>Waking, reparenting and giving up the cpu are quiet.\<close>

lemma quiet_wakeup: "quiet refs s (wakeup me ch s)"
  by (auto simp: quiet_def wakeup_def list_all2_conv_all_nth same_tables_def wake_one_def dead_def)

lemma quiet_reparent: "quiet refs s (reparent p s)"
proof -
  have visit: "quiet refs s (reparent_visit p i s)" for i s
  proof -
    have "quiet refs s (set_proc i (\<lambda>q. q\<lparr>parent := initproc s\<rparr>) s)" by (rule quiet_set_proc) (simp_all add: dead_def)
    from quiet_trans [OF this quiet_wakeup] show ?thesis by (simp add: reparent_visit_def)
  qed
  have "quiet refs s (fold (reparent_visit p) is s)" for "is" s
    by (induction "is" arbitrary: s) (auto intro: quiet_trans [OF visit])
  then show ?thesis by (simp add: reparent_def)
qed

lemma quiet_set_cpu: "quiet refs s (set_cpu c x s)"
  by (rule quiet_same) (simp_all add: set_cpu_def)

lemma quiet_sched: "sched E c s = Inr s' \<Longrightarrow> quiet refs s s'"
  by (auto simp: sched_def quiet_set_cpu split: option.splits if_splits)

lemma quiet_sleep:
  assumes "sleep E c p ch s = Inr s'"
  shows "quiet refs s s'"
proof -
  have "quiet refs s (set_proc p (\<lambda>q. q\<lparr>chan := Some ch, state := SLEEPING\<rparr>) s)" by (rule quiet_set_proc) (simp_all add: dead_def)
  then show ?thesis using assms quiet_trans quiet_sched unfolding sleep_def by blast
qed

lemma quiet_wait:
  assumes K: "kops_refs K refs"
  shows "wait_scan K p addr is hk s = Inr (r, s') \<Longrightarrow> quiet refs s s'"
proof (induction "is" arbitrary: hk)
  case (Cons i "is")
  show ?case
  proof (cases "parent (procs s ! i) = Some p \<and> state (procs s ! i) = ZOMBIE")
    case False
    then show ?thesis using Cons by (auto split: if_splits)
  next
    case True
    obtain e m where em: "(if addr \<noteq> 0 then k_copyout K (the (pagetable (procs s ! p))) addr (xstate (procs s ! i)) (mach s) else (0, mach s)) = (e, m)"
      by fastforce
    then have m: "refs m = refs (mach s)" by (auto dest!: kops_keep(13) [OF K] split: if_splits)
    show ?thesis
    proof (cases "e < 0")
      case True': True
      then show ?thesis using Cons.prems True em m by (auto intro: quiet_same)
    next
      case False
      then have "freeproc K i (s\<lparr>mach := m\<rparr>) = Inr s'" using Cons.prems True em by (auto simp: bindE_eq_Inr)
      from refs_freeproc [OF K this] obtain x where "procs s' = (procs s)[i := x]" "p_ofile x = p_ofile (procs s ! i)"
        "vmas x = vmas (procs s ! i)" "refs (mach s') = refs (mach s)" using m by auto
      then show ?thesis using True by (intro quiet_entry [of _ _ i x]) (auto simp: same_tables_def dead_def)
    qed
  qed
qed simp

lemma quiet_wait_round:
  assumes K: "kops_refs K refs" and run: "wait_round K E c p addr s = Inr (r, s')"
  shows "quiet refs s s'"
proof -
  from run obtain x s1 where scan: "wait_scan K p addr [0..<length (procs s)] False s = Inr (x, s1)" by (auto simp: wait_round_def bindE_eq_Inr)
  have "quiet refs s1 s'"
    using run scan by (auto simp: wait_round_def bindE_eq_Inr intro: quiet_sleep split: sum.splits if_splits)
  with quiet_wait [OF K scan] show ?thesis by (rule quiet_trans)
qed

lemma files_ok_exit_release:
  assumes K: "kops_refs K refs" and ok: "files_ok refs s" and p: "p < length (procs s)" and run: "exit_release K p s = Inr s'"
  shows "files_ok refs s'"
proof -
  from run obtain fs m1 vs m2 m3 where ef: "exit_files K (p_ofile (procs s ! p)) (mach s) = Inr (fs, m1)"
    and ev: "exit_vmas K (the (pagetable (procs s ! p))) (vmas (procs s ! p)) m1 = Inr (vs, m2)"
    and ip: "k_iput K (the (p_cwd (procs s ! p))) m2 = Inr m3"
    and s1: "s' = set_proc p (\<lambda>q. q\<lparr>p_ofile := fs, vmas := vs, p_cwd := None\<rparr>) (s\<lparr>mach := m3\<rparr>)"
    using p by (auto simp: exit_release_def bindE_eq_Inr on_mach_def Let_def set_proc_def split: if_splits)
  have len: "length (p_ofile (procs s ! p)) = NOFILE \<and> length (vmas (procs s ! p)) = VMASIZE" using ok p by (simp add: files_ok_def)
  note f = refs_exit_files [OF K ef] and v = refs_exit_vmas [OF K ev] and i = kops_keep(15) [OF K ip]
  show ?thesis
    by (rule files_ok_entry [OF ok, of _ p "(procs s ! p)\<lparr>p_ofile := fs, vmas := vs, p_cwd := None\<rparr>"])
      (use p f v i len in \<open>auto simp: s1 set_proc_def held_def\<close>)
qed

lemma released_held: "released q \<Longrightarrow> held q = {#}"
  by (simp add: released_def held_def bag_empty)

lemma files_ok_exit_zombie:
  assumes ok: "files_ok refs s" and p: "p < length (procs s)" and none: "held (procs s ! p) = {#}" and zom: "exit_zombie E c p status s = Inr s'"
  shows "files_ok refs s'"
proof -
  define s2 where "s2 = wakeup (Some p) (map_option Chan_proc (parent (procs (reparent p s) ! p))) (reparent p s)"
  have q: "quiet refs s s2" unfolding s2_def by (rule quiet_trans [OF quiet_reparent quiet_wakeup])
  from quiet_files_ok [OF q ok] have ok2: "files_ok refs s2" .
  have p2: "p < length (procs s2)" "held (procs s2 ! p) = {#}"
    using q none p by (auto simp: quiet_def list_all2_conv_all_nth same_tables_def held_def)
  define s3 where "s3 = set_proc p (\<lambda>q. q\<lparr>xstate := status, state := ZOMBIE\<rparr>) s2"
  have "files_ok refs s3"
    by (rule files_ok_entry [OF ok2, of _ p "(procs s2 ! p)\<lparr>xstate := status, state := ZOMBIE\<rparr>"])
      (use p2 ok2 in \<open>auto simp: s3_def set_proc_def held_def files_ok_def\<close>)
  moreover have "sched E c s3 = Inr s'" using zom by (simp add: exit_zombie_def s3_def s2_def Let_def)
  ultimately show ?thesis using quiet_files_ok quiet_sched by blast
qed

lemma quiet_sz: "refs m = refs (mach s) \<Longrightarrow> quiet refs s (set_proc p (\<lambda>q. q\<lparr>sz := z\<rparr>) (s\<lparr>mach := m\<rparr>))"
  by (rule quiet_entry [where i = p and x = "(procs s ! p)\<lparr>sz := z\<rparr>"]) (simp_all add: set_proc_def same_tables_def dead_def)

lemma refs_growproc:
  assumes K: "kops_refs K refs"
  shows "quiet refs s (snd (growproc K p n s))"
proof -
  let ?pt = "the (pagetable (procs s ! p))" and ?z = "sz (procs s ! p)"
  obtain z m where up: "uvmalloc K ?pt ?z (?z + scast n) PTE_W (mach s) = (z, m)" by fastforce
  obtain y l where down: "uvmdealloc K ?pt ?z (?z + scast n) (mach s) = (y, l)" by fastforce
  from kops_keep(10) [OF K up] kops_keep(11) [OF K down] show ?thesis
    by (simp add: growproc_def Let_def up down quiet_sz quiet_same)
qed

lemma files_ok_kstep:
  assumes K: "kops_refs K refs" and ok: "files_ok refs s" "sane (abs_ks s)" and step: "kstep K s s'"
    and other: "\<And>m. s' = s\<lparr>mach := m\<rparr> \<Longrightarrow> refs m = refs (mach s)"
  shows "files_ok refs s'"
proof -
  have awake: "state (procs s ! p) = RUNNING \<and> p < length (procs s)" if "runs c p s" for c p
  proof -
    have "cpus_ok (abs_ks s)" using ok(2) by (simp add: sane_def)
    then show ?thesis using that unfolding cpus_ok_def runs_def by (metis abs_nth(1,2) abs_simps(5,6) view_sel(1))
  qed
  have q: "files_ok refs t" if "quiet refs s t" for t using quiet_files_ok that ok(1) by blast
  from step show ?thesis
  proof cases
    case (schedule c p)
    have "quiet refs s (set_proc p (\<lambda>q. q\<lparr>state := RUNNING\<rparr>) s)" by (rule quiet_set_proc) (simp_all add: dead_def)
    from quiet_trans [OF this quiet_set_cpu] show ?thesis by (auto simp: schedule scheduler_visit_def intro: q)
  next
    case (resume c p)
    show ?thesis unfolding resume sleep_tail_def by (rule q [OF quiet_set_proc]) (simp_all add: dead_def)
  next
    case (yield c p E)
    have "quiet refs s (set_proc p (\<lambda>q. q\<lparr>state := RUNNABLE\<rparr>) s)" by (rule quiet_set_proc) (simp_all add: dead_def)
    with yield show ?thesis unfolding Proc.yield_def by (meson q quiet_sched quiet_trans)
  next
    case (sleep c p ch E)
    then show ?thesis by (meson q quiet_sleep)
  next
    case (wakeup c ch)
    then show ?thesis by (simp add: q quiet_wakeup)
  next
    case (kill c p n)
    have "quiet refs s (snd (Proc.kill n s))"
      unfolding kill_def by (auto split: option.split if_splits intro!: quiet_set_proc simp: dead_def)
    then show ?thesis by (simp add: kill q)
  next
    case (setkilled c p)
    show ?thesis unfolding setkilled Proc.setkilled_def by (rule q [OF quiet_set_proc]) (simp_all add: dead_def)
  next
    case (growproc c p n)
    then show ?thesis by (simp add: q refs_growproc [OF K])
  next
    case (fork_copy c p junk r)
    then show ?thesis using files_ok_fork_copy [OF K ok(1)] awake by fastforce
  next
    case (fork_parent c p np)
    show ?thesis unfolding fork_parent Proc.fork_parent_def by (rule q [OF quiet_set_proc]) (simp_all add: dead_def)
  next
    case (fork_ready c p np)
    show ?thesis unfolding fork_ready Proc.fork_ready_def by (rule q [OF quiet_set_proc]) (simp_all add: dead_def)
  next
    case (exit_release c p)
    then show ?thesis using files_ok_exit_release [OF K ok(1)] awake by blast
  next
    case (exit_zombie c p E status)
    then show ?thesis using files_ok_exit_zombie [OF ok(1) _ released_held] awake by blast
  next
    case (wait c p E addr r)
    then show ?thesis by (meson q quiet_wait_round [OF K])
  next
    case (forkret c p)
    then have "quiet refs s s'"
      by (auto simp: Proc.forkret_def on_mach_def bindE_eq_Inr dest!: kops_keep(17) [OF K] split: if_splits intro!: quiet_same)
    then show ?thesis by (rule q)
  next
    case (outside m)
    then show ?thesis using other by (intro q quiet_same) simp_all
  qed
qed

section \<open>The calls on descriptors\<close>

text \<open>A descriptor of \<open>p\<close> changes to \<open>y\<close>.\<close>

lemma set_fd_simps [simp]:
  "(set_fd p fd y s)\<lparr>mach := m\<rparr> = set_fd p fd y (s\<lparr>mach := m\<rparr>)" "mach (set_fd p fd y s) = mach s" "length (procs (set_fd p fd y s)) = length (procs s)"
  "procs (set_fd p fd y (s\<lparr>mach := m\<rparr>)) = procs (set_fd p fd y s)" "abs_ks (set_fd p fd y s) = abs_ks s"
  by (simp_all add: set_fd_def set_proc_def abs_quiet [unfolded set_proc_def] view_of_def)

lemma set_fd_proc [simp]:
  "p < length (procs s) \<Longrightarrow> procs (set_fd p fd y s) ! p = (procs s ! p)\<lparr>p_ofile := (p_ofile (procs s ! p))[fd := y]\<rparr>"
  by (simp add: set_fd_def set_proc_def)

lemma swap_sums: "a + x = b + y \<Longrightarrow> h + x = k + y \<Longrightarrow> a + k = b + (h :: 'a multiset)"
proof -
  assume "a + x = b + y" "h + x = k + y"
  then have "(a + x) + (k + y) = (b + y) + (h + x)" by simp
  then have "(a + k) + (x + y) = (b + h) + (x + y)" by (simp only: ac_simps)
  then show "a + k = b + h" by simp
qed

lemma tables_ok_set_fd:
  assumes "tables_ok N (procs s)" "p < length (procs s)" "\<not> dead (procs s ! p)" "fd < NOFILE"
    and "N' + of_slot (p_ofile (procs s ! p) ! fd) = N + of_slot y"
  shows "tables_ok N' (procs (set_fd p fd y s))"
proof -
  let ?q = "procs s ! p" let ?x = "?q\<lparr>p_ofile := (p_ofile ?q)[fd := y]\<rparr>"
  have len: "length (p_ofile ?q) = NOFILE" "length (vmas ?q) = VMASIZE" using assms(1,2) by simp_all
  have "bag of_slot ((p_ofile ?q)[fd := y]) + of_slot (p_ofile ?q ! fd) = bag of_slot (p_ofile ?q) + of_slot y"
    using assms(4) len(1) by (intro bag_update) simp
  then have "held ?x + of_slot (p_ofile ?q ! fd) = held ?q + of_slot y" by (simp add: held_def)
  from swap_sums [OF assms(5) this] have r: "N' + held ?q = N + held ?x" .
  have d: "\<not> dead ?x" using assms(3) by (simp add: dead_def)
  have e: "procs (set_fd p fd y s) = (procs s)[p := ?x]" by (simp add: set_fd_def set_proc_def)
  show ?thesis unfolding e by (rule tables_ok_entry [OF assms(1,2) r]) (use len d in simp_all)
qed

lemma fdalloc_cases:
  assumes "hw3_fdalloc p f s = (fd, s')" "length (p_ofile (procs s ! p)) = NOFILE"
  obtains (full) "fd < 0" "s' = s"
    | (free) n where "fd = int n" "n < NOFILE" "p_ofile (procs s ! p) ! n = None" "s' = set_fd p n (Some f) s"
proof (cases "find_idx (\<lambda>x. x = None) (take NOFILE (p_ofile (procs s ! p)))")
  case None
  with assms(1) show thesis by (intro full) (simp_all add: hw3_fdalloc_def)
next
  case (Some n)
  with assms(2) have "n < NOFILE" "p_ofile (procs s ! p) ! n = None" by (simp_all add: find_idx_Some)
  then show thesis using assms(1) Some by (intro free) (auto simp: hw3_fdalloc_def)
qed

lemma argfd_Some: "hw3_argfd p fd s = Some f \<Longrightarrow> nat fd < NOFILE \<and> p_ofile (procs s ! p) ! nat fd = Some f"
  by (auto simp: hw3_argfd_def split: if_splits)

text \<open>What a call finds, and what it leaves: the counts are right, and the call is invisible to the abstract machine of processes.\<close>

definition caller :: "('v \<Rightarrow> nat multiset) \<Rightarrow> nat \<Rightarrow> 'v ks \<Rightarrow> bool" where
  "caller refs p s \<longleftrightarrow> files_ok refs s \<and> p < length (procs s) \<and> \<not> dead (procs s ! p)"

definition counts :: "('v \<Rightarrow> nat multiset) \<Rightarrow> 'v ks \<Rightarrow> 'v ks \<Rightarrow> bool" where
  "counts refs s s' \<longleftrightarrow> files_ok refs s' \<and> abs_ks s' = abs_ks s"

lemma caller_tables:
  assumes "caller refs p s"
  shows "tables_ok (refs (mach s)) (procs s)" "p < length (procs s)" "\<not> dead (procs s ! p)" "length (p_ofile (procs s ! p)) = NOFILE"
    "length (vmas (procs s ! p)) = VMASIZE"
  using assms by (simp_all add: caller_def files_ok_def)

lemma counts_mach:
  assumes "caller refs p s" "refs m = refs (mach s)"
  shows "counts refs s (s\<lparr>mach := m\<rparr>)"
  using caller_tables(1) [OF assms(1)] assms(2) by (simp add: counts_def files_ok_def)

lemma counts_refl: "caller refs p s \<Longrightarrow> counts refs s s"
  by (simp add: counts_def caller_def)

lemma counts_set_fd:
  assumes c: "caller refs p s" and fd: "fd < NOFILE" and m: "refs m + of_slot (p_ofile (procs s ! p) ! fd) = refs (mach s) + of_slot y"
  shows "counts refs s (set_fd p fd y (s\<lparr>mach := m\<rparr>))"
  using tables_ok_set_fd [OF caller_tables(1-3) [OF c] fd m] by (simp add: counts_def files_ok_def)

lemma counts_dup:
  assumes K: "kops_refs K refs" and c: "caller refs p s" and run: "hw3_sys_dup K p n s = Inr (r, s')"
  shows "counts refs s s'"
proof (cases "hw3_argfd p n s")
  case None
  with run counts_refl [OF c] show ?thesis by (simp add: hw3_sys_dup_def)
next
  case (Some f)
  obtain fd t where al: "hw3_fdalloc p f s = (fd, t)" by fastforce
  from al caller_tables(4) [OF c] show ?thesis
  proof (cases rule: fdalloc_cases)
    case full
    with run Some al counts_refl [OF c] show ?thesis by (simp add: hw3_sys_dup_def)
  next
    case (free k)
    with run Some al obtain m where m: "k_filedup K f (mach s) = Inr m" and s': "s' = set_fd p k (Some f) (s\<lparr>mach := m\<rparr>)"
      by (auto simp: hw3_sys_dup_def on_mach_def bindE_eq_Inr)
    show ?thesis unfolding s' by (rule counts_set_fd [OF c free(2)]) (simp add: free(3) kops_keep(1) [OF K m])
  qed
qed

lemma counts_close:
  assumes K: "kops_refs K refs" and c: "caller refs p s" and run: "hw3_sys_close K p fd s = Inr (r, s')"
  shows "counts refs s s'"
proof (cases "hw3_argfd p fd s")
  case None
  with run counts_refl [OF c] show ?thesis by (simp add: hw3_sys_close_def)
next
  case (Some f)
  with run obtain m where m: "k_fileclose K f (mach s) = Inr m" and s': "s' = set_fd p (nat fd) None (s\<lparr>mach := m\<rparr>)"
    by (auto simp: hw3_sys_close_def on_mach_def bindE_eq_Inr)
  note a = argfd_Some [OF Some]
  then show ?thesis unfolding s' by (intro counts_set_fd [OF c]) (simp_all add: kops_keep(2) [OF K m])
qed

lemma counts_open:
  assumes K: "kops_refs K refs" and D: "fops_refs D refs" and c: "caller refs p s" and run: "open_descriptor K D p s = Inr (r, s')"
  shows "counts refs s s'"
proof -
  obtain ff m where fa: "f_alloc D (mach s) = (ff, m)" by fastforce
  then have m: "refs m = of_slot ff + refs (mach s)" using D by (auto simp: fops_refs_def)
  show ?thesis
  proof (cases ff)
    case None
    with run fa m counts_mach [OF c, of m] show ?thesis by (simp add: open_descriptor_def)
  next
    case (Some f)
    obtain fd t where al: "hw3_fdalloc p f (s\<lparr>mach := m\<rparr>) = (fd, t)" by fastforce
    have "length (p_ofile (procs (s\<lparr>mach := m\<rparr>) ! p)) = NOFILE" using caller_tables(4) [OF c] by simp
    with al show ?thesis
    proof (cases rule: fdalloc_cases)
      case full
      with run fa Some al obtain l where l: "k_fileclose K f m = Inr l" "s' = s\<lparr>mach := l\<rparr>"
        by (auto simp: open_descriptor_def on_mach_def bindE_eq_Inr)
      then show ?thesis using counts_mach [OF c, of l] m kops_keep(2) [OF K l(1)] Some by simp
    next
      case (free k)
      with run fa Some al have s': "s' = set_fd p k (Some f) (s\<lparr>mach := m\<rparr>)" by (simp add: open_descriptor_def)
      show ?thesis unfolding s' by (rule counts_set_fd [OF c free(2)]) (use free(3) m Some in simp)
    qed
  qed
qed

lemma close_both_refs:
  assumes K: "kops_refs K refs" and run: "close_both K a b s = Inr (r, s')"
  shows "\<exists>m. s' = s\<lparr>mach := m\<rparr> \<and> refs (mach s) = {#a, b#} + refs m"
  using run by (auto simp: close_both_def on_mach_def bindE_eq_Inr dest!: kops_keep(2) [OF K])

lemma counts_pipe:
  assumes K: "kops_refs K refs" and D: "fops_refs D refs" and c: "caller refs p s" and run: "hw3_sys_pipe K D p arr s = Inr (r, s')"
  shows "counts refs s s'"
proof -
  obtain ff m where fp: "f_pipe D (mach s) = (ff, m)" by fastforce
  then have m: "refs m = (case ff of None \<Rightarrow> {#} | Some (a, b) \<Rightarrow> {#a, b#}) + refs (mach s)" using D by (auto simp: fops_refs_def)
  note t = caller_tables [OF c]
  show ?thesis
  proof (cases ff)
    case None
    with run fp m counts_mach [OF c, of m] show ?thesis by (simp add: hw3_sys_pipe_def)
  next
    case (Some ab)
    obtain a b where ab: "ab = (a, b)" by fastforce
    let ?s = "s\<lparr>mach := m\<rparr>"
    have m: "refs m = {#a, b#} + refs (mach s)" using m Some ab by simp
    have gone: "counts refs s s'" if "close_both K a b u = Inr (r, s')" "tables_ok (refs (mach s)) (procs u)" "refs (mach u) = refs m"
      "abs_ks u = abs_ks s" for u
    proof -
      from close_both_refs [OF K that(1)] obtain l where "s' = u\<lparr>mach := l\<rparr>" "refs (mach u) = {#a, b#} + refs l" by blast
      with that m show ?thesis by (simp add: counts_def files_ok_def)
    qed
    obtain fd0 u where al: "hw3_fdalloc p a ?s = (fd0, u)" by fastforce
    have "length (p_ofile (procs ?s ! p)) = NOFILE" using t(4) by simp
    with al show ?thesis
    proof (cases rule: fdalloc_cases)
      case full
      with run fp Some ab al have "close_both K a b ?s = Inr (r, s')" by (simp add: hw3_sys_pipe_def)
      from gone [OF this] t(1) show ?thesis by simp
    next
      case (free i)
      let ?q = "procs s ! p"
      have u: "procs u = procs (set_fd p i (Some a) s)" "mach u = m" "abs_ks u = abs_ks s" by (simp_all add: free(4))
      have ti: "tables_ok (refs (mach s) + {#a#}) (procs u)" unfolding u
        by (rule tables_ok_set_fd [OF t(1-3) free(2)]) (use free(3) in simp)
      have pu: "p < length (procs u)" "\<not> dead (procs u ! p)" "p_ofile (procs u ! p) = (p_ofile ?q)[i := Some a]"
        "length (p_ofile (procs u ! p)) = NOFILE"
        using t(2-4) by (simp_all add: u dead_def)
      have undo: "tables_ok (refs (mach s)) (procs (set_fd p i None u))"
        by (rule tables_ok_set_fd [OF ti pu(1,2) free(2)]) (use free(2) t(4) in \<open>simp add: pu(3)\<close>)
      obtain fd1 w where bl: "hw3_fdalloc p b u = (fd1, w)" by fastforce
      from bl pu(4) show ?thesis
      proof (cases rule: fdalloc_cases)
        case full
        with run fp Some ab al bl free(1) have "close_both K a b (set_fd p i None u) = Inr (r, s')" by (simp add: hw3_sys_pipe_def)
        from gone [OF this undo] show ?thesis by (simp add: u)
      next
        case two: (free j)
        have ij: "j \<noteq> i" using two(3) free(2) t(4) by (auto simp: pu(3))
        obtain e l where e: "k_copyout K (the (pagetable (procs w ! p))) arr fd0 m = (e, l)" by fastforce
        obtain e' l' where e': "(if e < 0 then (e, l) else k_copyout K (the (pagetable (procs w ! p))) (arr + 4) fd1 l) = (e', l')" by fastforce
        have l': "refs l' = refs m" using e e' by (auto dest!: kops_keep(13) [OF K] split: if_splits)
        have w: "mach w = m" "abs_ks w = abs_ks s" "procs w = procs (set_fd p j (Some b) u)" by (simp_all add: two(4) u)
        have tj: "tables_ok (refs m) (procs w)" unfolding w
          by (rule tables_ok_set_fd [OF ti pu(1,2) two(2)]) (simp add: m two(3))
        have s': "(if e' < 0 then close_both K a b (set_fd p j None (set_fd p i None (w\<lparr>mach := l'\<rparr>))) else Inr (0, w\<lparr>mach := l'\<rparr>)) = Inr (r, s')"
          using run fp Some ab al bl free(1) two(1) e e' [unfolded two(1)] w(1) by (simp add: hw3_sys_pipe_def Let_def split: if_splits)
        show ?thesis
        proof (cases "e' < 0")
          case False
          with s' tj l' w show ?thesis by (auto simp: counts_def files_ok_def)
        next
          case True
          define v where "v = set_fd p i None (w\<lparr>mach := l'\<rparr>)"
          have pw: "p < length (procs w)" "\<not> dead (procs w ! p)" "p_ofile (procs w ! p) = (p_ofile ?q)[i := Some a, j := Some b]"
            using pu by (simp_all add: w dead_def)
          have v: "procs v = procs (set_fd p i None w)" by (simp add: v_def)
          have ti': "tables_ok (refs (mach s) + {#b#}) (procs v)" unfolding v
            by (rule tables_ok_set_fd [OF tj pw(1,2) free(2)]) (use free(2) t(4) ij m in \<open>simp add: pw(3)\<close>)
          have pv: "p < length (procs v)" "\<not> dead (procs v ! p)" "p_ofile (procs v ! p) = (p_ofile ?q)[i := None, j := Some b]"
            using pw ij by (simp_all add: v dead_def list_update_swap)
          have "tables_ok (refs (mach s)) (procs (set_fd p j None v))"
            by (rule tables_ok_set_fd [OF ti' pv(1,2) two(2)]) (use two(2) t(4) in \<open>simp add: pv(3)\<close>)
          moreover have "close_both K a b (set_fd p j None v) = Inr (r, s')" using s' True by (simp add: v_def)
          ultimately show ?thesis by (intro gone [of "set_fd p j None v"]) (simp_all add: v_def w l')
        qed
      qed
    qed
  qed
qed

text \<open>Reading, writing and \<open>fstat\<close> leave the tables alone.\<close>

lemma counts_on_file:
  assumes c: "caller refs p s" and run: "on_file g s = Inr (r, s')" and g: "\<And>r m. g (mach s) = Inr (r, m) \<Longrightarrow> refs m = refs (mach s)"
  shows "counts refs s s'"
  using run g counts_mach [OF c] by (auto simp: on_file_def bindE_eq_Inr)

lemma counts_read_write:
  assumes "fops_refs D refs" and "caller refs p s"
  shows "hw3_sys_read D p fd a n s = Inr (r, s') \<Longrightarrow> counts refs s s'"
    "hw3_sys_write D p fd a n s = Inr (r, s') \<Longrightarrow> counts refs s s'"
    "hw3_sys_fstat D p fd a s = Inr (r, s') \<Longrightarrow> counts refs s s'"
  using assms(1) counts_refl [OF assms(2)]
  by (auto simp: hw3_sys_read_def hw3_sys_write_def hw3_sys_fstat_def fops_refs_def split: option.splits
      elim!: counts_on_file [OF assms(2)])

section \<open>The calls on mapped regions\<close>

lemma tables_ok_region:
  assumes "tables_ok N (procs s)" "p < length (procs s)" "\<not> dead (procs s ! p)" "i < VMASIZE"
    and "N' + of_region (vmas (procs s ! p) ! i) = N + of_region v"
  shows "tables_ok N' (procs (set_proc p (\<lambda>q. q\<lparr>vmas := (vmas q)[i := v]\<rparr>) s))"
proof -
  let ?q = "procs s ! p" let ?x = "?q\<lparr>vmas := (vmas ?q)[i := v]\<rparr>"
  have len: "length (p_ofile ?q) = NOFILE" "length (vmas ?q) = VMASIZE" using assms(1,2) by simp_all
  have "bag of_region ((vmas ?q)[i := v]) + of_region (vmas ?q ! i) = bag of_region (vmas ?q) + of_region v"
    using assms(4) len(2) by (intro bag_update) simp
  then have "held ?x + of_region (vmas ?q ! i) = held ?q + of_region v" by (simp add: held_def add.assoc)
  from swap_sums [OF assms(5) this] have r: "N' + held ?q = N + held ?x" .
  have d: "\<not> dead ?x" using assms(3) by (simp add: dead_def)
  have e: "procs (set_proc p (\<lambda>q. q\<lparr>vmas := (vmas q)[i := v]\<rparr>) s) = (procs s)[p := ?x]" by (simp add: set_proc_def)
  show ?thesis unfolding e by (rule tables_ok_entry [OF assms(1,2) r]) (use len d in simp_all)
qed

lemma counts_region:
  assumes c: "caller refs p s" and i: "i < VMASIZE" and m: "refs m + of_region (vmas (procs s ! p) ! i) = refs (mach s) + of_region v"
  shows "counts refs s (set_proc p (\<lambda>q. q\<lparr>vmas := (vmas q)[i := v]\<rparr>) (s\<lparr>mach := m\<rparr>))"
proof -
  have "tables_ok (refs m) (procs (set_proc p (\<lambda>q. q\<lparr>vmas := (vmas q)[i := v]\<rparr>) s))"
    by (rule tables_ok_region [OF caller_tables(1-3) [OF c] i m])
  moreover have "abs_ks (set_proc p (\<lambda>q. q\<lparr>vmas := (vmas q)[i := v]\<rparr>) (s\<lparr>mach := m\<rparr>)) = abs_ks s"
    by (subst abs_quiet) (simp_all add: view_of_def)
  ultimately show ?thesis by (simp add: counts_def files_ok_def set_proc_def)
qed

lemma mmap_scan_free: "mmap_scan k a vs = Some (i, b) \<Longrightarrow> k \<le> i \<and> i - k < length vs \<and> \<not> v_used (vs ! (i - k))"
proof (induction vs arbitrary: k a)
  case (Cons v vs)
  show ?case
  proof (cases "v_used v")
    case True
    with Cons.prems Cons.IH have "Suc k \<le> i \<and> i - Suc k < length vs \<and> \<not> v_used (vs ! (i - Suc k))" by (auto split: if_splits)
    then show ?thesis by (auto simp: nth_Cons split: nat.split) (metis Suc_diff_Suc Suc_le_lessD diff_Suc_1)
  qed (use Cons.prems in simp)
qed simp

lemma counts_mmap:
  assumes K: "kops_refs K refs" and c: "caller refs p s" and run: "sys_mmap K M p addr len prot flags f off s = Inr (r, s')"
  shows "counts refs s s'"
proof (cases "s' = s")
  case True
  with counts_refl [OF c] show ?thesis by simp
next
  case False
  define scan where "scan = mmap_scan 0 (MAXVA - 2 * PGSIZE) (vmas (procs s ! p))"
  note run' = run [unfolded sys_mmap_def, folded scan_def, unfolded Let_def]
  from run' False obtain i a where scan: "scan = Some (i, a)" by (cases scan) (auto split: if_splits)
  from run' False obtain g where g: "f = Some g" by (cases f) (auto simp: scan split: if_splits)
  define v where "v = \<lparr>v_addr = a - scast (PGROUNDUP (PGROUNDUP len)), v_length = PGROUNDUP len, v_prot = prot, v_flags = flags,
    v_file = g, v_offset = off, v_used = True\<rparr>"
  define t where "t = set_proc p (\<lambda>q. q\<lparr>vmas := (vmas q)[i := v]\<rparr>) s"
  from run' False have "bindE (on_mach (k_filedup K g) t) (\<lambda>s. Inr (v_addr v, s)) = Inr (r, s')"
    by (simp add: scan g v_def t_def split: if_splits)
  then obtain m where dup: "k_filedup K g (mach t) = Inr m" and s': "s' = t\<lparr>mach := m\<rparr>"
    by (auto simp: bindE_eq_Inr on_mach_def)
  have t: "mach t = mach s" "t\<lparr>mach := m\<rparr> = set_proc p (\<lambda>q. q\<lparr>vmas := (vmas q)[i := v]\<rparr>) (s\<lparr>mach := m\<rparr>)"
    by (simp_all add: t_def set_proc_def)
  have v: "v_used v" "v_file v = g" by (simp_all add: v_def)
  from mmap_scan_free [OF scan [unfolded scan_def]] caller_tables(5) [OF c] have i: "i < VMASIZE" "\<not> v_used (vmas (procs s ! p) ! i)" by simp_all
  show ?thesis unfolding s' t(2) by (rule counts_region [OF c i(1)]) (use i(2) v in \<open>simp add: kops_keep(1) [OF K dup] t(1)\<close>)
qed

lemma refs_munmap_write:
  assumes M: "mapops_refs M refs"
  shows "munmap_write M pt v as m = Inr (ok, m') \<Longrightarrow> refs m' = refs m"
proof (induction "as" arbitrary: m)
  case (Cons a "as")
  have w: "m_writei M f u x off n m = Inr (r, m1) \<Longrightarrow> refs m1 = refs m" for f u x off n r m1 m using M by (auto simp: mapops_refs_def)
  show ?case
  proof (cases "m_walkaddr M pt a m = 0")
    case True
    with Cons show ?thesis by simp
  next
    case False
    with Cons.prems show ?thesis by (auto simp: bindE_eq_Inr dest!: w Cons.IH split: if_splits)
  qed
qed simp

lemma mapops_keep:
  assumes "mapops_refs M refs"
  shows "refs (m_begin M m) = refs m" "refs (m_end M m) = refs m" "refs (m_zero M a m) = refs m"
    "m_ilock M f m = Inr m' \<Longrightarrow> refs m' = refs m" "m_iunlock M f m = Inr m' \<Longrightarrow> refs m' = refs m"
    "m_readi M f u a off n m = Inr (r, m') \<Longrightarrow> refs m' = refs m"
  using assms unfolding mapops_refs_def by metis+

lemma counts_munmap:
  assumes K: "kops_refs K refs" and M: "mapops_refs M refs" and c: "caller refs p s" and run: "sys_munmap K M p addr len s = Inr (r, s')"
  shows "counts refs s s'"
proof (cases "vma_find addr (vmas (procs s ! p))")
  case None
  with run counts_refl [OF c] show ?thesis by (simp add: sys_munmap_def)
next
  case (Some i)
  define v where "v = vmas (procs s ! p) ! i"
  define pt where "pt = the (pagetable (procs s ! p))"
  define start where "start = PGROUNDDOWN addr"
  define stop where "stop = PGROUNDUP (addr + scast len)"
  define wr where "wr = (if v_flags v AND MAP_SHARED \<noteq> 0 \<and> v_prot v AND PROT_WRITE \<noteq> 0 then
                 bindE (m_ilock M (v_file v) (m_begin M (mach s))) (\<lambda>m.
                 bindE (munmap_write M pt v (page_addrs start stop) m) (\<lambda>(ok, m).
                 bindE (m_iunlock M (v_file v) m) (\<lambda>m. Inr (ok, m_end M m))))
               else Inr (True, mach s))"
  have i: "i < VMASIZE" "v_used v"
    using Some caller_tables(5) [OF c] by (auto simp: vma_find_def find_idx_Some vma_covers_def v_def)
  have run': "bindE wr (\<lambda>(ok, m). if \<not> ok then Inr (-1, s\<lparr>mach := m\<rparr>) else
        bindE (uvmunmap K pt start ((stop - start) div PGSIZE) (v_flags v AND MAP_SHARED = 0) m) (\<lambda>m.
        if start = v_addr v \<and> stop = v_addr v + scast (v_length v) then
          bindE (k_fileclose K (v_file v) m) (\<lambda>m.
          Inr (0, set_proc p (\<lambda>q. q\<lparr>vmas := (vmas q)[i := v\<lparr>v_used := False\<rparr>]\<rparr>) (s\<lparr>mach := m\<rparr>)))
        else Inr (0, s\<lparr>mach := m\<rparr>))) = Inr (r, s')"
    using run by (simp only: sys_munmap_def Let_def Some option.case v_def pt_def start_def stop_def wr_def)
  from run' obtain ok m where wr: "wr = Inr (ok, m)" by (auto simp: bindE_eq_Inr)
  then have m: "refs m = refs (mach s)"
    by (auto simp: wr_def bindE_eq_Inr mapops_keep(1,2) [OF M] dest!: mapops_keep(4,5) [OF M] refs_munmap_write [OF M] split: if_splits)
  show ?thesis
  proof (cases ok)
    case False
    with run' wr counts_mach [OF c m] show ?thesis by simp
  next
    case True
    with run' wr obtain l where l: "uvmunmap K pt start ((stop - start) div PGSIZE) (v_flags v AND MAP_SHARED = 0) m = Inr l"
      by (auto simp: bindE_eq_Inr)
    have ml: "refs l = refs (mach s)" using kops_keep(7) [OF K l] m by simp
    show ?thesis
    proof (cases "start = v_addr v \<and> stop = v_addr v + scast (v_length v)")
      case False
      with run' wr True l have "s' = s\<lparr>mach := l\<rparr>" by auto
      with counts_mach [OF c ml] show ?thesis by simp
    next
      case whole: True
      with run' wr True l obtain n where n: "k_fileclose K (v_file v) l = Inr n"
        and s': "s' = set_proc p (\<lambda>q. q\<lparr>vmas := (vmas q)[i := v\<lparr>v_used := False\<rparr>]\<rparr>) (s\<lparr>mach := n\<rparr>)"
        by (auto simp: bindE_eq_Inr)
      have e: "of_region (vmas (procs s ! p) ! i) = {#v_file v#}" using i(2) by (simp add: v_def)
      show ?thesis unfolding s'
        by (rule counts_region [OF c i(1)]) (use kops_keep(2) [OF K n] ml in \<open>simp add: e\<close>)
    qed
  qed
qed

lemma counts_page_fault:
  assumes K: "kops_refs K refs" and M: "mapops_refs M refs" and c: "caller refs p s" and run: "page_fault K M p addr s = Inr (r, s')"
  shows "counts refs s s'"
proof -
  obtain i where i: "vma_find addr (vmas (procs s ! p)) = Some i" using run by (cases "vma_find addr (vmas (procs s ! p))") (auto simp: page_fault_def)
  obtain pa m where ka: "kalloc K (mach s) = (pa, m)" by fastforce
  note m = kops_keep(3) [OF K ka]
  have "\<exists>l. s' = s\<lparr>mach := l\<rparr> \<and> refs l = refs (mach s)"
  proof (cases pa)
    case None
    with run i ka m show ?thesis by (auto simp: page_fault_def)
  next
    case (Some a)
    with run i ka m show ?thesis
      by (auto simp: page_fault_def Let_def bindE_eq_Inr mapops_keep(3) [OF M] kops_keep(4) [OF K] split: if_splits
          dest!: mapops_keep(4-6) [OF M] kops_keep(6) [OF K])
  qed
  then show ?thesis using counts_mach [OF c] by blast
qed

section \<open>Every reachable state\<close>

text \<open>A step of a kernel, where what is outside of the model keeps the counts, or a call of the process \<open>p\<close> that cpu \<open>c\<close> runs.\<close>

inductive fstep :: "'v kops \<Rightarrow> 'v mapops \<Rightarrow> 'v fops \<Rightarrow> ('v \<Rightarrow> nat multiset) \<Rightarrow> 'v ks \<Rightarrow> 'v ks \<Rightarrow> bool"
  for K :: "'v kops" and M :: "'v mapops" and D :: "'v fops" and refs :: "'v \<Rightarrow> nat multiset" where
  kernel: "kstep K s s' \<Longrightarrow> (\<And>m. s' = s\<lparr>mach := m\<rparr> \<Longrightarrow> refs m = refs (mach s)) \<Longrightarrow> fstep K M D refs s s'"
| dup: "runs c p s \<Longrightarrow> hw3_sys_dup K p n s = Inr (r, s') \<Longrightarrow> fstep K M D refs s s'"
| reads: "runs c p s \<Longrightarrow> hw3_sys_read D p fd a k s = Inr (r, s') \<Longrightarrow> fstep K M D refs s s'"
| writes: "runs c p s \<Longrightarrow> hw3_sys_write D p fd a k s = Inr (r, s') \<Longrightarrow> fstep K M D refs s s'"
| fstat: "runs c p s \<Longrightarrow> hw3_sys_fstat D p fd a s = Inr (r, s') \<Longrightarrow> fstep K M D refs s s'"
| close: "runs c p s \<Longrightarrow> hw3_sys_close K p fd s = Inr (r, s') \<Longrightarrow> fstep K M D refs s s'"
| opens: "runs c p s \<Longrightarrow> open_descriptor K D p s = Inr (o1, s') \<Longrightarrow> fstep K M D refs s s'"
| pipe: "runs c p s \<Longrightarrow> hw3_sys_pipe K D p arr s = Inr (r, s') \<Longrightarrow> fstep K M D refs s s'"
| mmap: "runs c p s \<Longrightarrow> sys_mmap K M p addr len prot flags f off s = Inr (w, s') \<Longrightarrow> fstep K M D refs s s'"
| munmap: "runs c p s \<Longrightarrow> sys_munmap K M p addr len s = Inr (r, s') \<Longrightarrow> fstep K M D refs s s'"
| fault: "runs c p s \<Longrightarrow> page_fault K M p addr s = Inr (b, s') \<Longrightarrow> fstep K M D refs s s'"

text \<open>The kernel starts with no open file.\<close>

definition no_files :: "('v \<Rightarrow> nat multiset) \<Rightarrow> 'v ks \<Rightarrow> bool" where
  "no_files refs s \<longleftrightarrow> refs (mach s) = {#} \<and> (\<forall>p \<in> set (procs s). length (p_ofile p) = NOFILE \<and> length (vmas p) = VMASIZE \<and> held p = {#})"

definition fboot :: "'v kops \<Rightarrow> ('v \<Rightarrow> nat multiset) \<Rightarrow> 'v ks \<Rightarrow> bool" where
  "fboot K refs s \<longleftrightarrow> (\<exists>s0 junk. zeroed s0 \<and> no_files refs s0 \<and> userinit K junk (procinit s0) = Inr s)"

definition files_inv :: "('v \<Rightarrow> nat multiset) \<Rightarrow> 'v ks \<Rightarrow> bool" where
  "files_inv refs s \<longleftrightarrow> files_ok refs s \<and> sane (abs_ks s)"

lemma running_caller:
  assumes "files_inv refs s" "runs c p s"
  shows "caller refs p s"
proof -
  have "cpus_ok (abs_ks s)" using assms(1) by (simp add: files_inv_def sane_def)
  then have "state (procs s ! p) = RUNNING" "p < length (procs s)"
    using assms(2) unfolding cpus_ok_def runs_def by (metis abs_nth(1,2) abs_simps(5,6) view_sel(1))+
  with assms(1) show ?thesis by (simp add: caller_def files_inv_def dead_def)
qed

lemma fstep_inv:
  assumes K: "kops_refs K refs" and M: "mapops_refs M refs" and D: "fops_refs D refs" and inv: "files_inv refs s"
    and step: "fstep K M D refs s s'"
  shows "files_inv refs s'"
proof -
  note c = running_caller [OF inv]
  have call: "files_inv refs s'" if "counts refs s s'" using that inv by (simp add: counts_def files_inv_def)
  from step show ?thesis
  proof cases
    case kernel
    have "files_ok refs s'" using files_ok_kstep [OF K _ _ kernel(1) kernel(2)] inv by (simp add: files_inv_def)
    moreover have "sane (abs_ks s')" using sane_step [OF _ kstep_astep [OF kernel(1)]] inv by (simp add: files_inv_def)
    ultimately show ?thesis by (simp add: files_inv_def)
  next
    case (dup c p n r)
    then show ?thesis by (intro call counts_dup [OF K c])
  next
    case (reads c p fd a k r)
    then show ?thesis by (intro call counts_read_write(1) [OF D c])
  next
    case (writes c p fd a k r)
    then show ?thesis by (intro call counts_read_write(2) [OF D c])
  next
    case (fstat c p fd a r)
    then show ?thesis by (intro call counts_read_write(3) [OF D c])
  next
    case (close c p fd r)
    then show ?thesis by (intro call counts_close [OF K c])
  next
    case (opens c p o1)
    then show ?thesis by (intro call counts_open [OF K D c])
  next
    case (pipe c p arr r)
    then show ?thesis by (intro call counts_pipe [OF K D c])
  next
    case (mmap c p addr len prot flags f off w)
    then show ?thesis by (intro call counts_mmap [OF K c])
  next
    case (munmap c p addr len r)
    then show ?thesis by (intro call counts_munmap [OF K M c])
  next
    case (fault c p addr b)
    then show ?thesis by (intro call counts_page_fault [OF K M c])
  qed
qed

lemma fboot_inv:
  assumes K: "kops_refs K refs" and boot: "fboot K refs s"
  shows "files_inv refs s"
proof -
  from boot obtain s0 junk where z: "zeroed s0" and e: "no_files refs s0" and u: "userinit K junk (procinit s0) = Inr s" by (auto simp: fboot_def)
  have "sane (abs_ks s)" using aboot_sane [OF kboot_refines] z u by (auto simp: kboot_def)
  have l0: "length (procs s0) = NPROC" using z by (simp add: zeroed_def)
  have procs0: "p \<in> set (procs (procinit s0)) \<Longrightarrow> length (p_ofile p) = NOFILE \<and> length (vmas p) = VMASIZE \<and> held p = {#}" for p
    using e l0 by (auto simp: procinit_def no_files_def held_def)
  have ok0: "files_ok refs (procinit s0)"
    unfolding files_ok_def bag_empty using procs0 e by (auto simp: procinit_def no_files_def bag_empty)
  from u obtain i s1 where al: "allocproc K junk (procinit s0) = Inr (Some i, s1)"
    by (auto simp: userinit_def bindE_eq_Inr Let_def split: option.splits)
  from refs_allocproc [OF K al] obtain x where i: "i < length (procs (procinit s0))" "procs s1 = (procs (procinit s0))[i := x]"
    "state x = USED" "p_ofile x = p_ofile (procs (procinit s0) ! i)" "vmas x = vmas (procs (procinit s0) ! i)"
    "refs (mach s1) = refs (mach (procinit s0))" by blast
  have x: "length (p_ofile x) = NOFILE" "length (vmas x) = VMASIZE" "held x = {#}" "held (procs (procinit s0) ! i) = {#}"
    using procs0 [OF nth_mem [OF i(1)]] i(4,5) by (simp_all add: held_def)
  from u al obtain m d m' y where y: "uvmfirst K (the (pagetable x)) initcode (mach s1) = Inr m" "k_namei K [47] m = Inr (d, m')" "mach s = m'"
    "procs s = (procs s1)[i := y]" "p_ofile y = p_ofile x" "vmas y = vmas x" "state y = RUNNABLE"
    using i(1) by (auto simp: userinit_def bindE_eq_Inr Let_def on_mach_def set_proc_def set_tf_def i(2))
  have "refs (mach s) = refs (mach (procinit s0))" using kops_keep(9) [OF K y(1)] kops_keep(16) [OF K y(2)] i(6) y(3) by simp
  moreover have "procs s = (procs (procinit s0))[i := y]" using y(4) i(2) by simp
  ultimately have "files_ok refs s"
    by (intro files_ok_entry [OF ok0 _ i(1), of s y]) (use x y in \<open>simp_all add: held_def\<close>)
  with \<open>sane (abs_ks s)\<close> show ?thesis by (simp add: files_inv_def)
qed

text \<open>The system is a transition system whatever the operations do; where they keep their promises it has the invariant.\<close>

definition promises :: "'v kops \<Rightarrow> 'v mapops \<Rightarrow> 'v fops \<Rightarrow> ('v \<Rightarrow> nat multiset) \<Rightarrow> bool" where
  "promises K M D refs \<longleftrightarrow> kops_refs K refs \<and> mapops_refs M refs \<and> fops_refs D refs"

interpretation files: transition_system "\<lambda>s. promises K M D refs \<and> fboot K refs s" "\<lambda>s s'. promises K M D refs \<and> fstep K M D refs s s'"
  "files_inv refs" for K :: "'v kops" and M :: "'v mapops" and D :: "'v fops" and refs :: "'v \<Rightarrow> nat multiset"
  by unfold_locales (auto simp: promises_def intro: fboot_inv fstep_inv)

lemma files_reach:
  assumes "promises K M D refs" "reach (fboot K refs) (fstep K M D refs) s"
  shows "files_inv refs s"
proof -
  have "reach (\<lambda>s. promises K M D refs \<and> fboot K refs s) (\<lambda>s s'. promises K M D refs \<and> fstep K M D refs s s') s"
    using assms(2) by induction (auto intro: reach.intros assms(1))
  then show ?thesis by (rule files.reach_inv)
qed

section \<open>The count of a file\<close>

lemma count_bag_slot: "count (bag of_slot fs) f = length (filter (\<lambda>x. x = Some f) fs)"
  by (induction fs) (auto simp: of_slot_def split: option.split)

lemma count_bag_region: "count (bag of_region vs) f = length (filter (\<lambda>v. v_used v \<and> v_file v = f) vs)"
  by (induction vs) (auto simp: of_region_def)

definition holds :: "nat \<Rightarrow> proc \<Rightarrow> nat" where
  "holds f p = length (filter (\<lambda>x. x = Some f) (p_ofile p)) + length (filter (\<lambda>v. v_used v \<and> v_file v = f) (vmas p))"

lemma count_held: "count (held p) f = holds f p"
  by (simp add: held_def holds_def count_bag_slot count_bag_region)

lemma count_bag_held: "count (bag held ps) f = (\<Sum>p\<leftarrow>ps. holds f p)"
  by (induction ps) (simp_all add: count_held)

text \<open>C21: In every state that the kernel can reach, by any interleaving of the processes' steps and calls, the reference count of every open file
  is the number of descriptors and mapped regions, over all processes, that refer to it; and an unused or dead process refers to none.\<close>

theorem file_references_counted:
  assumes "promises K M D refs" and "reach (fboot K refs) (fstep K M D refs) s"
  shows "(\<forall>f. count (refs (mach s)) f = (\<Sum>p\<leftarrow>procs s. holds f p)) \<and>
    (\<forall>f. \<forall>p \<in> set (procs s). state p = UNUSED \<or> state p = ZOMBIE \<longrightarrow> holds f p = 0)"
proof -
  have inv: "tables_ok (refs (mach s)) (procs s)" using files_reach [OF assms] by (simp add: files_inv_def files_ok_def)
  then have "count (refs (mach s)) f = (\<Sum>p\<leftarrow>procs s. holds f p)" for f by (metis count_bag_held)
  moreover have "holds f p = 0" if "p \<in> set (procs s)" "state p = UNUSED \<or> state p = ZOMBIE" for f p
  proof -
    have "held p = {#}" using inv that by (auto simp: dead_def)
    then show ?thesis using count_held [of p f] by simp
  qed
  ultimately show ?thesis by blast
qed

section \<open>An example\<close>

text \<open>The files are counted by a multiset, and there is one file. The first process opens it and duplicates the descriptor.\<close>

definition fx_kops :: "nat multiset kops" where
  "fx_kops = \<lparr>kalloc = (\<lambda>m. (Some 4096, m)), kfree = (\<lambda>a m. m), kvmmap = (\<lambda>t v p n f m. Inr m),
     uvmcreate = (\<lambda>m. (Some 8192, m)), mappages = (\<lambda>t v n p f m. Inr (0, m)), uvmunmap = (\<lambda>t v n f m. Inr m),
     uvmfree = (\<lambda>t n m. Inr m), uvmfirst = (\<lambda>t b m. Inr m), uvmalloc = (\<lambda>t k n f m. (n, m)), uvmdealloc = (\<lambda>t k n m. (n, m)),
     uvmcopy = (\<lambda>t u n m. Inr (0, m)), k_copyout = (\<lambda>t a v m. (0, m)), k_filedup = (\<lambda>f m. Inr (add_mset f m)),
     k_fileclose = (\<lambda>f m. if f \<in># m then Inr (m - {#f#}) else Inl (Panic ''fileclose'')),
     k_idup = (\<lambda>i m. m), k_iput = (\<lambda>i m. Inr m), k_namei = (\<lambda>p m. Inr (Some 0, m)), k_fsinit = (\<lambda>d m. Inr m),
     a_trampoline = 0, a_forkret = 0\<rparr>"

definition fx_mapops :: "nat multiset mapops" where
  "fx_mapops = \<lparr>m_readable = (\<lambda>f m. True), m_writable = (\<lambda>f m. True), m_begin = (\<lambda>m. m), m_end = (\<lambda>m. m), m_ilock = (\<lambda>f m. Inr m),
     m_iunlock = (\<lambda>f m. Inr m), m_walkaddr = (\<lambda>t a m. 0), m_writei = (\<lambda>f u a off n m. Inr (0, m)), m_readi = (\<lambda>f u a off n m. Inr (0, m)),
     m_zero = (\<lambda>a m. m)\<rparr>"

definition fx_fops :: "nat multiset fops" where
  "fx_fops = \<lparr>f_alloc = (\<lambda>m. if 7 \<in># m then (None, m) else (Some 7, add_mset 7 m)), f_read = (\<lambda>f a n m. Inr (0, m)),
     f_write = (\<lambda>f a n m. Inr (0, m)), f_stat = (\<lambda>f a m. Inr (0, m)), f_pipe = (\<lambda>m. (None, m))\<rparr>"

lemma fx_promises: "promises fx_kops fx_mapops fx_fops (\<lambda>m. m)"
  by (auto simp: promises_def kops_refs_def fx_kops_def mapops_refs_def fx_mapops_def fops_refs_def fx_fops_def split: if_splits)

definition fx_proc :: proc where
  "fx_proc = ex_proc\<lparr>vmas := replicate VMASIZE \<lparr>v_addr = 0, v_length = 0, v_prot = 0, v_flags = 0, v_file = 0, v_offset = 0, v_used = False\<rparr>\<rparr>"

definition fx_zero :: "nat multiset ks" where
  "fx_zero = \<lparr>procs = replicate NPROC fx_proc, cpus = replicate NCPU \<lparr>c_proc = None, c_context = ex_ctx, c_intena = False\<rparr>,
     nextpid = 1, initproc = None, first = True, ticks = 0, mach = {#}\<rparr>"

definition fx_rest :: "proc list" where
  "fx_rest = map (\<lambda>i. fx_proc\<lparr>kstack_va := KSTACK i\<rparr>) [1..<64]"

lemma fx_holds: "holds f (fx_proc\<lparr>kstack_va := k\<rparr>) = 0" "holds f fx_proc = 0"
  by (simp_all add: holds_def fx_proc_def ex_proc_def)

lemma fx_rest_holds: "(\<Sum>p\<leftarrow>fx_rest. holds f p) = 0"
  by (simp add: fx_rest_def comp_def fx_holds)

lemma fx_procinit: "procs (procinit fx_zero) = fx_proc\<lparr>kstack_va := KSTACK 0\<rparr> # fx_rest"
proof -
  have "procs (procinit fx_zero) = map (\<lambda>i. fx_proc\<lparr>kstack_va := KSTACK i\<rparr>) [0..<64]"
    by (simp add: procinit_def fx_zero_def) (simp add: fx_proc_def ex_proc_def)
  also have "[0..<64] = 0 # [1..<64 :: nat]" by (simp add: upt_rec)
  finally show ?thesis by (simp add: fx_rest_def)
qed

lemma bag_none: "sum_list (replicate n ({#} :: nat multiset)) = {#}"
  by (induction n) simp_all

lemma fx_boot:
  "\<exists>s p. fboot fx_kops (\<lambda>m. m) s \<and> procs s = p # fx_rest \<and> state p = RUNNABLE \<and> chan p = None \<and> cpus s = cpus fx_zero \<and> mach s = {#} \<and>
     p_ofile p = replicate 16 None \<and> vmas p = vmas fx_proc"
proof -
  have i: "cpus (procinit fx_zero) = cpus fx_zero" "nextpid (procinit fx_zero) = 1" "mach (procinit fx_zero) = {#}"
    by (simp_all add: procinit_def fx_zero_def)
  have z: "zeroed fx_zero" "no_files (\<lambda>m. m) fx_zero"
    by (simp_all add: zeroed_def no_files_def fx_zero_def fx_proc_def ex_proc_def held_def of_region_def bag_none)
  have "\<exists>s p. userinit fx_kops ex_tf (procinit fx_zero) = Inr s \<and> procs s = p # fx_rest \<and> state p = RUNNABLE \<and> chan p = None \<and>
      cpus s = cpus fx_zero \<and> mach s = {#} \<and> p_ofile p = replicate 16 None \<and> vmas p = vmas fx_proc"
    by (simp add: userinit_def allocproc_def fx_procinit i allocpid_def proc_pagetable_def fx_kops_def on_mach_def Let_def set_proc_def set_tf_def)
      (simp add: fx_proc_def ex_proc_def)
  with z show ?thesis unfolding fboot_def by blast
qed

lemma fx_open_dup:
  "\<exists>s. reach (fboot fx_kops (\<lambda>m. m)) (fstep fx_kops fx_mapops fx_fops (\<lambda>m. m)) s \<and> mach s = {#7, 7#}"
proof -
  let ?R = "reach (fboot fx_kops (\<lambda>m. m)) (fstep fx_kops fx_mapops fx_fops (\<lambda>m. m))"
  obtain s p where s: "fboot fx_kops (\<lambda>m. m) s" "procs s = p # fx_rest" "state p = RUNNABLE" "chan p = None" "cpus s = cpus fx_zero"
    "mach s = {#}" "p_ofile p = replicate 16 None" using fx_boot by blast
  define t where "t = scheduler_visit 0 0 s"
  have "kstep fx_kops s t" unfolding t_def
    by (rule kstep.schedule) (simp_all add: s fx_zero_def myproc_def mycpu_def)
  then have st: "fstep fx_kops fx_mapops fx_fops (\<lambda>m. m) s t"
    by (rule fstep.kernel) (auto simp: t_def scheduler_visit_def set_cpu_def set_proc_def s dest: arg_cong [of _ _ mach])
  have t: "procs t = p\<lparr>state := RUNNING\<rparr> # fx_rest" "mach t = {#}" "myproc 0 t = Some 0" "length (cpus t) = 8"
    by (simp_all add: t_def scheduler_visit_def set_cpu_def set_proc_def s fx_zero_def myproc_def mycpu_def)
  define u where "u = set_fd 0 0 (Some 7) (t\<lparr>mach := {#7#}\<rparr>)"
  have slot: "find_idx (\<lambda>x. x = None) (replicate 16 (None :: nat option)) = Some 0"
    "find_idx (\<lambda>x. x = None) ((replicate 16 (None :: nat option))[0 := Some 7]) = Some 1" by (simp_all add: numeral_eq_Suc)
  have "open_descriptor fx_kops fx_fops 0 t = Inr (Some (0, 7), u)"
    by (simp add: open_descriptor_def fx_fops_def t hw3_fdalloc_def s(7) slot u_def)
  with t s(4) have tu: "fstep fx_kops fx_mapops fx_fops (\<lambda>m. m) t u"
    by (intro fstep.opens [of 0 0]) (simp_all add: runs_def)
  have u: "procs u = p\<lparr>state := RUNNING, p_ofile := (replicate 16 None)[0 := Some 7]\<rparr> # fx_rest" "mach u = {#7#}" "cpus u = cpus t"
    by (simp_all add: u_def set_fd_def set_proc_def t s(7))
  define v where "v = set_fd 0 1 (Some 7) (u\<lparr>mach := {#7, 7#}\<rparr>)"
  have "hw3_sys_dup fx_kops 0 0 u = Inr (1, v)"
    by (simp add: hw3_sys_dup_def hw3_argfd_def u hw3_fdalloc_def slot on_mach_def fx_kops_def v_def)
  with t u s(4) have uv: "fstep fx_kops fx_mapops fx_fops (\<lambda>m. m) u v"
    by (intro fstep.dup [of 0 0]) (simp_all add: runs_def myproc_def mycpu_def)
  have "?R s" using s(1) by (rule reach_init)
  then have "?R v" using st tu uv by (meson reach_step)
  moreover have "mach v = {#7, 7#}" by (simp add: v_def)
  ultimately show ?thesis by blast
qed

theorem file_references_counted_witness:
  "promises fx_kops fx_mapops fx_fops (\<lambda>m. m) \<and> (\<exists>s. reach (fboot fx_kops (\<lambda>m. m)) (fstep fx_kops fx_mapops fx_fops (\<lambda>m. m)) s \<and>
     count (mach s) 7 = 2 \<and> (\<Sum>p\<leftarrow>procs s. holds 7 p) = 2)"
proof -
  obtain s where s: "reach (fboot fx_kops (\<lambda>m. m)) (fstep fx_kops fx_mapops fx_fops (\<lambda>m. m)) s" "mach s = {#7, 7#}"
    using fx_open_dup by blast
  have "count (mach s) 7 = (\<Sum>p\<leftarrow>procs s. holds 7 p)" using file_references_counted [OF fx_promises s(1)] by blast
  moreover have "count (mach s) 7 = 2" using s(2) by simp
  ultimately show ?thesis using s(1) fx_promises by metis
qed

end
