(* ===== verification/Proc_Mem.thy ===== *)
theory Proc_Mem
  imports Proc_Inv
begin

text \<open>
  The pointers of a process: in every reachable state of the kernel the table has its \<open>NPROC\<close> entries, and every entry in use has a page table and a
  trapframe, so that the uses of \<open>p->pagetable\<close> and \<open>p->trapframe\<close> in \<open>proc.c\<close> and \<open>trap.c\<close>, which do not test them, never follow a null pointer.
\<close>

section \<open>Entries with memory\<close>

definition has_mem :: "proc \<Rightarrow> bool" where
  "has_mem p \<longleftrightarrow> state p = UNUSED \<or> (pagetable p \<noteq> None \<and> trapframe p \<noteq> None)"

definition table_typed :: "'v ks \<Rightarrow> bool" where
  "table_typed s \<longleftrightarrow> length (procs s) = NPROC \<and> (\<forall>p \<in> set (procs s). has_mem p)"

definition same_mem :: "proc \<Rightarrow> proc \<Rightarrow> bool" where
  "same_mem p q \<longleftrightarrow> (pagetable q = None \<longleftrightarrow> pagetable p = None) \<and> (trapframe q = None \<longleftrightarrow> trapframe p = None) \<and>
     (state q = UNUSED \<longleftrightarrow> state p = UNUSED)"

definition sames :: "'v ks \<Rightarrow> 'v ks \<Rightarrow> bool" where
  "sames s s' \<longleftrightarrow> list_all2 same_mem (procs s) (procs s')"

lemma same_mem_refl [simp]: "same_mem p p"
  by (simp add: same_mem_def)

lemma sames_procs: "procs s' = procs s \<Longrightarrow> sames s s'"
  by (simp add: sames_def list.rel_refl)

lemma sames_trans: "sames s t \<Longrightarrow> sames t u \<Longrightarrow> sames s u"
  unfolding sames_def list_all2_conv_all_nth same_mem_def by metis

lemma sames_set: "(i < length (procs s) \<Longrightarrow> same_mem (procs s ! i) (f (procs s ! i))) \<Longrightarrow> sames s (set_proc i f s)"
  unfolding sames_def set_proc_def list_all2_conv_all_nth by simp (metis same_mem_refl nth_list_update_eq nth_list_update_neq)

lemma sames_nth: "sames s s' \<Longrightarrow> i < length (procs s) \<Longrightarrow> same_mem (procs s ! i) (procs s' ! i) \<and> length (procs s') = length (procs s)"
  by (simp add: sames_def list_all2_conv_all_nth)

lemma typed_same:
  assumes "table_typed s" "sames s s'"
  shows "table_typed s'"
proof -
  have "has_mem q" if "q \<in> set (procs s')" for q
  proof -
    from that obtain i where i: "i < length (procs s')" "q = procs s' ! i" by (metis in_set_conv_nth)
    then have l: "i < length (procs s)" using assms(2) by (simp add: sames_def list_all2_conv_all_nth)
    with assms(1) have "has_mem (procs s ! i)" by (simp add: table_typed_def)
    with sames_nth [OF assms(2) l] i(2) show ?thesis by (auto simp: has_mem_def same_mem_def)
  qed
  moreover have "length (procs s') = NPROC"
    using assms list_all2_lengthD [of same_mem "procs s" "procs s'"] by (simp add: table_typed_def sames_def)
  ultimately show ?thesis by (simp add: table_typed_def)
qed

lemma typed_entry: "table_typed s \<Longrightarrow> procs s' = (procs s)[i := x] \<Longrightarrow> has_mem x \<Longrightarrow> table_typed s'"
  by (auto simp: table_typed_def dest!: subsetD [OF set_update_subset_insert])

section \<open>The operations\<close>

lemma freeproc_entry:
  assumes "freeproc K i s = Inr s'"
  shows "\<exists>x. procs s' = (procs s)[i := x] \<and> has_mem x"
  using assms by (auto simp: freeproc_def on_mach_def bindE_eq_Inr Let_def set_proc_def has_mem_def split: option.splits)

text \<open>A new process has a page table and a trapframe; otherwise its entry is free again.\<close>

lemma allocproc_entry:
  assumes run: "allocproc K junk s = Inr (r, s')"
  shows "case r of None \<Rightarrow> procs s' = procs s \<or> (\<exists>i x. procs s' = (procs s)[i := x] \<and> has_mem x)
    | Some i \<Rightarrow> i < length (procs s) \<and> (\<exists>x. procs s' = (procs s)[i := x] \<and> state x = USED \<and> pagetable x \<noteq> None \<and> trapframe x \<noteq> None)"
proof (cases "find_idx (\<lambda>p. state p = UNUSED) (procs s)")
  case None
  with run show ?thesis by (auto simp: allocproc_def)
next
  case (Some j)
  then have j: "j < length (procs s)" by (simp add: find_idx_Some)
  from run Some have np: "nextpid s < INT_MAX" by (auto simp: allocproc_def allocpid_def split: if_splits)
  have free: "\<exists>x. procs s' = (procs s)[j := x] \<and> has_mem x" if "freeproc K j t = Inr s'" "procs t = (procs s)[j := y]" for t y
    using freeproc_entry [OF that(1)] that(2) by auto
  obtain ka m where ka: "kalloc K (mach s) = (ka, m)" by fastforce
  show ?thesis
  proof (cases ka)
    case None
    from run np Some ka None obtain t where f: "freeproc K j t = Inr s'" "r = None"
      "t = set_proc j (\<lambda>p. p\<lparr>trapframe := None\<rparr>) ((set_proc j (\<lambda>p. p\<lparr>pid := nextpid s, state := USED\<rparr>) (s\<lparr>nextpid := nextpid s + 1\<rparr>))\<lparr>mach := m\<rparr>)"
      by (auto simp: allocproc_def allocpid_def bindE_eq_Inr Let_def set_proc_def)
    then have "procs t = (procs s)[j := procs t ! j]" using j by (simp add: set_proc_def)
    from free [OF f(1) this] f(2) show ?thesis by auto
  next
    case ka_Some: (Some tf)
    obtain pt m' where pp: "proc_pagetable K tf m = Inr (pt, m')"
      using run np Some ka ka_Some by (auto simp: allocproc_def allocpid_def bindE_eq_Inr Let_def set_proc_def)
    define t where "t = set_proc j (\<lambda>p. p\<lparr>pagetable := pt\<rparr>) ((set_proc j (\<lambda>p. p\<lparr>trapframe := Some (tf, junk)\<rparr>)
      ((set_proc j (\<lambda>p. p\<lparr>pid := nextpid s, state := USED\<rparr>) (s\<lparr>nextpid := nextpid s + 1\<rparr>))\<lparr>mach := m\<rparr>))\<lparr>mach := m'\<rparr>)"
    have t: "procs t = (procs s)[j := procs t ! j]" "state (procs t ! j) = USED" "pagetable (procs t ! j) = pt" "trapframe (procs t ! j) \<noteq> None"
      using j by (simp_all add: t_def set_proc_def)
    have e: "allocproc K junk s = (if pt = None then bindE (freeproc K j t) (\<lambda>s. Inr (None, s))
          else Inr (Some j, set_proc j (\<lambda>p. p\<lparr>ctx := \<lparr>c_ra = a_forkret K, c_sp = kstack_va p + PGSIZE, c_s = replicate 12 0\<rparr>\<rparr>) t))"
      using np Some ka ka_Some pp by (simp add: allocproc_def allocpid_def Let_def set_proc_def t_def)
    show ?thesis
    proof (cases "pt = None")
      case True
      with run e have "freeproc K j t = Inr s'" "r = None" by (auto simp: bindE_eq_Inr)
      then show ?thesis using free t(1) by auto
    next
      case False
      with run e obtain c where r: "r = Some j" "procs s' = (procs t)[j := (procs t ! j)\<lparr>ctx := c\<rparr>]" by (auto simp: set_proc_def)
      have "procs s' = (procs s)[j := (procs t ! j)\<lparr>ctx := c\<rparr>]" using r(2) t(1) by (metis list_update_overwrite)
      then have "\<exists>x. procs s' = (procs s)[j := x] \<and> state x = USED \<and> pagetable x \<noteq> None \<and> trapframe x \<noteq> None"
        by (intro exI [of _ "(procs t ! j)\<lparr>ctx := c\<rparr>"]) (use t(2-4) False in simp)
      with r(1) j show ?thesis by simp
    qed
  qed
qed

text \<open>\<open>fork\<close> fills in the rest of the new entry.\<close>

lemma typed_fork_copy:
  assumes ty: "table_typed s" and run: "fork_copy K junk p s = Inr (r, s')"
  shows "table_typed s'"
proof -
  from run obtain q s1 where al: "allocproc K junk s = Inr (q, s1)" by (auto simp: fork_copy_def bindE_eq_Inr)
  note a = allocproc_entry [OF al]
  show ?thesis
  proof (cases q)
    case None
    with run al have "s' = s1" by (simp add: fork_copy_def)
    with a None ty show ?thesis by (auto intro: typed_same sames_procs typed_entry)
  next
    case (Some i)
    with a obtain x where i: "i < length (procs s)" "procs s1 = (procs s)[i := x]" "state x = USED" "pagetable x \<noteq> None" "trapframe x \<noteq> None" by auto
    then have l: "i < length (procs s1)" and x: "procs s1 ! i = x" by simp_all
    obtain e m where uc: "uvmcopy K (the (pagetable (procs s1 ! p))) (the (pagetable (procs s1 ! i))) (sz (procs s1 ! p)) (mach s1) = Inr (e, m)"
      using run al Some by (auto simp: fork_copy_def bindE_eq_Inr)
    have "\<exists>y. procs s' = (procs s1)[i := y] \<and> has_mem y"
    proof (cases "e < 0")
      case True
      with run al Some uc have "freeproc K i (s1\<lparr>mach := m\<rparr>) = Inr s'" by (auto simp: fork_copy_def bindE_eq_Inr Let_def)
      from freeproc_entry [OF this] show ?thesis by simp
    next
      case False
      with run al Some uc i(3-5) l show ?thesis
        by (auto simp: fork_copy_def bindE_eq_Inr x Let_def set_proc_def set_tf_def has_mem_def)
    qed
    then show ?thesis using i(2) typed_entry [OF ty, of s' i] by auto
  qed
qed

lemma sames_wakeup: "sames s (wakeup me ch s)"
  by (auto simp: sames_def wakeup_def list_all2_conv_all_nth same_mem_def wake_one_def)

lemma sames_reparent: "sames s (reparent p s)"
proof -
  have visit: "sames s (reparent_visit p i s)" for i s
    by (auto simp: reparent_visit_def same_mem_def intro: sames_trans [OF sames_set sames_wakeup] sames_procs)
  have "sames s (fold (reparent_visit p) is s)" for "is" s
    by (induction "is" arbitrary: s) (auto intro: sames_procs sames_trans [OF visit])
  then show ?thesis by (simp add: reparent_def)
qed

lemma sames_sched: "sched E c s = Inr s' \<Longrightarrow> sames s s'"
  by (auto simp: sched_def set_cpu_def intro!: sames_procs split: option.splits if_splits)

lemma sames_exit_release:
  assumes "p < length (procs s)" "exit_release K p s = Inr s'"
  shows "sames s s'"
proof -
  from assms obtain x where "procs s' = (procs s)[p := x]" "same_mem (procs s ! p) x"
    by (auto simp: exit_release_def bindE_eq_Inr on_mach_def Let_def set_proc_def same_mem_def split: if_splits)
  then show ?thesis unfolding sames_def list_all2_conv_all_nth
    by simp (metis same_mem_refl nth_list_update_eq nth_list_update_neq)
qed

lemma sames_exit_zombie:
  assumes alive: "state (procs s ! p) \<noteq> UNUSED" "p < length (procs s)" and zom: "exit_zombie E c p status s = Inr s'"
  shows "sames s s'"
proof -
  define s2 where "s2 = wakeup (Some p) (map_option Chan_proc (parent (procs (reparent p s) ! p))) (reparent p s)"
  have 2: "sames s s2" unfolding s2_def by (rule sames_trans [OF sames_reparent sames_wakeup])
  have "sames s2 (set_proc p (\<lambda>q. q\<lparr>xstate := status, state := ZOMBIE\<rparr>) s2)"
    by (rule sames_set) (use sames_nth [OF 2 alive(2)] alive in \<open>simp add: same_mem_def\<close>)
  moreover have "sched E c (set_proc p (\<lambda>q. q\<lparr>xstate := status, state := ZOMBIE\<rparr>) s2) = Inr s'"
    using zom by (simp add: exit_zombie_def s2_def Let_def)
  ultimately show ?thesis using 2 by (meson sames_sched sames_trans)
qed

lemma typed_wait_scan: "table_typed s \<Longrightarrow> wait_scan K p addr is hk s = Inr (r, s') \<Longrightarrow> table_typed s'"
proof (induction "is" arbitrary: hk)
  case (Cons i "is")
  show ?case
  proof (cases "parent (procs s ! i) = Some p \<and> state (procs s ! i) = ZOMBIE")
    case False
    then show ?thesis using Cons by (auto split: if_splits)
  next
    case True
    obtain e m where em: "(if addr \<noteq> 0 then k_copyout K (the (pagetable (procs s ! p))) addr (xstate (procs s ! i)) (mach s) else (0, mach s)) = (e, m)"
      by fastforce
    with Cons.prems True have "s' = s\<lparr>mach := m\<rparr> \<or> freeproc K i (s\<lparr>mach := m\<rparr>) = Inr s'" by (auto simp: bindE_eq_Inr Let_def split: if_splits)
    then show ?thesis
    proof
      assume "s' = s\<lparr>mach := m\<rparr>"
      then show ?thesis using typed_same [OF Cons.prems(1) sames_procs] by simp
    next
      assume "freeproc K i (s\<lparr>mach := m\<rparr>) = Inr s'"
      from freeproc_entry [OF this] show ?thesis using typed_entry [OF Cons.prems(1)] by auto
    qed
  qed
qed simp

lemma wait_scan_same: "wait_scan K p addr is hk s = Inr (Inr b, s') \<Longrightarrow> s' = s"
  by (induction "is" arbitrary: hk) (auto simp: bindE_eq_Inr Let_def split: if_splits prod.splits)

section \<open>Every reachable state\<close>

definition typed_inv :: "'v ks \<Rightarrow> bool" where
  "typed_inv s \<longleftrightarrow> table_typed s \<and> sane (abs_ks s)"

lemma typed_kstep:
  assumes inv: "typed_inv s" and step: "kstep K s s'"
  shows "table_typed s'"
proof -
  have ty: "table_typed s" and ok: "cpus_ok (abs_ks s)" using inv by (simp_all add: typed_inv_def sane_def)
  have awake: "state (procs s ! p) = RUNNING \<and> p < length (procs s)" if "runs c p s" for c p
    using ok that unfolding cpus_ok_def runs_def by (metis abs_nth(1,2) abs_simps(5,6) view_sel(1))
  have same: "table_typed t" if "sames s t" for t using typed_same [OF ty that] .
  from step show ?thesis
  proof cases
    case (schedule c p)
    have "sames s (set_proc p (\<lambda>q. q\<lparr>state := RUNNING\<rparr>) s)" if "state (procs s ! p) = RUNNABLE"
      by (rule sames_set) (simp add: same_mem_def that)
    then have "sames s (scheduler_visit c p s)"
      unfolding scheduler_visit_def by (auto intro: sames_procs sames_trans [OF _ sames_procs] simp: set_cpu_def)
    then show ?thesis using schedule same by simp
  next
    case (resume c p)
    show ?thesis unfolding resume sleep_tail_def by (intro same sames_set) (simp add: same_mem_def)
  next
    case (yield c p E)
    have "sames s (set_proc p (\<lambda>q. q\<lparr>state := RUNNABLE\<rparr>) s)" by (rule sames_set) (use awake [OF yield(1)] in \<open>simp add: same_mem_def\<close>)
    with yield show ?thesis unfolding Proc.yield_def by (meson same sames_sched sames_trans)
  next
    case (sleep c p ch E)
    have "sames s (set_proc p (\<lambda>q. q\<lparr>chan := Some ch, state := SLEEPING\<rparr>) s)"
      by (rule sames_set) (use awake [OF sleep(1)] in \<open>simp add: same_mem_def\<close>)
    with sleep show ?thesis unfolding Proc.sleep_def by (meson same sames_sched sames_trans)
  next
    case (wakeup c ch)
    then show ?thesis by (simp add: same sames_wakeup)
  next
    case (kill c p n)
    have "sames s (snd (Proc.kill n s))"
      by (cases "find_idx (\<lambda>p. pid p = n) (procs s)") (simp_all add: Proc.kill_def sames_procs, rule sames_set, simp add: same_mem_def)
    then show ?thesis by (simp add: kill same)
  next
    case (setkilled c p)
    show ?thesis unfolding setkilled Proc.setkilled_def by (intro same sames_set) (simp add: same_mem_def)
  next
    case (growproc c p n)
    have "\<exists>z m. snd (Proc.growproc K p n s) = set_proc p (\<lambda>q. q\<lparr>sz := z\<rparr>) (s\<lparr>mach := m\<rparr>) \<or> snd (Proc.growproc K p n s) = s\<lparr>mach := m\<rparr>"
      by (auto simp: Proc.growproc_def Let_def split: prod.split) (metis ks.surjective ks.update_convs(7))+
    then obtain z m where "snd (Proc.growproc K p n s) = set_proc p (\<lambda>q. q\<lparr>sz := z\<rparr>) (s\<lparr>mach := m\<rparr>) \<or>
      snd (Proc.growproc K p n s) = s\<lparr>mach := m\<rparr>" by blast
    moreover have "sames s (set_proc p (\<lambda>q. q\<lparr>sz := z\<rparr>) (s\<lparr>mach := m\<rparr>))"
      by (rule sames_trans [OF sames_procs [of "s\<lparr>mach := m\<rparr>"] sames_set]) (simp_all add: same_mem_def)
    ultimately show ?thesis using growproc same sames_procs [of "s\<lparr>mach := m\<rparr>" s] by auto
  next
    case (fork_copy c p junk r)
    then show ?thesis using typed_fork_copy [OF ty] by blast
  next
    case (fork_parent c p np)
    show ?thesis unfolding fork_parent Proc.fork_parent_def by (intro same sames_set) (simp add: same_mem_def)
  next
    case (fork_ready c p np)
    show ?thesis unfolding fork_ready(1) Proc.fork_ready_def by (intro same sames_set) (use fork_ready in \<open>simp add: same_mem_def\<close>)
  next
    case (exit_release c p)
    then show ?thesis using awake by (intro same sames_exit_release) auto
  next
    case (exit_zombie c p E status)
    then have "sames s s'" using awake [OF exit_zombie(1)] by (intro sames_exit_zombie) simp_all
    then show ?thesis by (rule same)
  next
    case (wait c p E addr r)
    then obtain x s1 where scan: "wait_scan K p addr [0..<length (procs s)] False s = Inr (x, s1)" by (auto simp: wait_round_def bindE_eq_Inr)
    have ty1: "table_typed s1" by (rule typed_wait_scan [OF ty scan])
    have "s' = s1 \<or> Proc.sleep E c p (Chan_proc p) s1 = Inr s'"
      using wait(2) scan by (auto simp: wait_round_def bindE_eq_Inr split: sum.splits if_splits)
    moreover have "sames s s'" "s1 = s" if sl: "Proc.sleep E c p (Chan_proc p) s1 = Inr s'" "s' \<noteq> s1"
    proof -
      have "\<exists>b. x = Inr b" using wait(2) scan sl(2) by (auto simp: wait_round_def bindE_eq_Inr split: sum.splits)
      then show e: "s1 = s" using wait_scan_same scan by blast
      have "sames s (set_proc p (\<lambda>q. q\<lparr>chan := Some (Chan_proc p), state := SLEEPING\<rparr>) s)"
        by (rule sames_set) (use awake [OF wait(1)] in \<open>simp add: same_mem_def\<close>)
      with sl(1) e show "sames s s'" unfolding Proc.sleep_def by (meson sames_sched sames_trans)
    qed
    ultimately show ?thesis using ty1 same by (cases "s' = s1") auto
  next
    case (forkret c p)
    then show ?thesis by (intro same sames_procs) (auto simp: Proc.forkret_def on_mach_def bindE_eq_Inr split: if_splits)
  next
    case (outside m)
    then show ?thesis by (simp add: same sames_procs)
  qed
qed

lemma kboot_typed:
  assumes boot: "kboot K s"
  shows "typed_inv s"
proof -
  from boot obtain s0 junk where z: "zeroed s0" and u: "userinit K junk (procinit s0) = Inr s" by (auto simp: kboot_def)
  have ty0: "table_typed (procinit s0)" by (auto simp: table_typed_def procinit_def has_mem_def)
  from u obtain i s1 where al: "allocproc K junk (procinit s0) = Inr (Some i, s1)"
    by (auto simp: userinit_def bindE_eq_Inr Let_def split: option.splits)
  from allocproc_entry [OF al] obtain x where i: "i < length (procs (procinit s0))" "procs s1 = (procs (procinit s0))[i := x]"
    "pagetable x \<noteq> None" "trapframe x \<noteq> None" by auto
  from u al obtain y where "procs s = (procs s1)[i := y]" "has_mem y"
    using i by (auto simp: userinit_def bindE_eq_Inr Let_def on_mach_def set_proc_def set_tf_def has_mem_def)
  then have "table_typed s" using typed_entry [OF ty0, of s i y] i(2) by simp
  with aboot_sane [OF kboot_refines [OF boot]] show ?thesis by (simp add: typed_inv_def)
qed

interpretation typed: transition_system "kboot K" "kstep K" typed_inv for K :: "'v kops"
  by unfold_locales (auto simp: typed_inv_def intro: kboot_typed [unfolded typed_inv_def, THEN conjunct1]
      kboot_typed [unfolded typed_inv_def, THEN conjunct2] typed_kstep [unfolded typed_inv_def] sane_step kstep_astep)

text \<open>C22: In every reachable state of the kernel the process table has its \<open>NPROC\<close> entries, and each of them that is not \<open>UNUSED\<close> has a page
  table and a trapframe: no step of a process follows a null pointer to either.\<close>

theorem processes_have_memory:
  assumes "reach (kboot K) (kstep K) s"
  shows "length (procs s) = NPROC \<and> (\<forall>p \<in> set (procs s). state p \<noteq> UNUSED \<longrightarrow> pagetable p \<noteq> None \<and> trapframe p \<noteq> None)"
  using typed.reach_inv [OF assms] by (auto simp: typed_inv_def table_typed_def has_mem_def)

theorem processes_have_memory_witness:
  "length (procs ex_running) = NPROC \<and> state (procs ex_running ! 0) = RUNNING \<and> pagetable (procs ex_running ! 0) \<noteq> None"
proof -
  obtain p where p: "procs ex_running = p # ex_rest" "state p = RUNNING" using ex_running(1) by blast
  with processes_have_memory [OF ex_reach(2)] show ?thesis by auto
qed

end
