(* ===== verification/Mmap.thy ===== *)
theory Mmap
  imports Vma Proc_Inv
begin

text \<open>
  What holds of the mapped regions of a process: the invariant of its table of regions along every sequence of \<open>mmap\<close>,
  \<open>munmap\<close> and page faults (an interpretation of \<open>transition_system\<close>), the outcomes of the calls, and an example
  that shows where two regions can come to overlap.
\<close>

section \<open>The calls of one process\<close>

inductive mstep :: "'v kops \<Rightarrow> 'v mapops \<Rightarrow> nat \<Rightarrow> 'v ks \<Rightarrow> 'v ks \<Rightarrow> bool" for K :: "'v kops" and M :: "'v mapops" and p :: nat where
  mmap: "sys_mmap K M p addr len prot flags f offset s = Inr (a, s') \<Longrightarrow> mstep K M p s s'"
| munmap: "sys_munmap K M p addr len s = Inr (r, s') \<Longrightarrow> mstep K M p s s'"
| fault: "page_fault K M p addr s = Inr (err, s') \<Longrightarrow> mstep K M p s s'"
| outside: "mstep K M p s (s\<lparr>mach := m\<rparr>)"

definition no_regions :: "nat \<Rightarrow> 'v ks \<Rightarrow> bool" where
  "no_regions p s \<longleftrightarrow> p < length (procs s) \<and> length (vmas (procs s ! p)) = VMASIZE \<and> (\<forall>v \<in> set (vmas (procs s ! p)). \<not> v_used v)"

definition regions_ok :: "nat \<Rightarrow> 'v ks \<Rightarrow> bool" where
  "regions_ok p s \<longleftrightarrow> p < length (procs s) \<and> vma_inv (vmas (procs s ! p))"

lemma sys_mmap_no_file: "sys_mmap K M p addr len prot flags None offset s = Inr (a, s') \<Longrightarrow> a = -1 \<and> s' = s"
  by (simp add: sys_mmap_def Let_def split: if_splits option.splits prod.splits)

lemma sys_mmap_refused:
  "mmap_refused M len prot flags f offset (mach s) \<Longrightarrow> sys_mmap K M p addr len prot flags (Some f) offset s = Inr (-1, s)"
  unfolding mmap_refused_def sys_mmap_def Let_def by (elim disjE) simp_all

lemma regions_mmap:
  assumes "regions_ok p s" and "sys_mmap K M p addr len prot flags f offset s = Inr (a, s')"
  shows "regions_ok p s'"
proof (cases f)
  case None
  with assms sys_mmap_no_file show ?thesis by blast
next
  case (Some g)
  show ?thesis
  proof (cases "mmap_refused M len prot flags g offset (mach s)")
    case True
    with sys_mmap_refused [OF True] assms Some show ?thesis by fastforce
  next
    case False
    from sys_mmap_Inr [OF assms(2) [unfolded Some] False] obtain i b m
      where sc: "mmap_scan 0 TRAPFRAME (vmas (procs s ! p)) = Some (i, b)" and pos: "0 < sint (PGROUNDUP len)"
        and a: "a = b - scast (PGROUNDUP len)"
        and s': "s' = (set_proc p (\<lambda>q. q\<lparr>vmas := (vmas q)[i := new_vma a len prot flags g offset]\<rparr>) s)\<lparr>mach := m\<rparr>" by blast
    from assms(1) have "vma_inv (vmas (procs s ! p))" "p < length (procs s)" by (simp_all add: regions_ok_def)
    with new_region(2) [OF this(1) sc pos, of "new_vma a len prot flags g offset"] a s' show ?thesis by (simp add: regions_ok_def new_vma_def)
  qed
qed

lemma regions_munmap:
  assumes "regions_ok p s" and "sys_munmap K M p addr len s = Inr (r, s')"
  shows "regions_ok p s'"
  using sys_munmap_Inr [OF assms(2)] assms(1)
  by (auto simp: regions_ok_def Let_def vma_inv_unused split: option.splits if_splits)

lemma regions_fault:
  assumes "regions_ok p s" and "page_fault K M p addr s = Inr (err, s')"
  shows "regions_ok p s'"
  using page_fault_Inr [OF assms(2)] assms(1) by (auto simp: regions_ok_def)

lemma regions_step: "mstep K M p s s' \<Longrightarrow> regions_ok p s \<Longrightarrow> regions_ok p s'"
proof (induction rule: mstep.induct)
  case (mmap addr len prot flags f offset s a s')
  then show ?case by (rule regions_mmap [rotated])
next
  case (munmap addr len s r s')
  then show ?case by (rule regions_munmap [rotated])
next
  case (fault addr s err s')
  then show ?case by (rule regions_fault [rotated])
qed (simp add: regions_ok_def)

lemma no_regions_ok: "no_regions p s \<Longrightarrow> regions_ok p s"
  by (auto simp: no_regions_def regions_ok_def vma_inv_def)

interpretation regions: transition_system "no_regions p" "mstep K M p" "regions_ok p"
  for K :: "'v kops" and M :: "'v mapops" and p :: nat
  by unfold_locales (blast intro: no_regions_ok regions_step)+

section \<open>An example\<close>

definition ex_mapops :: "u64 mapops" where
  "ex_mapops = \<lparr>m_readable = (\<lambda>f m. True), m_writable = (\<lambda>f m. True), m_begin = (\<lambda>m. m), m_end = (\<lambda>m. m), m_ilock = (\<lambda>f m. Inr m),
     m_iunlock = (\<lambda>f m. Inr m), m_walkaddr = (\<lambda>pt a m. 4096), m_writei = (\<lambda>f u src off n m. Inr (sint n, m)),
     m_readi = (\<lambda>f u dst off n m. Inr (sint n, m)), m_zero = (\<lambda>pa m. m)\<rparr>"

definition ex_vma :: vma where
  "ex_vma = \<lparr>v_addr = 0, v_length = 0, v_prot = 0, v_flags = 0, v_file = 0, v_offset = 0, v_used = False\<rparr>"

text \<open>A kernel with one process that has no regions.\<close>

definition ex_unmapped :: "u64 ks" where
  "ex_unmapped = ex_zero\<lparr>procs := [ex_proc\<lparr>pagetable := Some 0, trapframe := Some (0, ex_tf), state := RUNNING,
     vmas := ex_vma # ex_vma # replicate 14 ex_vma\<rparr>]\<rparr>"

definition ex_set :: "vma list \<Rightarrow> u64 ks" where
  "ex_set vs = set_proc 0 (\<lambda>q. q\<lparr>vmas := vs\<rparr>) ex_unmapped"

lemma ex_set: "vmas (procs (ex_set vs) ! 0) = vs" "set_proc 0 (\<lambda>q. q\<lparr>vmas := (vmas q)[i := v]\<rparr>) (ex_set vs) = ex_set (vs[i := v])"
  "(ex_set vs)\<lparr>mach := 4096\<rparr> = ex_set vs" "mach (ex_set vs) = 4096" "ex_unmapped = ex_set (ex_vma # ex_vma # replicate 14 ex_vma)"
  "length (procs (ex_set vs)) = 1"
  by (auto simp: ex_set_def set_proc_def ex_unmapped_def ex_zero_def)

definition ex_region :: "u64 \<Rightarrow> u32 \<Rightarrow> vma" where
  "ex_region a n = new_vma a n 1 2 7 0"

lemma PGROUNDUP_numerals [simp]: "PGROUNDUP (4096 :: u32) = 4096" "PGROUNDUP (12288 :: u32) = 12288" "PGROUNDUP (274877898752 :: u64) = 274877898752"
  by (simp_all add: PGROUNDUP_def)

lemma ex_mmap:
  assumes "mmap_scan 0 TRAPFRAME vs = Some (i, b)" and "0 < sint (PGROUNDUP n)"
  shows "sys_mmap ex_kops ex_mapops 0 0 n 1 2 (Some 7) 0 (ex_set vs) =
    Inr (b - scast (PGROUNDUP n), ex_set (vs[i := ex_region (b - scast (PGROUNDUP n)) n]))"
proof -
  have r: "\<not> mmap_refused ex_mapops n 1 2 7 0 (mach (ex_set vs))" using assms(2) by (simp add: mmap_refused_def ex_mapops_def)
  show ?thesis unfolding sys_mmap_eq [OF r] ex_set(1) assms(1)
    by (simp add: Let_def ex_kops_def on_mach_def ex_set ex_region_def)
qed

lemma ex_vma_unused [simp]: "\<not> v_used ex_vma"
  by (simp add: ex_vma_def)

lemma ex_region_sel [simp]: "v_used (ex_region a n)" "v_addr (ex_region a n) = a" "v_length (ex_region a n) = PGROUNDUP n"
  by (simp_all add: ex_region_def new_vma_def)

lemma ex_disjoint:
  "disjoint_regions (v # w # replicate n ex_vma) \<longleftrightarrow> (v_used v \<longrightarrow> v_used w \<longrightarrow> apart w v)"
proof -
  let ?xs = "v # w # replicate n ex_vma"
  have u: "i \<le> 1" if i: "i < length ?xs" and u: "v_used (?xs ! i)" for i
  proof (rule ccontr)
    assume "\<not> i \<le> 1"
    then obtain k where k: "i = Suc (Suc k)" by (metis One_nat_def not_less_eq_eq nat.exhaust zero_le)
    then have "?xs ! i = ex_vma" using i by simp
    with u show False by simp
  qed
  show ?thesis
  proof
    assume "disjoint_regions ?xs"
    then show "v_used v \<longrightarrow> v_used w \<longrightarrow> apart w v"
      unfolding disjoint_regions_def by (drule_tac x = 1 in spec) (simp)
  next
    assume a: "v_used v \<longrightarrow> v_used w \<longrightarrow> apart w v"
    show "disjoint_regions ?xs"
      unfolding disjoint_regions_def
    proof (intro allI impI)
      fix i j
      assume i: "i < length ?xs" "j < i" "v_used (?xs ! i)" "v_used (?xs ! j)"
      from u [OF i(1,3)] i(2) have "i = 1 \<and> j = 0" by linarith
      with a i(3,4) show "apart (?xs ! i) (?xs ! j)" by simp
    qed
  qed
qed

lemma ex_mmap_one: "sys_mmap ex_kops ex_mapops 0 0 4096 1 2 (Some 7) 0 ex_unmapped =
    Inr (TRAPFRAME - 4096, ex_set (ex_region (TRAPFRAME - 4096) 4096 # ex_vma # replicate 14 ex_vma))"
  unfolding ex_set(5) using ex_mmap [of "ex_vma # ex_vma # replicate 14 ex_vma" 0 TRAPFRAME 4096] by simp

lemma ex_munmap: "sys_munmap ex_kops ex_mapops 0 (TRAPFRAME - 4096) 4096 (ex_set (ex_region (TRAPFRAME - 4096) 4096 # vs)) =
    Inr (0, ex_set ((ex_region (TRAPFRAME - 4096) 4096)\<lparr>v_used := False\<rparr> # vs))"
  by (simp add: sys_munmap_def ex_set Let_def vma_find_def vma_covers_def PGROUNDDOWN_def PGROUNDUP_numerals(3) ex_region_def new_vma_def ex_kops_def)

text \<open>Two regions of one page are mapped, the first is unmapped, and a region of three pages is mapped in its place: it overlaps the
  second.\<close>

lemma mmap_can_overlap:
  "\<exists>s1 s2 s3 s4 a b c. sys_mmap ex_kops ex_mapops 0 0 4096 1 2 (Some 7) 0 ex_unmapped = Inr (a, s1) \<and>
     sys_mmap ex_kops ex_mapops 0 0 4096 1 2 (Some 7) 0 s1 = Inr (b, s2) \<and>
     sys_munmap ex_kops ex_mapops 0 a 4096 s2 = Inr (0, s3) \<and>
     sys_mmap ex_kops ex_mapops 0 0 12288 1 2 (Some 7) 0 s3 = Inr (c, s4) \<and>
     disjoint_regions (vmas (procs s3 ! 0)) \<and> \<not> disjoint_regions (vmas (procs s4 ! 0))"
proof -
  let ?r = "replicate 14 ex_vma" and ?A = "TRAPFRAME - 4096 :: u64" and ?B = "TRAPFRAME - 12288 :: u64"
  note s1 = ex_mmap_one
  have s2: "sys_mmap ex_kops ex_mapops 0 0 4096 1 2 (Some 7) 0 (ex_set (ex_region ?A 4096 # ex_vma # ?r)) =
      Inr (?B, ex_set (ex_region ?A 4096 # ex_region ?B 4096 # ?r))"
    using ex_mmap [of "ex_region ?A 4096 # ex_vma # ?r" 1 "TRAPFRAME - 8192" 4096] by simp
  note s3 = ex_munmap
  have s4: "sys_mmap ex_kops ex_mapops 0 0 12288 1 2 (Some 7) 0 (ex_set ((ex_region ?A 4096)\<lparr>v_used := False\<rparr> # ex_region ?B 4096 # ?r)) =
      Inr (?B, ex_set (ex_region ?B 12288 # ex_region ?B 4096 # ?r))"
    using ex_mmap [of "(ex_region ?A 4096)\<lparr>v_used := False\<rparr> # ex_region ?B 4096 # ?r" 0 TRAPFRAME 12288] by simp
  have "disjoint_regions ((ex_region ?A 4096)\<lparr>v_used := False\<rparr> # ex_region ?B 4096 # ?r)"
    by (simp add: ex_disjoint)
  moreover have "\<not> disjoint_regions (ex_region ?B 12288 # ex_region ?B 4096 # ?r)"
    by (simp add: ex_disjoint apart_def lo_def hi_def)
  ultimately show ?thesis using s1 s2 s3 s4 by (intro exI conjI) (assumption | simp add: ex_set)+
qed

section \<open>Properties\<close>

lemma find_idx_update: "\<not> P (xs ! i) \<Longrightarrow> \<not> P x \<Longrightarrow> find_idx P (xs[i := x]) = find_idx P xs"
proof (induction xs arbitrary: i)
  case (Cons y xs)
  then show ?case by (cases i) simp_all
qed simp

lemma mmap_region:
  assumes "regions_ok p s" and "sys_mmap K M p addr len prot flags (Some f) offset s = Inr (a, s')"
    and "\<not> mmap_refused M len prot flags f offset (mach s)"
  obtains i m where "find_idx (\<lambda>v. \<not> v_used v) (vmas (procs s ! p)) = Some i"
    and "s' = (set_proc p (\<lambda>q. q\<lparr>vmas := (vmas q)[i := new_vma a len prot flags f offset]\<rparr>) s)\<lparr>mach := m\<rparr>"
    and "vma_inv ((vmas (procs s ! p))[i := new_vma a len prot flags f offset])" and "i < length (vmas (procs s ! p))"
    and "\<forall>j < i. v_used (vmas (procs s ! p) ! j) \<and> hi (new_vma a len prot flags f offset) \<le> lo (vmas (procs s ! p) ! j)"
    and "0 < sint (PGROUNDUP len)"
proof -
  from sys_mmap_Inr [OF assms(2,3)] obtain i b m where *: "mmap_scan 0 TRAPFRAME (vmas (procs s ! p)) = Some (i, b)" "0 < sint (PGROUNDUP len)"
    "a = b - scast (PGROUNDUP len)" "s' = (set_proc p (\<lambda>q. q\<lparr>vmas := (vmas q)[i := new_vma a len prot flags f offset]\<rparr>) s)\<lparr>mach := m\<rparr>" by blast
  from assms(1) have "vma_inv (vmas (procs s ! p))" by (simp add: regions_ok_def)
  note n = new_region [OF this *(1,2), of "new_vma a len prot flags f offset"]
  show thesis
    by (rule that [OF n(1) *(4)]) (use n *(2,3) in \<open>simp_all add: new_vma_def find_idx_Some\<close>)
qed

text \<open>C25: every region a process can come to have by \<open>mmap\<close>, \<open>munmap\<close> and page faults consists of whole pages, is not empty, and lies
  between \<open>2 ^ 37\<close> and the trapframe.\<close>

theorem mapped_regions_bounded:
  assumes "reach (no_regions p) (mstep K M p) s" and "j < length (vmas (procs s ! p))" and "v_used (vmas (procs s ! p) ! j)"
  shows "unat (v_addr (vmas (procs s ! p) ! j)) mod 4096 = 0 \<and> unat (v_length (vmas (procs s ! p) ! j)) mod 4096 = 0 \<and>
    0 < unat (v_length (vmas (procs s ! p) ! j)) \<and> 2 ^ 37 \<le> unat (v_addr (vmas (procs s ! p) ! j)) \<and>
    unat (v_addr (vmas (procs s ! p) ! j)) + unat (v_length (vmas (procs s ! p) ! j)) \<le> unat TRAPFRAME"
proof -
  have "regions_ok p s" by (rule regions.reach_inv [OF assms(1)])
  with assms(2,3) have r: "region_ok j (vmas (procs s ! p) ! j)" and j: "j < 16" by (auto simp: regions_ok_def vma_inv_def)
  note b = region_bounds [OF r]
  have "(2 :: nat) ^ 37 = 137438953472" by simp
  with b(2) j have "2 ^ 37 \<le> lo (vmas (procs s ! p) ! j)" by linarith
  with b region_length(3) [OF r] show ?thesis unfolding TRAPFRAME_nat by (simp add: lo_def hi_def)
qed

lemma ex_reach_one: "reach (no_regions 0) (mstep ex_kops ex_mapops 0) (ex_set (ex_region (TRAPFRAME - 4096) 4096 # ex_vma # replicate 14 ex_vma))"
proof -
  note s1 = ex_mmap_one [unfolded ex_set(5)]
  have "no_regions 0 (ex_set (ex_vma # ex_vma # replicate 14 ex_vma))" by (simp add: no_regions_def ex_set)
  then have "reach (no_regions 0) (mstep ex_kops ex_mapops 0) (ex_set (ex_vma # ex_vma # replicate 14 ex_vma))" by (rule reach.intros)
  then show ?thesis by (rule reach.intros) (rule mstep.mmap [OF s1])
qed

theorem mapped_regions_bounded_witness:
  "\<exists>s. v_used (vmas (procs s ! 0) ! 0) \<and> 2 ^ 37 \<le> unat (v_addr (vmas (procs (s :: u64 ks) ! 0) ! 0))"
  using mapped_regions_bounded [OF ex_reach_one, of 0]
  by (intro exI [of _ "ex_set (ex_region (TRAPFRAME - 4096) 4096 # ex_vma # replicate 14 ex_vma)"] conjI) (simp_all add: ex_set)

text \<open>C26: \<open>mmap\<close> turns down a request exactly when the file, the length, the offset or the access mode is wrong, and then changes
  nothing; otherwise it fills the first free entry with a region of whole pages that lies below all the regions in the entries
  before it, and no other entry changes. The regions stay disjoint when no region is in an entry after the free one.\<close>

theorem sys_mmap_correct:
  assumes ok: "regions_ok p s" and run: "sys_mmap K M p addr len prot flags (Some f) offset s = Inr (a, s')"
  shows "if mmap_refused M len prot flags f offset (mach s) then a = -1 \<and> s' = s
    else \<exists>i m. find_idx (\<lambda>v. \<not> v_used v) (vmas (procs s ! p)) = Some i \<and>
      s' = (set_proc p (\<lambda>q. q\<lparr>vmas := (vmas q)[i := new_vma a len prot flags f offset]\<rparr>) s)\<lparr>mach := m\<rparr> \<and>
      unat a mod 4096 = 0 \<and> unat a + unat (PGROUNDUP len) \<le> unat TRAPFRAME \<and>
      (\<forall>j < i. unat a + unat (PGROUNDUP len) \<le> unat (v_addr (vmas (procs s ! p) ! j))) \<and>
      (disjoint_regions (vmas (procs s ! p)) \<and> (\<forall>v \<in> set (drop i (vmas (procs s ! p))). \<not> v_used v) \<longrightarrow>
        disjoint_regions (vmas (procs s' ! p)))"
proof (cases "mmap_refused M len prot flags f offset (mach s)")
  case True
  with sys_mmap_refused [OF True, of K p addr] run show ?thesis by simp
next
  case False
  let ?vs = "vmas (procs s ! p)" and ?v = "new_vma a len prot flags f offset"
  obtain i m where i: "find_idx (\<lambda>v. \<not> v_used v) ?vs = Some i"
    "s' = (set_proc p (\<lambda>q. q\<lparr>vmas := (vmas q)[i := ?v]\<rparr>) s)\<lparr>mach := m\<rparr>" "vma_inv (?vs[i := ?v])" "i < length ?vs"
    "\<forall>j < i. v_used (?vs ! j) \<and> hi ?v \<le> lo (?vs ! j)" "0 < sint (PGROUNDUP len)" by (rule mmap_region [OF ok run False])
  have "region_ok i ?v" proof -
    have "i < length (?vs[i := ?v])" "v_used (?vs[i := ?v] ! i)" using i(4) by (simp_all add: new_vma_def)
    with i(3) have "region_ok i (?vs[i := ?v] ! i)" unfolding vma_inv_def by blast
    then show ?thesis using i(4) by (simp only: nth_list_update_eq)
  qed
  note b = region_bounds [OF this]
  have vs': "vmas (procs s' ! p) = ?vs[i := ?v]" using ok by (simp add: i(2) regions_ok_def)
  have "disjoint_regions (?vs[i := ?v])" if d: "disjoint_regions ?vs" and after: "\<forall>v \<in> set (drop i ?vs). \<not> v_used v"
    unfolding disjoint_regions_def
  proof (intro allI impI)
    fix k j
    assume k: "k < length (?vs[i := ?v])" "j < k" "v_used (?vs[i := ?v] ! k)" "v_used (?vs[i := ?v] ! j)"
    have "\<not> v_used (?vs ! n)" if "i < n" "n < length ?vs" for n
    proof -
      have "drop i ?vs ! (n - i) = ?vs ! n" "n - i < length (drop i ?vs)" using that by simp_all
      with after show ?thesis by (metis nth_mem)
    qed
    with k have "k \<le> i" by (auto simp: nth_list_update split: if_splits intro: ccontr)
    then show "apart (?vs[i := ?v] ! k) (?vs[i := ?v] ! j)"
      using k d i(4,5) by (cases "k = i") (auto simp: disjoint_regions_def apart_def)
  qed
  with False i b vs' show ?thesis
    by (intro iffD2 [OF if_not_P] exI [of _ i] exI [of _ m] conjI) (simp_all add: lo_def hi_def new_vma_def TRAPFRAME_nat)
qed

theorem sys_mmap_correct_witness:
  "\<exists>a s'. sys_mmap ex_kops ex_mapops 0 0 4096 1 2 (Some 7) 0 ex_unmapped = Inr (a, s') \<and> unat a mod 4096 = 0"
proof -
  note s1 = ex_mmap_one
  have "regions_ok 0 ex_unmapped" by (rule no_regions_ok) (simp add: no_regions_def ex_set)
  moreover have "\<not> mmap_refused ex_mapops 4096 1 2 7 0 (mach ex_unmapped)" by (simp add: mmap_refused_def ex_mapops_def)
  ultimately have "unat (TRAPFRAME - 4096 :: u64) mod 4096 = 0" using sys_mmap_correct [OF _ s1] by (simp only: if_False) blast
  with s1 show ?thesis by (intro exI conjI)
qed




text \<open>A region of two pages stays in use when its pages are unmapped one by one, and when a longer range is unmapped.\<close>

lemma munmap_in_parts:
  fixes A :: u64
  defines "A \<equiv> TRAPFRAME - 8192"
  shows "sys_munmap ex_kops ex_mapops 0 A 4096 (ex_set (ex_region A 8192 # vs)) = Inr (0, ex_set (ex_region A 8192 # vs))"
    and "sys_munmap ex_kops ex_mapops 0 (A + 4096) 4096 (ex_set (ex_region A 8192 # vs)) = Inr (0, ex_set (ex_region A 8192 # vs))"
    and "sys_munmap ex_kops ex_mapops 0 A 12288 (ex_set (ex_region A 8192 # vs)) = Inr (0, ex_set (ex_region A 8192 # vs))"
  unfolding A_def
  by (simp_all add: sys_munmap_def ex_set Let_def vma_find_def vma_covers_def PGROUNDDOWN_def PGROUNDUP_def ex_region_def new_vma_def ex_kops_def)

text \<open>Unmapping what a call of \<open>mmap\<close> has just mapped, with the same length, gives up the region: afterwards every address is found in
  the region it was in before. Only for a shared writable region the call can fail, when it writes the pages back.\<close>

theorem mmap_munmap_roundtrip:
  assumes ok: "regions_ok p s" and map: "sys_mmap K M p addr len prot flags (Some f) offset s = Inr (a, s1)"
    and acc: "\<not> mmap_refused M len prot flags f offset (mach s)" and unmap: "sys_munmap K M p a len s1 = Inr (r, s2)"
  shows "if r = 0 then vma_find x (vmas (procs s2 ! p)) = vma_find x (vmas (procs s ! p))
    else flags AND MAP_SHARED \<noteq> 0 \<and> prot AND PROT_WRITE \<noteq> 0 \<and> procs s2 = procs s1"
proof -
  let ?vs = "vmas (procs s ! p)" and ?v = "new_vma a len prot flags f offset"
  obtain i m where i: "find_idx (\<lambda>v. \<not> v_used v) ?vs = Some i"
    "s1 = (set_proc p (\<lambda>q. q\<lparr>vmas := (vmas q)[i := ?v]\<rparr>) s)\<lparr>mach := m\<rparr>" "vma_inv (?vs[i := ?v])" "i < length ?vs"
    "\<forall>j < i. v_used (?vs ! j) \<and> hi ?v \<le> lo (?vs ! j)" and pos: "0 < sint (PGROUNDUP len)" by (rule mmap_region [OF ok map acc])
  have p: "p < length (procs s)" using ok by (simp add: regions_ok_def)
  then have s1: "vmas (procs s1 ! p) = ?vs[i := ?v]" by (simp add: i(2))
  have r: "region_ok j (?vs[i := ?v] ! j)" if "j < length ?vs" "v_used (?vs[i := ?v] ! j)" for j
    using i(3) that unfolding vma_inv_def by simp
  have v: "v_used ?v" "v_addr ?v = a" "v_length ?v = PGROUNDUP len" "v_flags ?v = flags" "v_prot ?v = prot" by (simp_all add: new_vma_def)
  have rv: "region_ok i ?v" using r [OF i(4)] i(4) v(1) by simp
  have "vma_covers a ?v" using region_length(5) [OF rv] unfolding vma_covers_region [OF rv] by (simp add: v lo_def)
  moreover have "\<not> vma_covers a (?vs[i := ?v] ! j)" if j: "j < i" for j
  proof -
    have "region_ok j (?vs ! j)" using r [of j] i(4,5) j by simp
    from vma_covers_region [OF this, of a] i(5) j region_length(5) [OF rv] show ?thesis by (auto simp: lo_def v)
  qed
  ultimately have find: "vma_find a (?vs[i := ?v]) = Some i" using i(4) by (simp add: vma_find_def find_idx_Some)
  have whole: "whole_region a len ?v"
  proof -
    note l = PGROUNDUP_length [OF pos] and b = region_bounds [OF rv]
    have sl: "unat (scast (PGROUNDUP len) :: u64) = unat (PGROUNDUP len)" by (rule unat_scast_nonneg) (use pos in simp)
    have sn: "unat (scast len :: u64) = unat len" by (rule unat_scast_small) (use l(2) in simp)
    obtain k where k: "unat a = 4096 * k" using b(3) by (auto simp: lo_def v mod_eq_0_iff_dvd)
    have le: "unat a + unat (PGROUNDUP len) \<le> 274877898752" using b(1) by (simp add: hi_def v)
    have "PGROUNDDOWN a = a" unfolding word_unat_eq_iff unat_PGROUNDDOWN k by simp
    moreover have "PGROUNDUP (a + scast len) = a + scast (PGROUNDUP len)"
    proof -
      have s: "unat (a + scast len) = 4096 * k + unat len" "unat (a + scast (PGROUNDUP len)) = 4096 * k + unat (PGROUNDUP len)"
        using le l(2) by (simp_all add: unat_word_ariths sl sn k)
      have "(4096 * k + unat len + 4095) div 4096 = k + (unat len + 4095) div 4096" by (simp add: add.assoc)
      moreover have "unat (PGROUNDUP (a + scast len)) = (4096 * k + unat len + 4095) div 4096 * 4096"
        using unat_PGROUNDUP [of "a + scast len"] le l(2) unfolding s k by simp
      ultimately show ?thesis unfolding word_unat_eq_iff s(2) l(1) by simp
    qed
    ultimately show ?thesis by (simp add: whole_region_def v)
  qed
  have upd: "vma_find x (?vs[i := ?v\<lparr>v_used := False\<rparr>]) = vma_find x ?vs"
    unfolding vma_find_def by (rule find_idx_update) (use i(1) in \<open>auto simp: find_idx_Some vma_covers_def\<close>)
  have p1: "p < length (procs s1)" using p by (simp add: i(2))
  from sys_munmap_Inr [OF unmap] obtain m' where "r = -1 \<and> s2 = s1\<lparr>mach := m'\<rparr> \<and> flags AND MAP_SHARED \<noteq> 0 \<and> prot AND PROT_WRITE \<noteq> 0 \<or>
      r = 0 \<and> s2 = set_proc p (\<lambda>q. q\<lparr>vmas := (vmas q)[i := ?v\<lparr>v_used := False\<rparr>]\<rparr>) (s1\<lparr>mach := m'\<rparr>)"
    unfolding s1 find by (simp add: Let_def i(4) whole v(4,5)) blast
  then show ?thesis using p1 s1 upd by (elim disjE conjE) simp_all
qed

theorem mmap_munmap_roundtrip_witness:
  "\<exists>a s1 s2. sys_mmap ex_kops ex_mapops 0 0 4096 1 2 (Some 7) 0 ex_unmapped = Inr (a, s1) \<and> sys_munmap ex_kops ex_mapops 0 a 4096 s1 = Inr (0, s2) \<and>
     vma_find a (vmas (procs s2 ! 0)) = vma_find a (vmas (procs ex_unmapped ! 0))"
proof -
  have "regions_ok 0 ex_unmapped" by (rule no_regions_ok) (simp add: no_regions_def ex_set)
  moreover have "\<not> mmap_refused ex_mapops 4096 1 2 7 0 (mach ex_unmapped)" by (simp add: mmap_refused_def ex_mapops_def)
  ultimately show ?thesis
    using mmap_munmap_roundtrip [OF _ ex_mmap_one _ ex_munmap, of "TRAPFRAME - 4096"] ex_mmap_one ex_munmap by (intro exI conjI) (assumption+, simp)
qed

text \<open>A page fault in the middle of a page asks for the part of the file from that byte on, not from the start of the page.\<close>

lemma fault_not_rounded: "fault_offset (ex_region 8192 4096) (8192 + 100) = 100"
  by (simp add: fault_offset_def ex_region_def new_vma_def)

end
