(* ===== verification/Trap.thy ===== *)
theory Trap
  imports Vma
begin

text \<open>
  Traps: \<open>HW3/source/trap.c\<close>. The control and status registers a handler reads are the record \<open>csr\<close>; those it writes are part of its result.
  The devices (\<open>uart.c\<close>, \<open>virtio_disk.c\<close>, \<open>plic.c\<close>) and \<open>syscall\<close> (\<open>syscall.c\<close>) are the parameter \<open>trapops\<close>. The messages the handlers print are left out.
\<close>

section \<open>Registers and parameters\<close>

abbreviation SSTATUS_SPP :: u64 where "SSTATUS_SPP \<equiv> 0x100"
abbreviation SSTATUS_SPIE :: u64 where "SSTATUS_SPIE \<equiv> 0x20"
abbreviation UART0_IRQ :: u32 where "UART0_IRQ \<equiv> 10"
abbreviation VIRTIO0_IRQ :: u32 where "VIRTIO0_IRQ \<equiv> 1"

record csr =
  r_scause :: u64
  r_sepc :: u64
  r_stval :: u64
  r_sstatus :: u64
  r_satp :: u64
  r_intr :: bool

record 'v trapops =
  plic_claim :: "'v \<Rightarrow> u32 \<times> 'v"
  plic_complete :: "u32 \<Rightarrow> 'v \<Rightarrow> 'v"
  uartintr :: "'v ks \<Rightarrow> 'v ks"
  virtio_disk_intr :: "'v ks \<Rightarrow> 'v ks res"
  clear_ssip :: "'v \<Rightarrow> 'v"
  t_syscall :: "nat \<Rightarrow> 'v ks \<Rightarrow> 'v ks res"
  a_uservec :: u64
  a_userret :: u64
  a_usertrap :: u64
  a_kernelvec :: u64
  make_satp :: "u64 \<Rightarrow> u64"

section \<open>Interrupts\<close>

definition clockintr :: "nat option \<Rightarrow> 'v ks \<Rightarrow> 'v ks" where
  "clockintr me s = wakeup me (Some Chan_ticks) (s\<lparr>ticks := ticks s + 1\<rparr>)"

text \<open>2 for a timer interrupt, 1 for another device, 0 otherwise.\<close>

definition devintr :: "'v trapops \<Rightarrow> nat \<Rightarrow> u64 \<Rightarrow> 'v ks \<Rightarrow> (nat \<times> 'v ks) res" where
  "devintr T c scause s =
     (if scause AND 0x8000000000000000 \<noteq> 0 \<and> scause AND 0xff = 9 then
        case plic_claim T (mach s) of (irq, m) \<Rightarrow>
          bindE (if irq = UART0_IRQ then Inr (uartintr T (s\<lparr>mach := m\<rparr>))
                 else if irq = VIRTIO0_IRQ then virtio_disk_intr T (s\<lparr>mach := m\<rparr>)
                 else Inr (s\<lparr>mach := m\<rparr>)) (\<lambda>s.
          Inr (1, if irq \<noteq> 0 then s\<lparr>mach := plic_complete T irq (mach s)\<rparr> else s))
      else if scause = 0x8000000000000001 then
        let s = (if c = 0 then clockintr (myproc c s) s else s) in
        Inr (2, s\<lparr>mach := clear_ssip T (mach s)\<rparr>)
      else Inr (0, s))"

section \<open>Traps from user space\<close>

text \<open>What \<open>usertrapret\<close> writes before it jumps to \<open>userret\<close>.\<close>

record sret =
  w_stvec :: u64
  w_sstatus :: u64
  w_sepc :: u64
  w_satp :: u64

definition usertrapret :: "'v kops \<Rightarrow> 'v trapops \<Rightarrow> csr \<Rightarrow> nat \<Rightarrow> nat \<Rightarrow> 'v ks \<Rightarrow> sret \<times> 'v ks" where
  "usertrapret K T R c p s =
     (let s = set_proc p (\<lambda>q. set_tf (\<lambda>t. t\<lparr>kernel_satp := r_satp R, kernel_sp := kstack_va q + PGSIZE,
                kernel_trap := a_usertrap T, kernel_hartid := of_nat c\<rparr>) q) s;
          x = (r_sstatus R AND NOT SSTATUS_SPP) OR SSTATUS_SPIE
      in (\<lparr>w_stvec = TRAMPOLINE + (a_uservec T - a_trampoline K), w_sstatus = x,
           w_sepc = epc (snd (the (trapframe (procs s ! p)))), w_satp = make_satp T (the (pagetable (procs s ! p)))\<rparr>, s))"

text \<open>How \<open>usertrap\<close> ends: back in user space, off the cpu (and back in user space when it runs again), or exited.\<close>

datatype trap_end = To_user sret | Gave_up_cpu | Exited

text \<open>The branches on the cause: \<open>None\<close> where the process exits at once, otherwise \<open>which_dev\<close>.\<close>

definition usertrap_cause :: "'v kops \<Rightarrow> 'v mapops \<Rightarrow> 'v trapops \<Rightarrow> csr \<Rightarrow> nat \<Rightarrow> nat \<Rightarrow> 'v ks \<Rightarrow> (nat option \<times> 'v ks) res" where
  "usertrap_cause K M T R c p s =
     (let s = set_proc p (set_tf (\<lambda>t. t\<lparr>epc := r_sepc R\<rparr>)) s in
      if r_scause R = 8 then
        if killed (procs s ! p) then Inr (None, s)
        else bindE (t_syscall T p (set_proc p (set_tf (\<lambda>t. t\<lparr>epc := epc t + 4\<rparr>)) s)) (\<lambda>s. Inr (Some 0, s))
      else
      bindE (devintr T c (r_scause R) s) (\<lambda>(which_dev, s).
      if which_dev \<noteq> 0 then Inr (Some which_dev, s)
      else if r_scause R = 13 \<or> r_scause R = 15 then
        bindE (page_fault K M p (r_stval R) s) (\<lambda>(err, s). Inr (Some 0, if err then setkilled p s else s))
      else Inr (Some 0, setkilled p s)))"

definition usertrap :: "'v kops \<Rightarrow> 'v mapops \<Rightarrow> 'v trapops \<Rightarrow> senv \<Rightarrow> csr \<Rightarrow> nat \<Rightarrow> nat \<Rightarrow> 'v ks \<Rightarrow> (trap_end \<times> 'v ks) res" where
  "usertrap K M T E R c p s =
     (if r_sstatus R AND SSTATUS_SPP \<noteq> 0 then Inl (Panic ''usertrap: not from user mode'')
      else
      bindE (usertrap_cause K M T R c p s) (\<lambda>(d, s).
      case d of None \<Rightarrow> bindE (exit K E c p (-1) s) (\<lambda>s. Inr (Exited, s))
      | Some which_dev \<Rightarrow>
        if killed (procs s ! p) then bindE (exit K E c p (-1) s) (\<lambda>s. Inr (Exited, s))
        else if which_dev = 2 then bindE (yield E c p s) (\<lambda>s. Inr (Gave_up_cpu, s))
        else case usertrapret K T R c p s of (r, s) \<Rightarrow> Inr (To_user r, s)))"

section \<open>Traps in the kernel\<close>

text \<open>\<open>kerneltrap\<close> restores \<open>sepc\<close> and \<open>sstatus\<close>; the first component says whether the cpu was given up.\<close>

definition kerneltrap :: "'v trapops \<Rightarrow> senv \<Rightarrow> csr \<Rightarrow> nat \<Rightarrow> 'v ks \<Rightarrow> (bool \<times> u64 \<times> u64 \<times> 'v ks) res" where
  "kerneltrap T E R c s =
     (if r_sstatus R AND SSTATUS_SPP = 0 then Inl (Panic ''kerneltrap: not from supervisor mode'')
      else if r_intr R then Inl (Panic ''kerneltrap: interrupts enabled'')
      else
      bindE (devintr T c (r_scause R) s) (\<lambda>(which_dev, s).
      if which_dev = 0 then Inl (Panic ''kerneltrap'')
      else
      bindE (case myproc c s of
               Some p \<Rightarrow> if which_dev = 2 \<and> state (procs s ! p) = RUNNING then bindE (yield E c p s) (\<lambda>s. Inr (True, s)) else Inr (False, s)
             | None \<Rightarrow> Inr (False, s)) (\<lambda>(gave_up, s).
      Inr (gave_up, r_sepc R, r_sstatus R, s))))"

end
