(* ===== verification/Trap_Inv.thy ===== *)
theory Trap_Inv
  imports Trap Mmap
begin

text \<open>
  What traps do to processes: a trap that is no system call is a sequence of steps of the abstract process machine, so that the
  invariants of \<open>Proc_Inv\<close> hold across interrupts and page faults; what a process finds when it is back in user space.
\<close>

section \<open>Handlers that only wake processes\<close>

definition only_wakes :: "'v ks \<Rightarrow> 'v ks \<Rightarrow> bool" where
  "only_wakes s s' \<longleftrightarrow> (\<exists>vs. list_all2 woken (avs (abs_ks s)) vs \<and> abs_ks s' = (abs_ks s)\<lparr>avs := vs\<rparr>)"

text \<open>What the drivers promise: \<open>uartintr\<close> and \<open>virtio_disk_intr\<close> wake processes and do nothing else to them.\<close>

definition drivers_ok :: "'v trapops \<Rightarrow> bool" where
  "drivers_ok T \<longleftrightarrow> (\<forall>s. only_wakes s (uartintr T s) \<and> (\<forall>s'. virtio_disk_intr T s = Inr s' \<longrightarrow> only_wakes s s'))"

lemma only_wakes_same: "abs_ks s' = abs_ks s \<Longrightarrow> only_wakes s s'"
  unfolding only_wakes_def by (intro exI [of _ "avs (abs_ks s)"]) (simp add: list.rel_refl)

lemma only_wakes_trans:
  assumes "only_wakes s s'" and "only_wakes s' s''"
  shows "only_wakes s s''"
proof -
  from assms obtain vs ws where *: "list_all2 woken (avs (abs_ks s)) vs" "abs_ks s' = (abs_ks s)\<lparr>avs := vs\<rparr>"
    "list_all2 woken vs ws" "abs_ks s'' = (abs_ks s)\<lparr>avs := ws\<rparr>" unfolding only_wakes_def by auto
  from *(1,3) have "list_all2 woken (avs (abs_ks s)) ws" using list_all2_trans [of woken woken woken] woken_trans by blast
  with *(4) show ?thesis unfolding only_wakes_def by blast
qed

lemma only_wakes_step: "only_wakes s s' \<Longrightarrow> astep (abs_ks s) (abs_ks s')"
  unfolding only_wakes_def by (auto intro: a_wake)

lemma only_wakes_wakeup: "only_wakes s (wakeup me ch s)"
proof -
  have "list_all2 woken (avs (abs_ks s)) (map view_of (procs (wakeup me ch s)))"
    by (rule list_all2_all_nthI) (auto simp: wakeup_nth wake_one_view)
  then show ?thesis unfolding only_wakes_def by (intro exI conjI) (assumption, simp add: abs_ks_def)
qed

lemma only_wakes_runs:
  assumes "only_wakes s s'" and "runs c p s"
  shows "runs c p s'" and "length (procs s') = length (procs s)"
proof -
  from assms(1) obtain vs where v: "list_all2 woken (avs (abs_ks s)) vs" "abs_ks s' = (abs_ks s)\<lparr>avs := vs\<rparr>"
    unfolding only_wakes_def by blast
  have e: "map view_of (procs s') = vs" "map c_proc (cpus s') = map c_proc (cpus s)" using v(2) by (simp_all add: abs_ks_def)
  show l: "length (procs s') = length (procs s)" using list_all2_lengthD [OF v(1)] e(1) by auto
  have c: "c < length (cpus s)" "p < length (procs s)" "chan (procs s ! p) = None" using assms(2) by (simp_all add: runs_def)
  have lc: "length (cpus s') = length (cpus s)" using arg_cong [OF e(2), of length] by simp
  have "map c_proc (cpus s') ! c = map c_proc (cpus s) ! c" by (simp only: e(2))
  then have m: "myproc c s' = myproc c s" using c lc by (simp add: myproc_def mycpu_def)
  have "woken (view_of (procs s ! p)) (view_of (procs s' ! p))"
    using list_all2_nthD [OF v(1), of p] c l by (simp add: e(1) [symmetric])
  then have "chan (procs s' ! p) = None" using c(3) by (auto simp: woken_def view_of_def)
  with assms(2) m l lc show "runs c p s'" by (simp add: runs_def)
qed

lemma devintr_correct:
  assumes "drivers_ok T" and "devintr T c sc s = Inr (d, s')"
  shows "only_wakes s s'" and "d = 2 \<longleftrightarrow> sc = 0x8000000000000001"
    and "d = 0 \<longleftrightarrow> \<not> (sc AND 0x8000000000000000 \<noteq> 0 \<and> sc AND 0xff = 9) \<and> sc \<noteq> 0x8000000000000001" and "d = 0 \<Longrightarrow> s' = s"
proof -
  have m: "only_wakes s (s\<lparr>mach := m\<rparr>)" for s :: "'a ks" and m by (rule only_wakes_same) simp
  have n: "only_wakes s s' \<Longrightarrow> only_wakes s (s'\<lparr>mach := m\<rparr>)" for s s' :: "'a ks" and m using only_wakes_trans m by blast
  have u: "only_wakes s (uartintr T s)" and v: "virtio_disk_intr T s = Inr s' \<Longrightarrow> only_wakes s s'" for s s' :: "'a ks"
    using assms(1) by (auto simp: drivers_ok_def)
  have k: "only_wakes s (clockintr me s)" for me and s :: "'a ks"
    unfolding clockintr_def by (rule only_wakes_trans [OF _ only_wakes_wakeup]) (rule only_wakes_same, simp add: abs_ks_def)
  consider (ext) "sc AND 0x8000000000000000 \<noteq> 0 \<and> sc AND 0xff = 9" | (timer) "sc = 0x8000000000000001"
    | (other) "\<not> (sc AND 0x8000000000000000 \<noteq> 0 \<and> sc AND 0xff = 9)" "sc \<noteq> 0x8000000000000001" by blast
  then have "only_wakes s s' \<and> (d = 2 \<longleftrightarrow> sc = 0x8000000000000001) \<and>
    (d = 0 \<longleftrightarrow> \<not> (sc AND 0x8000000000000000 \<noteq> 0 \<and> sc AND 0xff = 9) \<and> sc \<noteq> 0x8000000000000001) \<and> (d = 0 \<longrightarrow> s' = s)"
  proof cases
    case ext
    obtain irq m1 where pc: "plic_claim T (mach s) = (irq, m1)" by force
    from ext assms(2) obtain s1 where s1: "(if irq = UART0_IRQ then Inr (uartintr T (s\<lparr>mach := m1\<rparr>))
                 else if irq = VIRTIO0_IRQ then virtio_disk_intr T (s\<lparr>mach := m1\<rparr>)
                 else Inr (s\<lparr>mach := m1\<rparr>)) = Inr s1"
      and r: "d = 1" "s' = (if irq \<noteq> 0 then s1\<lparr>mach := plic_complete T irq (mach s1)\<rparr> else s1)"
      by (auto simp: devintr_def pc bindE_eq_Inr split: if_splits)
    have "only_wakes (s\<lparr>mach := m1\<rparr>) s1" using s1 u v by (auto simp: only_wakes_same split: if_splits)
    then have "only_wakes s s1" using m only_wakes_trans by blast
    then have "only_wakes s s'" using n by (simp add: r)
    moreover from ext have "sc \<noteq> 0x8000000000000001" by auto
    ultimately show ?thesis using ext r by simp
  next
    case timer
    with assms(2) show ?thesis by (cases "c = 0") (auto simp: devintr_def Let_def intro: n k m)
  next
    case other
    with assms(2) show ?thesis by (auto simp: devintr_def intro!: only_wakes_same split: if_splits)
  qed
  then show "only_wakes s s'" "d = 2 \<longleftrightarrow> sc = 0x8000000000000001"
    "d = 0 \<longleftrightarrow> \<not> (sc AND 0x8000000000000000 \<noteq> 0 \<and> sc AND 0xff = 9) \<and> sc \<noteq> 0x8000000000000001" "d = 0 \<Longrightarrow> s' = s" by blast+
qed

lemma usertrap_cause_device:
  assumes "drivers_ok T" and "r_scause R \<noteq> 8" and "runs c p s" and "usertrap_cause K M T R c p s = Inr (d, s')"
  shows "only_wakes s s'" and "\<exists>w. d = Some w \<and> (w = 2 \<longleftrightarrow> r_scause R = 0x8000000000000001)"
proof -
  let ?s = "set_proc p (set_tf (\<lambda>t. t\<lparr>epc := r_sepc R\<rparr>)) s"
  have q: "only_wakes s ?s" by (rule only_wakes_same) (simp add: abs_quiet set_tf_def view_of_def)
  from assms(2,4) obtain w s1 where dv: "devintr T c (r_scause R) ?s = Inr (w, s1)"
    by (auto simp: usertrap_cause_def bindE_eq_Inr)
  note dc = devintr_correct [OF assms(1) dv]
  have k: "only_wakes s1 (setkilled p s1)" for s1 :: "'a ks"
    by (rule only_wakes_same) (simp add: setkilled_def abs_quiet view_of_def)
  have f: "only_wakes s1 s2" "only_wakes s1 (setkilled p s2)" if pf: "page_fault K M p (r_stval R) s1 = Inr (err, s2)" for err and s1 s2 :: "'a ks"
  proof -
    show "only_wakes s1 s2" using page_fault_Inr [OF pf] by (auto intro: only_wakes_same)
    then show "only_wakes s1 (setkilled p s2)" by (rule only_wakes_trans [OF _ k])
  qed
  have "only_wakes s1 s' \<and> d = Some w"
    using assms(2,4) dv by (auto simp: usertrap_cause_def bindE_eq_Inr only_wakes_same intro: k f split: if_splits)
  then show "only_wakes s s'" "\<exists>w. d = Some w \<and> (w = 2 \<longleftrightarrow> r_scause R = 0x8000000000000001)"
    using only_wakes_trans [OF q only_wakes_trans [OF dc(1)]] dc(2) by auto
qed

lemma yield_ends:
  assumes "yield E c p s = Inr s'" and "runs c p s"
  shows "state (procs s' ! p) = RUNNABLE" and "myproc c s' = None"
  using assms by (auto simp: yield_def sched_def set_cpu_def set_proc_def myproc_def mycpu_def runs_def split: if_splits option.splits)

lemma reparent_length [simp]: "length (procs (reparent p s)) = length (procs s)" "cpus (reparent p s) = cpus s"
proof -
  have "length (procs (fold (reparent_visit p) is s)) = length (procs s) \<and> cpus (fold (reparent_visit p) is s) = cpus s" for "is"
    by (induction "is" arbitrary: s) (simp_all add: reparent_visit_def)
  then show "length (procs (reparent p s)) = length (procs s)" "cpus (reparent p s) = cpus s" by (simp_all add: reparent_def)
qed

lemma exit_release_keeps:
  assumes "exit_release K p s = Inr s'"
  shows "length (procs s') = length (procs s) \<and> cpus s' = cpus s"
  using assms by (auto simp: exit_release_def bindE_eq_Inr on_mach_Inr Let_def split: if_splits)

lemma exit_ends:
  assumes "exit K E c p status s = Inr s'" and "runs c p s"
  shows "state (procs s' ! p) = ZOMBIE" and "xstate (procs s' ! p) = status" and "myproc c s' = None"
proof -
  from assms obtain s1 where s1: "exit_release K p s = Inr s1" "exit_zombie E c p status s1 = Inr s'" by (auto simp: exit_def bindE_eq_Inr)
  note k = exit_release_keeps [OF s1(1)]
  with assms(2) have r: "c < length (cpus s1)" "p < length (procs s1)" by (simp_all add: runs_def)
  from s1(2) have "s' = set_cpu c None (set_proc p (\<lambda>q. q\<lparr>xstate := status, state := ZOMBIE\<rparr>)
      (wakeup (Some p) (map_option Chan_proc (parent (procs (reparent p s1) ! p))) (reparent p s1)))"
    by (auto simp: exit_zombie_def Let_def sched_def split: if_splits option.splits)
  with r show "state (procs s' ! p) = ZOMBIE" "xstate (procs s' ! p) = status" "myproc c s' = None"
    by (simp_all add: set_cpu_def myproc_def mycpu_def)
qed

lemma set_proc_keeps:
  assumes "\<And>q. g (f q) = g q"
  shows "g (procs (set_proc i f s) ! j) = g (procs s ! j)"
  using assms by (cases "i < length (procs s)") (simp_all, simp add: set_proc_def list_update_beyond)

lemma usertrapret_keeps:
  assumes "usertrapret K T R c p s = (r, s')"
  shows "abs_ks s' = abs_ks s" and "killed (procs s' ! p) = killed (procs s ! p)" and "length (procs s') = length (procs s)"
proof -
  let ?f = "\<lambda>q. set_tf (\<lambda>t. t\<lparr>kernel_satp := r_satp R, kernel_sp := kstack_va q + PGSIZE,
                kernel_trap := a_usertrap T, kernel_hartid := of_nat c\<rparr>) q"
  have s': "s' = set_proc p ?f s" using assms by (simp add: usertrapret_def Let_def)
  have "view_of (?f q) = view_of q" for q by (simp add: set_tf_def view_of_def)
  then show "abs_ks s' = abs_ks s" unfolding s' by (rule abs_quiet)
  have "killed (?f q) = killed q" for q by (simp add: set_tf_def)
  then show "killed (procs s' ! p) = killed (procs s ! p)" unfolding s' by (rule set_proc_keeps)
  show "length (procs s') = length (procs s)" unfolding s' by (rule set_proc_simps)
qed

section \<open>An example\<close>

definition ex_trapops :: "u64 trapops" where
  "ex_trapops = \<lparr>plic_claim = (\<lambda>m. (10, m)), plic_complete = (\<lambda>i m. m), uartintr = (\<lambda>s. wakeup None (Some (Chan_addr 0)) s),
     virtio_disk_intr = (\<lambda>s. Inr (wakeup None (Some (Chan_addr 4096)) s)), clear_ssip = (\<lambda>m. m), t_syscall = (\<lambda>p s. Inr s),
     a_uservec = 0, a_userret = 0, a_usertrap = 0, a_kernelvec = 0, make_satp = (\<lambda>a. a)\<rparr>"

lemma ex_drivers: "drivers_ok ex_trapops"
  by (simp add: drivers_ok_def ex_trapops_def only_wakes_wakeup)

definition ex_csr :: "u64 \<Rightarrow> u64 \<Rightarrow> u64 \<Rightarrow> csr" where
  "ex_csr cause addr status = \<lparr>r_scause = cause, r_sepc = 8, r_stval = addr, r_sstatus = status, r_satp = 0, r_intr = False\<rparr>"

lemma ex_csr [simp]: "r_scause (ex_csr n a x) = n" "r_stval (ex_csr n a x) = a" "r_sepc (ex_csr n a x) = 8" "r_sstatus (ex_csr n a x) = x"
  "r_intr (ex_csr n a x) = False" "r_satp (ex_csr n a x) = 0"
  by (simp_all add: ex_csr_def)

text \<open>The process with one region, running on cpu 0.\<close>

definition ex_user :: "u64 ks" where
  "ex_user = set_cpu 0 (Some 0) (ex_set (ex_region (TRAPFRAME - 4096) 4096 # ex_vma # replicate 14 ex_vma))"

lemma ex_user: "runs 0 0 ex_user" "state (procs ex_user ! 0) = RUNNING" "killed (procs ex_user ! 0) = False" "length (procs ex_user) = 1"
  "trapframe (procs ex_user ! 0) = Some (0, ex_tf)" "vmas (procs ex_user ! 0) = ex_region (TRAPFRAME - 4096) 4096 # ex_vma # replicate 14 ex_vma"
  "length (cpus ex_user) = 8" "myproc 0 ex_user = Some 0"
  by (simp_all add: ex_user_def runs_def set_cpu_def myproc_def mycpu_def ex_set_def set_proc_def ex_unmapped_def ex_zero_def ex_proc_def)

lemma ex_timer: "\<exists>s'. usertrap ex_kops ex_mapops ex_trapops ex_env (ex_csr 0x8000000000000001 0 0) 0 0 ex_user = Inr (Gave_up_cpu, s')"
  using ex_user by (simp add: usertrap_def usertrap_cause_def devintr_def ex_csr_def bindE_eq_Inr yield_def sched_def ex_env_def Let_def clockintr_def
    wakeup_nth wake_one_def set_tf_def myproc_def mycpu_def ex_trapops_def)

section \<open>Properties\<close>

text \<open>C28: a trap from user space that is no system call (an interrupt, a page fault, any other exception) is a sequence of steps of the
  abstract process machine, so that it keeps the invariants of the kernel. The process is back in user space only if it has not
  been killed, gives up the cpu exactly at a timer interrupt, and otherwise has exited with status -1.\<close>

theorem usertrap_refines:
  assumes drv: "drivers_ok T" and cause: "r_scause R \<noteq> 8" and on: "runs c p s" and run: "usertrap K M T E R c p s = Inr (e, s')"
  shows "astep\<^sup>*\<^sup>* (abs_ks s) (abs_ks s') \<and>
    (case e of To_user r \<Rightarrow> runs c p s' \<and> \<not> killed (procs s' ! p) \<and> r_scause R \<noteq> 0x8000000000000001
     | Gave_up_cpu \<Rightarrow> r_scause R = 0x8000000000000001 \<and> state (procs s' ! p) = RUNNABLE \<and> myproc c s' = None
     | Exited \<Rightarrow> state (procs s' ! p) = ZOMBIE \<and> xstate (procs s' ! p) = -1 \<and> myproc c s' = None)"
proof -
  from run obtain d s1 where cs: "usertrap_cause K M T R c p s = Inr (d, s1)" by (auto simp: usertrap_def bindE_eq_Inr split: if_splits)
  note w = usertrap_cause_device [OF drv cause on cs]
  from w(2) obtain n where n: "d = Some n" "n = 2 \<longleftrightarrow> r_scause R = 0x8000000000000001" by blast
  note r1 = only_wakes_runs [OF w(1) on]
  have st: "astep (abs_ks s) (abs_ks s1)" by (rule only_wakes_step [OF w(1)])
  consider (exit) "exit K E c p (-1) s1 = Inr s'" "e = Exited" | (yield) "yield E c p s1 = Inr s'" "e = Gave_up_cpu" "n = 2"
    | (ret) r where "usertrapret K T R c p s1 = (r, s')" "e = To_user r" "\<not> killed (procs s1 ! p)" "n \<noteq> 2"
    using run cs n by (auto simp: usertrap_def bindE_eq_Inr split: if_splits prod.splits)
  then show ?thesis
  proof cases
    case exit
    have "astep (abs_ks s1) (abs_ks s')" by (rule exit_refines [OF exit(1) r1(1)])
    with st exit exit_ends [OF exit(1) r1(1)] show ?thesis by (simp add: converse_rtranclp_into_rtranclp)
  next
    case yield
    have "kstep K s1 s'" by (rule kstep.yield [OF r1(1) yield(1)])
    then have "astep (abs_ks s1) (abs_ks s')" by (rule kstep_astep)
    with st yield n yield_ends [OF yield(1) r1(1)] show ?thesis by (simp add: converse_rtranclp_into_rtranclp)
  next
    case ret
    note u = usertrapret_keeps [OF ret(1)]
    have "runs c p s'" by (rule only_wakes_runs [OF only_wakes_same [OF u(1)] r1(1)])
    with st ret n u show ?thesis by (simp add: r_into_rtranclp)
  qed
qed

theorem usertrap_refines_witness:
  "\<exists>s'. usertrap ex_kops ex_mapops ex_trapops ex_env (ex_csr 0x8000000000000001 0 0) 0 0 ex_user = Inr (Gave_up_cpu, s') \<and>
     astep\<^sup>*\<^sup>* (abs_ks ex_user) (abs_ks s') \<and> myproc 0 s' = None"
proof -
  from ex_timer obtain s' where s': "usertrap ex_kops ex_mapops ex_trapops ex_env (ex_csr 0x8000000000000001 0 0) 0 0 ex_user = Inr (Gave_up_cpu, s')" by blast
  from usertrap_refines [OF ex_drivers _ ex_user(1) s'] s' show ?thesis by (simp add: ex_csr_def)
qed

lemma usertrap_cause_fault:
  assumes cause: "r_scause R = 13 \<or> r_scause R = 15"
  shows "usertrap_cause K M T R c p s =
    bindE (page_fault K M p (r_stval R) (set_proc p (set_tf (\<lambda>t. t\<lparr>epc := r_sepc R\<rparr>)) s)) (\<lambda>(err, s). Inr (Some 0, if err then setkilled p s else s))"
proof -
  have "devintr T c (r_scause R) s' = Inr (0, s')" for s' :: "'a ks" using cause by (auto simp: devintr_def)
  with cause show ?thesis by (auto simp: usertrap_cause_def Let_def)
qed

text \<open>C29: a load or store fault at an address that no region contains is a panic; otherwise, if the process has not been killed, a page
  is mapped at the faulting address with the permissions of the region and the instruction is executed again, or the process is killed
  because the page could not be allocated, read or mapped.\<close>

theorem usertrap_page_fault:
  assumes cause: "r_scause R = 13 \<or> r_scause R = 15" and on: "runs c p s" and tf: "trapframe (procs s ! p) = Some tf"
    and user: "r_sstatus R AND SSTATUS_SPP = 0"
  shows "if vma_find (r_stval R) (vmas (procs s ! p)) = None
    then usertrap K M T E R c p s = Inl (Panic ''page fault trap: no matching VMA'')
    else \<forall>e s'. usertrap K M T E R c p s = Inr (e, s') \<longrightarrow>
      (case e of To_user r \<Rightarrow> \<not> killed (procs s ! p) \<and> w_sepc r = r_sepc R \<and>
          (\<exists>pa m. mappages K (the (pagetable (procs s ! p))) (r_stval R) PGSIZE pa
             (fault_perm (v_prot (vmas (procs s ! p) ! the (vma_find (r_stval R) (vmas (procs s ! p)))))) m = Inr (0, mach s'))
       | Exited \<Rightarrow> state (procs s' ! p) = ZOMBIE
       | Gave_up_cpu \<Rightarrow> False)"
proof -
  let ?s = "set_proc p (set_tf (\<lambda>t. t\<lparr>epc := r_sepc R\<rparr>)) s" and ?vs = "vmas (procs s ! p)"
  have p: "p < length (procs s)" using on by (simp add: runs_def)
  have q: "vmas (procs ?s ! p) = ?vs" "pagetable (procs ?s ! p) = pagetable (procs s ! p)" "killed (procs ?s ! p) = killed (procs s ! p)"
    "trapframe (procs ?s ! p) = Some (fst tf, (snd tf)\<lparr>epc := r_sepc R\<rparr>)"
    using p tf by (simp_all add: set_tf_def case_prod_beta)
  note ut = usertrap_def [of K M T E R c p s, unfolded usertrap_cause_fault [OF cause], simplified user]
  show ?thesis
  proof (cases "vma_find (r_stval R) ?vs")
    case None
    then have "page_fault K M p (r_stval R) ?s = Inl (Panic ''page fault trap: no matching VMA'')" by (simp add: page_fault_def Let_def q)
    with None show ?thesis by (simp add: ut)
  next
    case (Some i)
    have key: "case e of To_user r \<Rightarrow> \<not> killed (procs s ! p) \<and> w_sepc r = r_sepc R \<and>
          (\<exists>pa m. mappages K (the (pagetable (procs s ! p))) (r_stval R) PGSIZE pa (fault_perm (v_prot (?vs ! i))) m = Inr (0, mach s'))
       | Exited \<Rightarrow> state (procs s' ! p) = ZOMBIE | Gave_up_cpu \<Rightarrow> False" if run: "usertrap K M T E R c p s = Inr (e, s')" for e s'
    proof -
      from run obtain err s1 where pf: "page_fault K M p (r_stval R) ?s = Inr (err, s1)" by (auto simp: ut bindE_eq_Inr)
      from page_fault_Inr [OF pf] Some obtain m where m: "s1 = ?s\<lparr>mach := m\<rparr>"
        "err \<or> (\<exists>pa m1. mappages K (the (pagetable (procs s ! p))) (r_stval R) PGSIZE pa (fault_perm (v_prot (?vs ! i))) m1 = Inr (0, m))"
        unfolding q by auto
      let ?s2 = "if err then setkilled p s1 else s1"
      have "abs_ks ?s2 = abs_ks s" by (simp add: m(1) setkilled_def abs_quiet set_tf_def view_of_def)
      then have r2: "runs c p ?s2" by (rule only_wakes_runs(1) [OF only_wakes_same on])
      consider (exit) "exit K E c p (-1) ?s2 = Inr s'" "e = Exited"
        | (ret) r where "usertrapret K T R c p ?s2 = (r, s')" "e = To_user r" "\<not> killed (procs ?s2 ! p)"
        using run pf by (auto simp: ut bindE_eq_Inr split: if_splits prod.splits)
      then show ?thesis
      proof cases
        case exit
        with exit_ends(1) [OF exit(1) r2] show ?thesis by simp
      next
        case ret
        then have e: "\<not> err" using p by (auto simp: setkilled_def m(1))
        with ret have u: "usertrapret K T R c p s1 = (r, s')" "\<not> killed (procs s1 ! p)" by simp_all
        then have "mach s' = m" by (auto simp: usertrapret_def Let_def m(1))
        moreover have "\<not> killed (procs s ! p)" using u(2) q(3) by (simp add: m(1))
        moreover have "w_sepc r = r_sepc R" using u(1) p tf by (auto simp: usertrapret_def Let_def m(1) set_tf_def case_prod_beta)
        ultimately show ?thesis using m(2) e ret(2) by auto
      qed
    qed
    show ?thesis unfolding Some option.sel by (simp only: option.distinct if_False) (intro allI impI key)
  qed
qed

theorem usertrap_page_fault_witness:
  "\<exists>r s'. usertrap ex_kops ex_mapops ex_trapops ex_env (ex_csr 13 (TRAPFRAME - 4000) 0) 0 0 ex_user = Inr (To_user r, s') \<and> w_sepc r = 8"
proof -
  let ?R = "ex_csr 13 (TRAPFRAME - 4000) 0"
  have c: "r_scause ?R = 13 \<or> r_scause ?R = 15" "r_sstatus ?R AND SSTATUS_SPP = 0" by simp_all
  have f: "vma_find (r_stval ?R) (vmas (procs ex_user ! 0)) = Some 0" by (simp add: ex_user vma_find_def vma_covers_def)
  let ?s = "set_proc 0 (set_tf (\<lambda>t. t\<lparr>epc := r_sepc ?R\<rparr>)) ex_user"
  have "vmas (procs ?s ! 0) = vmas (procs ex_user ! 0)" "killed (procs ?s ! 0) = False" by (simp_all add: set_proc_keeps set_tf_def ex_user)
  then have "page_fault ex_kops ex_mapops 0 (r_stval ?R) ?s = Inr (False, ?s\<lparr>mach := mach ?s + 4096\<rparr>)" "\<not> killed (procs ?s ! 0)"
    using f by (simp_all add: page_fault_def ex_kops_def ex_mapops_def)
  then have "\<exists>r s'. usertrap ex_kops ex_mapops ex_trapops ex_env ?R 0 0 ex_user = Inr (To_user r, s')"
    unfolding usertrap_def usertrap_cause_fault [OF c(1)] by (simp add: usertrapret_def Let_def)
  then obtain r s' where run: "usertrap ex_kops ex_mapops ex_trapops ex_env ?R 0 0 ex_user = Inr (To_user r, s')" by blast
  from usertrap_page_fault [OF c(1) ex_user(1,5) c(2), of ex_kops ex_mapops ex_trapops ex_env] run f
  have "w_sepc r = r_sepc ?R" by simp
  with run show ?thesis by simp
qed

lemma sstatus_bits:
  fixes x :: u64
  shows "(x AND NOT SSTATUS_SPP OR SSTATUS_SPIE) AND SSTATUS_SPP = 0" and "(x AND NOT SSTATUS_SPP OR SSTATUS_SPIE) AND SSTATUS_SPIE = SSTATUS_SPIE"
  by (simp_all add: bit.conj_disj_distrib2 and.assoc)

text \<open>C30: whatever the trap, a process that is back in user space has not been killed, is in user mode with interrupts enabled, continues at
  the program counter in its trapframe, and its next trap will find this cpu, its own kernel stack and \<open>usertrap\<close> in the trapframe.\<close>

theorem usertrap_to_user:
  assumes run: "usertrap K M T E R c p s = Inr (To_user r, s')"
  shows "\<not> killed (procs s' ! p) \<and> w_sstatus r AND SSTATUS_SPP = 0 \<and> w_sstatus r AND SSTATUS_SPIE = SSTATUS_SPIE \<and>
    r_sstatus R AND SSTATUS_SPP = 0 \<and> w_sepc r = epc (snd (the (trapframe (procs s' ! p)))) \<and>
    (p < length (procs s') \<and> trapframe (procs s' ! p) \<noteq> None \<longrightarrow>
      (let t = snd (the (trapframe (procs s' ! p))) in kernel_hartid t = of_nat c \<and> kernel_sp t = kstack_va (procs s' ! p) + PGSIZE \<and>
         kernel_trap t = a_usertrap T \<and> kernel_satp t = r_satp R))"
proof -
  from run obtain s1 where s1: "usertrapret K T R c p s1 = (r, s')" "\<not> killed (procs s1 ! p)" and spp: "r_sstatus R AND SSTATUS_SPP = 0"
    by (auto simp: usertrap_def bindE_eq_Inr split: if_splits option.splits prod.splits)
  from s1(1) have "w_sstatus r = r_sstatus R AND NOT SSTATUS_SPP OR SSTATUS_SPIE" and "w_sepc r = epc (snd (the (trapframe (procs s' ! p))))"
    by (auto simp: usertrapret_def Let_def)
  moreover have "let t = snd (the (trapframe (procs s' ! p))) in kernel_hartid t = of_nat c \<and> kernel_sp t = kstack_va (procs s' ! p) + PGSIZE \<and>
         kernel_trap t = a_usertrap T \<and> kernel_satp t = r_satp R" if "p < length (procs s')" "trapframe (procs s' ! p) \<noteq> None"
    using s1(1) that by (auto simp: usertrapret_def Let_def set_tf_def)
  ultimately show ?thesis using s1(2) usertrapret_keeps(2) [OF s1(1)] sstatus_bits spp by simp
qed

theorem usertrap_to_user_witness:
  "\<exists>r s'. usertrap ex_kops ex_mapops ex_trapops ex_env (ex_csr 8 0 0) 0 0 ex_user = Inr (To_user r, s') \<and> w_sstatus r AND SSTATUS_SPP = 0"
proof -
  have "\<exists>r s'. usertrap ex_kops ex_mapops ex_trapops ex_env (ex_csr 8 0 0) 0 0 ex_user = Inr (To_user r, s')"
    using ex_user by (simp add: usertrap_def usertrap_cause_def ex_csr_def Let_def set_tf_def ex_trapops_def usertrapret_def)
  then obtain r s' where run: "usertrap ex_kops ex_mapops ex_trapops ex_env (ex_csr 8 0 0) 0 0 ex_user = Inr (To_user r, s')" by blast
  from usertrap_to_user [OF this] run show ?thesis by auto
qed

lemma only_wakes_running:
  assumes "only_wakes s s'" and "p < length (procs s)"
  shows "state (procs s' ! p) = RUNNING \<longleftrightarrow> state (procs s ! p) = RUNNING"
proof -
  from assms(1) obtain vs where v: "list_all2 woken (avs (abs_ks s)) vs" "map view_of (procs s') = vs"
    unfolding only_wakes_def by (auto simp: abs_ks_def)
  have "woken (view_of (procs s ! p)) (view_of (procs s' ! p))"
    using list_all2_nthD [OF v(1), of p] assms(2) list_all2_lengthD [OF v(1)] v(2) by auto
  then show ?thesis by (auto simp: woken_def view_of_def)
qed

text \<open>C31: a trap in the kernel with the wrong mode, with interrupts enabled or with an unknown cause is a panic; any other one returns to
  where it came from with the saved registers, is a sequence of steps of the abstract process machine, and gives up the cpu exactly
  when it is a timer interrupt and the process of the cpu is running.\<close>

theorem kerneltrap_correct:
  assumes drv: "drivers_ok T" and on: "runs c p s"
  shows "if r_sstatus R AND SSTATUS_SPP = 0 \<or> r_intr R \<or> (\<not> (r_scause R AND 0x8000000000000000 \<noteq> 0 \<and> r_scause R AND 0xff = 9) \<and>
      r_scause R \<noteq> 0x8000000000000001) then \<exists>msg. kerneltrap T E R c s = Inl (Panic msg)
    else \<forall>g pc st s'. kerneltrap T E R c s = Inr (g, pc, st, s') \<longrightarrow>
      pc = r_sepc R \<and> st = r_sstatus R \<and> astep\<^sup>*\<^sup>* (abs_ks s) (abs_ks s') \<and>
      (g \<longleftrightarrow> r_scause R = 0x8000000000000001 \<and> state (procs s ! p) = RUNNING) \<and>
      (if g then state (procs s' ! p) = RUNNABLE \<and> myproc c s' = None else runs c p s')"
proof (cases "r_sstatus R AND SSTATUS_SPP = 0 \<or> r_intr R \<or> (\<not> (r_scause R AND 0x8000000000000000 \<noteq> 0 \<and> r_scause R AND 0xff = 9) \<and>
      r_scause R \<noteq> 0x8000000000000001)")
  case True
  then have "\<exists>msg. kerneltrap T E R c s = Inl (Panic msg)" by (auto simp: kerneltrap_def devintr_def)
  with True show ?thesis by simp
next
  case False
  have key: "pc = r_sepc R \<and> st = r_sstatus R \<and> astep\<^sup>*\<^sup>* (abs_ks s) (abs_ks s') \<and>
      (g \<longleftrightarrow> r_scause R = 0x8000000000000001 \<and> state (procs s ! p) = RUNNING) \<and>
      (if g then state (procs s' ! p) = RUNNABLE \<and> myproc c s' = None else runs c p s')"
    if run: "kerneltrap T E R c s = Inr (g, pc, st, s')" for g pc st s'
  proof -
    from run obtain d s1 where dv: "devintr T c (r_scause R) s = Inr (d, s1)" by (auto simp: kerneltrap_def bindE_eq_Inr split: if_splits)
    note dc = devintr_correct [OF drv dv]
    note r1 = only_wakes_runs [OF dc(1) on]
    have me: "myproc c s1 = Some p" and p: "p < length (procs s)" using r1(1) on by (simp_all add: runs_def)
    have st1: "astep (abs_ks s) (abs_ks s1)" by (rule only_wakes_step [OF dc(1)])
    consider (yield) "yield E c p s1 = Inr s'" "g" "d = 2" "state (procs s1 ! p) = RUNNING"
      | (stay) "s' = s1" "\<not> g" "\<not> (d = 2 \<and> state (procs s1 ! p) = RUNNING)"
      using run dv me by (auto simp: kerneltrap_def bindE_eq_Inr split: if_splits)
    moreover have "pc = r_sepc R" "st = r_sstatus R" using run dv by (auto simp: kerneltrap_def bindE_eq_Inr split: if_splits)
    ultimately show ?thesis
    proof cases
      case yield
      have "kstep (undefined :: 'a kops) s1 s'" by (rule kstep.yield [OF r1(1) yield(1)])
      then have "astep (abs_ks s1) (abs_ks s')" by (rule kstep_astep)
      with st1 have "astep\<^sup>*\<^sup>* (abs_ks s) (abs_ks s')" by (simp add: converse_rtranclp_into_rtranclp)
      with yield \<open>pc = r_sepc R\<close> \<open>st = r_sstatus R\<close> dc(2) yield_ends [OF yield(1) r1(1)] only_wakes_running [OF dc(1) p] show ?thesis by simp
    next
      case stay
      with \<open>pc = r_sepc R\<close> \<open>st = r_sstatus R\<close> st1 dc(2) r1 only_wakes_running [OF dc(1) p] show ?thesis by auto
    qed
  qed
  show ?thesis unfolding if_not_P [OF False] by (intro allI impI key)
qed

theorem kerneltrap_correct_witness:
  "\<exists>s'. kerneltrap ex_trapops ex_env (ex_csr 0x8000000000000001 0 256) 0 ex_user = Inr (True, 8, 256, s') \<and> myproc 0 s' = None"
proof -
  let ?R = "ex_csr 0x8000000000000001 0 256"
  have "\<exists>s'. kerneltrap ex_trapops ex_env ?R 0 ex_user = Inr (True, 8, 256, s')"
    using ex_user by (simp add: kerneltrap_def devintr_def yield_def sched_def ex_env_def Let_def clockintr_def wakeup_nth wake_one_def
      myproc_def mycpu_def ex_trapops_def)
  then obtain s' where run: "kerneltrap ex_trapops ex_env ?R 0 ex_user = Inr (True, 8, 256, s')" by blast
  from kerneltrap_correct [OF ex_drivers ex_user(1), of ?R ex_env] run show ?thesis by auto
qed

end
