(* ===== verification/Game.thy ===== *)
theory Game
  imports Prelude
begin

text \<open>
  The game of \<open>HW2/source/hw2.cpp\<close>. The record \<open>game\<close> holds its global variables. The body of a thread's loop, from
  \<open>pthread_mutex_lock\<close> to \<open>pthread_mutex_unlock\<close>, is one function; a thread first reads \<open>game_status_code\<close> without the lock, so that the
  step relation has a step for the test of the loop and one for its body, and interleaves the steps of all threads. A write
  outside \<open>map_grid\<close> is \<open>Undefined\<close>. What \<open>rand()\<close> returns is an argument; the terminal (\<open>kbhit\<close>, \<open>termios\<close>) is modelled in \<open>Game_Term\<close>, and the delays are left out:
  a key may come at any time.
\<close>

section \<open>State\<close>

abbreviation ROW :: int where "ROW \<equiv> 17"
abbreviation COLUMN :: int where "COLUMN \<equiv> 49"
abbreviation NUM_WALLS :: nat where "NUM_WALLS \<equiv> 6"
abbreviation NUM_GOLD :: nat where "NUM_GOLD \<equiv> 6"
abbreviation HORI_LINE :: char where "HORI_LINE \<equiv> CHR ''-''"
abbreviation VERT_LINE :: char where "VERT_LINE \<equiv> CHR ''|''"
abbreviation CORNER :: char where "CORNER \<equiv> CHR ''+''"
abbreviation ADVENTURER :: char where "ADVENTURER \<equiv> CHR ''0''"
abbreviation WALL_CHAR :: char where "WALL_CHAR \<equiv> CHR ''=''"
abbreviation GOLD_CHAR :: char where "GOLD_CHAR \<equiv> CHR ''$''"
abbreviation EMPTY_CHAR :: char where "EMPTY_CHAR \<equiv> CHR '' ''"
abbreviation NUL :: char where "NUL \<equiv> CHR 0x00"

datatype game_status = G_RUNNING | G_WON | G_LOST | G_QUIT

record position =
  row :: int
  col :: int

record wall =
  w_pos :: position
  w_direction :: int

record gold =
  g_pos :: position
  g_direction :: int
  g_collected :: bool

record game =
  player_x :: int
  player_y :: int
  map_grid :: "char list list"
  game_status_code :: game_status
  shards_remaining :: int
  walls :: "wall list"
  golds :: "gold list"

text \<open>\<open>map_grid[r][c]\<close> as a value and as the target of assignments.\<close>

definition on_map :: "int \<Rightarrow> int \<Rightarrow> bool" where
  "on_map r c \<longleftrightarrow> 0 \<le> r \<and> r < ROW \<and> 0 \<le> c \<and> c < COLUMN + 1"

definition get_cell :: "int \<Rightarrow> int \<Rightarrow> game \<Rightarrow> char res" where
  "get_cell r c g = (if on_map r c then Inr (map_grid g ! nat r ! nat c) else Inl (Undefined ''map_grid''))"

definition put_cell :: "int \<Rightarrow> int \<Rightarrow> char \<Rightarrow> game \<Rightarrow> game res" where
  "put_cell r c ch g =
     (if on_map r c then Inr (g\<lparr>map_grid := (map_grid g)[nat r := (map_grid g ! nat r)[nat c := ch]]\<rparr>)
      else Inl (Undefined ''map_grid''))"

fun put_cells :: "(int \<times> int \<times> char) list \<Rightarrow> game \<Rightarrow> game res" where
  "put_cells [] g = Inr g"
| "put_cells ((r, c, ch) # ws) g = bindE (put_cell r c ch g) (put_cells ws)"

section \<open>Setting up\<close>

text \<open>The assignments of \<open>init_map\<close>, in their order.\<close>

definition init_map :: "game \<Rightarrow> game res" where
  "init_map g =
     bindE (put_cells (map (\<lambda>(i, j). (i, j, EMPTY_CHAR)) (List.product [0..ROW - 1] [0..COLUMN - 1])
       @ concat (map (\<lambda>j. [(0, j, HORI_LINE), (ROW - 1, j, HORI_LINE)]) [0..COLUMN - 1])
       @ concat (map (\<lambda>i. [(i, 0, VERT_LINE), (i, COLUMN - 1, VERT_LINE)]) [0..ROW - 1])
       @ [(0, 0, CORNER), (0, COLUMN - 1, CORNER), (ROW - 1, 0, CORNER), (ROW - 1, COLUMN - 1, CORNER)]) g) (\<lambda>g.
     let g = g\<lparr>player_x := 8, player_y := 24\<rparr> in
     bindE (put_cell (player_x g) (player_y g) ADVENTURER g)
       (put_cells (map (\<lambda>i. (i, COLUMN, NUL)) [0..ROW - 1])))"

definition wall_rows :: "int list" where
  "wall_rows = [2, 4, 6, 10, 12, 14]"

definition gold_rows :: "int list" where
  "gold_rows = [1, 3, 5, 11, 13, 15]"

text \<open>\<open>rnd i\<close> is what the \<open>i\<close>-th call of \<open>rand()\<close> returns, which is not negative.\<close>

definition start_wall :: "(nat \<Rightarrow> nat) \<Rightarrow> nat \<Rightarrow> wall" where
  "start_wall rnd i = \<lparr>w_pos = \<lparr>row = wall_rows ! i, col = int (rnd i) mod (COLUMN - 15 - 2) + 1\<rparr>, w_direction = (if i mod 2 = 0 then 1 else -1)\<rparr>"

definition start_cells :: "wall \<Rightarrow> (int \<times> int \<times> char) list" where
  "start_cells w = concat (map (\<lambda>j. let current_col = col (w_pos w) + j in
     if 1 \<le> current_col \<and> current_col < COLUMN - 1 then [(row (w_pos w), current_col, WALL_CHAR)] else []) [0..14])"

fun init_walls_from :: "(nat \<Rightarrow> nat) \<Rightarrow> nat list \<Rightarrow> game \<Rightarrow> game res" where
  "init_walls_from rnd [] g = Inr g"
| "init_walls_from rnd (i # is) g =
     bindE (put_cells (start_cells (start_wall rnd i)) (g\<lparr>walls := (walls g)[i := start_wall rnd i]\<rparr>)) (init_walls_from rnd is)"

definition init_walls :: "(nat \<Rightarrow> nat) \<Rightarrow> game \<Rightarrow> game res" where
  "init_walls rnd = init_walls_from rnd [0..<NUM_WALLS]"

text \<open>The search for an empty cell of the row, over the columns \<open>js\<close>.\<close>

fun find_empty :: "nat \<Rightarrow> int list \<Rightarrow> game \<Rightarrow> game res" where
  "find_empty i [] g = Inr g"
| "find_empty i (j # js) g =
     (let r = row (g_pos (golds g ! i)) in
      bindE (get_cell r j g) (\<lambda>ch.
      if ch = EMPTY_CHAR then put_cell r j GOLD_CHAR (g\<lparr>golds := (golds g)[i := (golds g ! i)\<lparr>g_pos := \<lparr>row = r, col = j\<rparr>\<rparr>]\<rparr>)
      else find_empty i js g))"

definition start_gold :: "(nat \<Rightarrow> nat) \<Rightarrow> nat \<Rightarrow> gold" where
  "start_gold rnd i = \<lparr>g_pos = \<lparr>row = gold_rows ! i, col = int (rnd (2 * i + 1)) mod (COLUMN - 2) + 1\<rparr>,
     g_direction = (if rnd (2 * i) mod 2 \<noteq> 0 then 1 else -1), g_collected = False\<rparr>"

definition place_gold :: "nat \<Rightarrow> game \<Rightarrow> game res" where
  "place_gold i g =
     (let p = g_pos (golds g ! i) in
      bindE (get_cell (row p) (col p) g) (\<lambda>ch.
      if ch = EMPTY_CHAR then put_cell (row p) (col p) GOLD_CHAR g else find_empty i [1..COLUMN - 2] g))"

fun init_golds_from :: "(nat \<Rightarrow> nat) \<Rightarrow> nat list \<Rightarrow> game \<Rightarrow> game res" where
  "init_golds_from rnd [] g = Inr g"
| "init_golds_from rnd (i # is) g =
     bindE (place_gold i (g\<lparr>golds := (golds g)[i := start_gold rnd i]\<rparr>)) (init_golds_from rnd is)"

definition init_golds :: "(nat \<Rightarrow> nat) \<Rightarrow> game \<Rightarrow> game res" where
  "init_golds rnd = init_golds_from rnd [0..<NUM_GOLD]"

text \<open>The global variables before \<open>main\<close>, and after its three calls.\<close>

definition zero_game :: game where
  "zero_game = \<lparr>player_x = 0, player_y = 0, map_grid = replicate 17 (replicate 50 NUL), game_status_code = G_RUNNING,
     shards_remaining = int NUM_GOLD, walls = replicate NUM_WALLS \<lparr>w_pos = \<lparr>row = 0, col = 0\<rparr>, w_direction = 0\<rparr>,
     golds = replicate NUM_GOLD \<lparr>g_pos = \<lparr>row = 0, col = 0\<rparr>, g_direction = 0, g_collected = False\<rparr>\<rparr>"

definition start_game :: "(nat \<Rightarrow> nat) \<Rightarrow> (nat \<Rightarrow> nat) \<Rightarrow> game res" where
  "start_game rnd rnd' = bindE (init_map zero_game) (\<lambda>g. bindE (init_walls rnd g) (init_golds rnd'))"

section \<open>The bodies of the threads\<close>

text \<open>The cells of a wall: the three assignments of the loop for each of its 15 columns, with \<open>ch\<close>.\<close>

definition wall_cells :: "wall \<Rightarrow> char \<Rightarrow> (int \<times> int \<times> char) list" where
  "wall_cells w ch = concat (map (\<lambda>j. let current_col = col (w_pos w) + j in
       (if 1 \<le> current_col \<and> current_col < COLUMN - 1 then [(row (w_pos w), current_col, ch)] else []) @
       (if current_col < 1 then [(row (w_pos w), COLUMN - current_col - 2, ch)] else []) @
       (if current_col \<ge> COLUMN - 1 then [(row (w_pos w), current_col - COLUMN + 2, ch)] else [])) [0..14])"

definition wrap_col :: "int \<Rightarrow> int" where
  "wrap_col c = (if c < 1 then COLUMN - 2 else if c \<ge> COLUMN - 1 then 1 else c)"

definition move_wall :: "nat \<Rightarrow> game \<Rightarrow> game res" where
  "move_wall i g =
     bindE (put_cells (wall_cells (walls g ! i) EMPTY_CHAR) g) (\<lambda>g.
     let w = walls g ! i;
         w = w\<lparr>w_pos := (w_pos w)\<lparr>col := wrap_col (col (w_pos w) + w_direction w)\<rparr>\<rparr>;
         g = g\<lparr>walls := (walls g)[i := w]\<rparr> in
     bindE (put_cells (wall_cells w WALL_CHAR) g) (\<lambda>g.
     bindE (put_cell (row (w_pos w)) COLUMN NUL g) (\<lambda>g.
     Inr (if row (w_pos w) = player_x g \<and> player_y g \<ge> col (w_pos w) \<and> player_y g < col (w_pos w) + 15
          then g\<lparr>game_status_code := G_LOST\<rparr> else g))))"

text \<open>A shard is collected: \<open>collected = 1\<close>, and the game is won with the last one.\<close>

definition collect :: "nat \<Rightarrow> game \<Rightarrow> game" where
  "collect i g =
     (let g = g\<lparr>golds := (golds g)[i := (golds g ! i)\<lparr>g_collected := True\<rparr>], shards_remaining := shards_remaining g - 1\<rparr> in
      if shards_remaining g = 0 then g\<lparr>game_status_code := G_WON\<rparr> else g)"

definition at_player :: "position \<Rightarrow> game \<Rightarrow> bool" where
  "at_player p g \<longleftrightarrow> row p = player_x g \<and> col p = player_y g"

definition replace_if :: "int \<Rightarrow> int \<Rightarrow> char \<Rightarrow> char \<Rightarrow> game \<Rightarrow> game res" where
  "replace_if r c old new g = bindE (get_cell r c g) (\<lambda>ch. if ch = old then put_cell r c new g else Inr g)"

definition gold_cell :: "nat \<Rightarrow> char \<Rightarrow> char \<Rightarrow> game \<Rightarrow> game res" where
  "gold_cell i old new g = replace_if (row (g_pos (golds g ! i))) (col (g_pos (golds g ! i))) old new g"

text \<open>The new position of a shard, and what happens when the adventurer is there.\<close>

definition gold_step :: "nat \<Rightarrow> game \<Rightarrow> game" where
  "gold_step i g =
     (let x = golds g ! i; p = (g_pos x)\<lparr>col := wrap_col (col (g_pos x) + g_direction x)\<rparr>;
          g = g\<lparr>golds := (golds g)[i := x\<lparr>g_pos := p\<rparr>]\<rparr> in
      if at_player p g \<and> \<not> g_collected x then collect i g else g)"

definition move_gold :: "nat \<Rightarrow> game \<Rightarrow> game res" where
  "move_gold i g =
     bindE (gold_cell i GOLD_CHAR EMPTY_CHAR g) (\<lambda>g.
     let g = gold_step i g in
     bindE (if g_collected (golds g ! i) then Inr g else gold_cell i EMPTY_CHAR GOLD_CHAR g) (\<lambda>g.
     put_cell (row (g_pos (golds g ! i))) COLUMN NUL g))"

text \<open>The loop of the input thread over the shards \<open>is\<close>.\<close>

fun collect_all :: "nat list \<Rightarrow> game \<Rightarrow> game res" where
  "collect_all [] g = Inr g"
| "collect_all (i # is) g =
     (let x = golds g ! i in
      if \<not> g_collected x \<and> at_player (g_pos x) g
      then bindE (put_cell (row (g_pos x)) (col (g_pos x)) EMPTY_CHAR (collect i g)) (collect_all is)
      else collect_all is g)"

definition hit_wall :: "wall \<Rightarrow> game \<Rightarrow> bool" where
  "hit_wall w g \<longleftrightarrow> player_x g = row (w_pos w) \<and> col (w_pos w) \<le> player_y g \<and> player_y g < col (w_pos w) + 15"

definition move_player :: "char \<Rightarrow> game \<Rightarrow> game" where
  "move_player ch g =
     (if ch = CHR ''w'' \<or> ch = CHR ''W'' then if player_x g > 1 then g\<lparr>player_x := player_x g - 1\<rparr> else g
      else if ch = CHR ''s'' \<or> ch = CHR ''S'' then if player_x g < ROW - 2 then g\<lparr>player_x := player_x g + 1\<rparr> else g
      else if ch = CHR ''a'' \<or> ch = CHR ''A'' then if player_y g > 1 then g\<lparr>player_y := player_y g - 1\<rparr> else g
      else if ch = CHR ''d'' \<or> ch = CHR ''D'' then if player_y g < COLUMN - 2 then g\<lparr>player_y := player_y g + 1\<rparr> else g
      else if ch = CHR ''q'' \<or> ch = CHR ''Q'' then g\<lparr>game_status_code := G_QUIT\<rparr>
      else g)"

definition key_pressed :: "char \<Rightarrow> game \<Rightarrow> game res" where
  "key_pressed ch g =
     bindE (put_cell (player_x g) (player_y g) EMPTY_CHAR g) (\<lambda>g.
     let g = move_player ch g;
         g = (if \<exists>w \<in> set (walls g). hit_wall w g then g\<lparr>game_status_code := G_LOST\<rparr> else g) in
     bindE (collect_all [0..<NUM_GOLD] g) (\<lambda>g.
     put_cell (player_x g) (player_y g) ADVENTURER g))"

text \<open>The lines \<open>map_print\<close> puts out: each row up to its terminator.\<close>

definition map_print :: "game \<Rightarrow> string list" where
  "map_print g = map (takeWhile (\<lambda>c. c \<noteq> NUL)) (map_grid g)"

definition final_message :: "game_status \<Rightarrow> string" where
  "final_message st =
     (case st of G_WON \<Rightarrow> ''You win the game!!'' | G_LOST \<Rightarrow> ''You lose the game!!'' | G_QUIT \<Rightarrow> ''You exit the game.'' | G_RUNNING \<Rightarrow> '''')"

section \<open>The threads\<close>

datatype thread = T_wall nat | T_gold nat | T_input | T_print

text \<open>Where a thread is: before the test of its loop, past it, or at its end.\<close>

datatype tpc = At_test | In_body | Ended

definition all_threads :: "thread list" where
  "all_threads = map T_wall [0..<NUM_WALLS] @ map T_gold [0..<NUM_GOLD] @ [T_input, T_print]"

record gstate =
  the_game :: game
  pc :: "thread \<Rightarrow> tpc"

fun loop_test :: "thread \<Rightarrow> game \<Rightarrow> bool" where
  "loop_test (T_gold i) g \<longleftrightarrow> game_status_code g = G_RUNNING \<and> shards_remaining g > 0 \<and> \<not> g_collected (golds g ! i)"
| "loop_test _ g \<longleftrightarrow> game_status_code g = G_RUNNING"

text \<open>The body of the loop; \<open>key\<close> is the key the input thread finds, if any.\<close>

fun loop_body :: "char option \<Rightarrow> thread \<Rightarrow> game \<Rightarrow> game res" where
  "loop_body key (T_wall i) g = move_wall i g"
| "loop_body key (T_gold i) g = move_gold i g"
| "loop_body key T_input g = (case key of None \<Rightarrow> Inr g | Some ch \<Rightarrow> key_pressed ch g)"
| "loop_body key T_print g = Inr g"

inductive gstep :: "gstate \<Rightarrow> gstate \<Rightarrow> bool" where
  enter: "t \<in> set all_threads \<Longrightarrow> pc s t = At_test \<Longrightarrow> loop_test t (the_game s) \<Longrightarrow> gstep s (s\<lparr>pc := (pc s)(t := In_body)\<rparr>)"
| leave: "t \<in> set all_threads \<Longrightarrow> pc s t = At_test \<Longrightarrow> \<not> loop_test t (the_game s) \<Longrightarrow> gstep s (s\<lparr>pc := (pc s)(t := Ended)\<rparr>)"
| body: "t \<in> set all_threads \<Longrightarrow> pc s t = In_body \<Longrightarrow> loop_body key t (the_game s) = Inr g \<Longrightarrow>
    gstep s \<lparr>the_game = g, pc = (pc s)(t := At_test)\<rparr>"

definition gstart :: "gstate \<Rightarrow> bool" where
  "gstart s \<longleftrightarrow> (\<exists>rnd rnd'. start_game rnd rnd' = Inr (the_game s)) \<and> pc s = (\<lambda>t. At_test)"

end
