(* ===== verification/Game_Inv.thy ===== *)
theory Game_Inv
  imports Game Machine
begin

text \<open>
  What holds of the game in every state it can reach, whatever the keys, the random numbers and the order in which the threads run:
  no body of a thread writes outside the map, the frame of the map stays as it was drawn, the shards are counted (the locale
  \<open>transition_system\<close>), and once the game is over the threads end (the locale \<open>winding_down\<close>).
\<close>

section \<open>The invariant\<close>

text \<open>The cells that never change: the terminators and the frame.\<close>

definition frame_char :: "nat \<Rightarrow> nat \<Rightarrow> char option" where
  "frame_char r c =
     (if c = 49 then Some NUL
      else if (r = 0 \<or> r = 16) \<and> (c = 0 \<or> c = 48) then Some CORNER
      else if c = 0 \<or> c = 48 then Some VERT_LINE
      else if r = 0 \<or> r = 16 then Some HORI_LINE
      else None)"

abbreviation inner_chars :: "char list" where
  "inner_chars \<equiv> [EMPTY_CHAR, WALL_CHAR, GOLD_CHAR, ADVENTURER]"

definition cell_ok :: "nat \<Rightarrow> nat \<Rightarrow> char \<Rightarrow> bool" where
  "cell_ok r c ch \<longleftrightarrow> (case frame_char r c of Some x \<Rightarrow> ch = x | None \<Rightarrow> ch \<in> set inner_chars)"

definition shape :: "char list list \<Rightarrow> bool" where
  "shape m \<longleftrightarrow> length m = 17 \<and> (\<forall>r < 17. length (m ! r) = 50)"

definition map_ok :: "char list list \<Rightarrow> bool" where
  "map_ok m \<longleftrightarrow> shape m \<and> (\<forall>r < 17. \<forall>c < 50. cell_ok r c (m ! r ! c))"

definition inside :: "int \<Rightarrow> int \<Rightarrow> bool" where
  "inside r c \<longleftrightarrow> 1 \<le> r \<and> r \<le> 15 \<and> 1 \<le> c \<and> c \<le> 47"

definition write_ok :: "int \<times> int \<times> char \<Rightarrow> bool" where
  "write_ok w = (case w of (r, c, ch) \<Rightarrow> inside r c \<and> ch \<in> set inner_chars \<or> 0 \<le> r \<and> r < 17 \<and> c = 49 \<and> ch = NUL)"

definition wall_ok :: "nat \<Rightarrow> wall \<Rightarrow> bool" where
  "wall_ok i w \<longleftrightarrow> row (w_pos w) = wall_rows ! i \<and> 1 \<le> col (w_pos w) \<and> col (w_pos w) \<le> 47 \<and> w_direction w \<in> {1, -1}"

definition gold_ok :: "nat \<Rightarrow> gold \<Rightarrow> bool" where
  "gold_ok i x \<longleftrightarrow> row (g_pos x) = gold_rows ! i \<and> 1 \<le> col (g_pos x) \<and> col (g_pos x) \<le> 47 \<and> g_direction x \<in> {1, -1}"

definition left_over :: "gold list \<Rightarrow> nat" where
  "left_over xs = length (filter (\<lambda>x. \<not> g_collected x) xs)"

definition game_ok :: "game \<Rightarrow> bool" where
  "game_ok g \<longleftrightarrow> map_ok (map_grid g) \<and> inside (player_x g) (player_y g) \<and>
     length (walls g) = 6 \<and> (\<forall>i < 6. wall_ok i (walls g ! i)) \<and> length (golds g) = 6 \<and> (\<forall>i < 6. gold_ok i (golds g ! i)) \<and>
     shards_remaining g = int (left_over (golds g)) \<and> (game_status_code g = G_WON \<longrightarrow> shards_remaining g = 0)"

section \<open>Writing to the map\<close>

lemma put_cell_map:
  assumes "shape (map_grid g)" and "on_map r c"
  shows "\<exists>m. put_cell r c ch g = Inr (g\<lparr>map_grid := m\<rparr>) \<and> shape m \<and>
    (\<forall>i < 17. \<forall>j < 50. m ! i ! j = (if int i = r \<and> int j = c then ch else map_grid g ! i ! j))"
proof -
  let ?m = "(map_grid g)[nat r := (map_grid g ! nat r)[nat c := ch]]"
  have n: "nat r < 17" "nat c < 50" "int (nat r) = r" "int (nat c) = c" using assms(2) by (auto simp: on_map_def)
  have "shape ?m" using assms(1) n by (simp add: shape_def nth_list_update)
  moreover have "?m ! i ! j = (if int i = r \<and> int j = c then ch else map_grid g ! i ! j)" if "i < 17" "j < 50" for i j
    using assms(1) n that by (auto simp: shape_def nth_list_update)
  ultimately show ?thesis using assms(2) by (intro exI [of _ ?m]) (simp add: put_cell_def)
qed

text \<open>The value of a cell after a sequence of writes.\<close>

fun cell_after :: "(int \<times> int \<times> char) list \<Rightarrow> int \<Rightarrow> int \<Rightarrow> char \<Rightarrow> char" where
  "cell_after [] r c x = x"
| "cell_after ((r', c', ch) # ws) r c x = cell_after ws r c (if r = r' \<and> c = c' then ch else x)"

lemma put_cells_map:
  "shape (map_grid g) \<Longrightarrow> (\<And>r c ch. (r, c, ch) \<in> set ws \<Longrightarrow> on_map r c) \<Longrightarrow>
    \<exists>m. put_cells ws g = Inr (g\<lparr>map_grid := m\<rparr>) \<and> shape m \<and>
      (\<forall>i < 17. \<forall>j < 50. m ! i ! j = cell_after ws (int i) (int j) (map_grid g ! i ! j))"
proof (induction ws arbitrary: g)
  case Nil
  then show ?case by (intro exI [of _ "map_grid g"]) simp
next
  case (Cons w ws)
  obtain r c ch where w: "w = (r, c, ch)" by (cases w)
  have "on_map r c" by (rule Cons.prems(2) [of r c ch]) (simp add: w)
  from put_cell_map [OF Cons.prems(1) this, of ch] obtain m where m: "put_cell r c ch g = Inr (g\<lparr>map_grid := m\<rparr>)" "shape m"
    "\<forall>i < 17. \<forall>j < 50. m ! i ! j = (if int i = r \<and> int j = c then ch else map_grid g ! i ! j)" by blast
  have "shape (map_grid (g\<lparr>map_grid := m\<rparr>))" using m(2) by simp
  from Cons.IH [OF this] Cons.prems(2) obtain m' where m': "put_cells ws (g\<lparr>map_grid := m\<rparr>) = Inr (g\<lparr>map_grid := m'\<rparr>)" "shape m'"
    "\<forall>i < 17. \<forall>j < 50. m' ! i ! j = cell_after ws (int i) (int j) (m ! i ! j)" by auto
  then show ?case using m by (intro exI [of _ m']) (simp add: w)
qed

lemma cell_after_append: "cell_after (ws @ ws') r c x = cell_after ws' r c (cell_after ws r c x)"
  by (induction ws r c x rule: cell_after.induct) simp_all

lemma cell_after_same:
  "(\<And>ch'. (r, c, ch') \<in> set ws \<Longrightarrow> ch' = ch) \<Longrightarrow> cell_after ws r c x = (if \<exists>ch'. (r, c, ch') \<in> set ws then ch else x)"
proof (induction ws arbitrary: x)
  case (Cons w ws)
  obtain r' c' ch' where w: "w = (r', c', ch')" by (cases w)
  have "cell_after ws r c y = (if \<exists>ch'. (r, c, ch') \<in> set ws then ch else y)" for y using Cons by simp
  then show ?case using Cons.prems by (auto simp: w)
qed simp

lemma put_cell_ok:
  assumes "map_ok (map_grid g)" and "write_ok (r, c, ch)"
  shows "\<exists>m. put_cell r c ch g = Inr (g\<lparr>map_grid := m\<rparr>) \<and> map_ok m"
proof -
  have "on_map r c" using assms(2) by (auto simp: write_ok_def on_map_def inside_def)
  with put_cell_map [of g r c ch] assms(1) obtain m where m: "put_cell r c ch g = Inr (g\<lparr>map_grid := m\<rparr>)" "shape m"
    "\<forall>i < 17. \<forall>j < 50. m ! i ! j = (if int i = r \<and> int j = c then ch else map_grid g ! i ! j)" by (auto simp: map_ok_def)
  have "cell_ok i j ch" if "i < 17" "j < 50" "int i = r" "int j = c" for i j
    using assms(2) that by (auto simp: write_ok_def inside_def cell_ok_def frame_char_def)
  with m assms(1) have "map_ok m" by (simp add: map_ok_def)
  with m show ?thesis by blast
qed

lemma put_cells_ok:
  "map_ok (map_grid g) \<Longrightarrow> list_all write_ok ws \<Longrightarrow> \<exists>m. put_cells ws g = Inr (g\<lparr>map_grid := m\<rparr>) \<and> map_ok m"
proof (induction ws arbitrary: g)
  case Nil
  then show ?case by (intro exI [of _ "map_grid g"]) simp
next
  case (Cons w ws)
  obtain r c ch where w: "w = (r, c, ch)" by (cases w)
  with Cons.prems put_cell_ok obtain m where m: "put_cell r c ch g = Inr (g\<lparr>map_grid := m\<rparr>)" "map_ok m" by fastforce
  have "map_ok (map_grid (g\<lparr>map_grid := m\<rparr>))" using m(2) by simp
  from Cons.IH [OF this] Cons.prems(2) m show ?case by (auto simp: w)
qed

lemma get_cell_ok: "inside r c \<Longrightarrow> \<exists>ch. get_cell r c g = Inr ch"
  by (simp add: get_cell_def on_map_def inside_def)

section \<open>Walls\<close>

lemma wall_rows_ok: "i < 6 \<Longrightarrow> 1 \<le> wall_rows ! i \<and> wall_rows ! i \<le> 15"
  by (auto simp: wall_rows_def less_Suc_eq numeral_eq_Suc)

lemma gold_rows_ok: "i < 6 \<Longrightarrow> 1 \<le> gold_rows ! i \<and> gold_rows ! i \<le> 15"
  by (auto simp: gold_rows_def less_Suc_eq numeral_eq_Suc)

lemma wall_cells_ok:
  assumes "wall_ok i w" and "i < 6" and "ch \<in> set inner_chars"
  shows "list_all write_ok (wall_cells w ch)"
  using assms(1,3) wall_rows_ok [OF assms(2)]
  by (auto simp: list_all_iff wall_cells_def Let_def write_ok_def inside_def wall_ok_def simp del: upto.simps)

lemma wrap_col_range: "1 \<le> wrap_col c \<and> wrap_col c \<le> 47"
  by (simp add: wrap_col_def)

lemma move_wall_ok:
  assumes "game_ok g" and "i < 6"
  shows "\<exists>g'. move_wall i g = Inr g' \<and> game_ok g' \<and> (game_status_code g \<noteq> G_RUNNING \<longrightarrow> game_status_code g' \<noteq> G_RUNNING)"
proof -
  let ?w = "walls g ! i"
  let ?w' = "?w\<lparr>w_pos := (w_pos ?w)\<lparr>col := wrap_col (col (w_pos ?w) + w_direction ?w)\<rparr>\<rparr>"
  have w: "wall_ok i ?w" "length (walls g) = 6" and m: "map_ok (map_grid g)" using assms by (simp_all add: game_ok_def)
  have w': "wall_ok i ?w'" using w(1) wrap_col_range by (simp add: wall_ok_def)
  from put_cells_ok [OF m wall_cells_ok [OF w(1) assms(2)], of EMPTY_CHAR] obtain m1
    where m1: "put_cells (wall_cells ?w EMPTY_CHAR) g = Inr (g\<lparr>map_grid := m1\<rparr>)" "map_ok m1" by auto
  let ?g = "g\<lparr>map_grid := m1, walls := (walls g)[i := ?w']\<rparr>"
  from put_cells_ok [of ?g, OF _ wall_cells_ok [OF w' assms(2)], of WALL_CHAR] m1(2) obtain m2
    where m2: "put_cells (wall_cells ?w' WALL_CHAR) ?g = Inr (?g\<lparr>map_grid := m2\<rparr>)" "map_ok m2" by auto
  from put_cell_ok [of "?g\<lparr>map_grid := m2\<rparr>" "row (w_pos ?w)" COLUMN NUL] m2(2) w(1) wall_rows_ok [OF assms(2)] obtain m3
    where m3: "put_cell (row (w_pos ?w)) COLUMN NUL (?g\<lparr>map_grid := m2\<rparr>) = Inr (?g\<lparr>map_grid := m3\<rparr>)" "map_ok m3"
    by (auto simp: write_ok_def wall_ok_def)
  have "game_ok (?g\<lparr>map_grid := m3\<rparr>)" "game_ok (?g\<lparr>map_grid := m3, game_status_code := G_LOST\<rparr>)"
    using assms w w' m3(2) by (auto simp: game_ok_def nth_list_update)
  then show ?thesis using m1(1) m2(1) m3(1) by (simp add: move_wall_def Let_def)
qed

section \<open>Gold shards\<close>

lemma left_over_update:
  "i < length xs \<Longrightarrow> g_collected x = g_collected (xs ! i) \<Longrightarrow> left_over (xs[i := x]) = left_over xs"
  unfolding left_over_def by (induction xs arbitrary: i) (auto simp: nth_Cons' less_Suc_eq_0_disj split: nat.splits)

lemma left_over_collect:
  "i < length xs \<Longrightarrow> g_collected x \<Longrightarrow> \<not> g_collected (xs ! i) \<Longrightarrow> Suc (left_over (xs[i := x])) = left_over xs"
  unfolding left_over_def by (induction xs arbitrary: i) (auto simp: nth_Cons' less_Suc_eq_0_disj split: nat.splits)

lemma collect_ok:
  assumes "game_ok g" and "i < 6" and "\<not> g_collected (golds g ! i)"
  shows "game_ok (collect i g)" and "game_status_code g \<noteq> G_RUNNING \<longrightarrow> game_status_code (collect i g) \<noteq> G_RUNNING"
proof -
  let ?x = "(golds g ! i)\<lparr>g_collected := True\<rparr>"
  have l: "Suc (left_over ((golds g)[i := ?x])) = left_over (golds g)"
    using assms by (intro left_over_collect) (simp_all add: game_ok_def)
  have "game_status_code g \<noteq> G_WON" using assms(1) l by (auto simp: game_ok_def)
  with assms l show "game_ok (collect i g)"
    by (auto simp: game_ok_def collect_def Let_def nth_list_update gold_ok_def)
  show "game_status_code g \<noteq> G_RUNNING \<longrightarrow> game_status_code (collect i g) \<noteq> G_RUNNING" by (simp add: collect_def Let_def)
qed

lemma gold_inside: "game_ok g \<Longrightarrow> i < 6 \<Longrightarrow> inside (row (g_pos (golds g ! i))) (col (g_pos (golds g ! i)))"
  using gold_rows_ok by (simp add: game_ok_def gold_ok_def inside_def)

lemma game_ok_map: "game_ok g \<Longrightarrow> map_ok m \<Longrightarrow> game_ok (g\<lparr>map_grid := m\<rparr>)"
  by (auto simp: game_ok_def)

text \<open>Writing a cell inside the frame, and writing it only under a condition on what it holds.\<close>

lemma put_inside:
  assumes "game_ok g" and "inside r c" and "ch \<in> set inner_chars"
  shows "\<exists>m. put_cell r c ch g = Inr (g\<lparr>map_grid := m\<rparr>) \<and> game_ok (g\<lparr>map_grid := m\<rparr>)"
proof -
  have "map_ok (map_grid g)" using assms(1) by (simp add: game_ok_def)
  from put_cell_ok [OF this, of r c ch] assms show ?thesis by (auto simp: write_ok_def intro: game_ok_map)
qed

lemma replace_if_ok:
  assumes "game_ok g" and "inside r c" and "ch' \<in> set inner_chars"
  shows "\<exists>m. replace_if r c ch ch' g = Inr (g\<lparr>map_grid := m\<rparr>) \<and> game_ok (g\<lparr>map_grid := m\<rparr>)"
proof -
  obtain x where x: "get_cell r c g = Inr x" using get_cell_ok [OF assms(2)] by blast
  show ?thesis
  proof (cases "x = ch")
    case True
    with put_inside [OF assms] x show ?thesis by (simp add: replace_if_def)
  next
    case False
    with x assms(1) show ?thesis by (intro exI [of _ "map_grid g"]) (simp add: replace_if_def)
  qed
qed

lemma gold_cell_ok:
  assumes "game_ok g" and "i < 6" and "ch' \<in> set inner_chars"
  shows "\<exists>m. gold_cell i ch ch' g = Inr (g\<lparr>map_grid := m\<rparr>) \<and> game_ok (g\<lparr>map_grid := m\<rparr>)"
  unfolding gold_cell_def by (rule replace_if_ok [OF assms(1) gold_inside [OF assms(1,2)] assms(3)])

definition keeps_over :: "game \<Rightarrow> game \<Rightarrow> bool" where
  "keeps_over g g' \<longleftrightarrow> (game_status_code g \<noteq> G_RUNNING \<longrightarrow> game_status_code g' \<noteq> G_RUNNING)"

lemma put_terminator:
  assumes "game_ok g" and "0 \<le> r" and "r < 17"
  shows "\<exists>m. put_cell r COLUMN NUL g = Inr (g\<lparr>map_grid := m\<rparr>) \<and> game_ok (g\<lparr>map_grid := m\<rparr>)"
proof -
  have "map_ok (map_grid g)" using assms(1) by (simp add: game_ok_def)
  from put_cell_ok [OF this, of r COLUMN NUL] assms show ?thesis by (auto simp: write_ok_def intro: game_ok_map)
qed

lemma gold_step_ok:
  assumes "game_ok g" and i: "i < 6"
  shows "game_ok (gold_step i g)" and "keeps_over g (gold_step i g)"
proof -
  let ?x = "golds g ! i"
  let ?p = "(g_pos ?x)\<lparr>col := wrap_col (col (g_pos ?x) + g_direction ?x)\<rparr>"
  let ?g = "g\<lparr>golds := (golds g)[i := ?x\<lparr>g_pos := ?p\<rparr>]\<rparr>"
  have len: "length (golds g) = 6" using assms(1) by (simp add: game_ok_def)
  have g: "game_ok ?g"
    using assms wrap_col_range left_over_update [of i "golds g" "?x\<lparr>g_pos := ?p\<rparr>"] len
    by (auto simp: game_ok_def nth_list_update gold_ok_def)
  have "\<not> g_collected ?x \<Longrightarrow> \<not> g_collected (golds ?g ! i)" using i len by simp
  with collect_ok [OF g i] g show "game_ok (gold_step i g)" "keeps_over g (gold_step i g)"
    by (auto simp: gold_step_def Let_def keeps_over_def)
qed

lemma move_gold_ok:
  assumes "game_ok g" and i: "i < 6"
  shows "\<exists>g'. move_gold i g = Inr g' \<and> game_ok g' \<and> keeps_over g g'"
proof -
  obtain m1 where m1: "gold_cell i GOLD_CHAR EMPTY_CHAR g = Inr (g\<lparr>map_grid := m1\<rparr>)" "game_ok (g\<lparr>map_grid := m1\<rparr>)"
    using gold_cell_ok [OF assms, of EMPTY_CHAR GOLD_CHAR] by auto
  define g2 where "g2 = gold_step i (g\<lparr>map_grid := m1\<rparr>)"
  have g2: "game_ok g2" "keeps_over g g2" using gold_step_ok [OF m1(2) i] by (simp_all add: g2_def keeps_over_def)
  obtain m3 where m3: "(if g_collected (golds g2 ! i) then Inr g2 else gold_cell i EMPTY_CHAR GOLD_CHAR g2) = Inr (g2\<lparr>map_grid := m3\<rparr>)"
    "game_ok (g2\<lparr>map_grid := m3\<rparr>)"
  proof (cases "g_collected (golds g2 ! i)")
    case True
    with g2(1) that [of "map_grid g2"] show thesis by simp
  next
    case False
    with gold_cell_ok [OF g2(1) i, of GOLD_CHAR EMPTY_CHAR] that show thesis by auto
  qed
  have "0 \<le> row (g_pos (golds g2 ! i))" "row (g_pos (golds g2 ! i)) < 17" using gold_inside [OF g2(1) i] by (simp_all add: inside_def)
  from put_terminator [OF m3(2) this] obtain m4
    where "put_cell (row (g_pos (golds g2 ! i))) COLUMN NUL (g2\<lparr>map_grid := m3\<rparr>) = Inr (g2\<lparr>map_grid := m4\<rparr>)" "game_ok (g2\<lparr>map_grid := m4\<rparr>)"
    by auto
  note m4 = this
  have "move_gold i g = Inr (g2\<lparr>map_grid := m4\<rparr>)"
    unfolding move_gold_def m1(1) bindE_Inr Let_def g2_def [symmetric] m3(1) using m4(1) by simp
  with m4(2) g2(2) show ?thesis by (simp add: keeps_over_def)
qed

section \<open>The adventurer\<close>

lemma collect_all_ok:
  "game_ok g \<Longrightarrow> \<forall>i \<in> set is. i < 6 \<Longrightarrow> \<exists>g'. collect_all is g = Inr g' \<and> game_ok g' \<and> keeps_over g g' \<and> player_x g' = player_x g \<and> player_y g' = player_y g"
proof (induction "is" arbitrary: g)
  case Nil
  then show ?case by (simp add: keeps_over_def)
next
  case (Cons i "is")
  let ?x = "golds g ! i"
  show ?case
  proof (cases "\<not> g_collected ?x \<and> at_player (g_pos ?x) g")
    case True
    have i: "i < 6" using Cons.prems(2) by simp
    with True collect_ok [OF Cons.prems(1)] have c: "game_ok (collect i g)" "keeps_over g (collect i g)" by (auto simp: keeps_over_def)
    from put_inside [OF c(1) gold_inside [OF Cons.prems(1) i], of EMPTY_CHAR] obtain m
      where m: "put_cell (row (g_pos ?x)) (col (g_pos ?x)) EMPTY_CHAR (collect i g) = Inr ((collect i g)\<lparr>map_grid := m\<rparr>)"
        "game_ok ((collect i g)\<lparr>map_grid := m\<rparr>)" by auto
    have "player_x (collect i g) = player_x g" "player_y (collect i g) = player_y g" by (simp_all add: collect_def Let_def)
    with Cons.IH [OF m(2)] Cons.prems(2) True m(1) c(2) show ?thesis by (auto simp: keeps_over_def)
  next
    case False
    have "collect_all (i # is) g = collect_all is g" unfolding collect_all.simps Let_def if_not_P [OF False] ..
    with Cons.IH [OF Cons.prems(1)] Cons.prems(2) show ?thesis by simp
  qed
qed

lemma move_player_ok:
  assumes "game_ok g"
  shows "game_ok (move_player ch g)" and "keeps_over g (move_player ch g)"
proof -
  have in': "inside (player_x g) (player_y g)" using assms by (simp add: game_ok_def)
  obtain x y where m: "(move_player ch g = g\<lparr>player_x := x, player_y := y\<rparr> \<and> inside x y) \<or> move_player ch g = g\<lparr>game_status_code := G_QUIT\<rparr>"
  proof -
    have "\<exists>x y. (move_player ch g = g\<lparr>player_x := x, player_y := y\<rparr> \<and> inside x y) \<or> move_player ch g = g\<lparr>game_status_code := G_QUIT\<rparr>"
    proof (rule exI [of _ "player_x (move_player ch g)"], rule exI [of _ "player_y (move_player ch g)"])
      show "(move_player ch g = g\<lparr>player_x := player_x (move_player ch g), player_y := player_y (move_player ch g)\<rparr> \<and>
          inside (player_x (move_player ch g)) (player_y (move_player ch g))) \<or> move_player ch g = g\<lparr>game_status_code := G_QUIT\<rparr>"
        using in' by (simp add: move_player_def inside_def split: if_split)
    qed
    with that show thesis by blast
  qed
  show "game_ok (move_player ch g)" "keeps_over g (move_player ch g)"
    using m assms by (auto simp: game_ok_def keeps_over_def)
qed

lemma key_pressed_ok:
  assumes "game_ok g"
  shows "\<exists>g'. key_pressed ch g = Inr g' \<and> game_ok g' \<and> keeps_over g g' \<and> keeps_over (move_player ch g) g'"
proof -
  have in1: "inside (player_x g) (player_y g)" using assms by (simp add: game_ok_def)
  from put_inside [OF assms in1, of EMPTY_CHAR] obtain m1 where m1: "put_cell (player_x g) (player_y g) EMPTY_CHAR g = Inr (g\<lparr>map_grid := m1\<rparr>)"
    "game_ok (g\<lparr>map_grid := m1\<rparr>)" by auto
  let ?g = "move_player ch (g\<lparr>map_grid := m1\<rparr>)"
  define g2 where "g2 = (if \<exists>w \<in> set (walls ?g). hit_wall w ?g then ?g\<lparr>game_status_code := G_LOST\<rparr> else ?g)"
  have st: "game_status_code ?g = game_status_code (move_player ch g)" by (simp add: move_player_def)
  have "game_ok g2" "keeps_over g g2"
    using move_player_ok [OF m1(2), of ch] by (auto simp: g2_def game_ok_def keeps_over_def)
  moreover have k2: "keeps_over (move_player ch g) g2" using st by (simp add: g2_def keeps_over_def)
  ultimately have "game_ok g2" "keeps_over g g2" by simp_all
  from collect_all_ok [OF this(1), of "[0..<6]"] obtain g3 where g3: "collect_all [0..<6] g2 = Inr g3" "game_ok g3" "keeps_over g2 g3" by auto
  have "inside (player_x g3) (player_y g3)" using g3(2) by (simp add: game_ok_def)
  from put_inside [OF g3(2) this, of ADVENTURER] obtain m4 where "put_cell (player_x g3) (player_y g3) ADVENTURER g3 = Inr (g3\<lparr>map_grid := m4\<rparr>)"
    "game_ok (g3\<lparr>map_grid := m4\<rparr>)" by auto
  with m1(1) g3 k2 \<open>keeps_over g g2\<close> show ?thesis by (simp add: key_pressed_def Let_def g2_def [symmetric] keeps_over_def del: upt.simps)
qed

lemma loop_body_ok:
  assumes "game_ok g" and "t \<in> set all_threads"
  shows "\<exists>g'. loop_body key t g = Inr g' \<and> game_ok g' \<and> keeps_over g g'"
proof (cases t)
  case (T_wall i)
  with move_wall_ok [OF assms(1), of i] assms(2) show ?thesis by (auto simp: all_threads_def keeps_over_def)
next
  case (T_gold i)
  with move_gold_ok [OF assms(1), of i] assms(2) show ?thesis by (auto simp: all_threads_def)
next
  case T_input
  with key_pressed_ok [OF assms(1)] assms(1) show ?thesis by (cases key) (fastforce simp: keeps_over_def)+
qed (use assms(1) in \<open>simp add: keeps_over_def\<close>)

section \<open>Setting up\<close>

lemma fill_mem: "(r, c, x) \<in> set (map (\<lambda>(i, j). (i, j, ch)) (List.product xs ys)) \<longleftrightarrow> x = ch \<and> r \<in> set xs \<and> c \<in> set ys"
  by force

lemma cell_after_fill:
  "cell_after (map (\<lambda>(i, j). (i, j, ch)) (List.product xs ys)) r c x = (if r \<in> set xs \<and> c \<in> set ys then ch else x)"
proof -
  have "cell_after (map (\<lambda>(i, j). (i, j, ch)) (List.product xs ys)) r c x =
      (if \<exists>ch'. (r, c, ch') \<in> set (map (\<lambda>(i, j). (i, j, ch)) (List.product xs ys)) then ch else x)"
    by (rule cell_after_same) (simp only: fill_mem)
  then show ?thesis unfolding fill_mem by simp
qed

lemma cell_after_rows:
  "cell_after (concat (map (\<lambda>j. [(a, j, ch), (b, j, ch)]) js)) r c x = (if (r = a \<or> r = b) \<and> c \<in> set js then ch else x)"
  by (induction js arbitrary: x) auto

lemma cell_after_cols:
  "cell_after (concat (map (\<lambda>i. [(i, a, ch), (i, b, ch)]) is)) r c x = (if (c = a \<or> c = b) \<and> r \<in> set is then ch else x)"
  by (induction "is" arbitrary: x) auto

lemma cell_after_col: "cell_after (map (\<lambda>i. (i, a, ch)) is) r c x = (if c = a \<and> r \<in> set is then ch else x)"
  by (induction "is" arbitrary: x) auto

lemma init_map_ok:
  "\<exists>m. init_map zero_game = Inr (zero_game\<lparr>player_x := 8, player_y := 24, map_grid := m\<rparr>) \<and> map_ok m"
proof -
  let ?A = "map (\<lambda>(i, j). (i, j, EMPTY_CHAR)) (List.product [0..ROW - 1] [0..COLUMN - 1])"
  let ?B = "concat (map (\<lambda>j. [(0, j, HORI_LINE), (ROW - 1, j, HORI_LINE)]) [0..COLUMN - 1])"
  let ?C = "concat (map (\<lambda>i. [(i, 0, VERT_LINE), (i, COLUMN - 1, VERT_LINE)]) [0..ROW - 1])"
  let ?D = "[(0, 0, CORNER), (0, COLUMN - 1, CORNER), (ROW - 1, 0, CORNER), (ROW - 1, COLUMN - 1, CORNER)]"
  let ?E = "map (\<lambda>i. (i, COLUMN, NUL)) [0..ROW - 1]"
  have sh: "shape (map_grid zero_game)" by (simp add: shape_def zero_game_def)
  have "\<And>r c ch. (r, c, ch) \<in> set (?A @ ?B @ ?C @ ?D) \<Longrightarrow> on_map r c"
    by (auto simp: on_map_def simp del: upto.simps)
  then have "\<exists>m. put_cells (?A @ ?B @ ?C @ ?D) zero_game = Inr (zero_game\<lparr>map_grid := m\<rparr>) \<and> shape m \<and>
    (\<forall>i < 17. \<forall>j < 50. m ! i ! j = cell_after (?A @ ?B @ ?C @ ?D) (int i) (int j) (map_grid zero_game ! i ! j))"
    by (rule put_cells_map [OF sh])
  then obtain m1 where m1: "put_cells (?A @ ?B @ ?C @ ?D) zero_game = Inr (zero_game\<lparr>map_grid := m1\<rparr>)" "shape m1"
    "\<forall>i < 17. \<forall>j < 50. m1 ! i ! j = cell_after (?A @ ?B @ ?C @ ?D) (int i) (int j) (map_grid zero_game ! i ! j)" by blast
  let ?g = "zero_game\<lparr>map_grid := m1, player_x := 8, player_y := 24\<rparr>"
  have sh2: "shape (map_grid ?g)" using m1(2) by simp
  have "\<And>r c ch. (r, c, ch) \<in> set ((8, 24, ADVENTURER) # ?E) \<Longrightarrow> on_map r c"
    by (auto simp: on_map_def simp del: upto.simps)
  then have "\<exists>m. put_cells ((8, 24, ADVENTURER) # ?E) ?g = Inr (?g\<lparr>map_grid := m\<rparr>) \<and> shape m \<and>
    (\<forall>i < 17. \<forall>j < 50. m ! i ! j = cell_after ((8, 24, ADVENTURER) # ?E) (int i) (int j) (map_grid ?g ! i ! j))"
    by (rule put_cells_map [OF sh2])
  then obtain m2 where m2: "put_cells ((8, 24, ADVENTURER) # ?E) ?g = Inr (?g\<lparr>map_grid := m2\<rparr>)" "shape m2"
    "\<forall>i < 17. \<forall>j < 50. m2 ! i ! j = cell_after ((8, 24, ADVENTURER) # ?E) (int i) (int j) (m1 ! i ! j)" by auto
  have "cell_ok i j (m2 ! i ! j)" if ij: "i < 17" "j < 50" for i j
  proof -
    have "m2 ! i ! j = cell_after ((8, 24, ADVENTURER) # ?E) (int i) (int j) (cell_after (?A @ ?B @ ?C @ ?D) (int i) (int j) (map_grid zero_game ! i ! j))"
      using m1(3) m2(3) ij by simp
    also have "\<dots> = (if j = 49 then NUL else if i = 8 \<and> j = 24 then ADVENTURER else
        case frame_char i j of Some ch \<Rightarrow> ch | None \<Rightarrow> EMPTY_CHAR)"
      using ij by (simp add: cell_after_append cell_after_fill cell_after_rows cell_after_cols cell_after_col frame_char_def del: upto.simps upto_rec_numeral)
    finally show ?thesis by (auto simp: cell_ok_def frame_char_def split: option.splits)
  qed
  then have "map_ok m2" using m2(2) by (simp add: map_ok_def)
  moreover have "init_map zero_game = Inr (zero_game\<lparr>player_x := 8, player_y := 24, map_grid := m2\<rparr>)"
    using m1(1) m2(1) by (simp add: init_map_def Let_def del: upto.simps)
  ultimately show ?thesis by blast
qed

lemma init_walls_from_ok:
  "map_ok (map_grid g) \<Longrightarrow> length (walls g) = 6 \<Longrightarrow> \<forall>i \<in> set is. i < 6 \<Longrightarrow>
    \<exists>m ws. init_walls_from rnd is g = Inr (g\<lparr>map_grid := m, walls := ws\<rparr>) \<and> map_ok m \<and> length ws = 6 \<and>
      (\<forall>i < 6. (i \<in> set is \<or> wall_ok i (walls g ! i)) \<longrightarrow> wall_ok i (ws ! i))"
proof (induction "is" arbitrary: g)
  case Nil
  then show ?case by (intro exI [of _ "map_grid g"] exI [of _ "walls g"]) simp
next
  case (Cons i "is")
  define w where "w = start_wall rnd i"
  have i: "i < 6" using Cons.prems(3) by simp
  have "0 \<le> int (rnd i) mod 32" "int (rnd i) mod 32 < 32" by simp_all
  then have "int (rnd i) mod 32 \<le> 46" by linarith
  then have w: "wall_ok i w" by (simp add: wall_ok_def w_def start_wall_def)
  then have "list_all write_ok (start_cells w)"
    using wall_rows_ok [OF i] by (auto simp: list_all_iff start_cells_def Let_def write_ok_def inside_def wall_ok_def simp del: upto.simps)
  with put_cells_ok [of "g\<lparr>walls := (walls g)[i := w]\<rparr>" "start_cells w"] Cons.prems(1) obtain m
    where m: "put_cells (start_cells w) (g\<lparr>walls := (walls g)[i := w]\<rparr>) = Inr (g\<lparr>walls := (walls g)[i := w], map_grid := m\<rparr>)" "map_ok m" by auto
  let ?g = "g\<lparr>walls := (walls g)[i := w], map_grid := m\<rparr>"
  have "init_walls_from rnd (i # is) g = init_walls_from rnd is ?g" using m(1) by (simp add: w_def)
  moreover have "\<exists>m' ws. init_walls_from rnd is ?g = Inr (?g\<lparr>map_grid := m', walls := ws\<rparr>) \<and> map_ok m' \<and> length ws = 6 \<and>
      (\<forall>j < 6. (j \<in> set is \<or> wall_ok j (walls ?g ! j)) \<longrightarrow> wall_ok j (ws ! j))"
    by (rule Cons.IH) (use m(2) Cons.prems in simp_all)
  ultimately obtain m' ws where r: "init_walls_from rnd (i # is) g = Inr (g\<lparr>map_grid := m', walls := ws\<rparr>)" "map_ok m'" "length ws = 6"
    "\<forall>j < 6. (j \<in> set is \<or> wall_ok j (walls ?g ! j)) \<longrightarrow> wall_ok j (ws ! j)" by auto
  have "\<forall>j < 6. (j \<in> set (i # is) \<or> wall_ok j (walls g ! j)) \<longrightarrow> wall_ok j (ws ! j)"
  proof (intro allI impI)
    fix j
    assume "j < 6" "j \<in> set (i # is) \<or> wall_ok j (walls g ! j)"
    note j = this
    show "wall_ok j (ws ! j)"
    proof (cases "i = j")
      case True
      then have "wall_ok j (walls ?g ! j)" using w i Cons.prems(2) by simp
      with r(4) j(1) show ?thesis by blast
    next
      case False
      then have "j \<in> set is \<or> wall_ok j (walls ?g ! j)" using j(2) by auto
      with r(4) j(1) show ?thesis by blast
    qed
  qed
  with r show ?case by blast
qed

text \<open>Placing a shard leaves it in its row, or moves it to another column of the row.\<close>

lemma find_empty_ok:
  "map_ok (map_grid g) \<Longrightarrow> i < 6 \<Longrightarrow> length (golds g) = 6 \<Longrightarrow> gold_ok i (golds g ! i) \<Longrightarrow> \<forall>j \<in> set js. 1 \<le> j \<and> j \<le> 47 \<Longrightarrow>
    \<exists>m x. find_empty i js g = Inr (g\<lparr>golds := (golds g)[i := x], map_grid := m\<rparr>) \<and> map_ok m \<and> gold_ok i x \<and>
      g_collected x = g_collected (golds g ! i)"
proof (induction js)
  case Nil
  then show ?case by (intro exI [of _ "map_grid g"] exI [of _ "golds g ! i"]) simp
next
  case (Cons j js)
  let ?r = "row (g_pos (golds g ! i))" and ?x = "(golds g ! i)\<lparr>g_pos := \<lparr>row = row (g_pos (golds g ! i)), col = j\<rparr>\<rparr>"
  have in': "inside ?r j" using Cons.prems gold_rows_ok by (simp add: gold_ok_def inside_def)
  obtain ch where ch: "get_cell ?r j g = Inr ch" using get_cell_ok [OF in'] by blast
  show ?case
  proof (cases "ch = EMPTY_CHAR")
    case True
    from put_cell_ok [of "g\<lparr>golds := (golds g)[i := ?x]\<rparr>" ?r j GOLD_CHAR] Cons.prems(1) in' obtain m
      where "put_cell ?r j GOLD_CHAR (g\<lparr>golds := (golds g)[i := ?x]\<rparr>) = Inr (g\<lparr>golds := (golds g)[i := ?x], map_grid := m\<rparr>)" "map_ok m"
      by (auto simp: write_ok_def)
    with True ch Cons.prems show ?thesis by (intro exI [of _ m] exI [of _ ?x]) (simp add: Let_def gold_ok_def)
  next
    case False
    with ch Cons show ?thesis by (simp add: Let_def)
  qed
qed

lemma place_gold_ok:
  assumes "map_ok (map_grid g)" and "i < 6" and "length (golds g) = 6" and "gold_ok i (golds g ! i)"
  shows "\<exists>m x. place_gold i g = Inr (g\<lparr>golds := (golds g)[i := x], map_grid := m\<rparr>) \<and> map_ok m \<and> gold_ok i x \<and>
      g_collected x = g_collected (golds g ! i)"
proof -
  let ?p = "g_pos (golds g ! i)"
  have in': "inside (row ?p) (col ?p)" using assms gold_rows_ok by (simp add: gold_ok_def inside_def)
  obtain ch where ch: "get_cell (row ?p) (col ?p) g = Inr ch" using get_cell_ok [OF in'] by blast
  show ?thesis
  proof (cases "ch = EMPTY_CHAR")
    case True
    from put_cell_ok [OF assms(1), of "row ?p" "col ?p" GOLD_CHAR] in' obtain m
      where "put_cell (row ?p) (col ?p) GOLD_CHAR g = Inr (g\<lparr>map_grid := m\<rparr>)" "map_ok m" by (auto simp: write_ok_def)
    with True ch assms show ?thesis by (intro exI [of _ m] exI [of _ "golds g ! i"]) (simp add: place_gold_def Let_def)
  next
    case False
    with find_empty_ok [OF assms, of "[1..COLUMN - 2]"] ch show ?thesis by (simp add: place_gold_def Let_def del: upto.simps)
  qed
qed

lemma init_golds_from_ok:
  "map_ok (map_grid g) \<Longrightarrow> length (golds g) = 6 \<Longrightarrow> \<forall>i \<in> set is. i < 6 \<Longrightarrow>
    \<exists>m xs. init_golds_from rnd is g = Inr (g\<lparr>map_grid := m, golds := xs\<rparr>) \<and> map_ok m \<and> length xs = 6 \<and>
      (\<forall>i < 6. (i \<in> set is \<or> gold_ok i (golds g ! i) \<and> \<not> g_collected (golds g ! i)) \<longrightarrow> gold_ok i (xs ! i) \<and> \<not> g_collected (xs ! i))"
proof (induction "is" arbitrary: g)
  case Nil
  then show ?case by (intro exI [of _ "map_grid g"] exI [of _ "golds g"]) simp
next
  case (Cons i "is")
  define x where "x = start_gold rnd i"
  have i: "i < 6" using Cons.prems(3) by simp
  have "int (rnd (Suc (2 * i))) mod 47 < 47" by simp
  then have "int (rnd (Suc (2 * i))) mod 47 \<le> 46" by linarith
  then have x: "gold_ok i x" "\<not> g_collected x" by (simp_all add: gold_ok_def x_def start_gold_def)
  let ?g0 = "g\<lparr>golds := (golds g)[i := x]\<rparr>"
  have "\<exists>m y. place_gold i ?g0 = Inr (?g0\<lparr>golds := (golds ?g0)[i := y], map_grid := m\<rparr>) \<and> map_ok m \<and> gold_ok i y \<and>
      g_collected y = g_collected (golds ?g0 ! i)"
    by (rule place_gold_ok) (use Cons.prems i x in simp_all)
  then obtain m y where y: "place_gold i ?g0 = Inr (?g0\<lparr>golds := (golds g)[i := y], map_grid := m\<rparr>)" "map_ok m" "gold_ok i y" "\<not> g_collected y"
    using Cons.prems(2) i x(2) by auto
  let ?g = "?g0\<lparr>golds := (golds g)[i := y], map_grid := m\<rparr>"
  have "init_golds_from rnd (i # is) g = init_golds_from rnd is ?g" using y(1) by (simp add: x_def)
  moreover have "\<exists>m' xs. init_golds_from rnd is ?g = Inr (?g\<lparr>map_grid := m', golds := xs\<rparr>) \<and> map_ok m' \<and> length xs = 6 \<and>
      (\<forall>j < 6. (j \<in> set is \<or> gold_ok j (golds ?g ! j) \<and> \<not> g_collected (golds ?g ! j)) \<longrightarrow> gold_ok j (xs ! j) \<and> \<not> g_collected (xs ! j))"
    by (rule Cons.IH) (use y(2) Cons.prems in simp_all)
  ultimately obtain m' xs where r: "init_golds_from rnd (i # is) g = Inr (g\<lparr>map_grid := m', golds := xs\<rparr>)" "map_ok m'" "length xs = 6"
    "\<forall>j < 6. (j \<in> set is \<or> gold_ok j (golds ?g ! j) \<and> \<not> g_collected (golds ?g ! j)) \<longrightarrow> gold_ok j (xs ! j) \<and> \<not> g_collected (xs ! j)" by auto
  have "\<forall>j < 6. (j \<in> set (i # is) \<or> gold_ok j (golds g ! j) \<and> \<not> g_collected (golds g ! j)) \<longrightarrow> gold_ok j (xs ! j) \<and> \<not> g_collected (xs ! j)"
  proof (intro allI impI)
    fix j
    assume "j < 6" "j \<in> set (i # is) \<or> gold_ok j (golds g ! j) \<and> \<not> g_collected (golds g ! j)"
    note j = this
    show "gold_ok j (xs ! j) \<and> \<not> g_collected (xs ! j)"
    proof (cases "i = j")
      case True
      then have "gold_ok j (golds ?g ! j) \<and> \<not> g_collected (golds ?g ! j)" using y(3,4) i Cons.prems(2) by simp
      with r(4) j(1) show ?thesis by blast
    next
      case False
      then have "j \<in> set is \<or> gold_ok j (golds ?g ! j) \<and> \<not> g_collected (golds ?g ! j)" using j(2) by auto
      with r(4) j(1) show ?thesis by blast
    qed
  qed
  with r show ?case by blast
qed

lemma start_game_ok: "\<exists>g. start_game rnd rnd' = Inr g \<and> game_ok g \<and> game_status_code g = G_RUNNING"
proof -
  obtain m1 where m1: "init_map zero_game = Inr (zero_game\<lparr>player_x := 8, player_y := 24, map_grid := m1\<rparr>)" "map_ok m1"
    using init_map_ok by blast
  let ?g1 = "zero_game\<lparr>player_x := 8, player_y := 24, map_grid := m1\<rparr>"
  have "\<exists>m ws. init_walls_from rnd [0..<6] ?g1 = Inr (?g1\<lparr>map_grid := m, walls := ws\<rparr>) \<and> map_ok m \<and> length ws = 6 \<and>
      (\<forall>i < 6. (i \<in> set [0..<6] \<or> wall_ok i (walls ?g1 ! i)) \<longrightarrow> wall_ok i (ws ! i))"
    by (rule init_walls_from_ok) (use m1(2) in \<open>simp_all add: zero_game_def\<close>)
  then obtain m2 ws where m2: "init_walls rnd ?g1 = Inr (?g1\<lparr>map_grid := m2, walls := ws\<rparr>)" "map_ok m2" "length ws = 6"
    "\<forall>i < 6. wall_ok i (ws ! i)" by (auto simp: init_walls_def)
  let ?g2 = "?g1\<lparr>map_grid := m2, walls := ws\<rparr>"
  have "\<exists>m xs. init_golds_from rnd' [0..<6] ?g2 = Inr (?g2\<lparr>map_grid := m, golds := xs\<rparr>) \<and> map_ok m \<and> length xs = 6 \<and>
      (\<forall>i < 6. (i \<in> set [0..<6] \<or> gold_ok i (golds ?g2 ! i) \<and> \<not> g_collected (golds ?g2 ! i)) \<longrightarrow> gold_ok i (xs ! i) \<and> \<not> g_collected (xs ! i))"
    by (rule init_golds_from_ok) (use m2(2) in \<open>simp_all add: zero_game_def\<close>)
  then obtain m3 xs where m3: "init_golds rnd' ?g2 = Inr (?g2\<lparr>map_grid := m3, golds := xs\<rparr>)" "map_ok m3" "length xs = 6"
    "\<forall>i < 6. gold_ok i (xs ! i) \<and> \<not> g_collected (xs ! i)" by (auto simp: init_golds_def)
  have "filter (\<lambda>x. \<not> g_collected x) xs = xs" using m3(3,4) by (auto simp: filter_id_conv in_set_conv_nth)
  then have "left_over xs = 6" using m3(3) by (simp add: left_over_def)
  with m1 m2 m3 show ?thesis
    by (simp add: start_game_def game_ok_def inside_def zero_game_def)
qed

section \<open>The machine\<close>

definition rank_of :: "tpc \<Rightarrow> nat" where
  "rank_of p = (case p of At_test \<Rightarrow> 1 | In_body \<Rightarrow> 2 | Ended \<Rightarrow> 0)"

text \<open>How many steps the threads have left once the game is over.\<close>

definition steps_left :: "gstate \<Rightarrow> nat" where
  "steps_left s = sum_list (map (\<lambda>t. rank_of (pc s t)) all_threads)"

definition over :: "gstate \<Rightarrow> bool" where
  "over s \<longleftrightarrow> game_ok (the_game s) \<and> game_status_code (the_game s) \<noteq> G_RUNNING"

lemma gstep_ok: "gstep s s' \<Longrightarrow> game_ok (the_game s) \<Longrightarrow> game_ok (the_game s') \<and> keeps_over (the_game s) (the_game s')"
proof (induction rule: gstep.induct)
  case (body t s key g)
  with loop_body_ok [OF body(4,1), of key] show ?case by auto
qed (simp_all add: keeps_over_def)

lemma sum_list_less:
  "distinct xs \<Longrightarrow> t \<in> set xs \<Longrightarrow> f t < (g t :: nat) \<Longrightarrow> (\<And>u. u \<noteq> t \<Longrightarrow> f u = g u) \<Longrightarrow> sum_list (map f xs) < sum_list (map g xs)"
proof (induction xs)
  case (Cons x xs)
  show ?case
  proof (cases "x = t")
    case True
    with Cons.prems(1) have "map f xs = map g xs" by (intro map_cong refl Cons.prems(4)) auto
    with True Cons.prems(3) show ?thesis by (simp del: map_eq_conv)
  next
    case False
    with Cons.IH Cons.prems show ?thesis by simp
  qed
qed simp

lemma distinct_threads: "distinct all_threads"
  by (auto simp: all_threads_def distinct_map inj_on_def)

lemma over_step:
  assumes "over s" and "gstep s s'"
  shows "over s'" and "steps_left s' < steps_left s"
proof -
  show "over s'" using gstep_ok [OF assms(2)] assms(1) by (auto simp: over_def keeps_over_def)
  have *: "steps_left s' < steps_left s" if "t \<in> set all_threads" "rank_of (pc s' t) < rank_of (pc s t)" "\<And>u. u \<noteq> t \<Longrightarrow> pc s' u = pc s u" for t
    unfolding steps_left_def by (rule sum_list_less [OF distinct_threads that(1)]) (simp_all add: that(2,3))
  from assms(2,1) show "steps_left s' < steps_left s"
  proof (induction rule: gstep.cases)
    case (enter t s0)
    then show ?case by (cases t) (auto simp: over_def)
  next
    case (leave t s0)
    then show ?case by (intro * [of t]) (simp_all add: rank_of_def)
  next
    case (body t s0 key g)
    then show ?case by (intro * [of t]) (simp_all add: rank_of_def)
  qed
qed

interpretation play: transition_system gstart gstep "\<lambda>s. game_ok (the_game s)"
proof
  fix s
  assume "gstart s"
  then obtain rnd rnd' where "start_game rnd rnd' = Inr (the_game s)" by (auto simp: gstart_def)
  with start_game_ok [of rnd rnd'] show "game_ok (the_game s)" by auto
next
  fix s s'
  assume "game_ok (the_game s)" and "gstep s s'"
  with gstep_ok show "game_ok (the_game s')" by blast
qed

interpretation ending: winding_down over gstep steps_left
  by unfold_locales (blast intro: over_step)+

lemma start_ok:
  obtains s where "gstart s" and "game_status_code (the_game s) = G_RUNNING"
proof -
  obtain g where g: "start_game (\<lambda>i. 0) (\<lambda>i. 0) = Inr g" "game_status_code g = G_RUNNING" using start_game_ok by blast
  show thesis by (rule that [of "\<lparr>the_game = g, pc = (\<lambda>t. At_test)\<rparr>"]) (use g in \<open>auto simp: gstart_def\<close>)
qed

section \<open>Properties\<close>

text \<open>C32: in every state the game can reach, for all keys, random numbers and orders of the threads, the body of every thread runs to its
  end without a write outside the map, and what is printed is 17 lines of 49 characters in the frame that was drawn at the start.\<close>

theorem game_stays_on_map:
  assumes "reach gstart gstep s" and "t \<in> set all_threads"
  shows "(\<exists>g. loop_body key t (the_game s) = Inr g) \<and>
    (let out = map_print (the_game s) in length out = 17 \<and>
      (\<forall>r < 17. length (out ! r) = 49 \<and>
        (\<forall>c < 49. case frame_char r c of Some ch \<Rightarrow> out ! r ! c = ch | None \<Rightarrow> out ! r ! c \<in> set inner_chars)))"
proof -
  have ok: "game_ok (the_game s)" by (rule play.reach_inv [OF assms(1)])
  let ?m = "map_grid (the_game s)"
  have m: "length ?m = 17" "\<And>r. r < 17 \<Longrightarrow> length (?m ! r) = 50" "\<And>r c. r < 17 \<Longrightarrow> c < 50 \<Longrightarrow> cell_ok r c (?m ! r ! c)"
    using ok by (auto simp: game_ok_def map_ok_def shape_def)
  have line: "map_print (the_game s) ! r = take 49 (?m ! r)" if r: "r < 17" for r
  proof -
    have e: "?m ! r = take 49 (?m ! r) @ [NUL]"
      using m(2) [OF r] m(3) [OF r, of 49] take_Suc_conv_app_nth [of 49 "?m ! r"] by (simp add: cell_ok_def frame_char_def)
    have "c \<noteq> NUL" if "c \<in> set (take 49 (?m ! r))" for c
    proof -
      from that m(2) [OF r] obtain j where "j < 49" "c = ?m ! r ! j" by (auto simp: in_set_conv_nth)
      with m(3) [OF r, of j] show ?thesis by (auto simp: cell_ok_def frame_char_def split: if_splits)
    qed
    then have "takeWhile (\<lambda>c. c \<noteq> NUL) (take 49 (?m ! r) @ [NUL]) = take 49 (?m ! r)" by (simp add: takeWhile_append2)
    with e m(1) r show ?thesis by (simp add: map_print_def)
  qed
  have "\<exists>g. loop_body key t (the_game s) = Inr g" using loop_body_ok [OF ok assms(2)] by blast
  moreover have "length (map_print (the_game s)) = 17" using m(1) by (simp add: map_print_def)
  moreover have "\<forall>r < 17. length (map_print (the_game s) ! r) = 49 \<and>
        (\<forall>c < 49. case frame_char r c of Some ch \<Rightarrow> map_print (the_game s) ! r ! c = ch | None \<Rightarrow> map_print (the_game s) ! r ! c \<in> set inner_chars)"
  proof (intro allI impI conjI)
    fix r c
    assume r: "r < (17 :: nat)"
    show "length (map_print (the_game s) ! r) = 49" using m(2) [OF r] by (simp add: line [OF r])
    assume "c < (49 :: nat)"
    then show "case frame_char r c of Some ch \<Rightarrow> map_print (the_game s) ! r ! c = ch | None \<Rightarrow> map_print (the_game s) ! r ! c \<in> set inner_chars"
      using m(3) [OF r, of c] by (cases "frame_char r c") (simp_all add: line [OF r] cell_ok_def)
  qed
  ultimately show ?thesis by (simp add: Let_def)
qed

theorem game_stays_on_map_witness:
  "\<exists>g g'. start_game (\<lambda>i. 0) (\<lambda>i. 0) = Inr g \<and> loop_body (Some CHR ''w'') T_input g = Inr g' \<and> length (map_print g) = 17"
proof -
  obtain g where g: "start_game (\<lambda>i. 0) (\<lambda>i. 0) = Inr g" using start_game_ok by blast
  let ?s = "\<lparr>the_game = g, pc = (\<lambda>t. At_test)\<rparr>"
  have "gstart ?s" using g by (auto simp: gstart_def)
  then have r: "reach gstart gstep ?s" by (rule reach_init)
  have "T_input \<in> set all_threads" by (simp add: all_threads_def)
  from game_stays_on_map [OF r this, of "Some CHR ''w''"] g show ?thesis by (auto simp: Let_def)
qed

text \<open>C33: in every state the game can reach, \<open>shards_remaining\<close> is the number of shards that are not collected, the adventurer, the walls and
  the shards are inside the frame, and the game is won only when all shards are collected.\<close>

theorem shards_counted:
  assumes "reach gstart gstep s"
  shows "shards_remaining (the_game s) = int (length (filter (\<lambda>x. \<not> g_collected x) (golds (the_game s)))) \<and>
    (game_status_code (the_game s) = G_WON \<longrightarrow> (\<forall>x \<in> set (golds (the_game s)). g_collected x)) \<and>
    inside (player_x (the_game s)) (player_y (the_game s)) \<and>
    (\<forall>w \<in> set (walls (the_game s)). inside (row (w_pos w)) (col (w_pos w))) \<and>
    (\<forall>x \<in> set (golds (the_game s)). inside (row (g_pos x)) (col (g_pos x)))"
proof -
  have ok: "game_ok (the_game s)" by (rule play.reach_inv [OF assms])
  then have "\<forall>w \<in> set (walls (the_game s)). inside (row (w_pos w)) (col (w_pos w))"
    using wall_rows_ok by (auto simp: in_set_conv_nth game_ok_def wall_ok_def inside_def)
  moreover have "\<forall>x \<in> set (golds (the_game s)). inside (row (g_pos x)) (col (g_pos x))"
    using gold_inside [OF ok] ok by (auto simp: in_set_conv_nth game_ok_def)
  ultimately show ?thesis using ok by (auto simp: game_ok_def left_over_def filter_empty_conv)
qed

theorem shards_counted_witness:
  "\<exists>g. start_game (\<lambda>i. 0) (\<lambda>i. 0) = Inr g \<and> shards_remaining g = int (length (filter (\<lambda>x. \<not> g_collected x) (golds g)))"
proof -
  obtain g where g: "start_game (\<lambda>i. 0) (\<lambda>i. 0) = Inr g" using start_game_ok by blast
  let ?s = "\<lparr>the_game = g, pc = (\<lambda>t. At_test)\<rparr>"
  have "gstart ?s" using g by (auto simp: gstart_def)
  then have r: "reach gstart gstep ?s" by (rule reach_init)
  from shards_counted [OF r] g show ?thesis by auto
qed

lemma rank_of_bound: "rank_of p \<le> 2"
  by (simp add: rank_of_def split: tpc.splits)

lemma steps_left_bound: "steps_left s \<le> 28"
proof -
  have "sum_list (map (\<lambda>t. rank_of (pc s t)) ts) \<le> 2 * length ts" for ts
  proof (induction ts)
    case (Cons t ts)
    with rank_of_bound [of "pc s t"] show ?case by simp
  qed simp
  from this [of all_threads] show ?thesis by (simp add: steps_left_def all_threads_def)
qed

text \<open>C34: once the game is over, the threads end: from then on no run of the fourteen threads has more than 28 steps, and the game does not
  start again.\<close>

theorem game_over_ends:
  assumes "reach gstart gstep (f 0)" and "game_status_code (the_game (f 0)) \<noteq> G_RUNNING" and "\<And>n. n < k \<Longrightarrow> gstep (f n) (f (Suc n))"
  shows "k \<le> 28 \<and> game_status_code (the_game (f k)) \<noteq> G_RUNNING"
proof -
  have "over (f 0)" using play.reach_inv [OF assms(1)] assms(2) by (simp add: over_def)
  from ending.run_rank [of f k, OF this assms(3)] steps_left_bound [of "f 0"] show ?thesis by (auto simp: over_def)
qed

text \<open>A game that is quit at the start.\<close>

lemma quit_game: "\<exists>s s'. reach gstart gstep s \<and> game_status_code (the_game s) \<noteq> G_RUNNING \<and> gstep s s'"
proof -
  obtain s0 where s0: "gstart s0" "game_status_code (the_game s0) = G_RUNNING" by (rule start_ok)
  have r0: "reach gstart gstep s0" using s0(1) by (rule reach_init)
  have ok: "game_ok (the_game s0)" by (rule play.reach_inv [OF r0])
  have t: "T_input \<in> set all_threads" "T_print \<in> set all_threads" by (simp_all add: all_threads_def)
  have pc0: "pc s0 = (\<lambda>t. At_test)" using s0(1) by (simp add: gstart_def)
  let ?s1 = "s0\<lparr>pc := (pc s0)(T_input := In_body)\<rparr>"
  have r1: "reach gstart gstep ?s1" by (rule reach_step [OF r0 enter [OF t(1)]]) (use s0(2) pc0 in simp_all)
  obtain g where g: "key_pressed CHR ''q'' (the_game s0) = Inr g" "keeps_over (move_player CHR ''q'' (the_game s0)) g"
    using key_pressed_ok [OF ok] by blast
  have "game_status_code (move_player CHR ''q'' (the_game s0)) = G_QUIT" by (simp add: move_player_def)
  with g(2) have over: "game_status_code g \<noteq> G_RUNNING" by (simp add: keeps_over_def)
  let ?s2 = "\<lparr>the_game = g, pc = (pc ?s1)(T_input := At_test)\<rparr>"
  have "gstep ?s1 ?s2" by (rule body [OF t(1), where key = "Some CHR ''q''"]) (use g(1) in simp_all)
  with r1 have r2: "reach gstart gstep ?s2" by (rule reach_step)
  have "gstep ?s2 (?s2\<lparr>pc := (pc ?s2)(T_print := Ended)\<rparr>)" by (rule leave [OF t(2)]) (use over pc0 in simp_all)
  with r2 over show ?thesis by (intro exI conjI) (assumption, simp_all)
qed

theorem game_over_ends_witness:
  "\<exists>s s'. gstep s s' \<and> game_status_code (the_game s) \<noteq> G_RUNNING \<and> game_status_code (the_game s') \<noteq> G_RUNNING"
proof -
  from quit_game obtain s s' where s: "reach gstart gstep s" "game_status_code (the_game s) \<noteq> G_RUNNING" "gstep s s'" by blast
  let ?f = "\<lambda>n. if n = 0 then s else s'"
  have "1 \<le> (28 :: nat) \<and> game_status_code (the_game (?f (1 :: nat))) \<noteq> G_RUNNING"
    by (rule game_over_ends) (use s in simp_all)
  with s show ?thesis by auto
qed

section \<open>Two things to know\<close>

text \<open>A wall that wraps around the right border is drawn at the left of its row too, but the adventurer there is not hit.\<close>

lemma wrapped_part_misses:
  assumes "col (w_pos w) = 40" and "row (w_pos w) = 2" and "player_x g = 2" and "player_y g = 3"
  shows "(player_x g, player_y g, WALL_CHAR) \<in> set (wall_cells w WALL_CHAR) \<and> \<not> hit_wall w g"
  using assms by (simp add: wall_cells_def hit_wall_def Let_def upto.simps)

text \<open>The last shard wins a game that has been lost in the meantime.\<close>

lemma collect_overrides: "shards_remaining g = 1 \<Longrightarrow> game_status_code g = G_LOST \<Longrightarrow> game_status_code (collect i g) = G_WON"
  by (simp add: collect_def Let_def)

end
