(* ===== verification/Game_Term.thy ===== *)
theory Game_Term
  imports Prelude
begin

text \<open>
  The terminal of the game of \<open>HW2/source/hw2.cpp\<close>: \<open>kbhit\<close>, the test of the input thread for a key, and the modes that \<open>main\<close> sets and resets. A
  terminal has its local modes, the flags of the open file, the characters that \<open>stdio\<close> has read and those that were typed and not read yet (without the bound of the
  terminal's queue).
  A call that waits for input is \<open>None\<close>.
\<close>

section \<open>Terminals\<close>

abbreviation ICANON :: u32 where "ICANON \<equiv> 2"
abbreviation ECHO :: u32 where "ECHO \<equiv> 8"
abbreviation O_NONBLOCK :: u32 where "O_NONBLOCK \<equiv> 2048"

record terminal =
  c_lflag :: u32
  fl :: u32
  buf :: string
  typed :: string

text \<open>\<open>read\<close> of the C library's buffer of 1024 characters: a line if the terminal edits lines, else what there is.\<close>

definition tty_read :: "terminal \<Rightarrow> string \<times> terminal" where
  "tty_read t =
     (let n = (if c_lflag t AND ICANON = 0 then length (typed t)
               else case find_idx (\<lambda>c. c = CHR 0x0A) (typed t) of None \<Rightarrow> 0 | Some i \<Rightarrow> i + 1) in
      (take (min 1024 n) (typed t), t\<lparr>typed := drop (min 1024 n) (typed t)\<rparr>))"

text \<open>\<open>getchar\<close>, with \<open>None\<close> for \<open>EOF\<close>.\<close>

definition getchar :: "terminal \<Rightarrow> (char option \<times> terminal) option" where
  "getchar t =
     (case buf t of c # cs \<Rightarrow> Some (Some c, t\<lparr>buf := cs\<rparr>)
      | [] \<Rightarrow> (case tty_read t of
          (c # cs, t) \<Rightarrow> Some (Some c, t\<lparr>buf := cs\<rparr>)
        | ([], t) \<Rightarrow> if fl t AND O_NONBLOCK \<noteq> 0 then Some (None, t) else None))"

section \<open>The program's use of it\<close>

definition raw_mode :: "u32 \<Rightarrow> u32" where
  "raw_mode l = l AND NOT (ICANON OR ECHO)"

definition kbhit :: "terminal \<Rightarrow> (bool \<times> terminal) option" where
  "kbhit t =
     (let oldt = c_lflag t;
          t = t\<lparr>c_lflag := raw_mode oldt\<rparr>;
          oldf = fl t;
          t = t\<lparr>fl := oldf OR O_NONBLOCK\<rparr> in
      case getchar t of
        None \<Rightarrow> None
      | Some (ch, t) \<Rightarrow>
        let t = t\<lparr>c_lflag := oldt\<rparr>; t = t\<lparr>fl := oldf\<rparr> in
        case ch of Some c \<Rightarrow> Some (True, t\<lparr>buf := c # buf t\<rparr>) | None \<Rightarrow> Some (False, t))"

text \<open>The input thread's test for a key, and the key.\<close>

definition poll_key :: "terminal \<Rightarrow> (char option \<times> terminal) option" where
  "poll_key t = (case kbhit t of None \<Rightarrow> None | Some (hit, t) \<Rightarrow> if hit then getchar t else Some (None, t))"

text \<open>The rounds of the input thread; \<open>ins\<close> is what is typed before each. The keys come out in the order of the rounds.\<close>

fun input_rounds :: "string list \<Rightarrow> terminal \<Rightarrow> (string \<times> terminal) option" where
  "input_rounds [] t = Some ([], t)"
| "input_rounds (i # ins) t =
     (case poll_key (t\<lparr>typed := typed t @ i\<rparr>) of
        None \<Rightarrow> None
      | Some (k, t) \<Rightarrow> (case input_rounds ins t of None \<Rightarrow> None | Some (ks, t) \<Rightarrow> Some (case k of None \<Rightarrow> ks | Some c \<Rightarrow> c # ks, t)))"

text \<open>\<open>main\<close>: the modes are saved and set before the threads start, and set back after they have been joined.\<close>

definition setup_terminal :: "terminal \<Rightarrow> u32 \<times> terminal" where
  "setup_terminal t = (let raw_termios = c_lflag t in (raw_termios, t\<lparr>c_lflag := raw_mode raw_termios\<rparr>))"

definition reset_terminal :: "u32 \<Rightarrow> terminal \<Rightarrow> terminal" where
  "reset_terminal raw_termios t = t\<lparr>c_lflag := raw_termios\<rparr>"

definition main_terminal :: "string list \<Rightarrow> terminal \<Rightarrow> (string \<times> terminal) option" where
  "main_terminal ins t =
     (let (raw_termios, t) = setup_terminal t in
      case input_rounds ins t of None \<Rightarrow> None | Some (ks, t) \<Rightarrow> Some (ks, reset_terminal raw_termios t))"

section \<open>Keys\<close>

definition pending :: "terminal \<Rightarrow> string" where
  "pending t = buf t @ typed t"

lemma cleared: "(l AND NOT (a OR b)) AND a = 0" "(l AND NOT (a OR b)) AND b = (0 :: u32)"
  by (rule bit_word_eqI; auto simp: bit_simps)+

lemma raw_mode_ICANON: "raw_mode l AND ICANON = 0" and raw_mode_ECHO: "raw_mode l AND ECHO = 0"
  unfolding raw_mode_def by (rule cleared)+

text \<open>Without line editing, and with a file that does not block, \<open>getchar\<close> takes the next character if there is one.\<close>

lemma getchar_raw:
  assumes "c_lflag t AND ICANON = 0" "fl t AND O_NONBLOCK \<noteq> 0"
  shows "\<exists>t'. getchar t = Some (case pending t of [] \<Rightarrow> None | c # _ \<Rightarrow> Some c, t') \<and> pending t' = tl (pending t) \<and>
    c_lflag t' = c_lflag t \<and> fl t' = fl t"
proof (cases "buf t")
  case (Cons c cs)
  then show ?thesis by (simp add: getchar_def pending_def)
next
  case Nil
  let ?n = "min 1024 (length (typed t))"
  have r: "tty_read t = (take ?n (typed t), t\<lparr>typed := drop ?n (typed t)\<rparr>)" using assms(1) by (simp add: tty_read_def Let_def)
  show ?thesis
  proof (cases "typed t")
    case Nil': Nil
    then show ?thesis using Nil assms(2) r by (simp add: getchar_def pending_def)
  next
    case Cons
    then obtain c cs where t: "typed t = c # cs" by blast
    define n where "n = min 1023 (length cs)"
    have "?n = Suc n" by (simp add: t n_def)
    then show ?thesis using Nil r by (simp add: getchar_def pending_def t)
  qed
qed

lemma kbhit_correct:
  "\<exists>t'. kbhit t = Some (pending t \<noteq> [], t') \<and> pending t' = pending t \<and> c_lflag t' = c_lflag t \<and> fl t' = fl t \<and> (pending t \<noteq> [] \<longrightarrow> buf t' \<noteq> [])"
proof -
  define u where "u = t\<lparr>c_lflag := raw_mode (c_lflag t), fl := fl t OR O_NONBLOCK\<rparr>"
  have "(fl t OR O_NONBLOCK) AND O_NONBLOCK = O_NONBLOCK" by (rule bit_word_eqI) (auto simp: bit_simps)
  then have raw: "c_lflag u AND ICANON = 0" "fl u AND O_NONBLOCK \<noteq> 0" by (simp_all add: u_def raw_mode_ICANON)
  have p: "pending u = pending t" by (simp add: u_def pending_def)
  from getchar_raw [OF raw] obtain v where v: "getchar u = Some (case pending t of [] \<Rightarrow> None | c # _ \<Rightarrow> Some c, v)"
    "pending v = tl (pending t)" unfolding p by blast
  show ?thesis using v by (cases "pending t") (simp_all add: kbhit_def Let_def u_def pending_def)
qed

lemma poll_key_correct:
  "\<exists>t'. poll_key t = Some (case pending t of [] \<Rightarrow> None | c # _ \<Rightarrow> Some c, t') \<and> pending t' = tl (pending t) \<and>
    c_lflag t' = c_lflag t \<and> fl t' = fl t"
proof -
  from kbhit_correct [of t] obtain u where u: "kbhit t = Some (pending t \<noteq> [], u)" "pending u = pending t" "c_lflag u = c_lflag t" "fl u = fl t"
    "pending t \<noteq> [] \<Longrightarrow> buf u \<noteq> []" by blast
  show ?thesis
  proof (cases "pending t")
    case Nil
    with u show ?thesis by (simp add: poll_key_def)
  next
    case (Cons c cs)
    then have "buf u \<noteq> []" using u(5) by simp
    then obtain bs where "buf u = c # bs" using u(2) Cons by (cases "buf u") (auto simp: pending_def)
    with u Cons show ?thesis by (auto simp: poll_key_def getchar_def pending_def)
  qed
qed

text \<open>What the program is to do with its keys, on the queue \<open>q\<close> of those that are typed and not taken: a round takes the oldest, if there is one.\<close>

fun served :: "string list \<Rightarrow> string \<Rightarrow> string \<times> string" where
  "served [] q = ([], q)"
| "served (i # ins) q =
     (case q @ i of [] \<Rightarrow> served ins [] | c # cs \<Rightarrow> (case served ins cs of (ks, q) \<Rightarrow> (c # ks, q)))"

lemma served_loses_none: "served ins q = (ks, q') \<Longrightarrow> ks @ q' = q @ concat ins"
  by (induction ins q arbitrary: ks rule: served.induct) (auto split: list.splits prod.splits)

lemma served_idle: "served (replicate n []) q = (take n q, drop n q)"
proof (induction n arbitrary: q)
  case (Suc n)
  then show ?case by (cases q) simp_all
qed simp

lemma served_append: "served (ins @ ins') q = (case served ins q of (ks, q) \<Rightarrow> (case served ins' q of (ks', q) \<Rightarrow> (ks @ ks', q)))"
  by (induction ins q rule: served.induct) (auto split: list.splits prod.splits)

lemma served_all: "served (ins @ replicate (length (q @ concat ins)) []) q = (q @ concat ins, [])"
proof -
  obtain ks q' where s: "served ins q = (ks, q')" by force
  note e = served_loses_none [OF s]
  from e have "length q' \<le> length (q @ concat ins)" by (metis le_add2 length_append)
  with e s show ?thesis by (simp add: served_append served_idle)
qed

lemma input_rounds_correct:
  "\<exists>t'. input_rounds ins t = Some (fst (served ins (pending t)), t') \<and> pending t' = snd (served ins (pending t)) \<and> c_lflag t' = c_lflag t \<and> fl t' = fl t"
proof (induction ins arbitrary: t)
  case (Cons i ins)
  define u where "u = t\<lparr>typed := typed t @ i\<rparr>"
  have u: "pending u = pending t @ i" "c_lflag u = c_lflag t" "fl u = fl t" by (simp_all add: u_def pending_def)
  from poll_key_correct [of u] obtain v where v: "poll_key u = Some (case pending u of [] \<Rightarrow> None | c # _ \<Rightarrow> Some c, v)"
    "pending v = tl (pending u)" "c_lflag v = c_lflag t" "fl v = fl t" unfolding u by blast
  from Cons.IH [of v] obtain w where w: "input_rounds ins v = Some (fst (served ins (pending v)), w)" "pending w = snd (served ins (pending v))"
    "c_lflag w = c_lflag v" "fl w = fl v" by blast
  have e: "input_rounds (i # ins) t =
     (case poll_key u of None \<Rightarrow> None
      | Some (k, t) \<Rightarrow> (case input_rounds ins t of None \<Rightarrow> None | Some (ks, t) \<Rightarrow> Some (case k of None \<Rightarrow> ks | Some c \<Rightarrow> c # ks, t)))"
    by (simp add: u_def)
  show ?case
  proof (cases "pending u")
    case Nil
    then have "served (i # ins) (pending t) = served ins []" using u(1) by simp
    with Nil v w show ?thesis unfolding e by simp
  next
    case (Cons c cs)
    then have "served (i # ins) (pending t) = (c # fst (served ins cs), snd (served ins cs))" using u(1) by (simp split: prod.split)
    with Cons v w show ?thesis unfolding e by simp
  qed
qed simp

lemma main_terminal_served:
  "\<exists>t'. main_terminal ins t = Some (fst (served ins (pending t)), t') \<and> pending t' = snd (served ins (pending t)) \<and> c_lflag t' = c_lflag t \<and> fl t' = fl t"
proof -
  let ?t = "t\<lparr>c_lflag := raw_mode (c_lflag t)\<rparr>"
  have p: "pending ?t = pending t" by (simp add: pending_def)
  from input_rounds_correct [of ins ?t] obtain v where "input_rounds ins ?t = Some (fst (served ins (pending t)), v)"
    "pending v = snd (served ins (pending t))" "fl v = fl ?t" unfolding p by blast
  then show ?thesis by (simp add: main_terminal_def setup_terminal_def reset_terminal_def pending_def Let_def)
qed

text \<open>C35: Whatever is typed and when, no round of the input thread waits for a key, and each takes the oldest key that was typed and not yet taken, if there is
  one; so the keys come in their order, none is lost, and all are taken after as many further rounds as there are keys. When
  the game ends the terminal and its file have the modes they had before.\<close>

theorem terminal_restored:
  "(\<exists>t'. main_terminal ins t = Some (fst (served ins (pending t)), t') \<and> pending t' = snd (served ins (pending t)) \<and>
      fst (served ins (pending t)) @ pending t' = pending t @ concat ins \<and> c_lflag t' = c_lflag t \<and> fl t' = fl t) \<and>
   (\<exists>t'. main_terminal (ins @ replicate (length (pending t @ concat ins)) []) t = Some (pending t @ concat ins, t') \<and> pending t' = [])"
proof (intro conjI)
  from main_terminal_served [of ins t] served_loses_none [of ins "pending t" "fst (served ins (pending t))" "snd (served ins (pending t))"]
  show "\<exists>t'. main_terminal ins t = Some (fst (served ins (pending t)), t') \<and> pending t' = snd (served ins (pending t)) \<and>
      fst (served ins (pending t)) @ pending t' = pending t @ concat ins \<and> c_lflag t' = c_lflag t \<and> fl t' = fl t" by auto
  from main_terminal_served [of "ins @ replicate (length (pending t @ concat ins)) []" t, unfolded served_all]
  show "\<exists>t'. main_terminal (ins @ replicate (length (pending t @ concat ins)) []) t = Some (pending t @ concat ins, t') \<and> pending t' = []" by auto
qed

text \<open>On a terminal that edits lines and echoes, two keys typed at once are taken by that round and the next, without a line end.\<close>

theorem terminal_restored_witness:
  "\<exists>t'. main_terminal [''wd'', [], ''q''] \<lparr>c_lflag = ICANON OR ECHO, fl = 0, buf = [], typed = []\<rparr> = Some (''wdq'', t') \<and>
     c_lflag t' = ICANON OR ECHO \<and> fl t' = 0 \<and> pending t' = []"
proof -
  let ?t = "\<lparr>c_lflag = ICANON OR ECHO, fl = 0, buf = [], typed = []\<rparr>"
  have p: "pending ?t = []" and v: "served [''wd'', [], ''q''] [] = (''wdq'', [])" by (simp_all add: pending_def)
  from conjunct1 [OF terminal_restored [of "[''wd'', [], ''q'']" ?t], unfolded p v] show ?thesis by auto
qed

end
