(* ===== verification/Pstree.thy ===== *)
theory Pstree
  imports Prelude "HOL-Library.Multiset"
begin

text \<open>
  \<open>pstree\<close>: \<open>HW1/source/bonus/pstree.c\<close>. A \<open>process_node_t *\<close> is the index of a node in the list \<open>nodes\<close>; a C string is the list of its
  characters without the terminator. A directory or file of \<open>procfs\<close> that is \<open>None\<close> cannot be opened; \<open>Panic\<close> is an exit with that message. What is under \<open>/proc\<close> is the parameter \<open>procfs\<close>, and \<open>qsort\<close> is a parameter too, since the order of
  equal elements is not specified. Writing past an array, reading a variable that \<open>fscanf\<close> did not set and the like are \<open>Undefined\<close>. Printing
  follows pointers, so that it takes fuel; \<open>None\<close> is the result when the fuel is used up.
\<close>

section \<open>State and parameters\<close>

abbreviation MAX_PROCESSES :: nat where "MAX_PROCESSES \<equiv> 100005"
abbreviation MAX_CHILDREN :: nat where "MAX_CHILDREN \<equiv> 100"
abbreviation MAX_NAME_LEN :: nat where "MAX_NAME_LEN \<equiv> 256"

record node =
  n_pid :: int
  n_ppid :: int
  n_name :: string
  n_cmdline :: string
  n_thread_count :: int
  n_children :: "nat list"

record options =
  show_threads :: bool
  use_thread_names :: bool
  show_pid :: bool
  show_compact :: bool
  show_cmdline :: bool
  sort_by_pid :: bool
  align_mode :: bool
  show_ascii_tree :: bool

record pstate =
  nodes :: "node list"
  process_tree :: "nat \<Rightarrow> nat option"
  process_count :: int
  branch_bar :: "nat \<Rightarrow> bool"
  out :: string

record procfs =
  proc_entries :: "string list option"
  stat_file :: "int \<Rightarrow> string option"
  task_entries :: "int \<Rightarrow> string list option"
  task_stat :: "int \<Rightarrow> int \<Rightarrow> string option"
  cmdline_file :: "int \<Rightarrow> string option"

section \<open>Characters and scanning\<close>

definition isdigit :: "char \<Rightarrow> bool" where
  "isdigit c \<longleftrightarrow> c \<in> set ''0123456789''"

definition isspace :: "char \<Rightarrow> bool" where
  "isspace c \<longleftrightarrow> c \<in> {CHR '' '', CHR 0x09, CHR 0x0A, CHR 0x0B, CHR 0x0C, CHR 0x0D}"

definition digit_value :: "char \<Rightarrow> int" where
  "digit_value c = of_char c - of_char (CHR ''0'')"

definition digits_value :: "string \<Rightarrow> int" where
  "digits_value = foldl (\<lambda>n c. 10 * n + digit_value c) 0"

text \<open>\<open>atoi\<close> of a name that starts with a digit.\<close>

definition atoi :: "string \<Rightarrow> int" where
  "atoi s = digits_value (takeWhile isdigit s)"

text \<open>The directives \<open>%d\<close>, \<open>%s\<close> and \<open>%*c\<close> of \<open>fscanf\<close>, with what is left of the input; \<open>None\<close> when they fail.\<close>

definition scan_int :: "string \<Rightarrow> (int \<times> string) option" where
  "scan_int s =
     (let s = dropWhile isspace s; neg = (take 1 s = ''-'');
          s = (if neg \<or> take 1 s = ''+'' then tl s else s); ds = takeWhile isdigit s in
      if ds = [] then None
      else Some (if neg then - digits_value ds else digits_value ds, dropWhile isdigit s))"

definition scan_word :: "string \<Rightarrow> (string \<times> string) option" where
  "scan_word s =
     (let s = dropWhile isspace s; w = takeWhile (\<lambda>c. \<not> isspace c) s in
      if w = [] then None else Some (w, dropWhile (\<lambda>c. \<not> isspace c) s))"

definition scan_char :: "string \<Rightarrow> (char \<times> string) option" where
  "scan_char s = (case s of [] \<Rightarrow> None | c # s \<Rightarrow> Some (c, s))"

text \<open>\<open>fscanf(f, "%d %s %*c %d", ...)\<close> and \<open>fscanf(f, "%*d %s", ...)\<close>.\<close>

definition scan_stat :: "string \<Rightarrow> (int \<times> string \<times> int) option" where
  "scan_stat s =
     (case scan_int s of None \<Rightarrow> None | Some (pid, s) \<Rightarrow>
      case scan_word s of None \<Rightarrow> None | Some (name, s) \<Rightarrow>
      case scan_char (dropWhile isspace s) of None \<Rightarrow> None | Some (_, s) \<Rightarrow>
      case scan_int s of None \<Rightarrow> None | Some (ppid, s) \<Rightarrow> Some (pid, name, ppid))"

definition scan_thread :: "string \<Rightarrow> string option" where
  "scan_thread s = (case scan_int s of None \<Rightarrow> None | Some (_, s) \<Rightarrow> map_option fst (scan_word s))"

section \<open>Reading\<close>

definition clean_process_name :: "string \<Rightarrow> string" where
  "clean_process_name name =
     (case name of c # _ \<Rightarrow> if c = CHR ''('' \<or> c = CHR ''['' then tl (butlast name) else name | [] \<Rightarrow> name)"

text \<open>\<open>snprintf(buf, n, "%s", s)\<close> keeps \<open>n - 1\<close> characters.\<close>

definition fit :: "nat \<Rightarrow> string \<Rightarrow> string" where
  "fit n s = take (n - 1) s"

definition rtrim :: "string \<Rightarrow> string" where
  "rtrim s = rev (dropWhile isspace (rev s))"

definition cmdline_text :: "string option \<Rightarrow> string" where
  "cmdline_text f =
     (case f of None \<Rightarrow> ''()''
      | Some s \<Rightarrow> let s = take 1023 s in
          if s = [] then ''()'' else rtrim (map (\<lambda>c. if c = CHR 0x00 then CHR '' '' else c) s))"

definition set_node :: "nat \<Rightarrow> (node \<Rightarrow> node) \<Rightarrow> pstate \<Rightarrow> pstate" where
  "set_node n f s = s\<lparr>nodes := (nodes s)[n := f (nodes s ! n)]\<rparr>"

text \<open>\<open>node->children[node->child_count++] = c\<close>\<close>

definition add_child :: "nat \<Rightarrow> nat \<Rightarrow> pstate \<Rightarrow> pstate res" where
  "add_child n c s =
     (if length (n_children (nodes s ! n)) \<ge> MAX_CHILDREN then Inl (Undefined ''children'')
      else Inr (set_node n (\<lambda>x. x\<lparr>n_children := n_children x @ [c]\<rparr>) s))"

text \<open>The loop over the entries of \<open>/proc/<pid>/task\<close>. A node for a thread has the command line \<open>junk\<close> that its memory happened to hold (the same for all of them).\<close>

fun read_threads :: "procfs \<Rightarrow> options \<Rightarrow> string \<Rightarrow> int \<Rightarrow> nat \<Rightarrow> string list \<Rightarrow> pstate \<Rightarrow> pstate res" where
  "read_threads F opts junk pid n [] s = Inr s"
| "read_threads F opts junk pid n (e # es) s =
     bindE (if e \<noteq> [] \<and> isdigit (hd e) \<and> atoi e \<noteq> pid then
              case task_stat F pid (atoi e) of None \<Rightarrow> Inr s
              | Some txt \<Rightarrow>
                case scan_thread txt of None \<Rightarrow> Inl (Undefined ''thread_name'')
                | Some name \<Rightarrow>
                  if length name \<ge> 256 then Inl (Undefined ''thread_name'')
                  else
                  let shown = (if use_thread_names opts then clean_process_name name else n_name (nodes s ! n));
                      t = \<lparr>n_pid = atoi e, n_ppid = pid, n_name = fit (MAX_NAME_LEN + 2) (''{'' @ shown @ ''}''), n_cmdline = junk,
                           n_thread_count = 0, n_children = []\<rparr> in
                  add_child n (length (nodes s)) (s\<lparr>nodes := nodes s @ [t]\<rparr>)
            else Inr s) (read_threads F opts junk pid n es)"

definition read_process_threads :: "procfs \<Rightarrow> options \<Rightarrow> string \<Rightarrow> int \<Rightarrow> nat \<Rightarrow> pstate \<Rightarrow> pstate res" where
  "read_process_threads F opts junk pid n s =
     (case task_entries F pid of None \<Rightarrow> Inr s | Some es \<Rightarrow> read_threads F opts junk pid n es s)"

definition read_process_info :: "procfs \<Rightarrow> options \<Rightarrow> string \<Rightarrow> int \<Rightarrow> pstate \<Rightarrow> pstate res" where
  "read_process_info F opts junk pid s =
     (case stat_file F pid of None \<Rightarrow> Inr s
      | Some txt \<Rightarrow>
        case scan_stat txt of None \<Rightarrow> Inl (Undefined ''ppid'')
        | Some (pid, name, ppid) \<Rightarrow>
          if length name \<ge> MAX_NAME_LEN then Inl (Undefined ''name'')
          else if pid < 0 \<or> pid \<ge> int MAX_PROCESSES then Inl (Undefined ''process_tree'')
          else
          let n = length (nodes s);
              x = \<lparr>n_pid = pid, n_ppid = ppid, n_name = clean_process_name name, n_cmdline = [], n_thread_count = 0, n_children = []\<rparr>;
              s = s\<lparr>nodes := nodes s @ [x], process_tree := (process_tree s)(nat pid := Some n), process_count := process_count s + 1\<rparr> in
          bindE (if show_threads opts then read_process_threads F opts junk pid n s else Inr s) (\<lambda>s.
          Inr (if show_cmdline opts then set_node n (\<lambda>x. x\<lparr>n_cmdline := cmdline_text (cmdline_file F pid)\<rparr>) s else s)))"

fun read_entries :: "procfs \<Rightarrow> options \<Rightarrow> string \<Rightarrow> string list \<Rightarrow> pstate \<Rightarrow> pstate res" where
  "read_entries F opts junk [] s = Inr s"
| "read_entries F opts junk (e # es) s =
     bindE (if e \<noteq> [] \<and> isdigit (hd e) then read_process_info F opts junk (atoi e) s else Inr s) (read_entries F opts junk es)"

definition read_all_processes :: "procfs \<Rightarrow> options \<Rightarrow> string \<Rightarrow> pstate \<Rightarrow> pstate res" where
  "read_all_processes F opts junk s =
     (case proc_entries F of None \<Rightarrow> Inl (Panic ''Cannot open /proc'') | Some es \<Rightarrow> read_entries F opts junk es s)"

section \<open>The tree\<close>

fun strcmp :: "string \<Rightarrow> string \<Rightarrow> int" where
  "strcmp [] [] = 0"
| "strcmp [] (b # bs) = - of_char b"
| "strcmp (a # as) [] = of_char a"
| "strcmp (a # as) (b # bs) = (if a = b then strcmp as bs else of_char a - of_char b)"

definition compare_by_name :: "pstate \<Rightarrow> nat \<Rightarrow> nat \<Rightarrow> int" where
  "compare_by_name s a b = strcmp (n_name (nodes s ! a)) (n_name (nodes s ! b))"

definition compare_by_pid :: "pstate \<Rightarrow> nat \<Rightarrow> nat \<Rightarrow> int" where
  "compare_by_pid s a b = n_pid (nodes s ! a) - n_pid (nodes s ! b)"

type_synonym sorter = "(nat \<Rightarrow> nat \<Rightarrow> int) \<Rightarrow> nat list \<Rightarrow> nat list"

definition comparator :: "options \<Rightarrow> pstate \<Rightarrow> nat \<Rightarrow> nat \<Rightarrow> int" where
  "comparator opts = (if sort_by_pid opts then compare_by_pid else compare_by_name)"

definition sort_children :: "sorter \<Rightarrow> options \<Rightarrow> nat \<Rightarrow> pstate \<Rightarrow> pstate" where
  "sort_children qsort opts n s =
     (if length (n_children (nodes s ! n)) > 1
      then set_node n (\<lambda>x. x\<lparr>n_children := qsort (comparator opts s) (n_children x)\<rparr>) s else s)"

definition link_process :: "nat \<Rightarrow> pstate \<Rightarrow> pstate res" where
  "link_process i s =
     (case process_tree s i of None \<Rightarrow> Inr s
      | Some n \<Rightarrow>
        let ppid = n_ppid (nodes s ! n) in
        if ppid > 0 then
          if ppid \<ge> int MAX_PROCESSES then Inl (Undefined ''process_tree'')
          else case process_tree s (nat ppid) of None \<Rightarrow> Inr s | Some q \<Rightarrow> add_child q n s
        else Inr s)"

fun link_all :: "nat list \<Rightarrow> pstate \<Rightarrow> pstate res" where
  "link_all [] s = Inr s"
| "link_all (i # is) s = bindE (link_process i s) (link_all is)"

definition sort_process :: "sorter \<Rightarrow> options \<Rightarrow> nat \<Rightarrow> pstate \<Rightarrow> pstate" where
  "sort_process qsort opts i s = (case process_tree s i of None \<Rightarrow> s | Some n \<Rightarrow> sort_children qsort opts n s)"

definition build_process_tree :: "sorter \<Rightarrow> options \<Rightarrow> pstate \<Rightarrow> pstate res" where
  "build_process_tree qsort opts s =
     bindE (link_all [0..<MAX_PROCESSES] s) (\<lambda>s. Inr (fold (sort_process qsort opts) [0..<MAX_PROCESSES] s))"

section \<open>Printing\<close>

text \<open>The five strings of \<open>branch_chars\<close>; the default ones are in UTF-8.\<close>

definition branch_chars :: "options \<Rightarrow> string list" where
  "branch_chars opts =
     (if show_ascii_tree opts then [''|'', ''`'', ''|'', ''-'', ''+'']
      else map (map char_of) [[0xE2, 0x94, 0x9C], [0xE2, 0x94, 0x94], [0xE2, 0x94, 0x82], [0xE2, 0x94, 0x80], [0xE2, 0x94, 0xAC :: nat]])"

definition emit :: "string \<Rightarrow> pstate \<Rightarrow> pstate" where
  "emit t s = s\<lparr>out := out s @ t\<rparr>"

definition count_same_name_children :: "pstate \<Rightarrow> nat \<Rightarrow> nat \<Rightarrow> string \<Rightarrow> nat" where
  "count_same_name_children s n start name =
     length (filter (\<lambda>c. n_name (nodes s ! c) = name \<and> n_children (nodes s ! c) = []) (drop start (n_children (nodes s ! n))))"

definition print_bar :: "options \<Rightarrow> bool \<Rightarrow> pstate \<Rightarrow> pstate" where
  "print_bar opts is_print s =
     emit ((if align_mode opts then [] else ''  '') @ (if is_print then branch_chars opts ! 2 else '' '') @ (if align_mode opts then [] else '' '')) s"

text \<open>The name that is shown: the command line from behind the last slash before its first space on, or the name.\<close>

definition shown_name :: "node \<Rightarrow> string" where
  "shown_name x =
     fit 260 (let c = n_cmdline x; pre = takeWhile (\<lambda>ch. ch \<noteq> CHR '' '') c in
       if c = [] then n_name x
       else if CHR '' '' \<in> set c \<and> CHR ''/'' \<in> set pre
            then drop (length pre - length (takeWhile (\<lambda>ch. ch \<noteq> CHR ''/'') (rev pre))) c
       else c)"

fun show_digits :: "nat \<Rightarrow> string" where
  "show_digits n = (if n < 10 then [char_of (48 + n)] else show_digits (n div 10) @ [char_of (48 + n mod 10)])"

declare show_digits.simps [simp del]

definition show_int :: "int \<Rightarrow> string" where
  "show_int i = (if i < 0 then ''-'' @ show_digits (nat (- i)) else show_digits (nat i))"

definition label :: "options \<Rightarrow> node \<Rightarrow> string" where
  "label opts x = (if show_pid opts then shown_name x @ ''('' @ show_int (n_pid x) @ '')'' else shown_name x)"

text \<open>The branch in front of a node, and how many columns it takes.\<close>

definition branch_prefix :: "options \<Rightarrow> bool \<Rightarrow> bool \<Rightarrow> string" where
  "branch_prefix opts is_last is_first =
     (let b = branch_chars opts in
      if align_mode opts \<and> is_first then (if is_last then b ! 3 else b ! 4) else (if is_last then b ! 1 else b ! 0))"

definition depth_prefix :: "options \<Rightarrow> int \<Rightarrow> bool \<Rightarrow> bool \<Rightarrow> string \<times> int" where
  "depth_prefix opts depth is_last is_first =
     (let sep = branch_chars opts ! 3; b = branch_prefix opts is_last is_first in
      if depth = -1 then ([], 0)
      else if align_mode opts then
        if is_first then (sep @ b @ sep, 3) else ('' '' @ b @ sep, 3)
      else (''  '' @ b @ sep, 4))"

text \<open>What \<open>print_process_tree\<close> does before the loop over the children: the bars of the levels above, its own line, and the offset of the children.\<close>

definition print_bars :: "options \<Rightarrow> int \<Rightarrow> bool \<Rightarrow> pstate \<Rightarrow> pstate" where
  "print_bars opts depth is_first s =
     (if align_mode opts \<and> is_first then s else fold (\<lambda>i s. print_bar opts (branch_bar s i) s) [0..<nat depth] s)"

definition print_line :: "options \<Rightarrow> int \<Rightarrow> bool \<Rightarrow> bool \<Rightarrow> node \<Rightarrow> pstate \<Rightarrow> pstate" where
  "print_line opts depth is_last is_first x s =
     (let s = emit (fst (depth_prefix opts depth is_last is_first) @ label opts x) s in
      if align_mode opts \<and> n_children x \<noteq> [] then s else emit [CHR 0x0A] s)"

definition child_offset :: "options \<Rightarrow> int \<Rightarrow> bool \<Rightarrow> bool \<Rightarrow> node \<Rightarrow> int" where
  "child_offset opts depth is_last is_first x =
     (if align_mode opts
      then (if depth \<noteq> -1 then snd (depth_prefix opts depth is_last is_first) else 1) + int (length (label opts x)) else 1)"

definition print_head :: "options \<Rightarrow> nat \<Rightarrow> int \<Rightarrow> bool \<Rightarrow> bool \<Rightarrow> pstate \<Rightarrow> (int \<times> pstate) res" where
  "print_head opts n depth is_last is_first s =
     (let x = nodes s ! n; at = (if align_mode opts then depth + 1 else depth) in
      if at < 0 \<or> at \<ge> 1000 then Inl (Undefined ''branch_bar_recorder'')
      else
      let s = s\<lparr>branch_bar := (branch_bar s)(nat at := \<not> is_last)\<rparr> in
      Inr (child_offset opts depth is_last is_first x, print_line opts depth is_last is_first x (print_bars opts depth is_first s)))"

text \<open>The loop from index \<open>i\<close> on; \<open>print\<close> prints a child, and the number bounds the rounds.\<close>

fun print_children :: "options \<Rightarrow> (nat \<Rightarrow> bool \<Rightarrow> bool \<Rightarrow> pstate \<Rightarrow> pstate res option) \<Rightarrow> nat \<Rightarrow> nat \<Rightarrow> nat \<Rightarrow> pstate \<Rightarrow> pstate res option" where
  "print_children opts print n 0 i s = Some (Inr s)"
| "print_children opts print n (Suc k) i s =
     (let cs = n_children (nodes s ! n) in
      if i \<ge> length cs then Some (Inr s)
      else
      let same = (if show_compact opts then count_same_name_children s n i (n_name (nodes s ! (cs ! i))) else 1);
          i' = (if same > 1 then i + same - 1 else i);
          c = cs ! i';
          s = (if same > 1 then set_node c (\<lambda>x. x\<lparr>n_name := fit (MAX_NAME_LEN + 2) (fit 260 (show_digits same @ ''*['' @ n_name x @ '']''))\<rparr>) s else s) in
      case print c (i' = length cs - 1) (i' = 0 \<or> same > 1 \<and> same = i' + 1) s of
        None \<Rightarrow> None
      | Some (Inl e) \<Rightarrow> Some (Inl e)
      | Some (Inr s) \<Rightarrow> print_children opts print n k (i' + 1) s)"

fun print_process_tree :: "options \<Rightarrow> nat \<Rightarrow> nat \<Rightarrow> int \<Rightarrow> bool \<Rightarrow> bool \<Rightarrow> pstate \<Rightarrow> pstate res option" where
  "print_process_tree opts 0 n depth is_last is_first s = None"
| "print_process_tree opts (Suc fuel) n depth is_last is_first s =
     (case print_head opts n depth is_last is_first s of
        Inl e \<Rightarrow> Some (Inl e)
      | Inr (offset, s) \<Rightarrow>
        print_children opts (\<lambda>c l f. print_process_tree opts fuel c (depth + offset) l f) n (length (n_children (nodes s ! n))) 0 s)"

section \<open>The program\<close>

definition default_options :: options where
  "default_options = \<lparr>show_threads = True, use_thread_names = False, show_pid = False, show_compact = True, show_cmdline = False,
     sort_by_pid = False, align_mode = True, show_ascii_tree = False\<rparr>"

definition parse_arg :: "string \<Rightarrow> options \<Rightarrow> options" where
  "parse_arg a opts =
     (if CHR ''-'' \<notin> set a then opts
      else
      let opts = (if CHR ''T'' \<in> set a then opts\<lparr>show_threads := False\<rparr> else opts);
          opts = (if CHR ''t'' \<in> set a then opts\<lparr>use_thread_names := True\<rparr> else opts);
          opts = (if CHR ''p'' \<in> set a then opts\<lparr>show_pid := True\<rparr> else opts);
          opts = (if CHR ''c'' \<in> set a then opts\<lparr>show_compact := False\<rparr> else opts);
          opts = (if CHR ''a'' \<in> set a then opts\<lparr>show_cmdline := True, align_mode := False\<rparr> else opts);
          opts = (if CHR ''n'' \<in> set a then opts\<lparr>sort_by_pid := True\<rparr> else opts) in
      if CHR ''A'' \<in> set a then opts\<lparr>show_ascii_tree := True\<rparr> else opts)"

definition parse_args :: "string list \<Rightarrow> options" where
  "parse_args args = fold parse_arg args default_options"

definition empty_pstate :: pstate where
  "empty_pstate = \<lparr>nodes = [], process_tree = (\<lambda>i. None), process_count = 0, branch_bar = (\<lambda>i. False), out = []\<rparr>"

text \<open>\<open>main\<close> after the arguments; \<open>fuel\<close> bounds the depth of the tree.\<close>

definition pstree_main :: "procfs \<Rightarrow> sorter \<Rightarrow> string \<Rightarrow> nat \<Rightarrow> string list \<Rightarrow> pstate res option" where
  "pstree_main F qsort junk fuel args =
     (let opts = parse_args args in
      case bindE (read_all_processes F opts junk empty_pstate) (build_process_tree qsort opts) of
        Inl e \<Rightarrow> Some (Inl e)
      | Inr s \<Rightarrow> (case process_tree s 1 of None \<Rightarrow> Some (Inr s) | Some n \<Rightarrow> print_process_tree opts fuel n (-1) True True s))"

end
