(* ===== verification/Pstree_Read.thy ===== *)
theory Pstree_Read
  imports Pstree
begin

text \<open>
  Reading \<open>/proc\<close>: printing and scanning a number, the line of a \<open>stat\<close> file, and the nodes that the whole of \<open>/proc\<close> gives. What is known of the
  processes is the list of \<open>pinfo\<close>s, and \<open>serves\<close> says that \<open>/proc\<close> shows them.
\<close>

section \<open>Numbers\<close>

lemma digit_chars: "''0123456789'' = map (\<lambda>d. char_of (48 + d :: nat)) [0, 1, 2, 3, 4, 5, 6, 7, 8, 9]"
  by (simp add: char_of_def bit_0)

lemma digit_char: 
  assumes "d < 10"
  shows "isdigit (char_of (48 + d :: nat))" "digit_value (char_of (48 + d :: nat)) = int d"
proof -
  have "d \<in> {0, 1, 2, 3, 4, 5, 6, 7, 8, 9}" using assms by auto
  then show "isdigit (char_of (48 + d :: nat))" unfolding isdigit_def digit_chars set_map by auto
  have "(of_char (char_of (48 + d) :: char) :: int) = int (of_char (char_of (48 + d) :: char))"
    by (simp only: of_nat_of_char)
  then show "digit_value (char_of (48 + d :: nat)) = int d" using assms by (simp add: digit_value_def)
qed

lemma isdigit_not_space: "isdigit c \<Longrightarrow> \<not> isspace c"
  by (auto simp: isdigit_def isspace_def)

lemma isdigit_not_sign: "isdigit c \<Longrightarrow> c \<noteq> CHR ''-'' \<and> c \<noteq> CHR ''+''"
  by (auto simp: isdigit_def)

lemma show_digits_digits: "c \<in> set (show_digits n) \<Longrightarrow> isdigit c"
proof (induction n rule: show_digits.induct)
  case (1 n)
  then show ?case by (subst (asm) show_digits.simps) (auto split: if_splits intro: digit_char)
qed

lemma show_digits_ne: "show_digits n \<noteq> []"
  by (subst show_digits.simps) simp

lemma digits_value_snoc: "digits_value (ds @ [c]) = 10 * digits_value ds + digit_value c"
  by (simp add: digits_value_def)

lemma digits_value_show: "digits_value (show_digits n) = int n"
proof (induction n rule: show_digits.induct)
  case (1 n)
  show ?case
  proof (cases "n < 10")
    case True
    then show ?thesis by (subst show_digits.simps) (simp add: digits_value_def digit_char)
  next
    case False
    have "int n = 10 * int (n div 10) + int (n mod 10)" by presburger
    then show ?thesis using False 1 by (subst show_digits.simps) (simp add: digits_value_snoc digit_char)
  qed
qed


lemma span:
  assumes "\<And>c. c \<in> set ds \<Longrightarrow> P c" "rest = [] \<or> \<not> P (hd rest)"
  shows "takeWhile P (ds @ rest) = ds" "dropWhile P (ds @ rest) = rest"
  using assms by (cases rest; induction ds; simp)+

lemma atoi_show: "atoi (show_digits n) = int n"
proof -
  have "takeWhile isdigit (show_digits n @ []) = show_digits n" by (rule span) (auto intro: show_digits_digits)
  then show ?thesis by (simp only: atoi_def digits_value_show append_Nil2)
qed

lemma show_digits_Cons: "\<exists>c cs. show_digits n = c # cs \<and> isdigit c"
  by (metis list.exhaust list.set_intros(1) show_digits_digits show_digits_ne)

lemma scan_digits:
  assumes "rest = [] \<or> \<not> isdigit (hd rest)"
  shows "scan_int (show_digits n @ rest) = Some (int n, rest)" "scan_int (CHR ''-'' # show_digits n @ rest) = Some (- int n, rest)"
proof -
  obtain c cs where c: "show_digits n = c # cs" "isdigit c" using show_digits_Cons by blast
  have tw: "takeWhile isdigit (show_digits n @ rest) = show_digits n" "dropWhile isdigit (show_digits n @ rest) = rest"
    using show_digits_digits assms by (blast intro: span)+
  show "scan_int (show_digits n @ rest) = Some (int n, rest)"
    using tw c isdigit_not_space [OF c(2)] isdigit_not_sign [OF c(2)] digits_value_show [of n]
    by (simp add: scan_int_def Let_def)
  show "scan_int (CHR ''-'' # show_digits n @ rest) = Some (- int n, rest)"
    using tw c digits_value_show [of n] by (simp add: scan_int_def Let_def isspace_def)
qed

lemma scan_int_show: "rest = [] \<or> \<not> isdigit (hd rest) \<Longrightarrow> scan_int (show_int i @ rest) = Some (i, rest)"
  by (auto simp: show_int_def scan_digits)

lemma scan_int_space: "scan_int (CHR '' '' # s) = scan_int s"
  by (simp add: scan_int_def isspace_def)

section \<open>A line of a \<open>stat\<close> file\<close>

text \<open>What the kernel writes for a process: its number, its name in brackets, its state, its parent, and more.\<close>

definition stat_line :: "int \<Rightarrow> string \<Rightarrow> char \<Rightarrow> int \<Rightarrow> string \<Rightarrow> string" where
  "stat_line pid comm st ppid rest = show_int pid @ '' ('' @ comm @ '') '' @ [st] @ '' '' @ show_int ppid @ '' '' @ rest"

lemma scan_word_word:
  assumes "w \<noteq> []" "\<forall>c \<in> set w. \<not> isspace c" "rest = [] \<or> isspace (hd rest)"
  shows "scan_word (w @ rest) = Some (w, rest)" "scan_word (CHR '' '' # w @ rest) = Some (w, rest)"
proof -
  have d: "dropWhile isspace (w @ rest) = w @ rest" using assms by (cases w) auto
  have t: "takeWhile (\<lambda>c. \<not> isspace c) (w @ rest) = w" "dropWhile (\<lambda>c. \<not> isspace c) (w @ rest) = rest"
    using assms by (blast intro: span)+
  show "scan_word (w @ rest) = Some (w, rest)" using d t assms(1) by (simp add: scan_word_def Let_def)
  have "isspace CHR '' ''" by (simp add: isspace_def)
  then show "scan_word (CHR '' '' # w @ rest) = Some (w, rest)" using d t assms(1) by (simp add: scan_word_def Let_def)
qed

lemma scan_stat_line:
  assumes "\<forall>c \<in> set comm. \<not> isspace c" "\<not> isspace st"
  shows "scan_stat (stat_line pid comm st ppid rest) = Some (pid, ''('' @ comm @ '')'', ppid)"
proof -
  let ?r2 = "CHR '' '' # show_int ppid @ '' '' @ rest" let ?r1 = "CHR '' '' # st # ?r2"
  have "scan_int (stat_line pid comm st ppid rest) = Some (pid, CHR '' '' # (''('' @ comm @ '')'') @ ?r1)"
    using scan_int_show [of "CHR '' '' # (''('' @ comm @ '')'') @ ?r1" pid] by (simp add: stat_line_def isdigit_def)
  moreover have "scan_word (CHR '' '' # (''('' @ comm @ '')'') @ ?r1) = Some (''('' @ comm @ '')'', ?r1)"
    using assms by (intro scan_word_word(2)) (auto simp: isspace_def)
  moreover have "scan_char (dropWhile isspace ?r1) = Some (st, ?r2)"
    using assms by (simp add: scan_char_def) (simp add: isspace_def)
  moreover have "scan_int ?r2 = Some (ppid, '' '' @ rest)"
    using scan_int_show [of "'' '' @ rest" ppid] by (simp add: scan_int_space isdigit_def)
  ultimately show ?thesis by (simp add: scan_stat_def)
qed

lemma clean_brackets: "clean_process_name (''('' @ comm @ '')'') = comm"
  by (simp add: clean_process_name_def)

text \<open>A name with a space in it is cut there, and what follows is taken for the state; the parent cannot be read then.\<close>

lemma name_with_space:
  assumes "\<forall>c \<in> set w. \<not> isspace c" "\<not> isspace c" "\<not> isspace d" "\<not> isdigit d" "d \<noteq> CHR ''-''" "d \<noteq> CHR ''+''"
  shows "scan_stat (stat_line pid (w @ '' '' @ c # d # v) st ppid rest) = None"
proof -
  let ?r1 = "CHR '' '' # c # d # v @ '') '' @ [st] @ '' '' @ show_int ppid @ '' '' @ rest"
  have "scan_int (stat_line pid (w @ '' '' @ c # d # v) st ppid rest) = Some (pid, CHR '' '' # (CHR ''('' # w) @ ?r1)"
    using scan_int_show [of "CHR '' '' # (CHR ''('' # w) @ ?r1" pid] by (simp add: stat_line_def isdigit_def)
  moreover have "scan_word (CHR '' '' # (CHR ''('' # w) @ ?r1) = Some (CHR ''('' # w, ?r1)"
    using assms by (intro scan_word_word(2)) (auto simp: isspace_def)
  moreover have "scan_char (dropWhile isspace ?r1) = Some (c, d # v @ '') '' @ [st] @ '' '' @ show_int ppid @ '' '' @ rest)"
    using assms(2) by (simp add: scan_char_def) (simp add: isspace_def)
  moreover have "scan_int (d # v @ '') '' @ [st] @ '' '' @ show_int ppid @ '' '' @ rest) = None"
    using assms by (simp add: scan_int_def)
  ultimately show ?thesis by (simp add: scan_stat_def)
qed

section \<open>All of \<open>/proc\<close>\<close>

text \<open>What is known of a process: the fields of its \<open>stat\<close> file, and the number and the name of each of its other threads.\<close>

record pinfo =
  p_pid :: nat
  p_comm :: string
  p_state :: char
  p_ppid :: int
  p_rest :: string
  p_threads :: "(nat \<times> string) list"

definition numeric :: "string \<Rightarrow> bool" where
  "numeric e \<longleftrightarrow> e \<noteq> [] \<and> isdigit (hd e)"

definition serves_process :: "procfs \<Rightarrow> pinfo \<Rightarrow> bool" where
  "serves_process F p \<longleftrightarrow>
     0 < p_pid p \<and> p_pid p < MAX_PROCESSES \<and> length (p_comm p) < 254 \<and> (\<forall>c \<in> set (p_comm p). \<not> isspace c \<and> c \<noteq> CHR 0x00) \<and> \<not> isspace (p_state p) \<and>
     stat_file F (int (p_pid p)) = Some (stat_line (int (p_pid p)) (p_comm p) (p_state p) (p_ppid p) (p_rest p)) \<and>
     map_option (filter (\<lambda>e. numeric e \<and> atoi e \<noteq> int (p_pid p))) (task_entries F (int (p_pid p))) = Some (map (show_digits \<circ> fst) (p_threads p)) \<and>
     length (p_threads p) \<le> MAX_CHILDREN \<and>
     (\<forall>(tid, name) \<in> set (p_threads p). length name < 256 \<and> CHR 0x00 \<notin> set name \<and> map_option scan_thread (task_stat F (int (p_pid p)) (int tid)) = Some (Some name))"

definition serves :: "procfs \<Rightarrow> pinfo list \<Rightarrow> bool" where
  "serves F ps \<longleftrightarrow>
     map_option (filter numeric) (proc_entries F) = Some (map (show_digits \<circ> p_pid) ps) \<and> (\<forall>p \<in> set ps. serves_process F p)"

text \<open>The nodes made for a process, when \<open>n\<close> nodes have been made before: its own and those of its other threads.\<close>

definition thread_node :: "options \<Rightarrow> string \<Rightarrow> pinfo \<Rightarrow> nat \<times> string \<Rightarrow> node" where
  "thread_node opts junk p t =
     \<lparr>n_pid = int (fst t), n_ppid = int (p_pid p),
      n_name = fit 258 (''{'' @ (if use_thread_names opts then clean_process_name (snd t) else p_comm p) @ ''}''),
      n_cmdline = junk, n_thread_count = 0, n_children = []\<rparr>"

definition shown_threads :: "options \<Rightarrow> pinfo \<Rightarrow> (nat \<times> string) list" where
  "shown_threads opts p = (if show_threads opts then p_threads p else [])"

definition process_nodes :: "procfs \<Rightarrow> options \<Rightarrow> string \<Rightarrow> nat \<Rightarrow> pinfo \<Rightarrow> node list" where
  "process_nodes F opts junk n p =
     \<lparr>n_pid = int (p_pid p), n_ppid = p_ppid p, n_name = p_comm p,
      n_cmdline = (if show_cmdline opts then cmdline_text (cmdline_file F (int (p_pid p))) else []), n_thread_count = 0,
      n_children = [Suc n..<Suc n + length (shown_threads opts p)]\<rparr> # map (thread_node opts junk p) (shown_threads opts p)"

lemma read_threads_all:
  assumes "filter (\<lambda>e. numeric e \<and> atoi e \<noteq> int (p_pid p)) es = map (show_digits \<circ> fst) ts"
    and "\<forall>(tid, name) \<in> set ts. length name < 256 \<and> CHR 0x00 \<notin> set name \<and> map_option scan_thread (task_stat F (int (p_pid p)) (int tid)) = Some (Some name)"
    and "n < length (nodes s)" "n_name (nodes s ! n) = p_comm p" "length (n_children (nodes s ! n)) + length ts \<le> MAX_CHILDREN"
  shows "read_threads F opts junk (int (p_pid p)) n es s =
    Inr (s\<lparr>nodes := (nodes s)[n := (nodes s ! n)\<lparr>n_children := n_children (nodes s ! n) @ [length (nodes s)..<length (nodes s) + length ts]\<rparr>]
             @ map (thread_node opts junk p) ts\<rparr>)"
  using assms
proof (induction es arbitrary: ts s)
  case Nil
  then show ?case by simp
next
  case (Cons e es)
  show ?case
  proof (cases "numeric e \<and> atoi e \<noteq> int (p_pid p)")
    case False
    then show ?thesis using Cons by (auto simp: numeric_def)
  next
    case True
    then obtain tid name ts' where ts: "ts = (tid, name) # ts'" and e: "e = show_digits tid"
      and es: "filter (\<lambda>e. numeric e \<and> atoi e \<noteq> int (p_pid p)) es = map (show_digits \<circ> fst) ts'"
      using Cons.prems(1) by (cases ts) auto
    obtain line where line: "task_stat F (int (p_pid p)) (int tid) = Some line" "scan_thread line = Some name" "length name < 256"
      using Cons.prems(2) by (auto simp: ts)
    define s1 where "s1 = s\<lparr>nodes := (nodes s)[n := (nodes s ! n)\<lparr>n_children := n_children (nodes s ! n) @ [length (nodes s)]\<rparr>]
      @ [thread_node opts junk p (tid, name)]\<rparr>"
    have "read_threads F opts junk (int (p_pid p)) n (e # es) s = read_threads F opts junk (int (p_pid p)) n es s1"
      using True line Cons.prems(3-5)
      by (simp add: ts e atoi_show numeric_def add_child_def set_node_def s1_def thread_node_def nth_append list_update_append Let_def)
    also have "\<dots> = Inr (s1\<lparr>nodes := (nodes s1)[n := (nodes s1 ! n)\<lparr>n_children := n_children (nodes s1 ! n) @ [length (nodes s1)..<length (nodes s1) + length ts']\<rparr>]
             @ map (thread_node opts junk p) ts'\<rparr>)"
      by (rule Cons.IH [OF es]) (use Cons.prems(2-5) in \<open>auto simp: ts s1_def nth_append\<close>)
    also have "[length (nodes s1)..<length (nodes s1) + length ts'] = [Suc (length (nodes s))..<length (nodes s) + length ts]"
      by (simp add: s1_def ts)
    finally show ?thesis using Cons.prems(3) upt_conv_Cons [of "length (nodes s)" "length (nodes s) + length ts"]
      by (simp add: s1_def ts nth_append list_update_append del: upt_Suc)
  qed
qed

lemma read_process_info_ok:
  assumes "serves_process F p"
  shows "read_process_info F opts junk (int (p_pid p)) s =
    Inr (s\<lparr>nodes := nodes s @ process_nodes F opts junk (length (nodes s)) p,
           process_tree := (process_tree s)(p_pid p \<mapsto> length (nodes s)), process_count := process_count s + 1\<rparr>)"
proof -
  let ?n = "length (nodes s)"
  let ?x = "\<lparr>n_pid = int (p_pid p), n_ppid = p_ppid p, n_name = p_comm p, n_cmdline = [], n_thread_count = 0, n_children = []\<rparr>"
  let ?s = "s\<lparr>nodes := nodes s @ [?x], process_tree := (process_tree s)(p_pid p \<mapsto> ?n), process_count := process_count s + 1\<rparr>"
  have scan: "scan_stat (stat_line (int (p_pid p)) (p_comm p) (p_state p) (p_ppid p) (p_rest p)) = Some (int (p_pid p), ''('' @ p_comm p @ '')'', p_ppid p)"
    using assms by (intro scan_stat_line) (simp_all add: serves_process_def)
  obtain es where es: "task_entries F (int (p_pid p)) = Some es"
      "filter (\<lambda>e. numeric e \<and> atoi e \<noteq> int (p_pid p)) es = map (show_digits \<circ> fst) (p_threads p)"
    using assms by (auto simp: serves_process_def)
  have "read_threads F opts junk (int (p_pid p)) ?n es ?s =
    Inr (?s\<lparr>nodes := nodes s @ [?x\<lparr>n_children := [Suc ?n..<Suc ?n + length (p_threads p)]\<rparr>] @ map (thread_node opts junk p) (p_threads p)\<rparr>)"
    using assms by (subst read_threads_all [OF es(2)]) (simp_all add: serves_process_def nth_append)
  then show ?thesis using assms scan clean_brackets [of "p_comm p"]
    by (simp add: read_process_info_def serves_process_def read_process_threads_def es(1) set_node_def nth_append process_nodes_def shown_threads_def Let_def)
qed

text \<open>The process has its node in the table, and this node and those of its threads hold what is known of it.\<close>

definition recorded :: "procfs \<Rightarrow> options \<Rightarrow> string \<Rightarrow> pstate \<Rightarrow> pinfo \<Rightarrow> bool" where
  "recorded F opts junk s p \<longleftrightarrow>
     (case process_tree s (p_pid p) of None \<Rightarrow> False
      | Some n \<Rightarrow> take (Suc (length (shown_threads opts p))) (drop n (nodes s)) = process_nodes F opts junk n p)"

text \<open>Every node is one of these.\<close>

definition nodes_from :: "options \<Rightarrow> pinfo set \<Rightarrow> pstate \<Rightarrow> bool" where
  "nodes_from opts A s \<longleftrightarrow>
     (\<forall>m < length (nodes s). \<exists>p \<in> A. \<exists>n. process_tree s (p_pid p) = Some n \<and> n \<le> m \<and> m \<le> n + length (shown_threads opts p))"

lemma recorded_update:
  assumes "recorded F opts junk s p" "q \<noteq> p_pid p"
  shows "recorded F opts junk (s\<lparr>nodes := nodes s @ xs, process_tree := (process_tree s)(q := t), process_count := c\<rparr>) p"
proof (cases "process_tree s (p_pid p)")
  case None
  then show ?thesis using assms by (simp add: recorded_def)
next
  case (Some n)
  let ?k = "Suc (length (shown_threads opts p))"
  have "take ?k (drop n (nodes s)) = process_nodes F opts junk n p" using assms Some by (simp add: recorded_def)
  moreover from arg_cong [OF this, of length] have "?k \<le> length (nodes s) - n" by (simp add: process_nodes_def)
  ultimately show ?thesis using Some assms(2) by (simp add: recorded_def)
qed

lemma nodes_from_snoc:
  assumes "nodes_from opts A s" "\<forall>q \<in> A. p_pid q \<noteq> p_pid p"
  shows "nodes_from opts (insert p A) (s\<lparr>nodes := nodes s @ process_nodes F opts junk (length (nodes s)) p,
    process_tree := (process_tree s)(p_pid p \<mapsto> length (nodes s)), process_count := c\<rparr>)"
  unfolding nodes_from_def
proof (intro allI impI)
  let ?s = "s\<lparr>nodes := nodes s @ process_nodes F opts junk (length (nodes s)) p,
    process_tree := (process_tree s)(p_pid p \<mapsto> length (nodes s)), process_count := c\<rparr>"
  fix m assume m: "m < length (nodes ?s)"
  show "\<exists>q \<in> insert p A. \<exists>n. process_tree ?s (p_pid q) = Some n \<and> n \<le> m \<and> m \<le> n + length (shown_threads opts q)"
  proof (cases "m < length (nodes s)")
    case True
    then obtain q n where "q \<in> A" "process_tree s (p_pid q) = Some n" "n \<le> m \<and> m \<le> n + length (shown_threads opts q)"
      using assms(1) unfolding nodes_from_def by blast
    then show ?thesis using assms(2) by (intro bexI [of _ q] exI [of _ n]) auto
  next
    case False
    then show ?thesis using m by (intro bexI [of _ p] exI [of _ "length (nodes s)"]) (auto simp: process_nodes_def)
  qed
qed

lemma read_entries_ok:
  assumes "filter numeric es = map (show_digits \<circ> p_pid) ps" "\<forall>p \<in> set ps. serves_process F p" "distinct (map p_pid ps)"
    and "\<forall>p \<in> set qs. recorded F opts junk s p \<and> p_pid p \<notin> p_pid ` set ps" "nodes_from opts (set qs) s"
  shows "\<exists>s'. read_entries F opts junk es s = Inr s' \<and> (\<forall>p \<in> set qs \<union> set ps. recorded F opts junk s' p) \<and> nodes_from opts (set qs \<union> set ps) s' \<and>
    dom (process_tree s') = dom (process_tree s) \<union> p_pid ` set ps \<and> process_count s' = process_count s + int (length ps) \<and>
    out s' = out s \<and> branch_bar s' = branch_bar s"
  using assms
proof (induction es arbitrary: ps qs s)
  case Nil
  then show ?case by simp
next
  case (Cons e es)
  show ?case
  proof (cases "numeric e")
    case False
    then show ?thesis using Cons by (simp add: numeric_def [symmetric])
  next
    case True
    then obtain p ps' where ps: "ps = p # ps'" and e: "e = show_digits (p_pid p)"
      and es: "filter numeric es = map (show_digits \<circ> p_pid) ps'"
      using Cons.prems(1) by (cases ps) auto
    define s1 where "s1 = s\<lparr>nodes := nodes s @ process_nodes F opts junk (length (nodes s)) p,
           process_tree := (process_tree s)(p_pid p \<mapsto> length (nodes s)), process_count := process_count s + 1\<rparr>"
    have step: "read_entries F opts junk (e # es) s = read_entries F opts junk es s1"
      using True Cons.prems(2) read_process_info_ok [of F p opts junk s]
      by (simp add: numeric_def [symmetric] e atoi_show ps s1_def)
    have "recorded F opts junk s1 p" by (simp add: recorded_def s1_def process_nodes_def)
    moreover have "recorded F opts junk s1 q" if "q \<in> set qs" for q
      unfolding s1_def using that Cons.prems(4) by (intro recorded_update) (auto simp: ps)
    ultimately have "\<forall>q \<in> set (p # qs). recorded F opts junk s1 q \<and> p_pid q \<notin> p_pid ` set ps'"
      using Cons.prems(3,4) by (auto simp: ps)
    moreover have "nodes_from opts (set (p # qs)) s1"
      using nodes_from_snoc [OF Cons.prems(5), of p] Cons.prems(4) by (simp add: s1_def ps)
    ultimately have "\<exists>s'. read_entries F opts junk es s1 = Inr s' \<and> (\<forall>q \<in> set (p # qs) \<union> set ps'. recorded F opts junk s' q) \<and>
      nodes_from opts (set (p # qs) \<union> set ps') s' \<and> dom (process_tree s') = dom (process_tree s1) \<union> p_pid ` set ps' \<and>
      process_count s' = process_count s1 + int (length ps') \<and> out s' = out s1 \<and> branch_bar s' = branch_bar s1"
      using Cons.prems(2,3) by (intro Cons.IH [OF es]) (auto simp: ps)
    then show ?thesis
      unfolding step by (auto simp: ps s1_def)
  qed
qed

definition demo_proc :: procfs where
  "demo_proc = \<lparr>proc_entries = Some [''.'', ''..'', ''1'', ''self'', ''7''],
     stat_file = (\<lambda>i. if i = 1 then Some ''1 (init) S 0 9'' else if i = 7 then Some ''7 (sh) S 1 9'' else None),
     task_entries = (\<lambda>i. if i = 1 then Some [''.'', ''..'', ''1''] else if i = 7 then Some [''.'', ''..'', ''7'', ''8''] else None),
     task_stat = (\<lambda>i j. if i = 7 \<and> j = 8 then Some ''8 (w) S 1 9'' else None),
     cmdline_file = (\<lambda>i. None)\<rparr>"

definition demo_processes :: "pinfo list" where
  "demo_processes = [\<lparr>p_pid = 1, p_comm = ''init'', p_state = CHR ''S'', p_ppid = 0, p_rest = ''9'', p_threads = []\<rparr>,
     \<lparr>p_pid = 7, p_comm = ''sh'', p_state = CHR ''S'', p_ppid = 1, p_rest = ''9'', p_threads = [(8, ''(w)'')]\<rparr>]"

lemma read_all_ok:
  assumes "serves F ps" "distinct (map p_pid ps)"
  shows "\<exists>s. read_all_processes F opts junk empty_pstate = Inr s \<and> (\<forall>p \<in> set ps. recorded F opts junk s p) \<and>
    nodes_from opts (set ps) s \<and> dom (process_tree s) = p_pid ` set ps \<and> process_count s = int (length ps) \<and> out s = []"
proof -
  obtain es where es: "proc_entries F = Some es" "filter numeric es = map (show_digits \<circ> p_pid) ps"
    using assms by (auto simp: serves_def)
  have "\<exists>s'. read_entries F opts junk es empty_pstate = Inr s' \<and> (\<forall>p \<in> set [] \<union> set ps. recorded F opts junk s' p) \<and> nodes_from opts (set [] \<union> set ps) s' \<and>
    dom (process_tree s') = dom (process_tree empty_pstate) \<union> p_pid ` set ps \<and>
    process_count s' = process_count empty_pstate + int (length ps) \<and> out s' = out empty_pstate \<and> branch_bar s' = branch_bar empty_pstate"
    by (rule read_entries_ok [OF es(2)]) (use assms in \<open>auto simp: serves_def nodes_from_def empty_pstate_def\<close>)
  then show ?thesis by (auto simp: read_all_processes_def es(1) empty_pstate_def)
qed

text \<open>C37: Whatever the entries of \<open>/proc\<close> and of the \<open>task\<close> directories are besides the numbers of the processes and threads, and
  whatever the options: reading it gives back every process, with its number, name, parent and, unless they are switched off, one node
  for each of its other threads as its children; no other process is in the table, no other node is made, and the count is theirs. (The names contain no
  white space.)\<close>

theorem read_all_processes_correct:
  assumes "serves F ps" "distinct (map p_pid ps)"
  shows "\<exists>s. read_all_processes F opts junk empty_pstate = Inr s \<and> (\<forall>p \<in> set ps. recorded F opts junk s p) \<and>
    nodes_from opts (set ps) s \<and> dom (process_tree s) = p_pid ` set ps \<and> process_count s = int (length ps) \<and> out s = []"
  by (rule read_all_ok [OF assms])

lemma demo_serves: "serves demo_proc demo_processes"
  by (simp add: serves_def serves_process_def demo_proc_def demo_processes_def numeric_def isdigit_def isspace_def show_digits.simps
      stat_line_def show_int_def atoi_def digits_value_def digit_value_def scan_thread_def scan_int_def scan_word_def char_of_def bit_0)

theorem read_all_processes_correct_witness:
  "\<exists>s. read_all_processes demo_proc default_options [] empty_pstate = Inr s \<and> recorded demo_proc default_options [] s (demo_processes ! 1) \<and>
     dom (process_tree s) = {1, 7}"
  using read_all_processes_correct [OF demo_serves, of default_options "[]"] by (auto simp: demo_processes_def)

end
