(* ===== verification/Pstree_Build.thy ===== *)
theory Pstree_Build
  imports Pstree_Read "HOL-Library.Char_ord" "HOL-Library.List_Lexorder"
begin

text \<open>
  Linking the processes into a tree and sorting the children. \<open>sorts\<close> is what the C standard promises of \<open>qsort\<close>: it permutes, and the
  result is in order when the comparison is a total preorder.
\<close>

section \<open>The two comparisons\<close>

definition preorder :: "nat set \<Rightarrow> (nat \<Rightarrow> nat \<Rightarrow> int) \<Rightarrow> bool" where
  "preorder A cmp \<longleftrightarrow> (\<forall>a \<in> A. \<forall>b \<in> A. cmp a b \<le> 0 \<or> cmp b a \<le> 0) \<and>
     (\<forall>a \<in> A. \<forall>b \<in> A. \<forall>c \<in> A. cmp a b \<le> 0 \<longrightarrow> cmp b c \<le> 0 \<longrightarrow> cmp a c \<le> 0)"

definition sorts :: "sorter \<Rightarrow> bool" where
  "sorts qsort \<longleftrightarrow> (\<forall>cmp xs. mset (qsort cmp xs) = mset xs \<and> (preorder (set xs) cmp \<longrightarrow> sorted_wrt (\<lambda>a b. cmp a b \<le> 0) (qsort cmp xs)))"

abbreviation c_string :: "string \<Rightarrow> bool" where "c_string s \<equiv> CHR 0x00 \<notin> set s"

lemma of_char_eq: "(of_char a :: int) = of_char b \<longleftrightarrow> a = b"
proof -
  have "(of_char a :: int) = of_char b \<longleftrightarrow> (of_char a :: nat) = of_char b"
    by (metis of_nat_eq_iff of_nat_of_char)
  then show ?thesis by simp
qed

lemma of_char_ge: "0 \<le> (of_char a :: int)"
  by (metis of_nat_0_le_iff of_nat_of_char)

lemma of_char_pos: "a \<noteq> CHR 0x00 \<Longrightarrow> 0 < (of_char a :: int)"
  using of_char_ge [of a] of_char_eq [of a "CHR 0x00"] by auto

lemma of_char_0: "(of_char a :: int) = 0 \<longleftrightarrow> a = CHR 0x00"
  using of_char_eq [of a "CHR 0x00"] by simp

lemma of_char_less: "(of_char a :: int) < of_char b \<longleftrightarrow> a < b"
  by (metis less_char_def of_nat_less_iff of_nat_of_char)

lemma of_char_sign: "0 < (of_char a :: int) \<longleftrightarrow> a \<noteq> CHR 0x00" "\<not> (of_char a :: int) < 0"
  using of_char_pos [of a] of_char_ge [of a] of_char_0 [of a] by auto

lemma strcmp_cmp:
  assumes "c_string a" "c_string b"
  shows "(strcmp a b < 0 \<longleftrightarrow> a < b) \<and> (strcmp a b = 0 \<longleftrightarrow> a = b)"
  using assms
  by (induction a b rule: strcmp.induct) (auto simp: of_char_less of_char_eq of_char_0 of_char_sign)

text \<open>\<open>strcmp\<close> decides the lexicographic order, that of the class \<open>linorder\<close> on lists of characters.\<close>

lemma strcmp_le: "c_string a \<Longrightarrow> c_string b \<Longrightarrow> strcmp a b \<le> 0 \<longleftrightarrow> a \<le> b"
  using strcmp_cmp [of a b] by (auto simp: le_less)

definition names_ok :: "pstate \<Rightarrow> bool" where
  "names_ok s \<longleftrightarrow> (\<forall>x \<in> set (nodes s). c_string (n_name x))"

text \<open>To be in order for the comparison is to be in order by number or by name.\<close>

lemma sorted_comparator:
  assumes "sorted_wrt (\<lambda>a b. comparator opts s a b \<le> 0) cs" "names_ok s" "set cs \<subseteq> {..<length (nodes s)}"
  shows "if sort_by_pid opts then sorted (map (\<lambda>c. n_pid (nodes s ! c)) cs) else sorted (map (\<lambda>c. n_name (nodes s ! c)) cs)"
proof -
  have "comparator opts s a b \<le> 0 \<longleftrightarrow> (if sort_by_pid opts then n_pid (nodes s ! a) \<le> n_pid (nodes s ! b) else n_name (nodes s ! a) \<le> n_name (nodes s ! b))"
    if "a \<in> set cs" "b \<in> set cs" for a b
    using that assms(2,3) by (auto simp: comparator_def compare_by_pid_def compare_by_name_def names_ok_def subset_iff strcmp_le)
  then have "sorted_wrt (\<lambda>a b. if sort_by_pid opts then n_pid (nodes s ! a) \<le> n_pid (nodes s ! b) else n_name (nodes s ! a) \<le> n_name (nodes s ! b)) cs"
    using assms(1) by (auto intro: sorted_wrt_mono_rel [rotated])
  then show ?thesis by (cases "sort_by_pid opts") (simp_all add: sorted_wrt_map)
qed

lemma preorder_comparator:
  assumes "names_ok s" "A \<subseteq> {..<length (nodes s)}"
  shows "preorder A (comparator opts s)"
proof -
  have "c_string (n_name (nodes s ! a))" if "a \<in> A" for a
    using that assms by (auto simp: names_ok_def)
  then show ?thesis
    by (auto simp: preorder_def comparator_def compare_by_pid_def compare_by_name_def strcmp_le)
qed

section \<open>Linking\<close>

text \<open>The processes of the numbers \<open>is\<close> whose parent is the node \<open>n\<close>.\<close>

definition parent_of :: "pstate \<Rightarrow> nat \<Rightarrow> nat option" where
  "parent_of s i =
     (case process_tree s i of None \<Rightarrow> None
      | Some m \<Rightarrow> if n_ppid (nodes s ! m) > 0 then process_tree s (nat (n_ppid (nodes s ! m))) else None)"

definition kids :: "pstate \<Rightarrow> nat list \<Rightarrow> nat \<Rightarrow> nat list" where
  "kids s is n = map (\<lambda>i. the (process_tree s i)) (filter (\<lambda>i. parent_of s i = Some n) is)"

definition with_children :: "pstate \<Rightarrow> (nat \<Rightarrow> nat list) \<Rightarrow> pstate" where
  "with_children s f = s\<lparr>nodes := map (\<lambda>n. (nodes s ! n)\<lparr>n_children := f n\<rparr>) [0..<length (nodes s)]\<rparr>"

definition old_children :: "pstate \<Rightarrow> nat \<Rightarrow> nat list" where
  "old_children s n = (if n < length (nodes s) then n_children (nodes s ! n) else [])"

definition tree_ok :: "pstate \<Rightarrow> bool" where
  "tree_ok s \<longleftrightarrow> ran (process_tree s) \<subseteq> {..<length (nodes s)} \<and>
     (\<forall>i n. process_tree s i = Some n \<longrightarrow> n_ppid (nodes s ! n) < int MAX_PROCESSES)"

lemma with_children_self [simp]: "with_children s (old_children s) = s"
  by (auto simp: with_children_def old_children_def intro!: pstate.equality nth_equalityI)

lemma with_children_twice [simp]: "with_children (with_children s f) g = with_children s g"
  by (auto simp: with_children_def)

lemma with_children_simps [simp]:
  "process_tree (with_children s f) = process_tree s" "length (nodes (with_children s f)) = length (nodes s)"
  "n < length (nodes s) \<Longrightarrow> nodes (with_children s f) ! n = (nodes s ! n)\<lparr>n_children := f n\<rparr>"
  "out (with_children s f) = out s" "process_count (with_children s f) = process_count s"
  "branch_bar (with_children s f) = branch_bar s"
  by (simp_all add: with_children_def)

lemma parent_of_with_children [simp]:
  assumes "tree_ok s"
  shows "parent_of (with_children s f) i = parent_of s i"
  using assms by (auto simp: parent_of_def tree_ok_def ran_def split: option.split)

lemma link_process_step:
  assumes "tree_ok s"
  shows "link_process i (with_children s f) =
    (case parent_of s i of None \<Rightarrow> Inr (with_children s f)
     | Some q \<Rightarrow> if length (f q) \<ge> MAX_CHILDREN then Inl (Undefined ''children'')
                else Inr (with_children s (f(q := f q @ [the (process_tree s i)]))))"
proof (cases "process_tree s i")
  case None
  then show ?thesis by (simp add: link_process_def parent_of_def)
next
  case (Some m)
  let ?pp = "n_ppid (nodes s ! m)"
  have m: "m < length (nodes s)" "?pp < int MAX_PROCESSES" using assms Some by (auto simp: tree_ok_def ran_def)
  show ?thesis
  proof (cases "?pp > 0 \<and> process_tree s (nat ?pp) \<noteq> None")
    case False
    then show ?thesis using m Some by (auto simp: link_process_def parent_of_def Let_def split: option.split)
  next
    case True
    then obtain q where q: "process_tree s (nat ?pp) = Some q" by blast
    then have ql: "q < length (nodes s)" using assms by (auto simp: tree_ok_def ran_def)
    have "link_process i (with_children s f) = add_child q m (with_children s f)"
      using True m Some q by (simp add: link_process_def Let_def)
    moreover have "set_node q (\<lambda>x. x\<lparr>n_children := n_children x @ [m]\<rparr>) (with_children s f) = with_children s (f(q := f q @ [m]))"
      using ql by (auto simp: set_node_def with_children_def nth_list_update intro!: pstate.equality nth_equalityI)
    ultimately show ?thesis using True Some q ql by (simp add: parent_of_def add_child_def)
  qed
qed

lemma kids_Cons: "kids s (i # is) n = (if parent_of s i = Some n then the (process_tree s i) # kids s is n else kids s is n)"
  by (simp add: kids_def)

lemma link_all_ok:
  assumes "tree_ok s" "\<forall>n. length (f n) + length (kids s is n) \<le> MAX_CHILDREN"
  shows "link_all is (with_children s f) = Inr (with_children s (\<lambda>n. f n @ kids s is n))"
  using assms
proof (induction "is" arbitrary: f)
  case Nil
  then show ?case by (simp add: kids_def)
next
  case (Cons i "is")
  show ?case
  proof (cases "parent_of s i")
    case None
    then show ?thesis using Cons by (simp add: link_process_step kids_Cons)
  next
    case (Some q)
    let ?f = "f(q := f q @ [the (process_tree s i)])"
    have len: "\<forall>n. length (?f n) + length (kids s is n) \<le> MAX_CHILDREN"
      using Cons.prems(2) Some by (auto simp: kids_Cons split: if_splits) 
    moreover have "length (f q) < MAX_CHILDREN" using len [rule_format, of q] by simp
    moreover have "(\<lambda>n. ?f n @ kids s is n) = (\<lambda>n. f n @ kids s (i # is) n)"
      using Some by (auto simp: kids_Cons)
    ultimately show ?thesis using Cons.IH [of ?f] Cons.prems(1) Some by (simp add: link_process_step fun_upd_def)
  qed
qed

lemma link_all_overflow:
  assumes "tree_ok s" "length (f n) \<le> MAX_CHILDREN" "length (f n) + length (kids s is n) > MAX_CHILDREN"
  shows "link_all is (with_children s f) = Inl (Undefined ''children'')"
  using assms
proof (induction "is" arbitrary: f)
  case Nil
  then show ?case by (simp add: kids_def)
next
  case (Cons i "is")
  show ?case
  proof (cases "parent_of s i")
    case None
    then show ?thesis using Cons by (simp add: link_process_step kids_Cons)
  next
    case (Some q)
    let ?f = "f(q := f q @ [the (process_tree s i)])"
    show ?thesis
    proof (cases "length (f q) \<ge> MAX_CHILDREN")
      case True
      then show ?thesis using Some Cons.prems(1) by (simp add: link_process_step)
    next
      case False
      have "length (?f n) \<le> MAX_CHILDREN" "length (?f n) + length (kids s is n) > MAX_CHILDREN"
        using Cons.prems False Some by (auto simp: kids_Cons split: if_splits)
      then show ?thesis using Cons.IH [of ?f] Cons.prems(1) Some False by (simp add: link_process_step fun_upd_def)
    qed
  qed
qed

section \<open>Sorting\<close>

abbreviation in_order :: "options \<Rightarrow> pstate \<Rightarrow> nat list \<Rightarrow> bool" where
  "in_order opts s \<equiv> sorted_wrt (\<lambda>a b. comparator opts s a b \<le> 0)"

lemma comparator_with_children:
  assumes "a < length (nodes s)" "b < length (nodes s)"
  shows "comparator opts (with_children s f) a b = comparator opts s a b"
  using assms by (simp add: comparator_def compare_by_name_def compare_by_pid_def)

lemma in_order_with_children:
  assumes "set cs \<subseteq> {..<length (nodes s)}"
  shows "in_order opts (with_children s f) cs \<longleftrightarrow> in_order opts s cs"
  using assms by (intro iffI; elim sorted_wrt_mono_rel [rotated]; auto simp: comparator_with_children subset_iff)

lemma names_ok_with_children [simp]: "names_ok (with_children s f) \<longleftrightarrow> names_ok s"
  by (auto simp: names_ok_def with_children_def set_conv_nth)

lemma sort_process_ok:
  assumes "sorts qsort" "names_ok s" "tree_ok s" "\<forall>n. set (f n) \<subseteq> {..<length (nodes s)}"
  shows "\<exists>g. sort_process qsort opts i (with_children s f) = with_children s g \<and> (\<forall>n. mset (g n) = mset (f n)) \<and>
    (\<forall>n. process_tree s i = Some n \<or> in_order opts s (f n) \<longrightarrow> in_order opts s (g n))"
proof (cases "\<exists>m. process_tree s i = Some m \<and> 1 < length (f m)")
  case False
  have "sort_process qsort opts i (with_children s f) = with_children s f"
  proof (cases "process_tree s i")
    case (Some m)
    then have "m < length (nodes s)" "\<not> 1 < length (f m)" using False assms(3) by (auto simp: tree_ok_def ran_def)
    then show ?thesis using Some by (simp add: sort_process_def sort_children_def)
  qed (simp add: sort_process_def)
  moreover have "in_order opts s (f m)" if "process_tree s i = Some m" for m
  proof -
    have "length (f m) \<le> 1" using that False by force
    then show ?thesis by (cases "f m") simp_all
  qed
  ultimately show ?thesis by blast
next
  case True
  then obtain m where m: "process_tree s i = Some m" "1 < length (f m)" by blast
  then have ml: "m < length (nodes s)" using assms(3) by (auto simp: tree_ok_def ran_def)
  let ?s = "with_children s f" let ?cs = "qsort (comparator opts ?s) (f m)"
  have "sort_process qsort opts i ?s = with_children s (f(m := ?cs))"
    using m ml by (auto simp: sort_process_def sort_children_def set_node_def with_children_def nth_list_update intro!: pstate.equality nth_equalityI)
  moreover have "mset ?cs = mset (f m)" using assms(1) by (simp add: sorts_def)
  moreover have "in_order opts s ?cs"
  proof (rule in_order_with_children [THEN iffD1])
    show "set ?cs \<subseteq> {..<length (nodes s)}" using assms(4) \<open>mset ?cs = mset (f m)\<close> by (metis set_mset_mset)
    have "preorder (set (f m)) (comparator opts ?s)" by (rule preorder_comparator) (use assms(2,4) in auto)
    then show "in_order opts ?s ?cs" using assms(1) by (simp add: sorts_def)
  qed
  ultimately show ?thesis using m by (intro exI [of _ "f(m := ?cs)"]) auto
qed

lemma sort_all_ok:
  assumes "sorts qsort" "names_ok s" "tree_ok s" "\<forall>n. set (f n) \<subseteq> {..<length (nodes s)}"
  shows "\<exists>g. fold (sort_process qsort opts) is (with_children s f) = with_children s g \<and> (\<forall>n. mset (g n) = mset (f n)) \<and>
    (\<forall>n. Some n \<in> process_tree s ` set is \<or> in_order opts s (f n) \<longrightarrow> in_order opts s (g n))"
  using assms(4)
proof (induction "is" arbitrary: f)
  case Nil
  then show ?case by auto
next
  case (Cons i "is")
  obtain g where g: "sort_process qsort opts i (with_children s f) = with_children s g" "\<forall>n. mset (g n) = mset (f n)"
    "\<forall>n. process_tree s i = Some n \<or> in_order opts s (f n) \<longrightarrow> in_order opts s (g n)"
    using sort_process_ok [OF assms(1-3) Cons.prems, of opts i] by blast
  have "\<forall>n. set (g n) \<subseteq> {..<length (nodes s)}" using g(2) Cons.prems by (metis set_mset_mset)
  from Cons.IH [OF this] obtain h where h: "fold (sort_process qsort opts) is (with_children s g) = with_children s h"
    "\<forall>n. mset (h n) = mset (g n)" "\<forall>n. Some n \<in> process_tree s ` set is \<or> in_order opts s (g n) \<longrightarrow> in_order opts s (h n)"
    by blast
  show ?case
    using g h by (intro exI [of _ h]) (auto simp: image_iff dest: sym)
qed

section \<open>The tree\<close>

lemma build_process_tree_ok:
  assumes "sorts qsort" "names_ok s" "tree_ok s" "\<forall>n. length (old_children s n) + length (kids s [0..<MAX_PROCESSES] n) \<le> MAX_CHILDREN"
    and "\<forall>n. set (old_children s n) \<subseteq> {..<length (nodes s)}" "dom (process_tree s) \<subseteq> {..<MAX_PROCESSES}"
  shows "\<exists>g. build_process_tree qsort opts s = Inr (with_children s g) \<and>
    (\<forall>n. mset (g n) = mset (old_children s n) + mset (kids s [0..<MAX_PROCESSES] n)) \<and>
    (\<forall>n \<in> ran (process_tree s). in_order opts s (g n))"
proof -
  let ?f = "\<lambda>n. old_children s n @ kids s [0..<MAX_PROCESSES] n"
  have link: "link_all [0..<MAX_PROCESSES] s = Inr (with_children s ?f)"
    using link_all_ok [OF assms(3,4)] by simp
  have "\<forall>n. set (?f n) \<subseteq> {..<length (nodes s)}"
    using assms(3,5) by (auto simp: kids_def tree_ok_def parent_of_def ran_def split: option.splits)
  then obtain g where "fold (sort_process qsort opts) [0..<MAX_PROCESSES] (with_children s ?f) = with_children s g"
      "\<forall>n. mset (g n) = mset (?f n)"
      "\<forall>n. Some n \<in> process_tree s ` set [0..<MAX_PROCESSES] \<or> in_order opts s (?f n) \<longrightarrow> in_order opts s (g n)"
    using sort_all_ok [OF assms(1-3), of ?f opts "[0..<MAX_PROCESSES]"] by blast
  moreover have "Some n \<in> process_tree s ` set [0..<MAX_PROCESSES]" if "n \<in> ran (process_tree s)" for n
    using that assms(6) by (force simp: ran_def image_iff)
  ultimately show ?thesis by (auto simp: build_process_tree_def link)
qed

section \<open>From \<open>/proc\<close> to the tree\<close>

lemma recorded_nth:
  assumes "recorded F opts junk s p" "process_tree s (p_pid p) = Some n" "n \<le> m" "m \<le> n + length (shown_threads opts p)"
  shows "nodes s ! m = process_nodes F opts junk n p ! (m - n)" "nodes s ! m \<in> set (process_nodes F opts junk n p)"
    "n + length (shown_threads opts p) < length (nodes s)"
proof -
  let ?k = "Suc (length (shown_threads opts p))"
  have chunk: "take ?k (drop n (nodes s)) = process_nodes F opts junk n p" using assms(1,2) by (simp add: recorded_def)
  from arg_cong [OF chunk, of length] have len: "?k \<le> length (nodes s) - n" by (simp add: process_nodes_def)
  then show "n + length (shown_threads opts p) < length (nodes s)" by simp
  have "nodes s ! m = take ?k (drop n (nodes s)) ! (m - n)" using assms(3,4) len by simp
  then show "nodes s ! m = process_nodes F opts junk n p ! (m - n)" by (simp only: chunk)
  moreover have "m - n < length (process_nodes F opts junk n p)" using assms(3,4) by (simp add: process_nodes_def)
  ultimately show "nodes s ! m \<in> set (process_nodes F opts junk n p)" by simp
qed

lemma recorded_node:
  assumes "recorded F opts junk s p"
  obtains n where "process_tree s (p_pid p) = Some n" "n + length (shown_threads opts p) < length (nodes s)"
    "nodes s ! n = hd (process_nodes F opts junk n p)"
    "\<And>j. j < length (shown_threads opts p) \<Longrightarrow> nodes s ! (Suc n + j) = thread_node opts junk p (shown_threads opts p ! j)"
proof -
  obtain n where n: "process_tree s (p_pid p) = Some n" using assms by (auto simp: recorded_def split: option.splits)
  note nth = recorded_nth [OF assms n]
  show ?thesis
    by (rule that [OF n]) (use nth [of n] nth(1) [of "Suc n + j" for j] in \<open>simp_all add: process_nodes_def del: upt_Suc\<close>)
qed

lemma c_string_clean: "c_string name \<Longrightarrow> c_string (clean_process_name name)"
proof -
  have "set (tl (butlast name)) \<subseteq> set name"
    by (cases "butlast name = []") (auto dest: in_set_butlastD list.set_sel(2))
  then show "c_string name \<Longrightarrow> c_string (clean_process_name name)"
    by (auto simp: clean_process_name_def split: list.splits)
qed

lemma c_string_fit: "c_string name \<Longrightarrow> c_string (fit n name)"
  unfolding fit_def by (meson in_set_takeD)

lemma process_nodes_ok:
  assumes "serves_process F p" "x \<in> set (process_nodes F opts junk n p)"
  shows "c_string (n_name x)" "length (n_children x) \<le> MAX_CHILDREN" "set (n_children x) \<subseteq> {..n + length (shown_threads opts p)}"
proof -
  have cap: "length (p_threads p) \<le> MAX_CHILDREN" using assms(1) unfolding serves_process_def by blast
  have "x = hd (process_nodes F opts junk n p) \<or> x \<in> thread_node opts junk p ` set (shown_threads opts p)"
    using assms(2) by (auto simp: process_nodes_def)
  then show "c_string (n_name x)"
  proof
    assume "x = hd (process_nodes F opts junk n p)"
    then show ?thesis using assms(1) by (auto simp: serves_process_def process_nodes_def)
  next
    assume "x \<in> thread_node opts junk p ` set (shown_threads opts p)"
    then obtain t where t: "x = thread_node opts junk p t" "t \<in> set (p_threads p)" by (auto simp: shown_threads_def split: if_splits)
    have "c_string (p_comm p)" using assms(1) unfolding serves_process_def by blast
    moreover have "c_string (snd t)" using assms(1) t(2) unfolding serves_process_def by (cases t) fastforce
    ultimately have "c_string (if use_thread_names opts then clean_process_name (snd t) else p_comm p)"
      using c_string_clean [of "snd t"] by simp
    then have "c_string (''{'' @ (if use_thread_names opts then clean_process_name (snd t) else p_comm p) @ ''}'')"
      unfolding set_append by simp
    from c_string_fit [OF this] show ?thesis by (simp add: t(1) thread_node_def)
  qed
  show "length (n_children x) \<le> MAX_CHILDREN" "set (n_children x) \<subseteq> {..n + length (shown_threads opts p)}"
    using cap assms(2) by (auto simp: process_nodes_def thread_node_def shown_threads_def)
qed

text \<open>What holds after reading, and what linking and sorting need.\<close>

lemma read_state_ok:
  assumes "serves F ps" "\<forall>p \<in> set ps. recorded F opts junk s p" "nodes_from opts (set ps) s"
    "dom (process_tree s) = p_pid ` set ps" "\<forall>p \<in> set ps. p_ppid p < int MAX_PROCESSES"
  shows "names_ok s" "tree_ok s" "\<forall>n. length (old_children s n) \<le> MAX_CHILDREN"
    "\<forall>n. set (old_children s n) \<subseteq> {..<length (nodes s)}" "dom (process_tree s) \<subseteq> {..<MAX_PROCESSES}"
proof -
  have sp: "serves_process F p" if "p \<in> set ps" for p using that assms(1) by (simp add: serves_def)
  have node: "\<exists>p \<in> set ps. \<exists>n. n + length (shown_threads opts p) < length (nodes s) \<and> x \<in> set (process_nodes F opts junk n p)"
    if "x \<in> set (nodes s)" for x
  proof -
    from that obtain m where m: "m < length (nodes s)" "x = nodes s ! m" by (auto simp: in_set_conv_nth)
    then obtain p n where "p \<in> set ps" "process_tree s (p_pid p) = Some n" "n \<le> m" "m \<le> n + length (shown_threads opts p)"
      using assms(3) unfolding nodes_from_def by blast
    then show ?thesis using recorded_nth [OF bspec [OF assms(2)]] m(2) by blast
  qed
  show "names_ok s" unfolding names_ok_def using node process_nodes_ok(1) [OF sp] by metis
  have "p_pid p < MAX_PROCESSES" if "p \<in> set ps" for p using sp [OF that] unfolding serves_process_def by blast
  then show "dom (process_tree s) \<subseteq> {..<MAX_PROCESSES}" using assms(4) by auto
  show "\<forall>n. length (old_children s n) \<le> MAX_CHILDREN"
    using node process_nodes_ok(2) [OF sp] by (auto simp: old_children_def) (meson nth_mem)
  show "\<forall>n. set (old_children s n) \<subseteq> {..<length (nodes s)}"
  proof
    fix n
    show "set (old_children s n) \<subseteq> {..<length (nodes s)}"
    proof (cases "n < length (nodes s)")
      case True
      then obtain p k where "p \<in> set ps" "k + length (shown_threads opts p) < length (nodes s)" "nodes s ! n \<in> set (process_nodes F opts junk k p)"
        using node [OF nth_mem] by blast
      then show ?thesis using process_nodes_ok(3) [OF sp] True by (fastforce simp: old_children_def)
    qed (simp add: old_children_def)
  qed
  show "tree_ok s" unfolding tree_ok_def
  proof (intro conjI allI impI subsetI)
    fix n assume "n \<in> ran (process_tree s)"
    then obtain i where i: "process_tree s i = Some n" by (auto simp: ran_def)
    then obtain p where "p \<in> set ps" "i = p_pid p" using assms(4) by (metis domI imageE)
    then show "n \<in> {..<length (nodes s)}" using i assms(2) by (auto elim!: recorded_node)
  next
    fix i n assume i: "process_tree s i = Some n"
    then obtain p where "p \<in> set ps" "i = p_pid p" using assms(4) by (metis domI imageE)
    then show "n_ppid (nodes s ! n) < int MAX_PROCESSES" using i assms(2,5) by (auto elim!: recorded_node simp: process_nodes_def)
  qed
qed

lemma parent_of_recorded:
  assumes "recorded F opts junk s p"
  shows "parent_of s (p_pid p) = (if p_ppid p > 0 then process_tree s (nat (p_ppid p)) else None)"
  by (rule recorded_node [OF assms]) (simp add: parent_of_def process_nodes_def)

lemma recorded_fields:
  assumes "recorded F opts junk s p" "process_tree s (p_pid p) = Some n"
  shows "n_pid (nodes s ! n) = int (p_pid p)" "n_name (nodes s ! n) = p_comm p"
    "n_children (nodes s ! n) = [Suc n..<Suc n + length (shown_threads opts p)]" "n < length (nodes s)"
  by (rule recorded_node [OF assms(1)]; use assms(2) in \<open>simp add: process_nodes_def\<close>)+

lemma pids_of_kids:
  assumes "\<forall>p \<in> set ps. recorded F opts junk s p" "dom (process_tree s) = p_pid ` set ps" "distinct (map p_pid ps)"
    "\<forall>p \<in> set ps. 0 < p_pid p \<and> p_pid p < MAX_PROCESSES" "q \<in> set ps" "process_tree s (p_pid q) = Some n"
  shows "mset (map (\<lambda>c. n_pid (nodes s ! c)) (kids s [0..<MAX_PROCESSES] n)) =
    mset (map (int \<circ> p_pid) (filter (\<lambda>p. p_ppid p = int (p_pid q)) ps))"
proof -
  have pid: "n_pid (nodes s ! m) = int i \<and> (\<exists>p \<in> set ps. p_pid p = i)" if m: "process_tree s i = Some m" for i m
  proof -
    obtain p where p: "p \<in> set ps" "i = p_pid p" using m assms(2) by (metis domI imageE)
    then have "recorded F opts junk s p" using assms(1) by blast
    from recorded_fields(1) [OF this] show ?thesis using m p by blast
  qed
  have child: "parent_of s i = Some n \<longleftrightarrow> (\<exists>p \<in> set ps. p_pid p = i \<and> p_ppid p = int (p_pid q))" for i
  proof
    assume par: "parent_of s i = Some n"
    then obtain m where "process_tree s i = Some m" by (auto simp: parent_of_def split: option.splits)
    then obtain p where p: "p \<in> set ps" "p_pid p = i" using pid by blast
    then have "p_ppid p > 0" "process_tree s (nat (p_ppid p)) = Some n"
      using par assms(1) parent_of_recorded [of F opts junk s p] by (auto split: if_splits)
    then have "int (nat (p_ppid p)) = int (p_pid q)" using pid assms(6) by metis
    then show "\<exists>p \<in> set ps. p_pid p = i \<and> p_ppid p = int (p_pid q)" using p \<open>p_ppid p > 0\<close> by auto
  next
    assume "\<exists>p \<in> set ps. p_pid p = i \<and> p_ppid p = int (p_pid q)"
    then show "parent_of s i = Some n" using assms(1,4,5,6) parent_of_recorded by fastforce
  qed
  define js where "js = [0..<MAX_PROCESSES]"
  have js: "distinct js" "set js = {..<MAX_PROCESSES}" unfolding js_def by (simp_all only: distinct_upt set_upt atLeast0LessThan)
  have "map (\<lambda>c. n_pid (nodes s ! c)) (kids s js n) = map int (filter (\<lambda>i. parent_of s i = Some n) js)"
    unfolding kids_def map_map
  proof (rule map_cong [OF refl])
    fix i assume "i \<in> set (filter (\<lambda>i. parent_of s i = Some n) js)"
    then have "parent_of s i = Some n" by (simp only: set_filter mem_Collect_eq)
    then obtain m where "process_tree s i = Some m" by (auto simp: parent_of_def split: option.splits)
    then show "((\<lambda>c. n_pid (nodes s ! c)) \<circ> (\<lambda>i. the (process_tree s i))) i = int i" using pid by simp
  qed
  moreover have "mset (filter (\<lambda>i. parent_of s i = Some n) js) = mset (map p_pid (filter (\<lambda>p. p_ppid p = int (p_pid q)) ps))"
  proof (subst set_eq_iff_mset_eq_distinct [symmetric])
    show "distinct (map p_pid (filter (\<lambda>p. p_ppid p = int (p_pid q)) ps))" using assms(3) by (rule distinct_map_filter)
    show "distinct (filter (\<lambda>i. parent_of s i = Some n) js)" by (intro distinct_filter js)
    show "set (filter (\<lambda>i. parent_of s i = Some n) js) = set (map p_pid (filter (\<lambda>p. p_ppid p = int (p_pid q)) ps))"
      using assms(4) js(2) by (auto simp: child image_iff)
  qed
  ultimately show ?thesis unfolding js_def by (simp only: mset_map map_map [symmetric])
qed

lemma pids_of_threads:
  assumes "recorded F opts junk s p" "process_tree s (p_pid p) = Some n"
  shows "map (\<lambda>c. n_pid (nodes s ! c)) (old_children s n) = map (int \<circ> fst) (shown_threads opts p)"
proof (rule recorded_node [OF assms(1)])
  fix m assume m: "process_tree s (p_pid p) = Some m"
    "\<And>j. j < length (shown_threads opts p) \<Longrightarrow> nodes s ! (Suc m + j) = thread_node opts junk p (shown_threads opts p ! j)"
  then have "m = n" using assms(2) by simp
  then show ?thesis using m(2) recorded_fields [OF assms]
    by (intro nth_equalityI) (simp_all add: old_children_def thread_node_def del: upt_Suc)
qed

text \<open>A process with more children and threads than the array \<open>children\<close> has places.\<close>

definition crowded :: "options \<Rightarrow> pinfo list \<Rightarrow> bool" where
  "crowded opts ps \<longleftrightarrow> (\<exists>p \<in> set ps. MAX_CHILDREN < length (shown_threads opts p) + length (filter (\<lambda>q. p_ppid q = int (p_pid p)) ps))"

lemma crowded_iff:
  assumes rec: "\<forall>p \<in> set ps. recorded F opts junk s p" and dm: "dom (process_tree s) = p_pid ` set ps" and dis: "distinct (map p_pid ps)"
    and pids: "\<forall>p \<in> set ps. 0 < p_pid p \<and> p_pid p < MAX_PROCESSES" and old: "\<forall>n. length (old_children s n) \<le> MAX_CHILDREN"
  shows "(\<forall>n. length (old_children s n) + length (kids s [0..<MAX_PROCESSES] n) \<le> MAX_CHILDREN) \<longleftrightarrow> \<not> crowded opts ps"
proof -
  let ?kids = "kids s [0..<MAX_PROCESSES]"
  have count: "length (?kids n) = length (filter (\<lambda>q. p_ppid q = int (p_pid p)) ps)" "length (old_children s n) = length (shown_threads opts p)"
    if p: "p \<in> set ps" "process_tree s (p_pid p) = Some n" for p n
    using arg_cong [OF pids_of_kids [OF rec dm dis pids p], of size] arg_cong [OF pids_of_threads [OF bspec [OF rec p(1)] p(2)], of length]
    unfolding size_mset length_map by blast+
  have none: "?kids n = []" if "\<not> (\<exists>p \<in> set ps. process_tree s (p_pid p) = Some n)" for n
  proof -
    have "n \<notin> ran (process_tree s)" using that dm by (force simp: ran_def)
    then show ?thesis by (force simp: kids_def filter_empty_conv parent_of_def ran_def split: option.splits)
  qed
  show ?thesis
  proof
    assume all: "\<forall>n. length (old_children s n) + length (?kids n) \<le> MAX_CHILDREN"
    show "\<not> crowded opts ps" unfolding crowded_def
    proof (rule notI, elim bexE)
      fix p assume p: "p \<in> set ps" and c: "MAX_CHILDREN < length (shown_threads opts p) + length (filter (\<lambda>q. p_ppid q = int (p_pid p)) ps)"
      obtain n where "process_tree s (p_pid p) = Some n" using dm p by (metis domD imageI)
      from count [OF p this] c all show False by (metis not_le)
    qed
  next
    assume nc: "\<not> crowded opts ps"
    show "\<forall>n. length (old_children s n) + length (?kids n) \<le> MAX_CHILDREN"
    proof
      fix n
      show "length (old_children s n) + length (?kids n) \<le> MAX_CHILDREN"
      proof (cases "\<exists>p \<in> set ps. process_tree s (p_pid p) = Some n")
        case True
        then obtain p where p: "p \<in> set ps" "process_tree s (p_pid p) = Some n" by blast
        from count [OF p] nc p(1) show ?thesis unfolding crowded_def by (metis not_less)
      next
        case False
        from none [OF False] old show ?thesis by (metis add_0_right list.size(3))
      qed
    qed
  qed
qed

text \<open>Insertion sort is such a \<open>qsort\<close>.\<close>

fun cmp_insert :: "(nat \<Rightarrow> nat \<Rightarrow> int) \<Rightarrow> nat \<Rightarrow> nat list \<Rightarrow> nat list" where
  "cmp_insert cmp x [] = [x]"
| "cmp_insert cmp x (y # ys) = (if cmp x y \<le> 0 then x # y # ys else y # cmp_insert cmp x ys)"

definition cmp_sort :: sorter where
  "cmp_sort cmp xs = foldr (cmp_insert cmp) xs []"

lemma mset_cmp_insert: "mset (cmp_insert cmp x ys) = add_mset x (mset ys)"
  by (induction ys) auto

lemma mset_cmp_sort: "mset (cmp_sort cmp xs) = mset xs"
  by (induction xs) (simp_all add: cmp_sort_def mset_cmp_insert)

lemma preorder_mono: "preorder A cmp \<Longrightarrow> B \<subseteq> A \<Longrightarrow> preorder B cmp"
  unfolding preorder_def by (meson subsetD)

lemma set_cmp_insert: "set (cmp_insert cmp x ys) = insert x (set ys)"
  by (metis mset_cmp_insert set_mset_add_mset_insert set_mset_mset)

lemma sorted_cmp_insert:
  assumes "preorder (insert x (set ys)) cmp" "sorted_wrt (\<lambda>a b. cmp a b \<le> 0) ys"
  shows "sorted_wrt (\<lambda>a b. cmp a b \<le> 0) (cmp_insert cmp x ys)"
  using assms
proof (induction ys)
  case (Cons y ys)
  show ?case
  proof (cases "cmp x y \<le> 0")
    case True
    have "cmp x z \<le> 0" if "z \<in> set ys" for z
    proof -
      have "cmp y z \<le> 0" using Cons.prems(2) that by simp
      then show ?thesis using Cons.prems(1) True that unfolding preorder_def by (meson insert_iff list.set_intros)
    qed
    then show ?thesis using True Cons.prems(2) by simp
  next
    case False
    then have "cmp y x \<le> 0" using Cons.prems(1) unfolding preorder_def by (meson insert_iff list.set_intros)
    moreover have "sorted_wrt (\<lambda>a b. cmp a b \<le> 0) (cmp_insert cmp x ys)"
      using Cons.prems(2) by (intro Cons.IH preorder_mono [OF Cons.prems(1)]) auto
    ultimately show ?thesis using False Cons.prems(2) by (simp add: set_cmp_insert)
  qed
qed simp

lemma sorts_cmp_sort: "sorts cmp_sort"
proof -
  have "sorted_wrt (\<lambda>a b. cmp a b \<le> 0) (cmp_sort cmp xs)" if "preorder (set xs) cmp" for cmp xs
    using that
  proof (induction xs)
    case (Cons x xs)
    have "preorder (set xs) cmp" by (rule preorder_mono [OF Cons.prems]) auto
    then have "sorted_wrt (\<lambda>a b. cmp a b \<le> 0) (cmp_sort cmp xs)" by (rule Cons.IH)
    moreover have "set (cmp_sort cmp xs) = set xs" by (metis mset_cmp_sort set_mset_mset)
    ultimately show ?case using sorted_cmp_insert [of x "cmp_sort cmp xs" cmp] Cons.prems by (simp add: cmp_sort_def)
  qed (simp add: cmp_sort_def)
  then show ?thesis by (simp add: sorts_def mset_cmp_sort)
qed

text \<open>C36: From \<open>/proc\<close> to the tree, for any \<open>qsort\<close> that sorts and any options: when no process has more than a hundred children and
  threads, every process has a node with its number and name, whose children are exactly its other threads (unless they are switched
  off) and the processes that name it as their parent, each once, in the order of their numbers with the option \<open>-n\<close> and of their names otherwise.\<close>

theorem build_process_tree_correct:
  assumes "serves F ps" "distinct (map p_pid ps)" "sorts qsort"
    "\<forall>p \<in> set ps. p_ppid p < int MAX_PROCESSES \<and>
       length (shown_threads opts p) + length (filter (\<lambda>q. p_ppid q = int (p_pid p)) ps) \<le> MAX_CHILDREN"
  shows "\<exists>s. bindE (read_all_processes F opts junk empty_pstate) (build_process_tree qsort opts) = Inr s \<and>
    (\<forall>p \<in> set ps. \<exists>n. process_tree s (p_pid p) = Some n \<and> n_pid (nodes s ! n) = int (p_pid p) \<and> n_name (nodes s ! n) = p_comm p \<and>
       mset (map (\<lambda>c. n_pid (nodes s ! c)) (n_children (nodes s ! n))) =
         mset (map (int \<circ> fst) (shown_threads opts p)) + mset (map (int \<circ> p_pid) (filter (\<lambda>q. p_ppid q = int (p_pid p)) ps)) \<and>
       sorted_wrt (\<lambda>a b. comparator opts s a b \<le> 0) (n_children (nodes s ! n)) \<and>
       (if sort_by_pid opts then sorted (map (\<lambda>c. n_pid (nodes s ! c)) (n_children (nodes s ! n)))
        else sorted (map (\<lambda>c. n_name (nodes s ! c)) (n_children (nodes s ! n)))))"
proof -
  obtain s where s: "read_all_processes F opts junk empty_pstate = Inr s" and rec: "\<forall>p \<in> set ps. recorded F opts junk s p"
    and nf: "nodes_from opts (set ps) s" and dm: "dom (process_tree s) = p_pid ` set ps"
    using read_all_ok [OF assms(1,2), of opts junk] by blast
  have "\<forall>p \<in> set ps. p_ppid p < int MAX_PROCESSES" using assms(4) by blast
  note ok = read_state_ok [OF assms(1) rec nf dm this]
  have pids: "\<forall>p \<in> set ps. 0 < p_pid p \<and> p_pid p < MAX_PROCESSES"
    using assms(1) unfolding serves_def serves_process_def by blast
  let ?kids = "kids s [0..<MAX_PROCESSES]"
  have kids: "mset (map (\<lambda>c. n_pid (nodes s ! c)) (?kids n)) = mset (map (int \<circ> p_pid) (filter (\<lambda>q. p_ppid q = int (p_pid p)) ps))"
    if "p \<in> set ps" "process_tree s (p_pid p) = Some n" for p n
    by (rule pids_of_kids [OF rec dm assms(2) pids that])
  have cap: "\<forall>n. length (old_children s n) + length (?kids n) \<le> MAX_CHILDREN"
    using crowded_iff [OF rec dm assms(2) pids ok(3)] assms(4) unfolding crowded_def by (metis not_less)
  obtain g where g: "build_process_tree qsort opts s = Inr (with_children s g)"
      "\<forall>n. mset (g n) = mset (old_children s n) + mset (?kids n)" "\<forall>n \<in> ran (process_tree s). in_order opts s (g n)"
    using build_process_tree_ok [OF assms(3) ok(1,2) cap ok(4,5), of opts] by blast
  let ?s = "with_children s g"
  have "\<exists>n. process_tree ?s (p_pid p) = Some n \<and> n_pid (nodes ?s ! n) = int (p_pid p) \<and> n_name (nodes ?s ! n) = p_comm p \<and>
       mset (map (\<lambda>c. n_pid (nodes ?s ! c)) (n_children (nodes ?s ! n))) =
         mset (map (int \<circ> fst) (shown_threads opts p)) + mset (map (int \<circ> p_pid) (filter (\<lambda>q. p_ppid q = int (p_pid p)) ps)) \<and>
       sorted_wrt (\<lambda>a b. comparator opts ?s a b \<le> 0) (n_children (nodes ?s ! n)) \<and>
       (if sort_by_pid opts then sorted (map (\<lambda>c. n_pid (nodes ?s ! c)) (n_children (nodes ?s ! n)))
        else sorted (map (\<lambda>c. n_name (nodes ?s ! c)) (n_children (nodes ?s ! n))))" if p: "p \<in> set ps" for p
  proof -
    obtain n where n: "process_tree s (p_pid p) = Some n" using dm p by (metis domD imageI)
    note flds = recorded_fields [OF bspec [OF rec p] n]
    have range: "set (g n) \<subseteq> {..<length (nodes s)}"
    proof -
      have "set (?kids n) \<subseteq> ran (process_tree s)"
        by (force simp: kids_def parent_of_def ran_def split: option.splits)
      moreover have "set (g n) = set (old_children s n) \<union> set (?kids n)"
        using g(2) by (metis set_mset_mset set_mset_union)
      ultimately show ?thesis using ok(2,4) unfolding tree_ok_def by blast
    qed
    have "mset (map (\<lambda>c. n_pid (nodes ?s ! c)) (g n)) = mset (map (\<lambda>c. n_pid (nodes s ! c)) (g n))"
      using range by (intro arg_cong [of _ _ mset] map_cong) (auto simp: subset_iff)
    also have "\<dots> = mset (map (\<lambda>c. n_pid (nodes s ! c)) (old_children s n)) + mset (map (\<lambda>c. n_pid (nodes s ! c)) (?kids n))"
      using g(2) by (simp only: mset_map image_mset_union)
    also have "\<dots> = mset (map (int \<circ> fst) (shown_threads opts p)) + mset (map (int \<circ> p_pid) (filter (\<lambda>q. p_ppid q = int (p_pid p)) ps))"
      by (simp only: kids [OF p n] pids_of_threads [OF bspec [OF rec p] n])
    finally have "mset (map (\<lambda>c. n_pid (nodes ?s ! c)) (g n)) = \<dots>" .
    moreover have srt: "sorted_wrt (\<lambda>a b. comparator opts ?s a b \<le> 0) (g n)"
    proof -
      have "n \<in> ran (process_tree s)" using n by (rule ranI)
      then show ?thesis using g(3) range by (simp only: in_order_with_children)
    qed
    moreover have "if sort_by_pid opts then sorted (map (\<lambda>c. n_pid (nodes ?s ! c)) (g n)) else sorted (map (\<lambda>c. n_name (nodes ?s ! c)) (g n))"
      by (rule sorted_comparator [OF srt]) (use ok(1) range in simp_all)
    moreover have ch: "n_children (nodes ?s ! n) = g n" "n_pid (nodes ?s ! n) = int (p_pid p)" "n_name (nodes ?s ! n) = p_comm p"
      using flds(1,2,4) by simp_all
    ultimately show ?thesis using n unfolding with_children_simps(1) by (intro exI [of _ n] conjI) (simp_all only: ch)
  qed
  then show ?thesis using s g(1) by auto
qed

lemma demo_distinct: "distinct (map p_pid demo_processes)"
  by (simp add: demo_processes_def)

lemma demo_caps: "\<forall>p \<in> set demo_processes. p_ppid p < int MAX_PROCESSES \<and>
  length (shown_threads default_options p) + length (filter (\<lambda>q. p_ppid q = int (p_pid p)) demo_processes) \<le> MAX_CHILDREN"
  by (simp add: demo_processes_def shown_threads_def default_options_def)

theorem build_process_tree_correct_witness:
  "\<exists>s n. bindE (read_all_processes demo_proc default_options [] empty_pstate) (build_process_tree cmp_sort default_options) = Inr s \<and>
     process_tree s 1 = Some n \<and> n_name (nodes s ! n) = ''init'' \<and>
     mset (map (\<lambda>c. n_pid (nodes s ! c)) (n_children (nodes s ! n))) = {#7#}"
proof -
  have "demo_processes ! 0 \<in> set demo_processes" by (simp add: demo_processes_def)
  then show ?thesis
    using build_process_tree_correct [OF demo_serves demo_distinct sorts_cmp_sort demo_caps, of "[]"]
    by (force simp: demo_processes_def shown_threads_def default_options_def)
qed

end
