(* ===== verification/Pstree_Print.thy ===== *)
theory Pstree_Print
  imports Pstree_Build
begin

text \<open>
  Printing the tree. Printing never changes who is whose child (\<open>shape\<close>), so that it ends when the children of every node have a smaller rank.
  When there is nothing to compact it does not change the nodes at all, and in the aligned layout it prints one line for each leaf if and only if the tree fits into the columns of
  \<open>branch_bar_recorder\<close>. With that, every end of the program is known.
\<close>

section \<open>Printing ends\<close>

definition shape :: "pstate \<Rightarrow> nat list list" where
  "shape s = map n_children (nodes s)"

lemma shape_nth: "n < length (shape s) \<Longrightarrow> n_children (nodes s ! n) = shape s ! n"
  by (simp add: shape_def)

lemma shape_set_name: "shape (set_node c (\<lambda>x. x\<lparr>n_name := f x\<rparr>) s) = shape s"
  unfolding shape_def set_node_def by (cases "c < length (nodes s)") (auto simp: map_update intro!: nth_equalityI simp: nth_list_update)

lemma print_bars_nodes: "nodes (print_bars opts depth f s) = nodes s"
proof -
  have "nodes (fold (\<lambda>i s. print_bar opts (branch_bar s i) s) is s) = nodes s" for "is"
    by (induction "is" arbitrary: s) (simp_all add: print_bar_def emit_def)
  then show ?thesis by (simp add: print_bars_def)
qed

lemma print_line_nodes: "nodes (print_line opts depth l f x s) = nodes s"
  by (simp add: print_line_def emit_def Let_def)

lemma print_head_Inr:
  assumes "print_head opts n depth l f s = Inr os"
  obtains b where "fst os = child_offset opts depth l f (nodes s ! n)"
    "snd os = print_line opts depth l f (nodes s ! n) (print_bars opts depth f (s\<lparr>branch_bar := b\<rparr>))"
  using assms unfolding print_head_def Let_def by (split if_split_asm) auto

lemma print_head_Inl: "print_head opts n depth l f s = Inl e \<Longrightarrow> e = Undefined ''branch_bar_recorder''"
  unfolding print_head_def Let_def by (split if_split_asm) auto

lemma print_head_nodes: "print_head opts n depth l f s = Inr (off, s') \<Longrightarrow> nodes s' = nodes s"
  by (erule print_head_Inr) (simp add: print_bars_nodes print_line_nodes)

lemma count_same_le: "count_same_name_children s n i name \<le> length (n_children (nodes s ! n)) - i"
  unfolding count_same_name_children_def by (rule order_trans [OF length_filter_le]) simp

definition prints :: "nat list list \<Rightarrow> (pstate \<Rightarrow> pstate res option) \<Rightarrow> bool" where
  "prints K p \<longleftrightarrow> (\<forall>s. shape s = K \<longrightarrow> (\<exists>r. p s = Some r \<and>
     (case r of Inl e \<Rightarrow> e = Undefined ''branch_bar_recorder'' | Inr s' \<Rightarrow> shape s' = K)))"

lemma print_children_ends:
  assumes "\<And>c l f. c \<in> set (K ! n) \<Longrightarrow> prints K (pr c l f)" "n < length K"
  shows "prints K (print_children opts pr n k i)"
proof (induction k arbitrary: i)
  case 0
  then show ?case by (simp add: prints_def)
next
  case (Suc k)
  show ?case unfolding prints_def
  proof (intro allI impI)
    fix s assume s: "shape s = K"
    then have cs: "n_children (nodes s ! n) = K ! n" using assms(2) shape_nth [of n s] by simp
    define same where "same = (if show_compact opts then count_same_name_children s n i (n_name (nodes s ! (K ! n ! i))) else 1)"
    define i' where "i' = (if same > 1 then i + same - 1 else i)"
    define s1 where "s1 = (if same > 1 then set_node (K ! n ! i') (\<lambda>x. x\<lparr>n_name := fit (MAX_NAME_LEN + 2) (fit 260 (show_digits same @ ''*['' @ n_name x @ '']''))\<rparr>) s else s)"
    define p where "p = pr (K ! n ! i') (i' = length (K ! n) - 1) (i' = 0 \<or> same > 1 \<and> same = i' + 1)"
    have step: "print_children opts pr n (Suc k) i s = (if i \<ge> length (K ! n) then Some (Inr s) else
      case p s1 of None \<Rightarrow> None | Some (Inl e) \<Rightarrow> Some (Inl e) | Some (Inr s) \<Rightarrow> print_children opts pr n k (i' + 1) s)"
      unfolding print_children.simps cs Let_def same_def i'_def s1_def p_def by (rule refl)
    show "\<exists>r. print_children opts pr n (Suc k) i s = Some r \<and>
      (case r of Inl e \<Rightarrow> e = Undefined ''branch_bar_recorder'' | Inr s' \<Rightarrow> shape s' = K)"
    proof (cases "i \<ge> length (K ! n)")
      case True
      then show ?thesis using s unfolding step by simp
    next
      case False
      have "same \<le> length (K ! n) - i" if "same > 1"
        using that count_same_le [of s n i] unfolding same_def cs by (auto split: if_splits)
      then have "i' < length (K ! n)" using False by (auto simp: i'_def)
      then have "prints K p" unfolding p_def by (intro assms(1) nth_mem)
      moreover have "shape s1 = K" using s by (simp add: s1_def shape_set_name)
      ultimately obtain r where r: "p s1 = Some r" "case r of Inl e \<Rightarrow> e = Undefined ''branch_bar_recorder'' | Inr s' \<Rightarrow> shape s' = K"
        unfolding prints_def by blast
      show ?thesis
      proof (cases r)
        case (Inl e)
        then show ?thesis using False r unfolding step by simp
      next
        case (Inr s2)
        then have "print_children opts pr n (Suc k) i s = print_children opts pr n k (i' + 1) s2" using False r unfolding step by simp
        then show ?thesis using Suc.IH [of "i' + 1"] r(2) Inr unfolding prints_def by simp
      qed
    qed
  qed
qed

lemma print_ends:
  assumes "\<forall>n < length K. \<forall>c \<in> set (K ! n). c < length K \<and> R c < (R n :: nat)" "n < length K" "R n < fuel"
  shows "prints K (print_process_tree opts fuel n depth l f)"
  using assms(2,3)
proof (induction fuel arbitrary: n depth l f)
  case 0
  then show ?case by simp
next
  case (Suc fuel)
  show ?case unfolding prints_def
  proof (intro allI impI)
    fix s assume s: "shape s = K"
    show "\<exists>r. print_process_tree opts (Suc fuel) n depth l f s = Some r \<and>
      (case r of Inl e \<Rightarrow> e = Undefined ''branch_bar_recorder'' | Inr s' \<Rightarrow> shape s' = K)"
    proof (cases "print_head opts n depth l f s")
      case (Inl e)
      then show ?thesis using print_head_Inl [OF Inl] by simp
    next
      case (Inr os)
      obtain off s1 where os: "os = (off, s1)" by (cases os)
      have "shape s1 = K" using print_head_nodes [OF Inr [unfolded os]] s by (simp add: shape_def)
      moreover have "prints K (print_process_tree opts fuel c (depth + off) l f)" if "c \<in> set (K ! n)" for c l f
        using Suc.prems assms(1) that by (intro Suc.IH) fastforce+
      ultimately show ?thesis
        using print_children_ends [of K n "\<lambda>c l f. print_process_tree opts fuel c (depth + off) l f" opts "length (n_children (nodes s1 ! n))" 0] Suc.prems(1)
        unfolding prints_def by (simp add: Inr os)
    qed
  qed
qed

section \<open>The program returns\<close>

lemma shape_with_children: "shape (with_children s g) = map g [0..<length (nodes s)]"
  by (simp add: shape_def with_children_def)

lemma build_shape:
  assumes "sorts qsort" "names_ok s" "tree_ok s" "\<forall>n. length (old_children s n) \<le> MAX_CHILDREN"
    "\<forall>n. set (old_children s n) \<subseteq> {..<length (nodes s)}" "dom (process_tree s) \<subseteq> {..<MAX_PROCESSES}"
  shows "if \<forall>n. length (old_children s n) + length (kids s [0..<MAX_PROCESSES] n) \<le> MAX_CHILDREN
    then \<exists>g. build_process_tree qsort opts s = Inr (with_children s g) \<and> (\<forall>n. set (g n) = set (old_children s n) \<union> set (kids s [0..<MAX_PROCESSES] n))
    else build_process_tree qsort opts s = Inl (Undefined ''children'')"
proof (cases "\<forall>n. length (old_children s n) + length (kids s [0..<MAX_PROCESSES] n) \<le> MAX_CHILDREN")
  case True
  from build_process_tree_ok [OF assms(1-3) True assms(5,6), of opts]
  show ?thesis unfolding if_P [OF True] by (metis set_mset_mset set_mset_union)
next
  case False
  then obtain n where "length (old_children s n) + length (kids s [0..<MAX_PROCESSES] n) > MAX_CHILDREN" by (meson not_le)
  from link_all_overflow [where f = "old_children s", OF assms(3) _ this] show ?thesis unfolding if_not_P [OF False]
    using assms(4) by (simp add: build_process_tree_def del: upt_Suc)
qed

text \<open>A rank of the nodes from one of the processes.\<close>

definition node_rank :: "(nat \<Rightarrow> nat) \<Rightarrow> pstate \<Rightarrow> nat \<Rightarrow> nat" where
  "node_rank r s c = (if c \<in> ran (process_tree s) then Suc (r (nat (n_pid (nodes s ! c)))) else 0)"

lemma node_rank_process:
  assumes "recorded F opts junk s p" "process_tree s (p_pid p) = Some n"
  shows "node_rank r s n = Suc (r (p_pid p))"
  using recorded_fields(1) [OF assms] ranI [of "process_tree s" "p_pid p" n] assms(2) by (simp add: node_rank_def)

lemma children_have_smaller_rank:
  assumes "\<forall>p \<in> set ps. recorded F opts junk s p" "nodes_from opts (set ps) s" "dom (process_tree s) = p_pid ` set ps"
    "\<forall>p \<in> set ps. \<forall>q \<in> set ps. p_ppid q = int (p_pid p) \<longrightarrow> r (p_pid q) < r (p_pid p)"
    "c \<in> set (old_children s n) \<union> set (kids s js n)"
  shows "node_rank r s c < node_rank r s n"
proof -
  have proc: "\<exists>p \<in> set ps. i = p_pid p \<and> recorded F opts junk s p" if "process_tree s i = Some m" for i m
    using that assms(1,3) by (metis domI imageE)
  have down: "node_rank r s c < node_rank r s n"
    if p: "p \<in> set ps" "process_tree s (p_pid p) = Some n" and par: "c \<in> ran (process_tree s) \<Longrightarrow> n_ppid (nodes s ! c) = int (p_pid p)" for p
  proof (cases "c \<in> ran (process_tree s)")
    case True
    then obtain i where i: "process_tree s i = Some c" by (auto simp: ran_def)
    then obtain q where q: "q \<in> set ps" "i = p_pid q" "recorded F opts junk s q" using proc by blast
    have "n_ppid (nodes s ! c) = p_ppid q"
      using recorded_nth(1) [OF q(3), of c c] i q(2) by (simp add: process_nodes_def)
    then have "r (p_pid q) < r (p_pid p)" using par [OF True] assms(4) p(1) q(1) by simp
    then show ?thesis using node_rank_process [OF bspec [OF assms(1) p(1)] p(2)] node_rank_process [OF q(3)] i q(2) by simp
  next
    case False
    then show ?thesis using node_rank_process [OF bspec [OF assms(1) p(1)] p(2)] by (simp add: node_rank_def)
  qed
  from assms(5) show ?thesis
  proof
    assume c: "c \<in> set (old_children s n)"
    then have n: "n < length (nodes s)" "c \<in> set (n_children (nodes s ! n))" by (auto simp: old_children_def split: if_splits)
    then obtain p m where p: "p \<in> set ps" "process_tree s (p_pid p) = Some m" "m \<le> n" "n \<le> m + length (shown_threads opts p)"
      using assms(2) unfolding nodes_from_def by blast
    note rec = bspec [OF assms(1) p(1)]
    have nn: "nodes s ! n = process_nodes F opts junk m p ! (n - m)" by (rule recorded_nth(1) [OF rec p(2-4)])
    show ?thesis
    proof (cases "n = m")
      case True
      have "n_ppid (nodes s ! c) = int (p_pid p)"
      proof -
        have cm: "Suc m \<le> c" "c \<le> m + length (shown_threads opts p)" using n(2) nn True by (auto simp: process_nodes_def)
        then show ?thesis using recorded_nth(1) [OF rec p(2), of c]
          by (cases "c - m") (auto simp: process_nodes_def thread_node_def)
      qed
      then show ?thesis using down p True by blast
    next
      case False
      then have "n_children (nodes s ! n) = []" using p(3,4) unfolding nn
        by (cases "n - m") (auto simp: process_nodes_def thread_node_def)
      then show ?thesis using n(2) by simp
    qed
  next
    assume "c \<in> set (kids s js n)"
    then obtain i where i: "process_tree s i = Some c" "n_ppid (nodes s ! c) > 0" "process_tree s (nat (n_ppid (nodes s ! c))) = Some n"
      by (auto simp: kids_def parent_of_def split: option.splits if_splits)
    then obtain p where "p \<in> set ps" "nat (n_ppid (nodes s ! c)) = p_pid p" using proc by blast
    then show ?thesis using i by (intro down [of p]) auto
  qed
qed

section \<open>One line for each leaf\<close>

abbreviation newlines :: "string \<Rightarrow> nat" where "newlines t \<equiv> count_list t (CHR 0x0A)"

definition clean_node :: "node \<Rightarrow> bool" where
  "clean_node x \<longleftrightarrow> CHR 0x0A \<notin> set (n_name x) \<and> CHR 0x0A \<notin> set (n_cmdline x)"

text \<open>The leaves below a node, down to a depth.\<close>

fun leaves :: "node list \<Rightarrow> nat \<Rightarrow> nat \<Rightarrow> nat" where
  "leaves N 0 n = 0"
| "leaves N (Suc d) n = (if n_children (N ! n) = [] then 1 else sum_list (map (leaves N d) (n_children (N ! n))))"

text \<open>A step that leaves the nodes alone and, if no name has a line end in it, prints \<open>k\<close> line ends.\<close>

definition adds_lines :: "nat \<Rightarrow> pstate \<Rightarrow> pstate \<Rightarrow> bool" where
  "adds_lines k s s' \<longleftrightarrow> nodes s' = nodes s \<and> ((\<forall>x \<in> set (nodes s). clean_node x) \<longrightarrow> newlines (out s') = newlines (out s) + k)"

lemma adds_lines_trans: "adds_lines j s t \<Longrightarrow> adds_lines k t u \<Longrightarrow> adds_lines (j + k) s u"
  by (simp add: adds_lines_def)

lemma adds_lines_emit: "adds_lines (newlines t) s (emit t s)"
  by (simp add: adds_lines_def emit_def)

lemma branch_chars_clean:
  assumes "i < 5"
  shows "CHR 0x0A \<notin> set (branch_chars opts ! i)"
proof -
  have "i \<in> {0, 1, 2, 3, 4}" using assms by auto
  then show ?thesis by (auto simp: branch_chars_def char_of_def bit_0)
qed

lemma print_bars_lines: "adds_lines 0 s (print_bars opts depth f s)"
proof -
  have bar: "adds_lines 0 s (print_bar opts b s)" for b s
    using branch_chars_clean [of 2 opts] adds_lines_emit unfolding print_bar_def by (simp add: adds_lines_def emit_def)
  have "adds_lines 0 s (fold (\<lambda>i s. print_bar opts (branch_bar s i) s) is s)" for "is" s
  proof (induction "is" arbitrary: s)
    case (Cons i "is")
    show ?case using adds_lines_trans [OF bar Cons.IH] by simp
  qed (simp add: adds_lines_def)
  then show ?thesis by (simp add: print_bars_def) (simp add: adds_lines_def)
qed

lemma depth_prefix_clean: "CHR 0x0A \<notin> set (fst (depth_prefix opts depth l f))"
  using branch_chars_clean [of _ opts] by (simp add: depth_prefix_def branch_prefix_def Let_def)

lemma label_clean:
  assumes "clean_node x"
  shows "CHR 0x0A \<notin> set (label opts x)"
proof -
  have "set (shown_name x) \<subseteq> set (n_name x) \<union> set (n_cmdline x)"
    by (auto simp: shown_name_def fit_def Let_def dest: in_set_takeD in_set_dropD split: if_splits)
  moreover have "CHR 0x0A \<notin> set (show_int i)" for i
  proof -
    have "\<not> isdigit (CHR 0x0A)" by (simp add: isdigit_def)
    then have "CHR 0x0A \<notin> set (show_digits k)" for k using show_digits_digits by blast
    then show ?thesis by (simp add: show_int_def)
  qed
  ultimately show ?thesis using assms by (auto simp: label_def clean_node_def)
qed

text \<open>In the aligned layout a child starts behind the label of its parent, and the place of the bar must be in the array.\<close>

lemma print_head_lines:
  assumes "align_mode opts" "n < length (nodes s)" "-1 \<le> depth"
  shows "if depth < 999
    then \<exists>s'. print_head opts n depth l f s = Inr ((if depth = -1 then 1 else 3) + int (length (label opts (nodes s ! n))), s') \<and>
      adds_lines (if n_children (nodes s ! n) = [] then 1 else 0) s s'
    else print_head opts n depth l f s = Inl (Undefined ''branch_bar_recorder'')"
proof (cases "depth < 999")
  case True
  let ?x = "nodes s ! n" let ?s = "s\<lparr>branch_bar := (branch_bar s)(nat (depth + 1) := \<not> l)\<rparr>"
  have h: "print_head opts n depth l f s = Inr ((if depth = -1 then 1 else 3) + int (length (label opts ?x)), print_line opts depth l f ?x (print_bars opts depth f ?s))"
    using assms(1,3) True by (auto simp: print_head_def Let_def child_offset_def depth_prefix_def)
  have bars: "adds_lines 0 s (print_bars opts depth f ?s)" using print_bars_lines [of ?s] by (simp add: adds_lines_def)
  have line: "adds_lines (if n_children ?x = [] then 1 else 0) t (print_line opts depth l f ?x t)" if "nodes t = nodes s" for t
  proof -
    have "nodes (print_line opts depth l f ?x t) = nodes t" by (rule print_line_nodes)
    moreover have "newlines (out (print_line opts depth l f ?x t)) = newlines (out t) + (if n_children ?x = [] then 1 else 0)"
      if "\<forall>x \<in> set (nodes t). clean_node x"
      using depth_prefix_clean [of opts depth l f] label_clean [of ?x opts] assms(1,2) that \<open>nodes t = nodes s\<close>
      by (simp add: print_line_def emit_def Let_def)
    ultimately show ?thesis unfolding adds_lines_def by blast
  qed
  have "nodes (print_bars opts depth f ?s) = nodes s" by (simp add: print_bars_nodes)
  from adds_lines_trans [OF bars line [OF this]] h True show ?thesis by (simp only: if_True add_0) blast
next
  case False
  with assms show ?thesis by (simp add: print_head_def Let_def)
qed

text \<open>The tree below a node that starts in a column fits into the thousand columns of \<open>branch_bar_recorder\<close>: no node starts in column 999 or to its right.\<close>

fun fits :: "options \<Rightarrow> node list \<Rightarrow> nat \<Rightarrow> nat \<Rightarrow> int \<Rightarrow> bool" where
  "fits opts N 0 n depth \<longleftrightarrow> True"
| "fits opts N (Suc d) n depth \<longleftrightarrow> depth < 999 \<and>
     (\<forall>c \<in> set (n_children (N ! n)). fits opts N d c (depth + (if depth = -1 then 1 else 3) + int (length (label opts (N ! n)))))"

text \<open>Compaction has nothing to do: leaves with the same parent have different names.\<close>

definition no_repeats :: "options \<Rightarrow> node list \<Rightarrow> bool" where
  "no_repeats opts N \<longleftrightarrow> (show_compact opts \<longrightarrow>
     (\<forall>x \<in> set N. distinct (map (\<lambda>c. n_name (N ! c)) (filter (\<lambda>c. n_children (N ! c) = []) (n_children x)))))"

lemma distinct_same: "distinct (map g xs) \<Longrightarrow> \<forall>x \<in> set xs. g x = y \<Longrightarrow> length xs \<le> 1"
  by (cases xs rule: remdups_adj.cases) auto

lemma no_repeats_count:
  assumes "no_repeats opts (nodes s)" "show_compact opts" "n < length (nodes s)"
  shows "count_same_name_children s n i name \<le> 1"
proof -
  let ?leaf = "\<lambda>c. n_children (nodes s ! c) = []" and ?cs = "n_children (nodes s ! n)"
  have "distinct (map (\<lambda>c. n_name (nodes s ! c)) (filter ?leaf (take i ?cs @ drop i ?cs)))"
    using assms unfolding append_take_drop_id no_repeats_def by simp
  then have "distinct (map (\<lambda>c. n_name (nodes s ! c)) (filter ?leaf (drop i ?cs)))" unfolding filter_append map_append by simp
  then have "distinct (map (\<lambda>c. n_name (nodes s ! c)) (filter (\<lambda>c. n_name (nodes s ! c) = name) (filter ?leaf (drop i ?cs))))"
    by (rule distinct_map_filter)
  then have "length (filter (\<lambda>c. n_name (nodes s ! c) = name) (filter ?leaf (drop i ?cs))) \<le> 1" by (rule distinct_same [of _ _ name]) simp
  then show ?thesis by (simp add: count_same_name_children_def conj_commute)
qed

text \<open>With room the lines are printed, without it the array overflows.\<close>

definition prints_lines :: "node list \<Rightarrow> nat \<Rightarrow> bool \<Rightarrow> (pstate \<Rightarrow> pstate res option) \<Rightarrow> bool" where
  "prints_lines N k room p \<longleftrightarrow> (\<forall>s. nodes s = N \<longrightarrow>
     (if room then \<exists>s'. p s = Some (Inr s') \<and> adds_lines k s s' else p s = Some (Inl (Undefined ''branch_bar_recorder''))))"

lemma print_children_lines:
  assumes "\<And>c l f. c \<in> set (n_children (N ! n)) \<Longrightarrow> prints_lines N (L c) (room c) (pr c l f)" "no_repeats opts N" "n < length N"
    "length (n_children (N ! n)) = i + k"
  shows "prints_lines N (sum_list (map L (drop i (n_children (N ! n))))) (\<forall>c \<in> set (drop i (n_children (N ! n))). room c) (print_children opts pr n k i)"
  using assms(4)
proof (induction k arbitrary: i)
  case 0
  then show ?case by (auto simp: prints_lines_def adds_lines_def)
next
  case (Suc k)
  let ?cs = "n_children (N ! n)"
  show ?case unfolding prints_lines_def
  proof (intro allI impI)
    fix s :: pstate assume s: "nodes s = N"
    let ?p = "pr (?cs ! i) (i = length ?cs - 1) (i = 0)"
    have i: "i < length ?cs" using Suc.prems by simp
    have one: "\<not> 1 < (if show_compact opts then count_same_name_children s n i (n_name (N ! (?cs ! i))) else 1)"
      using no_repeats_count [of opts s n] assms(2,3) s by (auto simp: not_less)
    have step: "print_children opts pr n (Suc k) i s =
      (case ?p s of None \<Rightarrow> None | Some (Inl e) \<Rightarrow> Some (Inl e) | Some (Inr s) \<Rightarrow> print_children opts pr n k (i + 1) s)"
      unfolding print_children.simps Let_def s if_not_P [OF one] using i one by (auto split: if_splits)
    have d: "drop i ?cs = ?cs ! i # drop (i + 1) ?cs" using i by (simp flip: Cons_nth_drop_Suc)
    have p: "prints_lines N (L (?cs ! i)) (room (?cs ! i)) ?p" using i by (intro assms(1) nth_mem)
    have rest: "prints_lines N (sum_list (map L (drop (i + 1) ?cs))) (\<forall>c \<in> set (drop (i + 1) ?cs). room c) (print_children opts pr n k (i + 1))"
      using Suc.prems by (intro Suc.IH) simp
    show "if \<forall>c \<in> set (drop i ?cs). room c
      then \<exists>s'. print_children opts pr n (Suc k) i s = Some (Inr s') \<and> adds_lines (sum_list (map L (drop i ?cs))) s s'
      else print_children opts pr n (Suc k) i s = Some (Inl (Undefined ''branch_bar_recorder''))"
    proof (cases "room (?cs ! i)")
      case False
      with p s show ?thesis unfolding step d prints_lines_def by simp
    next
      case True
      with p s obtain s1 where s1: "?p s = Some (Inr s1)" "adds_lines (L (?cs ! i)) s s1" unfolding prints_lines_def by auto
      then have "nodes s1 = N" using s by (simp add: adds_lines_def)
      with rest have "if \<forall>c \<in> set (drop (i + 1) ?cs). room c
        then \<exists>s'. print_children opts pr n k (i + 1) s1 = Some (Inr s') \<and> adds_lines (sum_list (map L (drop (i + 1) ?cs))) s1 s'
        else print_children opts pr n k (i + 1) s1 = Some (Inl (Undefined ''branch_bar_recorder''))" unfolding prints_lines_def by blast
      with s1 True adds_lines_trans show ?thesis unfolding step d by (fastforce split: if_splits)
    qed
  qed
qed

lemma print_lines:
  assumes "\<forall>m < length N. \<forall>c \<in> set (n_children (N ! m)). c < length N \<and> R c < (R m :: nat)"
    "align_mode opts" "no_repeats opts N" "n < length N" "R n < fuel" "-1 \<le> depth"
  shows "prints_lines N (leaves N fuel n) (fits opts N fuel n depth) (print_process_tree opts fuel n depth l f)"
  using assms(4-6)
proof (induction fuel arbitrary: n depth l f)
  case 0
  then show ?case by simp
next
  case (Suc fuel)
  let ?cs = "n_children (N ! n)" and ?off = "(if depth = -1 then 1 else 3) + int (length (label opts (N ! n)))"
  show ?case unfolding prints_lines_def
  proof (intro allI impI)
    fix s :: pstate assume s: "nodes s = N"
    note head = print_head_lines [OF assms(2), of n s depth l f, unfolded s, OF Suc.prems(1,3)]
    show "if fits opts N (Suc fuel) n depth
      then \<exists>s'. print_process_tree opts (Suc fuel) n depth l f s = Some (Inr s') \<and> adds_lines (leaves N (Suc fuel) n) s s'
      else print_process_tree opts (Suc fuel) n depth l f s = Some (Inl (Undefined ''branch_bar_recorder''))"
    proof (cases "depth < 999")
      case False
      with head show ?thesis by simp
    next
      case True
      with head obtain s1 where h: "print_head opts n depth l f s = Inr (?off, s1)" and a: "adds_lines (if ?cs = [] then 1 else 0) s s1" by auto
      then have s1: "nodes s1 = N" using s by (simp add: adds_lines_def)
      have "prints_lines N (leaves N fuel c) (fits opts N fuel c (depth + ?off)) (print_process_tree opts fuel c (depth + ?off) l f)"
        if "c \<in> set ?cs" for c l f
        using Suc.prems assms(1) that by (intro Suc.IH) (fastforce, fastforce, simp)
      then have "prints_lines N (sum_list (map (leaves N fuel) (drop 0 ?cs))) (\<forall>c \<in> set (drop 0 ?cs). fits opts N fuel c (depth + ?off))
          (print_children opts (\<lambda>c l f. print_process_tree opts fuel c (depth + ?off) l f) n (length ?cs) 0)"
        using assms(3) Suc.prems(1) by (intro print_children_lines) simp_all
      then have rest: "if \<forall>c \<in> set ?cs. fits opts N fuel c (depth + ?off)
        then \<exists>s'. print_children opts (\<lambda>c l f. print_process_tree opts fuel c (depth + ?off) l f) n (length ?cs) 0 s1 = Some (Inr s') \<and>
          adds_lines (sum_list (map (leaves N fuel) ?cs)) s1 s'
        else print_children opts (\<lambda>c l f. print_process_tree opts fuel c (depth + ?off) l f) n (length ?cs) 0 s1 = Some (Inl (Undefined ''branch_bar_recorder''))"
        using s1 unfolding prints_lines_def drop_0 by blast
      have run: "print_process_tree opts (Suc fuel) n depth l f s =
          print_children opts (\<lambda>c l f. print_process_tree opts fuel c (depth + ?off) l f) n (length ?cs) 0 s1"
        by (simp add: h s1)
      have lv: "leaves N (Suc fuel) n = (if ?cs = [] then 1 else 0) + sum_list (map (leaves N fuel) ?cs)" by simp
      have room: "fits opts N (Suc fuel) n depth \<longleftrightarrow> (\<forall>c \<in> set ?cs. fits opts N fuel c (depth + ?off))" using True by (simp add: add.assoc)
      show ?thesis
      proof (cases "\<forall>c \<in> set ?cs. fits opts N fuel c (depth + ?off)")
        case True
        with rest obtain s2 where "print_children opts (\<lambda>c l f. print_process_tree opts fuel c (depth + ?off) l f) n (length ?cs) 0 s1 = Some (Inr s2)"
          "adds_lines (sum_list (map (leaves N fuel) ?cs)) s1 s2" by auto
        with adds_lines_trans [OF a this(2)] True show ?thesis unfolding run lv room by simp
      next
        case False
        with rest show ?thesis unfolding run room by (simp only: if_False)
      qed
    qed
  qed
qed

text \<open>C39: In the aligned layout (without option \<open>-a\<close>), and when compaction has nothing to do (option \<open>-c\<close>, or no two leaves with the same parent and name),
  printing a finite tree whose names contain no line end, from the column \<open>depth\<close> on, returns when no node of it starts in column 999 or to its right; then it
  changes no node and prints exactly one line for each leaf. Otherwise, and only then, it writes behind the end of \<open>branch_bar_recorder\<close>.\<close>

theorem print_process_tree_lines:
  assumes "\<forall>m < length (nodes s). clean_node (nodes s ! m) \<and> (\<forall>c \<in> set (n_children (nodes s ! m)). c < length (nodes s) \<and> R c < (R m :: nat))"
    "align_mode opts" "no_repeats opts (nodes s)" "n < length (nodes s)" "R n < fuel" "-1 \<le> depth"
  shows "if fits opts (nodes s) fuel n depth
    then \<exists>s'. print_process_tree opts fuel n depth l f s = Some (Inr s') \<and> nodes s' = nodes s \<and>
       newlines (out s') = newlines (out s) + leaves (nodes s) fuel n
    else print_process_tree opts fuel n depth l f s = Some (Inl (Undefined ''branch_bar_recorder''))"
proof -
  have "\<forall>m < length (nodes s). \<forall>c \<in> set (n_children (nodes s ! m)). c < length (nodes s) \<and> R c < R m" "\<forall>x \<in> set (nodes s). clean_node x"
    using assms(1) by (auto simp: in_set_conv_nth)
  note clean = this(2)
  have "prints_lines (nodes s) (leaves (nodes s) fuel n) (fits opts (nodes s) fuel n depth) (print_process_tree opts fuel n depth l f)"
    by (rule print_lines [where R = R]) (fact | use assms in blast)+
  then have "if fits opts (nodes s) fuel n depth
    then \<exists>s'. print_process_tree opts fuel n depth l f s = Some (Inr s') \<and> adds_lines (leaves (nodes s) fuel n) s s'
    else print_process_tree opts fuel n depth l f s = Some (Inl (Undefined ''branch_bar_recorder''))" unfolding prints_lines_def by blast
  with clean show ?thesis by (cases "fits opts (nodes s) fuel n depth") (auto simp: adds_lines_def)
qed

definition demo_tree :: pstate where
  "demo_tree =
     (let mk = (\<lambda>i t cs. \<lparr>n_pid = i, n_ppid = 0, n_name = t, n_cmdline = [], n_thread_count = 0, n_children = cs\<rparr>) in
      empty_pstate\<lparr>nodes := [mk 1 ''init'' [1, 2], mk 5 ''a'' [], mk 7 ''b'' []]\<rparr>)"

theorem print_process_tree_lines_witness:
  "\<exists>s'. print_process_tree default_options 9 0 (-1) True True demo_tree = Some (Inr s') \<and> nodes s' = nodes demo_tree \<and> newlines (out s') = 2"
proof -
  have "\<forall>m < length (nodes demo_tree). clean_node (nodes demo_tree ! m) \<and>
      (\<forall>c \<in> set (n_children (nodes demo_tree ! m)). c < length (nodes demo_tree) \<and> 3 - c < 3 - m)"
    by (auto simp: demo_tree_def clean_node_def less_Suc_eq numeral_3_eq_3)
  moreover have "leaves (nodes demo_tree) 9 0 = 2" "out demo_tree = []"
    by (simp_all add: demo_tree_def empty_pstate_def numeral_eq_Suc)
  moreover have "align_mode default_options" "no_repeats default_options (nodes demo_tree)" "0 < length (nodes demo_tree)" "3 - 0 < (9 :: nat)"
    by (simp_all add: default_options_def demo_tree_def no_repeats_def)
  moreover have "fits default_options (nodes demo_tree) 9 0 (-1)"
    by (simp add: demo_tree_def default_options_def label_def shown_name_def fit_def numeral_eq_Suc)
  ultimately show ?thesis
    using print_process_tree_lines [of demo_tree "\<lambda>m. 3 - m" default_options 0 9 "-1" True True]
    by (simp only: if_True list.size count_list.simps add_0 order_refl simp_thms)
qed

section \<open>What the program ends with\<close>

text \<open>With \<open>-a\<close> the first write to \<open>branch_bar_recorder\<close> is in front of the array.\<close>

lemma cmdline_mode_undefined:
  assumes "\<not> align_mode opts"
  shows "print_process_tree opts (Suc fuel) n (-1) l f s = Some (Inl (Undefined ''branch_bar_recorder''))"
  using assms by (simp add: print_head_def Let_def)

text \<open>What reading and linking give, with a rank that falls from every node to its children.\<close>

lemma read_and_build:
  assumes "serves F ps" "distinct (map p_pid ps)" "sorts qsort" "\<forall>p \<in> set ps. p_ppid p < int MAX_PROCESSES"
    "\<forall>p \<in> set ps. \<forall>q \<in> set ps. p_ppid q = int (p_pid p) \<longrightarrow> r (p_pid q) < r (p_pid p)"
  shows "case bindE (read_all_processes F opts junk empty_pstate) (build_process_tree qsort opts) of
      Inl e \<Rightarrow> e = Undefined ''children'' \<and> crowded opts ps
    | Inr s \<Rightarrow> \<not> crowded opts ps \<and> (process_tree s 1 = None \<longleftrightarrow> 1 \<notin> p_pid ` set ps) \<and>
        (\<exists>R. (\<forall>m < length (nodes s). \<forall>c \<in> set (n_children (nodes s ! m)). c < length (nodes s) \<and> R c < (R m :: nat)) \<and>
          (\<forall>n. process_tree s 1 = Some n \<longrightarrow> n < length (nodes s) \<and> R n = Suc (r 1)))"
proof -
  obtain s where s: "read_all_processes F opts junk empty_pstate = Inr s" and rec: "\<forall>p \<in> set ps. recorded F opts junk s p"
    and nf: "nodes_from opts (set ps) s" and dm: "dom (process_tree s) = p_pid ` set ps"
    using read_all_ok [OF assms(1,2), of opts junk] by blast
  note ok = read_state_ok [OF assms(1) rec nf dm assms(4)]
  have pids: "\<forall>p \<in> set ps. 0 < p_pid p \<and> p_pid p < MAX_PROCESSES"
    using assms(1) unfolding serves_def serves_process_def by blast
  note cr = crowded_iff [OF rec dm assms(2) pids ok(3)]
  note bs = build_shape [OF assms(3) ok, of opts, unfolded cr]
  show ?thesis
  proof (cases "crowded opts ps")
    case True
    with bs s show ?thesis by simp
  next
    case False
    with bs obtain g where g: "build_process_tree qsort opts s = Inr (with_children s g)"
      "\<forall>n. set (g n) = set (old_children s n) \<union> set (kids s [0..<MAX_PROCESSES] n)" by (simp only: if_True not_False_eq_True) blast
    have down: "c < length (nodes s)" "node_rank r s c < node_rank r s m" if c: "c \<in> set (g m)" for c m
    proof -
      have "c \<in> set (old_children s m) \<or> c \<in> ran (process_tree s)"
        using c g(2) by (auto simp: kids_def parent_of_def ran_def split: option.splits)
      then show "c < length (nodes s)" using ok(2,4) unfolding tree_ok_def by blast
      have "c \<in> set (old_children s m) \<union> set (kids s [0..<MAX_PROCESSES] m)" using c g(2) by blast
      then show "node_rank r s c < node_rank r s m" by (rule children_have_smaller_rank [OF rec nf dm assms(5)])
    qed
    have root: "n < length (nodes s) \<and> node_rank r s n = Suc (r 1)" if n: "process_tree s 1 = Some n" for n
    proof -
      obtain p where p: "p \<in> set ps" "p_pid p = 1" using n dm by (metis domI imageE)
      with n recorded_fields(4) [OF bspec [OF rec p(1)]] node_rank_process [OF bspec [OF rec p(1)]] show ?thesis by simp
    qed
    have one: "process_tree s 1 = None \<longleftrightarrow> 1 \<notin> p_pid ` set ps" using dm by (metis domIff)
    have len: "length (nodes (with_children s g)) = length (nodes s)" "process_tree (with_children s g) = process_tree s"
      "\<And>m. m < length (nodes s) \<Longrightarrow> n_children (nodes (with_children s g) ! m) = g m" by simp_all
    show ?thesis
      unfolding s bindE_Inr g(1) sum.case len(1,2) using False one down root
      by (intro conjI exI [of _ "node_rank r s"]) (assumption | simp add: len(3))+
  qed
qed

text \<open>C38: For every option and every \<open>qsort\<close> that sorts, on a \<open>/proc\<close> in which parents have a greater rank than their children (so that no
  process is its own ancestor), the recursion of \<open>pstree\<close> ends, no deeper than the rank of process 1 and its threads, and how it ends is known. If and only if a process has more than
  a hundred children and threads the array of its children overflows. If not, it prints nothing without a process 1, writes in front of \<open>branch_bar_recorder\<close> with
  the option \<open>-a\<close>, and in the aligned layout prints the tree if it fits into the columns and compaction has nothing to do; if it does not fit, or if compaction has changed
  names, the one other end is a write behind \<open>branch_bar_recorder\<close>.\<close>

theorem pstree_terminates:
  assumes "serves F ps" "distinct (map p_pid ps)" "sorts qsort" "\<forall>p \<in> set ps. p_ppid p < int MAX_PROCESSES"
    "\<forall>p \<in> set ps. \<forall>q \<in> set ps. p_ppid q = int (p_pid p) \<longrightarrow> r (p_pid q) < r (p_pid p)" "r 1 + 1 < fuel"
  shows "case bindE (read_all_processes F (parse_args args) junk empty_pstate) (build_process_tree qsort (parse_args args)) of
      Inl e \<Rightarrow> crowded (parse_args args) ps \<and> pstree_main F qsort junk fuel args = Some (Inl (Undefined ''children''))
    | Inr s \<Rightarrow> \<not> crowded (parse_args args) ps \<and>
        (case process_tree s 1 of
           None \<Rightarrow> 1 \<notin> p_pid ` set ps \<and> pstree_main F qsort junk fuel args = Some (Inr s)
         | Some n \<Rightarrow> 1 \<in> p_pid ` set ps \<and>
             (if \<not> align_mode (parse_args args) then pstree_main F qsort junk fuel args = Some (Inl (Undefined ''branch_bar_recorder''))
              else if no_repeats (parse_args args) (nodes s) then
                if fits (parse_args args) (nodes s) fuel n (-1) then \<exists>s'. pstree_main F qsort junk fuel args = Some (Inr s') \<and> nodes s' = nodes s
                else pstree_main F qsort junk fuel args = Some (Inl (Undefined ''branch_bar_recorder''))
              else pstree_main F qsort junk fuel args = Some (Inl (Undefined ''branch_bar_recorder'')) \<or>
                (\<exists>s'. pstree_main F qsort junk fuel args = Some (Inr s') \<and> shape s' = shape s)))"
proof (cases "bindE (read_all_processes F (parse_args args) junk empty_pstate) (build_process_tree qsort (parse_args args))")
  case (Inl e)
  with read_and_build [OF assms(1-5), of "parse_args args" junk] show ?thesis by (simp add: pstree_main_def)
next
  case (Inr s)
  let ?opts = "parse_args args"
  note rb = read_and_build [OF assms(1-5), of ?opts junk, unfolded Inr sum.case]
  have main: "pstree_main F qsort junk fuel args =
      (case process_tree s 1 of None \<Rightarrow> Some (Inr s) | Some n \<Rightarrow> print_process_tree ?opts fuel n (-1) True True s)"
    by (simp add: pstree_main_def Inr Let_def)
  show ?thesis
  proof (cases "process_tree s 1")
    case None
    with rb main show ?thesis unfolding Inr sum.case by simp
  next
    case (Some n)
    from rb obtain R where R: "\<forall>m < length (nodes s). \<forall>c \<in> set (n_children (nodes s ! m)). c < length (nodes s) \<and> R c < (R m :: nat)"
      and root: "\<forall>n. process_tree s 1 = Some n \<longrightarrow> n < length (nodes s) \<and> R n = Suc (r 1)" by (elim conjE exE)
    from root Some assms(6) have n: "n < length (nodes s)" "R n < fuel" by auto
    have cr: "\<not> crowded ?opts ps" "1 \<in> p_pid ` set ps"
      using conjunct1 [OF rb] conjunct1 [OF conjunct2 [OF rb]] unfolding Some by simp_all
    have main: "pstree_main F qsort junk fuel args = print_process_tree ?opts fuel n (-1) True True s" unfolding main Some by simp
    obtain fuel' where fuel: "fuel = Suc fuel'" using assms(6) by (cases fuel) simp_all
    have cmd: "print_process_tree ?opts fuel n (-1) True True s = Some (Inl (Undefined ''branch_bar_recorder''))" if "\<not> align_mode ?opts"
      unfolding fuel by (rule cmdline_mode_undefined [OF that])
    have "prints (shape s) (print_process_tree ?opts fuel n (-1) True True)"
      by (rule print_ends [where R = R]) (use R n in \<open>simp_all add: shape_def\<close>)
    then obtain q where q: "print_process_tree ?opts fuel n (-1) True True s = Some q"
      "case q of Inl e \<Rightarrow> e = Undefined ''branch_bar_recorder'' | Inr s' \<Rightarrow> shape s' = shape s" unfolding prints_def by blast
    have exact: "if fits ?opts (nodes s) fuel n (-1) then \<exists>s'. print_process_tree ?opts fuel n (-1) True True s = Some (Inr s') \<and> nodes s' = nodes s
      else print_process_tree ?opts fuel n (-1) True True s = Some (Inl (Undefined ''branch_bar_recorder''))"
      if "align_mode ?opts" "no_repeats ?opts (nodes s)"
    proof -
      have "prints_lines (nodes s) (leaves (nodes s) fuel n) (fits ?opts (nodes s) fuel n (-1)) (print_process_tree ?opts fuel n (-1) True True)"
        by (rule print_lines [OF R that n order_refl])
      then have "if fits ?opts (nodes s) fuel n (-1)
        then \<exists>s'. print_process_tree ?opts fuel n (-1) True True s = Some (Inr s') \<and> adds_lines (leaves (nodes s) fuel n) s s'
        else print_process_tree ?opts fuel n (-1) True True s = Some (Inl (Undefined ''branch_bar_recorder''))" unfolding prints_lines_def by blast
      then show ?thesis by (cases "fits ?opts (nodes s) fuel n (-1)") (simp_all only: if_True if_False adds_lines_def, blast)
    qed
    from q(2) have any: "q = Inl (Undefined ''branch_bar_recorder'') \<or> (\<exists>s'. q = Inr s' \<and> shape s' = shape s)" by (cases q) simp_all
    show ?thesis unfolding Inr sum.case Some option.case main
    proof (intro conjI cr)
      show "if \<not> align_mode ?opts then print_process_tree ?opts fuel n (-1) True True s = Some (Inl (Undefined ''branch_bar_recorder''))
        else if no_repeats ?opts (nodes s) then
          if fits ?opts (nodes s) fuel n (-1) then \<exists>s'. print_process_tree ?opts fuel n (-1) True True s = Some (Inr s') \<and> nodes s' = nodes s
          else print_process_tree ?opts fuel n (-1) True True s = Some (Inl (Undefined ''branch_bar_recorder''))
        else print_process_tree ?opts fuel n (-1) True True s = Some (Inl (Undefined ''branch_bar_recorder'')) \<or>
          (\<exists>s'. print_process_tree ?opts fuel n (-1) True True s = Some (Inr s') \<and> shape s' = shape s)"
      proof (cases "align_mode ?opts")
        case True
        show ?thesis
        proof (cases "no_repeats ?opts (nodes s)")
          case rep: True
          from exact [OF True rep] show ?thesis using True rep by (simp only: if_True if_False not_True_eq_False)
        next
          case False
          from any q(1) show ?thesis using True False by (simp only: if_False not_True_eq_False) blast
        qed
      qed (use cmd in simp)
    qed
  qed
qed

lemma demo_parents: "\<forall>p \<in> set demo_processes. p_ppid p < int MAX_PROCESSES"
  "\<forall>p \<in> set demo_processes. \<forall>q \<in> set demo_processes. p_ppid q = int (p_pid p) \<longrightarrow> 8 - p_pid q < 8 - p_pid p"
  by (simp_all add: demo_processes_def)

text \<open>Without numbers a label is never longer than its buffer.\<close>

lemma label_bound: "\<not> show_pid opts \<Longrightarrow> length (label opts x) \<le> 259"
  by (simp add: label_def shown_name_def fit_def)

lemma fits_bound:
  assumes "\<not> show_pid opts" "-1 \<le> depth" "depth + 262 * int fuel \<le> 1260"
  shows "fits opts N fuel n depth"
  using assms(2,3)
proof (induction fuel arbitrary: n depth)
  case (Suc fuel)
  then show ?case using label_bound [OF assms(1), of "N ! n"] by (auto intro!: Suc.IH)
qed simp

theorem pstree_terminates_witness: "\<exists>s. pstree_main demo_proc cmp_sort [] 3 [''-c''] = Some (Inr s)"
proof -
  have rank: "\<forall>p \<in> set demo_processes. \<forall>q \<in> set demo_processes. p_ppid q = int (p_pid p) \<longrightarrow>
      (if p_pid q = 1 then 1 else 0 :: nat) < (if p_pid p = 1 then 1 else 0)" by (simp add: demo_processes_def)
  have opts: "align_mode (parse_args [''-c''])" "\<not> show_pid (parse_args [''-c''])" "\<not> show_compact (parse_args [''-c''])"
    by (simp_all add: parse_args_def parse_arg_def default_options_def)
  have nc: "\<not> crowded (parse_args [''-c'']) demo_processes" "1 \<in> p_pid ` set demo_processes"
    by (simp_all add: crowded_def demo_processes_def shown_threads_def)
  have nr: "no_repeats (parse_args [''-c'']) N" for N using opts(3) by (simp add: no_repeats_def)
  have ft: "fits (parse_args [''-c'']) N 3 n (-1)" for N n by (rule fits_bound [OF opts(2)]) simp_all
  show ?thesis
    using pstree_terminates [OF demo_serves demo_distinct sorts_cmp_sort demo_parents(1) rank, of 3 "[''-c'']" "[]"] nc nr ft opts(1)
    by (auto split: sum.splits option.splits)
qed

section \<open>Where it goes wrong\<close>

text \<open>Compaction counts all later leaves of the same name but skips as many children in a row: the child that is between two of the same name is not
  printed (here \<open>x\<close>, when the children are sorted by number).\<close>

lemma compaction_skips:
  fixes s :: pstate
  assumes "nodes s = [\<lparr>n_pid = 1, n_ppid = 0, n_name = ''r'', n_cmdline = [], n_thread_count = 0, n_children = [1, 2, 3]\<rparr>,
      \<lparr>n_pid = 2, n_ppid = 1, n_name = ''a'', n_cmdline = [], n_thread_count = 0, n_children = []\<rparr>,
      \<lparr>n_pid = 3, n_ppid = 1, n_name = ''x'', n_cmdline = [], n_thread_count = 0, n_children = []\<rparr>,
      \<lparr>n_pid = 4, n_ppid = 1, n_name = ''a'', n_cmdline = [], n_thread_count = 0, n_children = []\<rparr>]"
    "show_compact opts" "\<And>c l f s. pr c l f s = Some (Inr (emit (n_name (nodes s ! c)) s))"
  shows "\<exists>s'. print_children opts pr 0 (Suc (Suc (Suc 0))) 0 s = Some (Inr s') \<and> out s' = out s @ ''2*[x]a''"
proof -
  have "show_digits (Suc (Suc 0)) = ''2''" by (simp add: show_digits.simps char_of_def bit_0 flip: numeral_2_eq_2)
  then show ?thesis
    using assms by (simp add: count_same_name_children_def set_node_def emit_def fit_def Let_def)
qed

end
