(* ===== verification/Launch.thy ===== *)
theory Launch
  imports Prelude
begin

text \<open>
  The two programs that start a child and report how it ended: \<open>HW1/source/program1/program1.c\<close> (a user program) and
  \<open>HW1/source/program2/program2.c\<close> (a kernel module). What they print is a list of \<open>msg\<close>s, one for each \<open>printf\<close> or \<open>printk\<close>. The
  results of the system and kernel calls (\<open>fork\<close>, \<open>execl\<close>, \<open>waitpid\<close>, \<open>kernel_clone\<close>, \<open>kernel_wait\<close>, ...) are arguments; what comes to \<open>program1\<close>
  while it waits is a sequence of \<open>event\<close>s, the results of \<open>waitpid\<close> and the deliveries of \<open>SIGCHLD\<close>. A status is the \<open>int\<close> of \<open>wait(2)\<close>, and the macros of \<open>sys/wait.h\<close> read it.
\<close>

section \<open>Signals and statuses\<close>

text \<open>The labels of the \<open>switch\<close>, with the numbers they have on x86.\<close>

definition signals :: "(u32 \<times> string) list" where
  "signals =
     [(1, ''SIGHUP''), (2, ''SIGINT''), (3, ''SIGQUIT''), (4, ''SIGILL''), (5, ''SIGTRAP''), (6, ''SIGABRT''), (7, ''SIGBUS''), (8, ''SIGFPE''),
      (9, ''SIGKILL''), (10, ''SIGUSR1''), (11, ''SIGSEGV''), (12, ''SIGUSR2''), (13, ''SIGPIPE''), (14, ''SIGALRM''), (15, ''SIGTERM''),
      (16, ''SIGSTKFLT''), (17, ''SIGCHLD''), (18, ''SIGCONT''), (19, ''SIGSTOP''), (20, ''SIGTSTP''), (21, ''SIGTTIN''), (22, ''SIGTTOU''),
      (23, ''SIGURG''), (24, ''SIGXCPU''), (25, ''SIGXFSZ''), (26, ''SIGVTALRM''), (27, ''SIGPROF''), (28, ''SIGWINCH''), (29, ''SIGIO''),
      (30, ''SIGPWR''), (31, ''SIGSYS'')]"

definition map_status :: "u32 \<Rightarrow> string" where
  "map_status status = (case map_of signals status of Some status_str \<Rightarrow> status_str | None \<Rightarrow> ''UNKNOWN'')"

definition WTERMSIG :: "u32 \<Rightarrow> u32" where "WTERMSIG status = status AND 0x7f"
definition WEXITSTATUS :: "u32 \<Rightarrow> u32" where "WEXITSTATUS status = drop_bit 8 (status AND 0xff00)"
definition WSTOPSIG :: "u32 \<Rightarrow> u32" where "WSTOPSIG status = WEXITSTATUS status"
definition WIFEXITED :: "u32 \<Rightarrow> bool" where "WIFEXITED status \<longleftrightarrow> WTERMSIG status = 0"
definition WIFSTOPPED :: "u32 \<Rightarrow> bool" where "WIFSTOPPED status \<longleftrightarrow> status AND 0xff = 0x7f"

text \<open>\<open>((signed char) ((status & 0x7f) + 1) >> 1) > 0\<close>\<close>

definition WIFSIGNALED :: "u32 \<Rightarrow> bool" where
  "WIFSIGNALED status \<longleftrightarrow> sint (ucast ((status AND 0x7f) + 1) :: 8 word) div 2 > 0"

section \<open>\<open>program1\<close>\<close>

datatype msg =
    Forking | ChildStarts int | ChildExecutes | ParentStarts int | Receives_sigchld | Waitpid_error | Normal_termination u32 | Child_gets string
  | Child_pid int | Child_process | No_filename | Return_code int
  | Kthread_start | Error_forking | Parent_pid int | Get_signal string | Child_terminated | Return_signal u32 | Core_dump
  | Module_init | Create_kthread | Error_creating | Module_exit

datatype outcome = Replaced | Waiting | Exits int

text \<open>\<open>signal_handler\<close>, which \<open>main\<close> installs for \<open>SIGCHLD\<close>.\<close>

definition signal_handler :: "msg list" where
  "signal_handler = [Receives_sigchld]"

text \<open>The loop, over what comes while it runs: \<open>SIGCHLD\<close> is delivered, or \<open>waitpid\<close> returns a result and stores a status (it is restarted after a
  handler). When nothing more comes the program still waits.\<close>

datatype event = Sigchld | Result int u32

fun wait_loop :: "event list \<Rightarrow> msg list \<times> outcome" where
  "wait_loop [] = ([], Waiting)"
| "wait_loop (Sigchld # es) = (case wait_loop es of (ms, res) \<Rightarrow> (signal_handler @ ms, res))"
| "wait_loop (Result result status # es) =
     (if result = -1 then ([Waitpid_error], Exits 1)
      else if WIFEXITED status then ([Normal_termination (WEXITSTATUS status)], Exits 0)
      else if WIFSIGNALED status then ([Child_gets (map_status (WTERMSIG status))], Exits 0)
      else if WIFSTOPPED status then ([Child_gets (map_status (WSTOPSIG status))], Exits 0)
      else wait_loop es)"

text \<open>\<open>main\<close>, in the parent (\<open>pid\<close> is not 0) and in the child, with the process number \<open>self\<close>. The child goes on into the loop when \<open>execl\<close> fails. In
  the parent \<open>SIGCHLD\<close> can be delivered already before its message, here \<open>early\<close> times.\<close>

definition program1 :: "int \<Rightarrow> int \<Rightarrow> bool \<Rightarrow> nat \<Rightarrow> event list \<Rightarrow> msg list \<times> outcome" where
  "program1 self pid execl early es =
     (let start = Forking # (if pid = 0 then [ChildStarts self, ChildExecutes] else []) in
      if pid = 0 \<and> execl then (start, Replaced)
      else let (ms, res) = wait_loop es in
        (start @ (if pid = 0 then [] else concat (replicate early signal_handler) @ [ParentStarts self]) @ ms, res))"

section \<open>\<open>program2\<close>\<close>

record k_sigaction =
  sa_handler :: nat
  sa_flags :: u64
  sa_restorer :: nat
  sa_mask :: "nat set"

text \<open>The loop over \<open>current->sighand->action\<close>; \<open>SIG_DFL\<close> and \<open>NULL\<close> are 0.\<close>

definition default_actions :: "k_sigaction list \<Rightarrow> k_sigaction list" where
  "default_actions = map (\<lambda>a. a\<lparr>sa_handler := 0, sa_flags := 0, sa_restorer := 0, sa_mask := {}\<rparr>)"

text \<open>\<open>map_status\<close> of \<open>program2.c\<close> has the same \<open>switch\<close>, label by label, on the same numbers.\<close>

definition kmap_status :: "u32 \<Rightarrow> string" where
  "kmap_status = map_status"

text \<open>What \<open>my_fork\<close> reports about the status of \<open>kernel_wait\<close>: three tests, one after the other.\<close>

definition report_exit :: "u32 \<Rightarrow> msg list" where
  "report_exit status =
     (if status AND 0x7f = 0
      then (let exit_code = drop_bit 8 (status AND 0xff00) in [Get_signal (kmap_status exit_code), Child_terminated, Return_signal exit_code])
      else [])"

definition report_signal :: "u32 \<Rightarrow> msg list" where
  "report_signal status =
     (if status AND 0x7f \<noteq> 0
      then (let signal_number = status AND 0x7f in
        [Get_signal (kmap_status signal_number)] @ (if status AND 0x80 \<noteq> 0 then [Core_dump] else []) @ [Child_terminated, Return_signal signal_number])
      else [])"

definition report_stop :: "u32 \<Rightarrow> msg list" where
  "report_stop status =
     (if status AND 0x7f = 0x7f
      then (let stop_signal = signed_drop_bit 8 status AND 0xff in [Get_signal (kmap_status stop_signal), Return_signal stop_signal])
      else [])"

definition report :: "u32 \<Rightarrow> msg list" where
  "report status = report_exit status @ report_signal status @ report_stop status"

text \<open>\<open>my_exec\<close>: \<open>filename\<close> is the result of \<open>getname_kernel\<close> (an error number or a name) and \<open>execve\<close> that of \<open>kernel_execve\<close>.\<close>

definition my_exec :: "int \<Rightarrow> (int + string) \<Rightarrow> (string \<Rightarrow> int) \<Rightarrow> msg list \<times> int" where
  "my_exec self filename execve =
     (let ms = [Child_pid self, Child_process] in
      case filename of Inl err \<Rightarrow> (ms @ [No_filename], err)
      | Inr name \<Rightarrow> let return_code = execve name in (ms @ (if return_code \<noteq> 0 then [Return_code return_code] else []), return_code))"

text \<open>\<open>my_fork\<close>: \<open>pid\<close> is the result of \<open>kernel_clone\<close> and \<open>status\<close> what \<open>kernel_wait\<close> stored. With the messages and the result, the actions.\<close>

definition my_fork :: "int \<Rightarrow> int \<Rightarrow> u32 \<Rightarrow> k_sigaction list \<Rightarrow> (msg list \<times> int) \<times> k_sigaction list" where
  "my_fork self pid status action =
     ((if pid < 0 then ([Kthread_start, Error_forking], -1)
       else ([Kthread_start, Parent_pid self] @ report status, 0)), default_actions action)"

text \<open>\<open>program2_init\<close>: \<open>thread\<close> is the result of \<open>kthread_create\<close>; the last component is the thread that is woken.\<close>

definition program2_init :: "(int + nat) \<Rightarrow> msg list \<times> int \<times> nat option" where
  "program2_init thread =
     (case thread of Inl err \<Rightarrow> ([Module_init, Create_kthread, Error_creating], err, None)
      | Inr t \<Rightarrow> ([Module_init, Create_kthread], 0, Some t))"

definition program2_exit :: "msg list" where
  "program2_exit = [Module_exit]"

section \<open>How a child ends\<close>

text \<open>What a status can mean, and the \<open>int\<close> that stands for it: \<open>wait(2)\<close>.\<close>

datatype change = Exited u32 | Killed u32 bool | Stopped u32 | Continued

definition encode :: "change \<Rightarrow> u32" where
  "encode c = (case c of Exited n \<Rightarrow> push_bit 8 n | Killed n core \<Rightarrow> n OR (if core then 0x80 else 0) | Stopped n \<Rightarrow> push_bit 8 n OR 0x7f | Continued \<Rightarrow> 0xffff)"

definition valid_change :: "change \<Rightarrow> bool" where
  "valid_change c = (case c of Exited n \<Rightarrow> n < 256 | Killed n core \<Rightarrow> 0 < n \<and> n < 127 | Stopped n \<Rightarrow> 0 < n \<and> n < 127 | Continued \<Rightarrow> True)"

text \<open>The standard signals with their numbers on x86, as \<open>signal(7)\<close> lists them; where a number has two names the first is the usual one.\<close>

definition signal7 :: "(string \<times> nat) list" where
  "signal7 =
     [(''SIGABRT'', 6), (''SIGALRM'', 14), (''SIGBUS'', 7), (''SIGCHLD'', 17), (''SIGCONT'', 18), (''SIGFPE'', 8), (''SIGHUP'', 1), (''SIGILL'', 4),
      (''SIGINT'', 2), (''SIGIO'', 29), (''SIGIOT'', 6), (''SIGKILL'', 9), (''SIGPIPE'', 13), (''SIGPOLL'', 29), (''SIGPROF'', 27), (''SIGPWR'', 30),
      (''SIGQUIT'', 3), (''SIGSEGV'', 11), (''SIGSTKFLT'', 16), (''SIGSTOP'', 19), (''SIGTSTP'', 20), (''SIGSYS'', 31), (''SIGTERM'', 15),
      (''SIGTRAP'', 5), (''SIGTTIN'', 21), (''SIGTTOU'', 22), (''SIGUNUSED'', 31), (''SIGURG'', 23), (''SIGUSR1'', 10), (''SIGUSR2'', 12),
      (''SIGVTALRM'', 26), (''SIGXCPU'', 24), (''SIGXFSZ'', 25), (''SIGWINCH'', 28)]"

definition signal_name :: "u32 \<Rightarrow> string" where
  "signal_name n = (case find (\<lambda>(nm, k). k = unat n) signal7 of Some (nm, k) \<Rightarrow> nm | None \<Rightarrow> ''UNKNOWN'')"

lemma signal7_agrees: "list_all (\<lambda>(k, nm). signal_name k = nm) signals"
  "list_all (\<lambda>x. (of_nat (snd x) :: u32) \<in> set (map fst signals)) signal7"
  by code_simp+

lemma map_status_name: "map_status n = signal_name n"
proof (cases "map_of signals n")
  case None
  then have "n \<notin> set (map fst signals)" by (simp add: map_of_eq_None_iff)
  with signal7_agrees(2) have "find (\<lambda>(nm, k). k = unat n) signal7 = None" by (force simp: find_None_iff list_all_iff)
  with None show ?thesis by (simp add: map_status_def signal_name_def)
next
  case (Some nm)
  then have "(n, nm) \<in> set signals" by (rule map_of_SomeD)
  with signal7_agrees(1) have "signal_name n = nm" by (auto simp: list_all_iff)
  with Some show ?thesis by (simp add: map_status_def)
qed

definition described :: "change \<Rightarrow> msg list" where
  "described c = (case c of Exited n \<Rightarrow> [Normal_termination n] | Killed n core \<Rightarrow> [Child_gets (signal_name n)]
     | Stopped n \<Rightarrow> [Child_gets (signal_name n)] | Continued \<Rightarrow> [])"

lemma masks: "(0x7f :: u32) = mask 7" "(0xff :: u32) = mask 8" "(0xff00 :: u32) = push_bit 8 (mask 8)"
  by (simp_all add: mask_eq_exp_minus_1)

lemma bit_0x80: "bit (0x80 :: int) i \<longleftrightarrow> i = 7"
proof -
  have "(0x80 :: int) = 2 ^ 7" by simp
  then show ?thesis by (simp only: bit_exp_iff) auto
qed

lemma small_bits:
  fixes n :: u32
  shows "n < 128 \<Longrightarrow> bit n i \<Longrightarrow> i < 7" "n < 256 \<Longrightarrow> bit n i \<Longrightarrow> i < 8"
  using less_mask_eq [of n 7] less_mask_eq [of n 8] by (auto simp: bit_simps dest: arg_cong [where f = "\<lambda>w. bit w i"])

lemma exit_status_shift:
  assumes "n < (256 :: u32)" "k = 0 \<or> k = 0x7f"
  shows "WEXITSTATUS (push_bit 8 n OR k) = n" "signed_drop_bit 8 (push_bit 8 n OR k) AND 0xff = n"
    "(push_bit 8 n OR k) AND 0x7f = k" "(push_bit 8 n OR k) AND 0xff = k" "(push_bit 8 n OR k) AND 0x80 = 0"
proof -
  have n: "i < 8" if "bit n i" for i using small_bits(2) [OF assms(1) that] .
  have k: "i < 7" if "bit k i" for i using assms(2) that by (auto simp: masks bit_simps)
  show "WEXITSTATUS (push_bit 8 n OR k) = n"
    unfolding WEXITSTATUS_def masks by (rule bit_eqI) (use n in \<open>auto simp: bit_simps dest: k; fastforce\<close>)
  show "signed_drop_bit 8 (push_bit 8 n OR k) AND 0xff = n"
    unfolding masks by (rule bit_eqI) (use n k in \<open>auto simp: bit_simps min_def; fastforce\<close>)
  show "(push_bit 8 n OR k) AND 0x7f = k"
    unfolding masks by (rule bit_eqI) (use k in \<open>auto simp: bit_simps; fastforce\<close>)
  show "(push_bit 8 n OR k) AND 0xff = k"
    unfolding masks by (rule bit_eqI) (use k in \<open>auto simp: bit_simps; fastforce\<close>)
  show "(push_bit 8 n OR k) AND 0x80 = 0"
    by (rule bit_eqI) (use k in \<open>auto simp: bit_simps bit_0x80\<close>)
qed

lemma sint_byte: "sint (ucast (w :: u32) :: 8 word) = signed_take_bit 7 (uint w)"
  by (transfer fixing: ) (simp add: signed_take_bit_take_bit)

lemma WIFSIGNALED_iff: "WIFSIGNALED status \<longleftrightarrow> 0 < status AND 0x7f \<and> status AND 0x7f < 127"
proof -
  let ?n = "status AND 0x7f"
  have "uint ?n < 2 ^ 7" unfolding masks(1) by (rule and_mask_lt_2p)
  then have n: "uint ?n < 128" "0 \<le> uint ?n" by simp_all
  then have up: "uint (?n + 1) = uint ?n + 1" by (simp add: uint_word_ariths)
  show ?thesis
  proof (cases "uint ?n = 127")
    case True
    have "signed_take_bit 7 (128 :: int) = - 128" by code_simp
    then show ?thesis using True up by (simp add: WIFSIGNALED_def sint_byte word_less_def)
  next
    case False
    then have "signed_take_bit 7 (uint ?n + 1) = uint ?n + 1" using n by (intro signed_take_bit_int_eq_self) simp_all
    then show ?thesis using False n up by (auto simp: WIFSIGNALED_def sint_byte word_less_def)
  qed
qed

lemma killed_bits:
  assumes "n < (127 :: u32)"
  shows "(n OR (if core then 0x80 else 0)) AND 0x7f = n" "(n OR (if core then 0x80 else 0)) AND 0x80 = (if core then 0x80 else 0)"
proof -
  have "n < 128" using assms by (rule less_trans) simp
  then have n: "i < 7" if "bit n i" for i using small_bits(1) that by blast
  show "(n OR (if core then 0x80 else 0)) AND 0x7f = n" "(n OR (if core then 0x80 else 0)) AND 0x80 = (if core then 0x80 else 0)"
    unfolding masks by (cases core; rule bit_eqI; use n in \<open>auto simp: bit_simps bit_0x80 dest: n\<close>)+
qed

text \<open>What can come before the first report: \<open>SIGCHLD\<close> and the news that the child continues.\<close>

definition no_news :: "event \<Rightarrow> bool" where
  "no_news e \<longleftrightarrow> (case e of Sigchld \<Rightarrow> True | Result p status \<Rightarrow> p \<noteq> -1 \<and> status = encode Continued)"

lemma program1_reports_first:
  assumes "valid_change c" "c \<noteq> Continued" "p \<noteq> -1" "\<forall>e \<in> set es. no_news e" "pid \<noteq> 0"
  shows "program1 self pid execl early (es @ Result p (encode c) # rest) =
    (Forking # replicate early Receives_sigchld @ ParentStarts self # replicate (count_list es Sigchld) Receives_sigchld @ described c, Exits 0)"
proof -
  have again: "\<not> WIFEXITED 0xffff" "\<not> WIFSIGNALED 0xffff" "\<not> WIFSTOPPED 0xffff"
    unfolding WIFSIGNALED_iff by (simp_all add: WIFEXITED_def WTERMSIG_def WIFSTOPPED_def)
  have stop: "wait_loop (Result p (encode c) # rest) = (described c, Exits 0)"
  proof (cases c)
    case (Exited n)
    then have "WIFEXITED (encode c)" "WEXITSTATUS (encode c) = n"
      using assms(1) exit_status_shift [of n 0] by (simp_all add: encode_def valid_change_def WIFEXITED_def WTERMSIG_def)
    then show ?thesis using Exited assms(3) by (simp add: described_def)
  next
    case (Killed n core)
    then have "WTERMSIG (encode c) = n" "0 < n" "n < 127"
      using assms(1) killed_bits [of n core] by (simp_all add: encode_def valid_change_def WTERMSIG_def)
    then show ?thesis using Killed assms(3) by (simp add: described_def WIFEXITED_def WIFSIGNALED_iff WTERMSIG_def map_status_name)
  next
    case (Stopped n)
    then have n: "n < 127" "encode c = push_bit 8 n OR 0x7f" using assms(1) by (simp_all add: valid_change_def encode_def)
    then have "n < 256" using less_trans [of n 127 256] by simp
    note shift = exit_status_shift [OF this, of "0x7f"]
    then show ?thesis using Stopped assms(3) n shift
      by (simp add: described_def WIFEXITED_def WTERMSIG_def WIFSIGNALED_iff WIFSTOPPED_def WSTOPSIG_def map_status_name)
  qed (use assms(2) in simp)
  have "wait_loop (es @ Result p (encode c) # rest) = (replicate (count_list es Sigchld) Receives_sigchld @ described c, Exits 0)"
    using assms(4)
  proof (induction es)
    case (Cons e es)
    then show ?case using again by (cases e) (simp_all add: no_news_def encode_def signal_handler_def)
  qed (simp only: append_Nil stop count_list.simps replicate_0)
  moreover have "concat (replicate k signal_handler) = replicate k Receives_sigchld" for k
    by (induction k) (simp_all add: signal_handler_def)
  ultimately show ?thesis using assms(5) by (simp add: program1_def)
qed

text \<open>C40: \<open>program1\<close> ignores what \<open>waitpid\<close> says about a child that continues, and at the first other status prints the exit status, the
  name that \<open>signal(7)\<close> gives to the signal that killed the child, or that of the one that stopped it (\<open>UNKNOWN\<close> for a number that has none there), whatever
  the number is, and returns. Before that it prints its own message, and one more for each \<open>SIGCHLD\<close> that is delivered, when it is delivered.\<close>

theorem program1_reports:
  assumes "valid_change c" "c \<noteq> Continued" "p \<noteq> -1" "\<forall>e \<in> set es. no_news e" "pid \<noteq> 0"
  shows "program1 self pid execl early (es @ Result p (encode c) # rest) =
    (Forking # replicate early Receives_sigchld @ ParentStarts self # replicate (count_list es Sigchld) Receives_sigchld @ described c, Exits 0)"
  using assms by (rule program1_reports_first)

theorem program1_reports_witness:
  "program1 4 5 True 0 [Sigchld, Result 5 0xffff, Sigchld, Result 5 9] =
    ([Forking, ParentStarts 4, Receives_sigchld, Receives_sigchld, Child_gets ''SIGKILL''], Exits 0)"
  using program1_reports [of "Killed 9 False" 5 "[Sigchld, Result 5 0xffff, Sigchld]" 5 4 True 0 "[]"]
  by (simp add: valid_change_def encode_def described_def no_news_def signal_name_def signal7_def)

text \<open>What the module prints about each way a child ends: the signal that killed it with the core dump; but also for a normal end
  the name of a signal, and for a stopped child first a report of a signal 127.\<close>

lemma program2_reports:
  assumes "valid_change c" "0 \<le> pid"
  shows "my_fork self pid (encode c) action = (([Kthread_start, Parent_pid self] @
    (case c of Exited n \<Rightarrow> [Get_signal (map_status n), Child_terminated, Return_signal n]
     | Killed n core \<Rightarrow> [Get_signal (map_status n)] @ (if core then [Core_dump] else []) @ [Child_terminated, Return_signal n]
     | Stopped n \<Rightarrow> [Get_signal ''UNKNOWN'', Child_terminated, Return_signal 127, Get_signal (map_status n), Return_signal n]
     | Continued \<Rightarrow> [Get_signal ''UNKNOWN'', Core_dump, Child_terminated, Return_signal 127, Get_signal ''UNKNOWN'', Return_signal 255]), 0),
    default_actions action)"
proof -
  have "report (encode c) =
    (case c of Exited n \<Rightarrow> [Get_signal (map_status n), Child_terminated, Return_signal n]
     | Killed n core \<Rightarrow> [Get_signal (map_status n)] @ (if core then [Core_dump] else []) @ [Child_terminated, Return_signal n]
     | Stopped n \<Rightarrow> [Get_signal ''UNKNOWN'', Child_terminated, Return_signal 127, Get_signal (map_status n), Return_signal n]
     | Continued \<Rightarrow> [Get_signal ''UNKNOWN'', Core_dump, Child_terminated, Return_signal 127, Get_signal ''UNKNOWN'', Return_signal 255])"
  proof (cases c)
    case (Exited n)
    then have "n < 256" using assms(1) by (simp add: valid_change_def)
    from exit_status_shift [OF this, of 0] show ?thesis
      by (simp add: Exited encode_def report_def report_exit_def report_signal_def report_stop_def kmap_status_def WEXITSTATUS_def)
  next
    case (Killed n core)
    then have "0 < n" "n < 127" using assms(1) by (simp_all add: valid_change_def)
    then show ?thesis using killed_bits [of n core]
      by (auto simp: Killed encode_def report_def report_exit_def report_signal_def report_stop_def kmap_status_def)
  next
    case (Stopped n)
    then have "n < 256" using assms(1) less_trans [of n 127 256] by (simp add: valid_change_def)
    from exit_status_shift [OF this, of "0x7f"] show ?thesis
      by (simp add: Stopped encode_def report_def report_exit_def report_signal_def report_stop_def kmap_status_def map_status_def signals_def)
  next
    case Continued
    then show ?thesis
      by (simp add: encode_def report_def report_exit_def report_signal_def report_stop_def kmap_status_def map_status_def signals_def)
  qed
  then show ?thesis using assms(2) by (simp add: my_fork_def)
qed

lemma program2_example:
  "my_fork 7 8 0x600 [] = (([Kthread_start, Parent_pid 7, Get_signal ''SIGABRT'', Child_terminated, Return_signal 6], 0), [])"
  using program2_reports [of "Exited 6" 8 7 "[]"]
  by (simp add: valid_change_def encode_def map_status_def signals_def default_actions_def)

end
