(* ===== verification/Launch_Tests.thy ===== *)
theory Launch_Tests
  imports Launch
begin

text \<open>
  The programs that \<open>program1\<close> and \<open>program2\<close> start: \<open>HW1/source/program1/*.c\<close> other than \<open>program1.c\<close>, and \<open>HW1/source/program2/test.c\<close>. Each is the list of its
  calls with the value \<open>main\<close> returns, and \<open>run_test\<close> is what the process does with the default actions of \<open>signal(7)\<close>. With the
  theory \<open>Launch\<close> this gives what a run of the two programs prints, end to end.
\<close>

section \<open>Running a test program\<close>

datatype action = Says string | Raise u32 | Abort | Alarm nat | Sleep nat

type_synonym test_program = "action list \<times> u32"

text \<open>The signals whose default action dumps a core, stops the process, or is to be ignored or to continue.\<close>

definition core_signals :: "u32 list" where
  "core_signals = [3, 4, 5, 6, 7, 8, 11, 24, 25, 31]"

definition stop_signals :: "u32 list" where
  "stop_signals = [19, 20, 21, 22]"

definition mild_signals :: "u32 list" where
  "mild_signals = [17, 18, 23, 28]"

definition default_action :: "bool \<Rightarrow> u32 \<Rightarrow> change option" where
  "default_action core sig =
     (if sig \<in> set mild_signals then None else if sig \<in> set stop_signals then Some (Stopped sig)
      else Some (Killed sig (core \<and> sig \<in> set core_signals)))"

text \<open>What the program prints, and its first change of state; \<open>al\<close> is the time that is left to the alarm.\<close>

fun run_test :: "bool \<Rightarrow> nat option \<Rightarrow> action list \<Rightarrow> u32 \<Rightarrow> string list \<times> change" where
  "run_test core al [] ret = ([], Exited (ret AND 0xff))"
| "run_test core al (Says l # as) ret = (case run_test core al as ret of (ls, c) \<Rightarrow> (l # ls, c))"
| "run_test core al (Raise sig # as) ret = (case default_action core sig of None \<Rightarrow> run_test core al as ret | Some c \<Rightarrow> ([], c))"
| "run_test core al (Abort # as) ret = ([], Killed 6 core)"
| "run_test core al (Alarm n # as) ret = run_test core (if n = 0 then None else Some n) as ret"
| "run_test core al (Sleep n # as) ret =
     (case al of None \<Rightarrow> run_test core None as ret
      | Some m \<Rightarrow> if m \<le> n then ([], Killed 14 False) else run_test core (Some (m - n)) as ret)"

section \<open>The programs\<close>

definition child_start :: "action list" where
  "child_start = [Says ''------------CHILD PROCESS START------------'']"

definition child_end :: "action list" where
  "child_end = [Says ''------------CHILD PROCESS END------------'']"

definition abort_c :: test_program where
  "abort_c = (child_start @ [Says ''This is the SIGABRT program''] @ [Abort, Sleep 5] @ child_end, 0)"

definition alarm_c :: test_program where
  "alarm_c = (child_start @ [Says ''This is the SIGALRM program''] @ [Alarm 2, Sleep 5] @ child_end, 0)"

definition bus_c :: test_program where
  "bus_c = (child_start @ [Says ''This is the SIGBUS program''] @ [Raise 7, Sleep 5] @ child_end, 0)"

definition floating_c :: test_program where
  "floating_c = (child_start @ [Says ''This is the SIGFPE program''] @ [Raise 8, Sleep 5] @ child_end, 0)"

definition hangup_c :: test_program where
  "hangup_c = (child_start @ [Says ''This is the SIGHUP program''] @ [Raise 1, Sleep 5] @ child_end, 0)"

definition illegal_instr_c :: test_program where
  "illegal_instr_c = (child_start @ [Says ''This is the SIGILL program''] @ [Raise 4, Sleep 5] @ child_end, 0)"

definition interrupt_c :: test_program where
  "interrupt_c = (child_start @ [Says ''This is the SIGINT program''] @ [Raise 2, Sleep 5] @ child_end, 0)"

definition kill_c :: test_program where
  "kill_c = (child_start @ [Says ''This is the SIGKILL program''] @ [Raise 9, Sleep 5] @ child_end, 0)"

definition pipe_c :: test_program where
  "pipe_c = (child_start @ [Says ''This is the SIGPIPE program''] @ [Raise 13, Sleep 5] @ child_end, 0)"

definition quit_c :: test_program where
  "quit_c = (child_start @ [Says ''This is the SIGQUIT program''] @ [Raise 3, Sleep 5] @ child_end, 0)"

definition segment_fault_c :: test_program where
  "segment_fault_c = (child_start @ [Says ''This is the SIGSEGV program''] @ [Raise 11, Sleep 5] @ child_end, 0)"

definition stop_c :: test_program where
  "stop_c = (child_start @ [Says ''This is the SIGSTOP program''] @ [Raise 19, Sleep 5] @ child_end, 0)"

definition terminate_c :: test_program where
  "terminate_c = (child_start @ [Says ''This is the SIGTERM program''] @ [Raise 15, Sleep 5] @ child_end, 0)"

definition trap_c :: test_program where
  "trap_c = (child_start @ [Says ''This is the SIGTRAP program''] @ [Raise 5, Sleep 5] @ child_end, 0)"

definition normal_c :: test_program where
  "normal_c = (child_start @ [Says ''This is the normal program''] @ child_end, 0)"

text \<open>The program that the module of \<open>program2\<close> executes.\<close>

definition test_c :: test_program where
  "test_c = ([Says ''--------USER PROGRAM--------'', Raise 7, Sleep 5, Says ''user process success!!'', Says ''--------USER PROGRAM--------''], 100)"

section \<open>What is printed\<close>

definition signal_tests :: "(string \<times> test_program) list" where
  "signal_tests =
     [(''SIGABRT'', abort_c),
      (''SIGALRM'', alarm_c),
      (''SIGBUS'', bus_c),
      (''SIGFPE'', floating_c),
      (''SIGHUP'', hangup_c),
      (''SIGILL'', illegal_instr_c),
      (''SIGINT'', interrupt_c),
      (''SIGKILL'', kill_c),
      (''SIGPIPE'', pipe_c),
      (''SIGQUIT'', quit_c),
      (''SIGSEGV'', segment_fault_c),
      (''SIGSTOP'', stop_c),
      (''SIGTERM'', terminate_c),
      (''SIGTRAP'', trap_c)]"

lemmas test_defs = child_start_def child_end_def normal_c_def test_c_def abort_c_def alarm_c_def bus_c_def floating_c_def hangup_c_def illegal_instr_c_def interrupt_c_def kill_c_def pipe_c_def quit_c_def segment_fault_c_def stop_c_def terminate_c_def trap_c_def

text \<open>Each program says which signal it is about, and changes state by that signal.\<close>

lemma signal_test_runs:
  "(nm, as, ret) \<in> set signal_tests \<Longrightarrow> \<exists>c. run_test core None as ret = ([''------------CHILD PROCESS START------------'',
     ''This is the '' @ nm @ '' program''], c) \<and> valid_change c \<and> c \<noteq> Continued \<and> described c = [Child_gets nm]"
  unfolding signal_tests_def
  by (auto simp: test_defs default_action_def mild_signals_def stop_signals_def core_signals_def valid_change_def described_def signal_name_def signal7_def)

lemma program1_on_tests:
  assumes "(nm, as, ret) \<in> set signal_tests" "pid \<noteq> 0" "pid \<noteq> -1"
  shows "program1 self pid True 0 [Sigchld, Result pid (encode (snd (run_test core None as ret)))] =
    ([Forking, ParentStarts self, Receives_sigchld, Child_gets nm], Exits 0)"
proof -
  from signal_test_runs [OF assms(1), of core] obtain c where c: "snd (run_test core None as ret) = c" "valid_change c" "c \<noteq> Continued"
    "described c = [Child_gets nm]" by auto
  then show ?thesis using program1_reports_first [of c pid "[Sigchld]" pid self True 0 "[]"] assms(2,3) by (simp add: no_news_def)
qed

lemma program1_on_normal:
  assumes "pid \<noteq> 0" "pid \<noteq> -1"
  shows "program1 self pid True 0 [Sigchld, Result pid (encode (snd (run_test core None (fst normal_c) (snd normal_c))))] =
    ([Forking, ParentStarts self, Receives_sigchld, Normal_termination 0], Exits 0)"
  using program1_reports_first [of "Exited 0" pid "[Sigchld]" pid self True 0 "[]"] assms
  by (simp add: test_defs valid_change_def described_def no_news_def)

lemma program2_on_test:
  assumes "0 \<le> pid"
  shows "fst (my_fork self pid (encode (snd (run_test core None (fst test_c) (snd test_c)))) acts) =
    ([Kthread_start, Parent_pid self, Get_signal ''SIGBUS''] @ (if core then [Core_dump] else []) @ [Child_terminated, Return_signal 7], 0)"
proof -
  have "snd (run_test core None (fst test_c) (snd test_c)) = Killed 7 core"
    by (simp add: test_defs default_action_def mild_signals_def stop_signals_def core_signals_def)
  with program2_reports [of "Killed 7 core" pid self acts] assms show ?thesis by (simp add: valid_change_def map_status_def signals_def)
qed

end
