(* ===== verification/Spec2Isabelle.thy ===== *)
theory Spec2Isabelle
  imports Call_Runs File_Refs Proc_Mem Mmap Trap_Inv Game_Inv Game_Term Pstree_Print Launch_Tests
begin

text \<open>
  \<^bold>\<open>A verification development for the CSC3150 assignments\<close>

  The repository holds four homeworks on operating systems, all of them in C (one in C++ used as C):
  \<^item> \<open>HW4/source\<close>: the file system of xv6, extended by doubly-indirect blocks and symbolic links (\<open>fs.h\<close>, \<open>file.h\<close>, \<open>fs.c\<close>, \<open>sysfile.c\<close>);
  \<^item> \<open>HW3/source\<close>: the processes and traps of xv6, extended by \<open>mmap\<close> (\<open>proc.h\<close>, \<open>proc.c\<close>, \<open>trap.c\<close>, \<open>sysfile.c\<close>);
  \<^item> \<open>HW2/source/hw2.cpp\<close>: a game played by threads that share a map;
  \<^item> \<open>HW1/source\<close>: \<open>program1\<close> and \<open>program2\<close>, which start a child and report how it ended, and \<open>bonus/pstree.c\<close>.
  The kernel of HW3 and that of HW4 are one system: the system calls run in the context of a process, move bytes with \<open>either_copyout\<close> and
  \<open>either_copyin\<close> of \<open>proc.c\<close>, and work on the file system, which gets its blocks from the block allocator. Traps are where a process enters the
  kernel, gives up its cpu, and gets the pages of its mapped files.

  \<^bold>\<open>How the code is rendered.\<close> A C function is a HOL function with the source's name; state that it changes is passed and returned. A pointer into a
  table is an index, a null pointer is \<open>None\<close>. Integers are words of their width wherever the code computes with them, so that wrap-around is the
  code's own. The result type \<open>res\<close> of \<open>Prelude\<close> has the ways of not returning: \<open>panic\<close>, a sleep lock that is held, a use that C leaves
  undefined. What is not under \<open>src/\<close> is a parameter, with what its documentation promises as a named predicate on it (\<open>bio_ok\<close>,
  \<open>uvm_ok\<close>, \<open>fileops_ok\<close>, \<open>file_counts\<close>, \<open>promises\<close>, \<open>drivers_ok\<close>, \<open>sorts\<close>).

  \<^bold>\<open>The theories, in the order of their dependence.\<close>
  \<^item> \<open>Prelude\<close>: integer types, results, byte buffers and little-endian arrays, the first match in a table (\<open>find_idx\<close>).
  \<^item> \<open>Fs_Layout\<close> (\<open>fs.h\<close>, \<open>file.h\<close>): superblock, \<open>dinode\<close>, \<open>inode\<close>, \<open>dirent\<close>, their bytes and the constants; the buffer cache and log as
    the parameter \<open>bio\<close>. Lemmas: decoding undoes encoding.
  \<^item> \<open>Fs_Balloc\<close> (\<open>fs.c\<close>: \<open>readsb\<close>, \<open>bzero\<close>, \<open>balloc\<close>, \<open>bfree\<close>): the set of used blocks; \<open>balloc\<close> takes the least free block, zeroed; \<open>bfree\<close>
    frees exactly a used block. The locale \<open>block_allocator\<close> is what the other layers use, interpreted on these functions.
  \<^item> \<open>Fs_Bmap\<close> (\<open>bmap\<close>) and \<open>Fs_Itrunc\<close> (\<open>iupdate\<close>, \<open>itrunc\<close>): the tree of blocks of a file and the invariant \<open>file_ok\<close> (no block in two places, all in use);
    \<open>bmap\<close> grows the tree and keeps the content; \<open>itrunc\<close> frees exactly the blocks of the tree and never panics.
  \<^item> \<open>Kmem\<close> (\<open>either_copyout\<close>, \<open>either_copyin\<close> of HW3) and \<open>Fs_Rw\<close> (\<open>stati\<close>, \<open>readi\<close>, \<open>writei\<close>): the content of a file as one list of bytes; the block-wise loops
    are one logical copy and one logical update of it, and the second undoes the first.
  \<^item> \<open>Fs_Inode\<close> (\<open>fsinit\<close>, \<open>iinit\<close>, \<open>ialloc\<close>, \<open>iget\<close>, \<open>idup\<close>, \<open>ilock\<close>, \<open>iunlock\<close>, \<open>iput\<close>, \<open>iunlockput\<close>): the table of inodes, its reference counts (locale
    \<open>reference_table\<close>) and its agreement with the disk.
  \<^item> \<open>Fs_Dir\<close> (\<open>namecmp\<close>, \<open>dirlookup\<close>, \<open>dirlink\<close>): a directory as a list of entries and as a map. \<open>Fs_Path\<close> (\<open>skipelem\<close>, \<open>namex\<close>, \<open>namei\<close>,
    \<open>nameiparent\<close>): paths as lists of elements.
  \<^item> \<open>Fs_Own\<close>: an accounting of references and locks, the assertion \<open>owns\<close> with a rule for each operation, which says what the operation
    holds and what is held by others (\<open>others\<close>). \<open>Sysfile\<close> (\<open>HW4/source/sysfile.c\<close>): all its calls;
    no call loses or invents a reference, a lock or a transaction on a path on which it returns; \<open>open\<close> follows a chain of at most ten links
    (\<open>link_chain\<close>, the specification of its loop). At its end, the \<open>sys_open\<close> of HW3, which the one of
    HW4 extends (\<open>sys_open_nofollow\<close>, \<open>sys_open_no_link\<close>).
    \<open>Call_Runs\<close>: sequences of the calls; between two of them every reference to an inode is that of an open file or of the working directory.
  \<^item> \<open>Machine\<close>: reachable states, the locales \<open>transition_system\<close>, \<open>refined_system\<close> and \<open>winding_down\<close>.
  \<^item> \<open>Proc\<close> (\<open>proc.c\<close>, \<open>proc.h\<close>): the operations and, as the relation \<open>kstep\<close>, all their interleavings over the cpus. \<open>Proc_Inv\<close>: the abstract process machine
    that \<open>kstep\<close> refines, and what holds in all reachable states: pids are unique, one cpu for each running process, no zombie whose parent sleeps through
    it. \<open>Proc_Ops\<close>: \<open>wait\<close>, \<open>fork\<close>, \<open>kill\<close> on the whole table. \<open>Proc_Mem\<close>: every process has a page table and a trapframe, in all reachable states.
  \<^item> \<open>Vma\<close> (\<open>sys_mmap\<close>, \<open>sys_munmap\<close> of HW3's \<open>sysfile.c\<close>, the page fault in \<open>trap.c\<close>) and \<open>Mmap\<close>: the invariant of the regions, the outcomes of the calls. A region is
    given up only by a call whose range is all of it (\<open>munmap_in_parts\<close>).
  \<^item> \<open>Descriptors\<close> (HW3's \<open>sysfile.c\<close>: \<open>argfd\<close>, \<open>fdalloc\<close>, \<open>dup\<close>, \<open>read\<close>, \<open>write\<close>, \<open>close\<close>, \<open>fstat\<close>, \<open>pipe\<close>; \<open>procdump\<close>) and \<open>File_Refs\<close>: the reference
    counts of open files are, in all reachable states, the descriptors and mapped regions of all processes.
  \<^item> \<open>Trap\<close> (\<open>trap.c\<close>) and \<open>Trap_Inv\<close>: a trap is a sequence of steps of the abstract process machine; page faults; the way back to user space.
  \<^item> \<open>Game\<close> (\<open>hw2.cpp\<close>) and \<open>Game_Inv\<close>: the interleavings of the threads as a step relation; the map stays intact, shards are counted, a finished game ends. \<open>Game_Term\<close>
    (\<open>kbhit\<close>, the modes that \<open>main\<close> sets): every poll takes the oldest key that is typed, loses none and leaves the terminal as it found it.
  \<^item> \<open>Pstree\<close> (\<open>pstree.c\<close>) with \<open>Pstree_Read\<close> (what is read is what \<open>/proc\<close> holds), \<open>Pstree_Build\<close> (the tree is the parent relation, sorted) and
    \<open>Pstree_Print\<close> (printing ends, and how: with one line for each leaf if the tree fits into the columns of \<open>branch_bar_recorder\<close>).
  \<^item> \<open>Launch\<close> (\<open>program1.c\<close>, \<open>program2.c\<close>): statuses of \<open>wait(2)\<close>, what the programs report about each, with the
    names of \<open>signal(7)\<close>. \<open>Launch_Tests\<close>: the programs they
    start (\<open>abort.c\<close>, \<open>alarm.c\<close>, ..., \<open>test.c\<close>) as lists of calls, and what \<open>program1\<close> and \<open>program2\<close> print on each, end to end.
\<close>

text \<open>
  \<^bold>\<open>Bounds and termination.\<close> The recursions of the model end by themselves: \<open>follow\<close> (at most ten links), the loop of \<open>namex\<close> (the path gets shorter),
  the scans of tables and directories (the rest gets shorter), the loops of \<open>readi\<close> and \<open>writei\<close> (every round moves at least one byte). Fuel is used once,
  in \<open>print_process_tree\<close>, which follows pointers: \<open>None\<close> means that it was used up, and \<open>pstree_terminates\<close> shows that it is not when it exceeds the rank of
  the first process by two, that is, when no process is its own ancestor; the same theorem says when the end is an overflow of an array, which is a value of its own (\<open>Undefined\<close>). In the game the threads make at most 28 steps after its end. The searches of
  \<open>balloc\<close> and \<open>ialloc\<close> are over the sizes in the superblock. Signed overflow of \<open>nextpid\<close> is \<open>Undefined\<close>.

  \<^bold>\<open>What is not modelled, and why.\<close>
  \<^item> Not under \<open>src/\<close>, hence parameters: \<open>bio.c\<close>, \<open>log.c\<close>, \<open>file.c\<close>, \<open>pipe.c\<close>, \<open>exec.c\<close>, \<open>vm.c\<close>, \<open>kalloc.c\<close>, \<open>syscall.c\<close>, \<open>plic.c\<close>, \<open>uart.c\<close>, \<open>virtio_disk.c\<close>, the assembly, the
    C library beyond what is written out, and the kernel functions that \<open>program2\<close> calls.
  \<^item> Concurrency: the file system runs one operation at a time (its locks are state, and one that is held stops an operation); in the kernel the sections under
    \<open>p->lock\<close>, \<open>wait_lock\<close> and the lock of the inode table are atomic and everything else interleaves, except that the loops of \<open>fork\<close> that
    copy and those of \<open>exit\<close> that close the files of a process are one step each (\<open>exit\<close> is two: before and under \<open>wait_lock\<close>); in the game the sections under
    \<open>map_mutex\<close> are atomic and so is each unlocked read of the status.
  \<^item> Reference counts of inodes are unbounded integers; the counters of \<open>balloc\<close> and \<open>ialloc\<close> (\<open>int\<close>s) are natural numbers, which differs from the code for sizes of
    \<open>2^31\<close> and more in the superblock; \<open>atoi\<close> and \<open>%d\<close> do not overflow.
  \<^item> Messages of the kernel other than those of \<open>procdump\<close>; \<open>trapinit\<close> and \<open>trapinithart\<close>, which set a lock and a register; delays.
  \<^item> Of \<open>HW3/source/sysfile.c\<close>, \<open>link\<close>, \<open>unlink\<close>, \<open>create\<close>, \<open>mkdir\<close>, \<open>mknod\<close>, \<open>chdir\<close> and \<open>exec\<close>: the same text as in HW4, and modelled from there.
    The generated \<open>program2.mod.c\<close>.

  \<^bold>\<open>What the proofs brought to light\<close> stands beside the code as lemmas: \<open>mmap_can_overlap\<close>, \<open>munmap_in_parts\<close> and \<open>fault_not_rounded\<close> (\<open>Mmap\<close>), \<open>usertrap_page_fault\<close>
  (\<open>Trap_Inv\<close>: a wild access of a user program is a panic), \<open>kill_zero_marks_unused\<close> and \<open>allocproc_keeps_killed\<close> (\<open>Proc_Ops\<close>),
  \<open>wrapped_part_misses\<close> and \<open>collect_overrides\<close> (\<open>Game_Inv\<close>), \<open>name_with_space\<close> (\<open>Pstree_Read\<close>), \<open>cmdline_mode_undefined\<close> and
  \<open>compaction_skips\<close> (\<open>Pstree_Print\<close>), \<open>program2_reports\<close> (\<open>Launch\<close>).

  \<^bold>\<open>Where it can grow.\<close> Crash safety of the transactions needs a model of the log; the content of directories along whole sequences of calls (a tree of
  directories as the abstract state of \<open>Sysfile\<close>) is the next abstraction; and the layout that \<open>pstree\<close> prints with compaction has no specification yet.
\<close>

end
